(* ===== verification/Go_Prelude.thy ===== *)
theory Go_Prelude
  imports Main "HOL-Library.Word" "HOL-Library.Char_ord" "HOL-Library.Sublist"
    "HOL-Library.Monad_Syntax"
begin

text \<open>
  What the other theories share. The Go types the program uses and the part of the Go standard
  library that its own code calls directly:
  \<^item> \<open>int64\<close> values are \<^typ>\<open>int\<close> with the wrap-around written out by \<open>i64\<close>;
  \<^item> a \<open>byte\<close> is a \<^typ>\<open>char\<close> (both have 256 values), so \<open>string\<close> and \<open>[]byte\<close> are both
    \<^typ>\<open>string\<close>;
  \<^item> \<open>time.Time\<close> and \<open>time.Duration\<close> are nanosecond counts, with the saturation of \<open>Time.Sub\<close>;
  \<^item> slicing and indexing return an option, \<^term>\<open>None\<close> being the run-time panic;
  \<^item> \<open>strings.Index\<close>, \<open>strings.HasPrefix\<close>, \<open>strconv.Atoi\<close> and the \<open>%d\<close> verb.
  The package gopacket is not part of the repository: a network or transport flow is a value of a
  type variable, and the methods of a flow the program calls are the fields of a record
  \<open>flow_api\<close>, a parameter of every definition that needs them.
\<close>

named_theorems go_simps \<open>rewrite rules for the Go library functions of the prelude\<close>
named_theorems inv_intros \<open>introduction rules: an operation keeps its component's invariant\<close>
named_theorems op_defs \<open>definitions of operations that are unfolded in case analyses\<close>

section \<open>Machine integers\<close>

type_synonym sequence = int
type_synonym time = int

definition i64 :: "int \<Rightarrow> int" where
  "i64 x = signed_take_bit 63 x"

definition max_int64 :: int where "max_int64 = 9223372036854775807"
definition min_int64 :: int where "min_int64 = - 9223372036854775808"

abbreviation is_i64 :: "int \<Rightarrow> bool" where
  "is_i64 x \<equiv> - (2 ^ 63) \<le> x \<and> x < 2 ^ 63"

lemma i64_id [simp]: "- (2 ^ 63) \<le> x \<Longrightarrow> x < 2 ^ 63 \<Longrightarrow> i64 x = x"
  by (simp add: i64_def signed_take_bit_int_eq_self)

lemma i64_ge: "- (2 ^ 63) \<le> i64 x"
  unfolding i64_def by (rule signed_take_bit_int_greater_eq_minus_exp)

lemma i64_less: "i64 x < 2 ^ 63"
  unfolding i64_def by (rule signed_take_bit_int_less_exp)

lemma take_bit_i64: "take_bit 32 (i64 x) = take_bit 32 x"
  by (simp add: i64_def take_bit_signed_take_bit)

text \<open>Go's integer division truncates towards zero.\<close>

definition go_div :: "int \<Rightarrow> int \<Rightarrow> int" where
  "go_div a b = sgn a * sgn b * (\<bar>a\<bar> div \<bar>b\<bar>)"

lemma go_div_nonneg: "0 \<le> a \<Longrightarrow> 0 < b \<Longrightarrow> go_div a b = a div b"
  by (cases "a = 0") (auto simp: go_div_def sgn_if)

lemma go_div_neg: "a < 0 \<Longrightarrow> 0 < b \<Longrightarrow> go_div a b = - ((- a) div b)"
  by (simp add: go_div_def sgn_if)

lemma go_div_less_0_iff:
  assumes "0 < b"
  shows "go_div a b < 0 \<longleftrightarrow> a \<le> - b"
proof (cases "0 \<le> a")
  case True
  then show ?thesis using assms
    by (simp add: go_div_nonneg pos_imp_zdiv_nonneg_iff linorder_not_less)
next
  case False
  then have "go_div a b = - ((- a) div b)" using assms by (simp add: go_div_neg)
  moreover have "0 < (- a) div b \<longleftrightarrow> b \<le> - a"
    using assms by (simp add: pos_imp_zdiv_pos_iff)
  ultimately show ?thesis by auto
qed

section \<open>Times\<close>

text \<open>\<open>Time.Sub\<close> saturates at the bounds of a Duration instead of wrapping.\<close>

definition time_Sub :: "time \<Rightarrow> time \<Rightarrow> int" where
  "time_Sub t u = max min_int64 (min max_int64 (t - u))"

definition time_Before :: "time \<Rightarrow> time \<Rightarrow> bool" where
  "time_Before t u \<longleftrightarrow> t < u"

lemma time_Sub_bounds: "min_int64 \<le> time_Sub t u" "time_Sub t u \<le> max_int64"
  by (simp_all add: time_Sub_def min_int64_def max_int64_def)

section \<open>Slices and strings\<close>

lemma bind_not_None:
  "m \<noteq> None \<Longrightarrow> (\<And>x. m = Some x \<Longrightarrow> f x \<noteq> None) \<Longrightarrow> Option.bind m f \<noteq> None"
  by (cases m) auto

definition go_slice :: "'a list \<Rightarrow> int \<Rightarrow> int \<Rightarrow> 'a list option" where
  "go_slice xs i j =
     (if 0 \<le> i \<and> i \<le> j \<and> j \<le> int (length xs)
      then Some (take (nat (j - i)) (drop (nat i) xs)) else None)"

definition go_from :: "'a list \<Rightarrow> int \<Rightarrow> 'a list option" where
  "go_from xs i = go_slice xs i (int (length xs))"

lemma go_slice_0: "0 \<le> j \<Longrightarrow> j \<le> int (length xs) \<Longrightarrow> go_slice xs 0 j = Some (take (nat j) xs)"
  by (simp add: go_slice_def)

lemma go_from_Some: "0 \<le> i \<Longrightarrow> i \<le> int (length xs) \<Longrightarrow> go_from xs i = Some (drop (nat i) xs)"
  by (simp add: go_from_def go_slice_def)

text \<open>\<open>strings.Index\<close>: the offset of the first occurrence, or \<open>-1\<close>.\<close>

fun str_Index :: "string \<Rightarrow> string \<Rightarrow> int" where
  "str_Index [] sub = (if sub = [] then 0 else - 1)"
| "str_Index (c # s) sub =
     (if prefix sub (c # s) then 0
      else (let r = str_Index s sub in if r < 0 then - 1 else r + 1))"

definition str_HasPrefix :: "string \<Rightarrow> string \<Rightarrow> bool" where
  "str_HasPrefix s p \<longleftrightarrow> prefix p s"

lemma str_Index_char:
  "str_Index s [c] = (if c \<in> set s then int (length (takeWhile (\<lambda>x. x \<noteq> c) s)) else - 1)"
  by (induction s) (auto simp: Let_def)

lemma str_Index_char_neg [go_simps]: "str_Index s [c] < 0 \<longleftrightarrow> c \<notin> set s"
  by (simp add: str_Index_char)

lemma str_Index_char_ge: "- 1 \<le> str_Index s [c]"
  by (simp add: str_Index_char)

lemma str_Index_char_less:
  assumes "0 \<le> str_Index s [c]"
  shows "str_Index s [c] < int (length s)"
proof -
  have "c \<in> set s" using assms by (auto simp: str_Index_char split: if_splits)
  then have "length (takeWhile (\<lambda>x. x \<noteq> c) s) < length s"
    by (induction s) auto
  with \<open>c \<in> set s\<close> show ?thesis by (simp add: str_Index_char)
qed

lemma str_Index_char_append [go_simps]:
  "c \<notin> set a \<Longrightarrow> str_Index (a @ c # b) [c] = int (length a)"
  by (induction a) (auto simp: Let_def)

section \<open>Decimal numbers\<close>

definition is_digit :: "char \<Rightarrow> bool" where
  "is_digit c \<longleftrightarrow> CHR ''0'' \<le> c \<and> c \<le> CHR ''9''"

definition digit_val :: "char \<Rightarrow> int" where
  "digit_val c = int (of_char c) - 48"

fun digits_val :: "int \<Rightarrow> string \<Rightarrow> int option" where
  "digits_val acc [] = Some acc"
| "digits_val acc (c # cs) =
     (if is_digit c then digits_val (10 * acc + digit_val c) cs else None)"

text \<open>
  \<open>strconv.Atoi\<close>: an optional sign, at least one digit, nothing else, and a value that fits in 64
  bits; \<^term>\<open>None\<close> is a non-nil error.
\<close>

definition atoi_unsigned :: "string \<Rightarrow> int option" where
  "atoi_unsigned s = (if s = [] then None else digits_val 0 s)"

definition strconv_Atoi :: "string \<Rightarrow> int option" where
  "strconv_Atoi s =
     (case s of
        [] \<Rightarrow> None
      | c # cs \<Rightarrow>
          (let neg = (c = CHR ''-'');
               body = (if c = CHR ''-'' \<or> c = CHR ''+'' then cs else s)
           in case atoi_unsigned body of
                None \<Rightarrow> None
              | Some n \<Rightarrow>
                  (if neg then (if n \<le> 2 ^ 63 then Some (- n) else None)
                   else (if n < 2 ^ 63 then Some n else None))))"

lemma char_le_iff: "c \<le> d \<longleftrightarrow> (of_char c :: nat) \<le> of_char d"
  by (simp add: less_eq_char_def)

lemma is_digit_iff: "is_digit c \<longleftrightarrow> 48 \<le> (of_char c :: nat) \<and> (of_char c :: nat) \<le> 57"
  by (simp add: is_digit_def char_le_iff)

lemma digit_val_bounds: "is_digit c \<Longrightarrow> 0 \<le> digit_val c \<and> digit_val c \<le> 9"
  unfolding is_digit_iff digit_val_def by linarith

lemma digits_val_nonneg: "0 \<le> acc \<Longrightarrow> digits_val acc s = Some n \<Longrightarrow> acc \<le> n"
proof (induction s arbitrary: acc)
  case (Cons c cs)
  then have d: "is_digit c" and rec: "digits_val (10 * acc + digit_val c) cs = Some n"
    by (auto split: if_splits)
  have "10 * acc + digit_val c \<le> n"
    using Cons.IH [OF _ rec] Cons.prems(1) digit_val_bounds [OF d] by simp
  then show ?case using Cons.prems(1) digit_val_bounds [OF d] by simp
qed simp

text \<open>The \<open>%d\<close> verb.\<close>

fun dec_nat :: "nat \<Rightarrow> string" where
  "dec_nat n = (if n < 10 then [char_of (n + 48)]
                else dec_nat (n div 10) @ [char_of (n mod 10 + 48)])"

declare dec_nat.simps [simp del]

definition dec_int :: "int \<Rightarrow> string" where
  "dec_int x = (if x < 0 then CHR ''-'' # dec_nat (nat (- x)) else dec_nat (nat x))"

lemma of_char_char_of_small: "n < 10 \<Longrightarrow> (of_char (char_of (n + 48 :: nat)) :: nat) = n + 48"
  by simp

lemma digit_chars:
  "char_of (48::nat) = CHR ''0''" "char_of (49::nat) = CHR ''1''" "char_of (50::nat) = CHR ''2''"
  "char_of (51::nat) = CHR ''3''" "char_of (52::nat) = CHR ''4''" "char_of (53::nat) = CHR ''5''"
  "char_of (54::nat) = CHR ''6''" "char_of (55::nat) = CHR ''7''" "char_of (56::nat) = CHR ''8''"
  "char_of (57::nat) = CHR ''9''"
  by (simp_all add: char_of_def bit_0)

lemma is_digit_char_of: "n < 10 \<Longrightarrow> is_digit (char_of (n + 48 :: nat))"
  unfolding is_digit_iff by (simp add: of_char_char_of_small)

lemma digit_val_char_of: "n < 10 \<Longrightarrow> digit_val (char_of (n + 48 :: nat)) = int n"
  unfolding digit_val_def by (simp add: of_char_char_of_small)

lemma digits_val_append:
  "digits_val acc (a @ b) = (case digits_val acc a of None \<Rightarrow> None | Some n \<Rightarrow> digits_val n b)"
  by (induction a arbitrary: acc) auto

lemma dec_nat_digits: "\<forall>c \<in> set (dec_nat n). is_digit c"
  by (induction n rule: dec_nat.induct)
    (subst dec_nat.simps, simp add: is_digit_char_of)

lemma dec_nat_nonempty [simp]: "dec_nat n \<noteq> []"
  by (subst dec_nat.simps) simp

lemma digits_val_dec_nat [go_simps]: "digits_val 0 (dec_nat n) = Some (int n)"
proof (induction n rule: dec_nat.induct)
  case (1 n)
  show ?case
  proof (cases "n < 10")
    case True
    then show ?thesis
      by (subst dec_nat.simps) (simp add: is_digit_char_of digit_val_char_of)
  next
    case False
    have "n mod 10 < 10" by simp
    moreover have "10 * int (n div 10) + int (n mod 10) = int n"
      by presburger
    ultimately show ?thesis using "1.IH" False
      by (subst dec_nat.simps)
        (simp add: digits_val_append is_digit_char_of digit_val_char_of)
  qed
qed

lemma digit_not_sign: "is_digit c \<Longrightarrow> c \<noteq> CHR ''-'' \<and> c \<noteq> CHR ''+''"
  by (auto simp: is_digit_iff)

lemma atoi_dec_nat [go_simps]:
  assumes "int n < 2 ^ 63"
  shows "strconv_Atoi (dec_nat n) = Some (int n)"
proof -
  obtain c cs where eq: "dec_nat n = c # cs"
    by (meson dec_nat_nonempty neq_Nil_conv)
  then have "is_digit c" using dec_nat_digits [of n] by simp
  then have "c \<noteq> CHR ''-''" "c \<noteq> CHR ''+''" using digit_not_sign by blast+
  then show ?thesis
    using eq assms digits_val_dec_nat [of n] by (simp add: strconv_Atoi_def atoi_unsigned_def)
qed

section \<open>Flows of the package gopacket\<close>

record 'f flow_api =
  fl_Reverse :: "'f \<Rightarrow> 'f"
  fl_String :: "'f \<Rightarrow> string"
  fl_Src :: "'f \<Rightarrow> string"
  fl_Dst :: "'f \<Rightarrow> string"

text \<open>
  What the documentation of gopacket promises of a flow: reversing it twice gives it back, and the
  reversed flow is the one whose source and destination are exchanged.
\<close>

definition flow_laws :: "'f flow_api \<Rightarrow> bool" where
  "flow_laws G \<longleftrightarrow>
     (\<forall>f. fl_Reverse G (fl_Reverse G f) = f) \<and>
     (\<forall>f. fl_Src G (fl_Reverse G f) = fl_Dst G f) \<and>
     (\<forall>f. fl_Dst G (fl_Reverse G f) = fl_Src G f)"

lemma flow_laws_Reverse: "flow_laws G \<Longrightarrow> fl_Reverse G (fl_Reverse G f) = f"
  by (simp add: flow_laws_def)

text \<open>An instance of the parameter, used where a statement is evaluated on a concrete input: a flow is
  the pair of its end points.\<close>

definition pair_flow :: "(string \<times> string) flow_api" where
  "pair_flow =
     \<lparr>fl_Reverse = (\<lambda>(a, b). (b, a)), fl_String = (\<lambda>(a, b). a @ ''->'' @ b),
      fl_Src = fst, fl_Dst = snd\<rparr>"

lemma pair_flow_laws: "flow_laws pair_flow"
  by (auto simp: flow_laws_def pair_flow_def)

end
