(* ===== verification/Stats.thy ===== *)
theory Stats
  imports Go_Prelude
begin

text \<open>
  The file \<open>stat/stat.go\<close>: the counters of an interface, which the connections of its streams add to
  atomically, the reporter that prints their increase at every tick, and the text of a byte count
  (a float32 division printed with two decimals, modelled in exact integer arithmetic).
\<close>

section \<open>Counters\<close>

record Stats =
  sname :: string
  sinterval :: int
  TXBytes :: int
  RXBytes :: int
  TXPackets :: int
  RXPackets :: int

definition NewStats :: "string \<Rightarrow> int \<Rightarrow> Stats" where
  "NewStats iface interval =
     \<lparr>sname = iface, sinterval = interval, TXBytes = 0, RXBytes = 0, TXPackets = 0, RXPackets = 0\<rparr>"

definition AddTXBytes :: "Stats \<Rightarrow> int \<Rightarrow> Stats" where
  "AddTXBytes s n = s\<lparr>TXBytes := i64 (TXBytes s + n)\<rparr>"

definition AddRXBytes :: "Stats \<Rightarrow> int \<Rightarrow> Stats" where
  "AddRXBytes s n = s\<lparr>RXBytes := i64 (RXBytes s + n)\<rparr>"

definition AddTXPackets :: "Stats \<Rightarrow> int \<Rightarrow> Stats" where
  "AddTXPackets s n = s\<lparr>TXPackets := i64 (TXPackets s + n)\<rparr>"

definition AddRXPackets :: "Stats \<Rightarrow> int \<Rightarrow> Stats" where
  "AddRXPackets s n = s\<lparr>RXPackets := i64 (RXPackets s + n)\<rparr>"

definition LoadTXBytes :: "Stats \<Rightarrow> int" where "LoadTXBytes s = TXBytes s"
definition LoadRXBytes :: "Stats \<Rightarrow> int" where "LoadRXBytes s = RXBytes s"
definition LoadTXPackets :: "Stats \<Rightarrow> int" where "LoadTXPackets s = TXPackets s"
definition LoadRXPackets :: "Stats \<Rightarrow> int" where "LoadRXPackets s = RXPackets s"

section \<open>The text of a byte count\<close>

definition round_half_even :: "int \<Rightarrow> int \<Rightarrow> int" where
  "round_half_even n d =
     (let q = n div d; r = n mod d
      in if 2 * r > d \<or> (2 * r = d \<and> odd q) then q + 1 else q)"

text \<open>The conversion of a positive integer to float32: 24 significant bits, halves to even.\<close>

fun bit_len :: "nat \<Rightarrow> nat" where
  "bit_len n = (if n = 0 then 0 else Suc (bit_len (n div 2)))"

declare bit_len.simps [simp del]

definition float32 :: "int \<Rightarrow> int" where
  "float32 x =
     (let e = bit_len (nat x) - 24 in round_half_even x (2 ^ e) * 2 ^ e)"

definition two_digits :: "int \<Rightarrow> string" where
  "two_digits n = [char_of (nat (n div 10) + 48), char_of (nat (n mod 10) + 48)]"

text \<open>\<open>%.2f\<close> of the quotient of a nonnegative float32 by a power of two.\<close>

definition fmt_2f :: "int \<Rightarrow> int \<Rightarrow> string" where
  "fmt_2f x d =
     (let t = round_half_even (100 * x) d
      in dec_int (t div 100) @ ''.'' @ two_digits (t mod 100))"

definition bytes :: "int \<Rightarrow> string" where
  "bytes n =
     (if n < 5 * 1024 then dec_int n @ ''B''
      else if n \<ge> 5 * 1024 \<and> n < 5 * 1024 * 1024 then fmt_2f (float32 n) 1024 @ ''KB''
      else if n \<ge> 5 * 1024 * 1024 \<and> n < 5 * 1024 * 1024 * 1024
      then fmt_2f (float32 n) (1024 * 1024) @ ''MB''
      else fmt_2f (float32 n) (1024 * 1024 * 1024) @ ''GB'')"

section \<open>The reporter\<close>

record stat_report =
  incTxBytes :: int
  incTxPackets :: int
  incRxBytes :: int
  incRxPackets :: int

record stat_old =
  oldtxBytes :: int
  oldtxPackets :: int
  oldrxBytes :: int
  oldrxPackets :: int

definition stat_start :: stat_old where
  "stat_start = \<lparr>oldtxBytes = 0, oldtxPackets = 0, oldrxBytes = 0, oldrxPackets = 0\<rparr>"

definition Stat_tick :: "Stats \<Rightarrow> stat_old \<Rightarrow> stat_report \<times> stat_old" where
  "Stat_tick s old =
     (let txB = LoadTXBytes s; txP = LoadTXPackets s; rxB = LoadRXBytes s; rxP = LoadRXPackets s
      in (\<lparr>incTxBytes = i64 (txB - oldtxBytes old), incTxPackets = i64 (txP - oldtxPackets old),
           incRxBytes = i64 (rxB - oldrxBytes old), incRxPackets = i64 (rxP - oldrxPackets old)\<rparr>,
          \<lparr>oldtxBytes = txB, oldtxPackets = txP, oldrxBytes = rxB, oldrxPackets = rxP\<rparr>))"

definition report_text :: "Stats \<Rightarrow> stat_report \<Rightarrow> string" where
  "report_text s r =
     ''['' @ sname s @ '' STAT] increase TxBytes['' @ bytes (incTxBytes r) @ ''], TxPackets['' @
     dec_int (incTxPackets r) @ ''], RxBytes['' @ bytes (incRxBytes r) @ ''], RxPackets['' @
     dec_int (incRxPackets r) @ '']''"

datatype stat_op = AddTX int int | AddRX int int | Tick

text \<open>Adds and ticks in the order they happen.\<close>

fun stat_run :: "Stats \<Rightarrow> stat_old \<Rightarrow> stat_op list \<Rightarrow> Stats \<times> stat_old \<times> stat_report list" where
  "stat_run s old [] = (s, old, [])"
| "stat_run s old (AddTX b p # xs) = stat_run (AddTXPackets (AddTXBytes s b) p) old xs"
| "stat_run s old (AddRX b p # xs) = stat_run (AddRXPackets (AddRXBytes s b) p) old xs"
| "stat_run s old (Tick # xs) =
     (let (r, old') = Stat_tick s old; (s', old'', rs) = stat_run s old' xs in (s', old'', r # rs))"

text \<open>What the connections have added to a counter.\<close>

fun added :: "(stat_op \<Rightarrow> int) \<Rightarrow> stat_op list \<Rightarrow> int" where
  "added f [] = 0"
| "added f (x # xs) = f x + added f xs"

fun tx_bytes_of :: "stat_op \<Rightarrow> int" where
  "tx_bytes_of (AddTX b p) = b"
| "tx_bytes_of _ = 0"

fun tx_packets_of :: "stat_op \<Rightarrow> int" where
  "tx_packets_of (AddTX b p) = p"
| "tx_packets_of _ = 0"

fun rx_bytes_of :: "stat_op \<Rightarrow> int" where
  "rx_bytes_of (AddRX b p) = b"
| "rx_bytes_of _ = 0"

fun rx_packets_of :: "stat_op \<Rightarrow> int" where
  "rx_packets_of (AddRX b p) = p"
| "rx_packets_of _ = 0"

text \<open>A counter, what the reporter remembers of it and its field of a report.\<close>

record counter_view =
  cv_now :: "Stats \<Rightarrow> int"
  cv_old :: "stat_old \<Rightarrow> int"
  cv_inc :: "stat_report \<Rightarrow> int"
  cv_op :: "stat_op \<Rightarrow> int"

definition counter_views :: "counter_view list" where
  "counter_views =
     [\<lparr>cv_now = TXBytes, cv_old = oldtxBytes, cv_inc = incTxBytes, cv_op = tx_bytes_of\<rparr>,
      \<lparr>cv_now = TXPackets, cv_old = oldtxPackets, cv_inc = incTxPackets, cv_op = tx_packets_of\<rparr>,
      \<lparr>cv_now = RXBytes, cv_old = oldrxBytes, cv_inc = incRxBytes, cv_op = rx_bytes_of\<rparr>,
      \<lparr>cv_now = RXPackets, cv_old = oldrxPackets, cv_inc = incRxPackets, cv_op = rx_packets_of\<rparr>]"

section \<open>Lemmas\<close>

lemma i64_cong: "i64 x mod 2 ^ 64 = x mod 2 ^ 64"
proof -
  have "take_bit 64 (i64 x) = take_bit 64 x" by (simp add: i64_def take_bit_signed_take_bit)
  then show ?thesis by (simp add: take_bit_eq_mod)
qed

lemma i64_add_cong: "(i64 x + y) mod 2 ^ 64 = (x + y) mod 2 ^ 64"
  by (metis i64_cong mod_add_left_eq)

lemma i64_add_cong2: "(y + i64 x) mod 2 ^ 64 = (y + x) mod 2 ^ 64"
  by (metis i64_cong mod_add_right_eq)

lemma mod_chain:
  assumes "(a + x) mod m = b mod (m::int)" "(b + y) mod m = c mod m"
  shows "(a + (x + y)) mod m = c mod m"
  by (metis assms add.assoc mod_add_left_eq)

text \<open>One step: a counter grows by what the operation adds, and a tick reports all that was
  unreported.\<close>

definition unreported :: "counter_view \<Rightarrow> Stats \<Rightarrow> stat_old \<Rightarrow> int" where
  "unreported v s old = cv_now v s - cv_old v old"

lemma AddTX_unreported:
  "v \<in> set counter_views \<Longrightarrow>
   (unreported v s old + cv_op v (AddTX b p)) mod 2 ^ 64 =
   unreported v (AddTXPackets (AddTXBytes s b) p) old mod 2 ^ 64"
  using i64_add_cong2 [of "- oldtxBytes old" "TXBytes s + b"]
    i64_add_cong2 [of "- oldtxPackets old" "TXPackets s + p"]
  by (auto simp: counter_views_def unreported_def AddTXPackets_def AddTXBytes_def algebra_simps)

lemma AddRX_unreported:
  "v \<in> set counter_views \<Longrightarrow>
   (unreported v s old + cv_op v (AddRX b p)) mod 2 ^ 64 =
   unreported v (AddRXPackets (AddRXBytes s b) p) old mod 2 ^ 64"
  using i64_add_cong2 [of "- oldrxBytes old" "RXBytes s + b"]
    i64_add_cong2 [of "- oldrxPackets old" "RXPackets s + p"]
  by (auto simp: counter_views_def unreported_def AddRXPackets_def AddRXBytes_def algebra_simps)

lemma Stat_tick_unreported:
  "v \<in> set counter_views \<Longrightarrow> Stat_tick s old = (r, old') \<Longrightarrow>
   cv_op v Tick = 0 \<and> cv_inc v r = i64 (unreported v s old) \<and> unreported v s old' = 0"
  by (auto simp: counter_views_def unreported_def Stat_tick_def Let_def LoadTXBytes_def
      LoadRXBytes_def LoadTXPackets_def LoadRXPackets_def)

lemma stat_run_conserves:
  "v \<in> set counter_views \<Longrightarrow> stat_run s old xs = (s', old', rs) \<Longrightarrow>
   (unreported v s old + added (cv_op v) xs) mod 2 ^ 64 =
   (sum_list (map (cv_inc v) rs) + unreported v s' old') mod 2 ^ 64"
proof (induction s old xs arbitrary: s' old' rs rule: stat_run.induct)
  case (1 s old)
  then show ?case by simp
next
  case (2 s old b p xs)
  then have IH: "(unreported v (AddTXPackets (AddTXBytes s b) p) old + added (cv_op v) xs) mod 2 ^ 64
    = (sum_list (map (cv_inc v) rs) + unreported v s' old') mod 2 ^ 64" by simp
  show ?case unfolding added.simps
    by (rule mod_chain [OF AddTX_unreported [OF 2(2)] IH])
next
  case (3 s old b p xs)
  then have IH: "(unreported v (AddRXPackets (AddRXBytes s b) p) old + added (cv_op v) xs) mod 2 ^ 64
    = (sum_list (map (cv_inc v) rs) + unreported v s' old') mod 2 ^ 64" by simp
  show ?case unfolding added.simps
    by (rule mod_chain [OF AddRX_unreported [OF 3(2)] IH])
next
  case (4 s old xs)
  obtain r o1 where t: "Stat_tick s old = (r, o1)" by (meson surj_pair)
  obtain s1 o2 rs1 where run: "stat_run s o1 xs = (s1, o2, rs1)" by (metis prod_cases3)
  have res: "s' = s1" "old' = o2" "rs = r # rs1" using 4 t run by simp_all
  note tick = Stat_tick_unreported [OF "4.prems"(1) t]
  have IH: "(added (cv_op v) xs) mod 2 ^ 64 =
      (sum_list (map (cv_inc v) rs1) + unreported v s1 o2) mod 2 ^ 64"
    using "4.IH" [OF t [symmetric] refl "4.prems"(1) run] tick by simp
  have "(unreported v s old + added (cv_op v) xs) mod 2 ^ 64 =
      (i64 (unreported v s old) + (sum_list (map (cv_inc v) rs1) + unreported v s1 o2)) mod 2 ^ 64"
    by (metis IH i64_add_cong mod_add_right_eq)
  then show ?case using res tick by (simp add: add.assoc)
qed

lemma round_half_even_error:
  assumes "0 < d"
  shows "\<bar>2 * (round_half_even n d * d - n)\<bar> \<le> d"
proof -
  have n: "n div d * d = n - n mod d" by (simp add: minus_mod_eq_div_mult)
  have r: "0 \<le> n mod d" "n mod d < d" using assms by simp_all
  show ?thesis
  proof (cases "2 * (n mod d) > d \<or> (2 * (n mod d) = d \<and> odd (n div d))")
    case True
    then have "round_half_even n d * d = n - n mod d + d"
      using n by (simp add: round_half_even_def Let_def distrib_right)
    moreover have "d \<le> 2 * (n mod d)" using True by auto
    ultimately show ?thesis using r by simp
  next
    case False
    then have "round_half_even n d = n div d" by (auto simp: round_half_even_def Let_def)
    then have "round_half_even n d * d = n - n mod d" using n by simp
    moreover have "2 * (n mod d) \<le> d" using False by linarith
    ultimately show ?thesis using r by simp
  qed
qed

lemma bit_len_le: "n < 2 ^ k \<Longrightarrow> bit_len n \<le> k"
proof (induction n arbitrary: k rule: bit_len.induct)
  case (1 n)
  show ?case
  proof (cases "n = 0")
    case True
    then show ?thesis by (subst bit_len.simps) simp
  next
    case False
    then obtain k' where k: "k = Suc k'" using "1.prems" by (cases k) auto
    then have "n div 2 < 2 ^ k'" using "1.prems" by auto
    then show ?thesis using "1.IH" [OF False, of k'] False k by (subst bit_len.simps) simp
  qed
qed

lemma float32_exact: "0 \<le> x \<Longrightarrow> x < 2 ^ 24 \<Longrightarrow> float32 x = x"
proof -
  assume x: "0 \<le> x" "x < 2 ^ 24"
  then have "nat x < 2 ^ 24" by simp
  then have "bit_len (nat x) \<le> 24" by (rule bit_len_le)
  then show ?thesis by (simp add: float32_def round_half_even_def)
qed

lemma float32_error:
  assumes "0 \<le> x" "x < 2 ^ (24 + k)"
  shows "\<bar>2 * (float32 x - x)\<bar> \<le> 2 ^ k"
proof -
  let ?e = "bit_len (nat x) - 24"
  have "nat x < 2 ^ (24 + k)" using assms by (simp add: nat_less_iff)
  then have e: "?e \<le> k" using bit_len_le [of "nat x" "24 + k"] by simp
  have "\<bar>2 * (float32 x - x)\<bar> \<le> 2 ^ ?e"
    using round_half_even_error [of "2 ^ ?e" x] by (simp add: float32_def Let_def)
  also have "(2::int) ^ ?e \<le> 2 ^ k" using e by (rule power_increasing) simp
  finally show ?thesis .
qed

lemma hundredths_close:
  assumes "0 < d" "\<bar>2 * (y - x)\<bar> \<le> (e :: int)" "100 * e \<le> d"
  shows "\<bar>round_half_even (100 * y) d * d - 100 * x\<bar> \<le> d"
proof -
  define z where "z = round_half_even (100 * y) d * d"
  have "\<bar>2 * (z - 100 * y)\<bar> \<le> d"
    using round_half_even_error [OF assms(1), of "100 * y"] by (simp only: z_def)
  then have "\<bar>z - 100 * x\<bar> \<le> d" using assms(2,3) by (simp add: abs_le_iff)
  then show ?thesis by (simp only: z_def)
qed

section \<open>Properties\<close>

text \<open>Nothing that is counted is lost or reported twice: for each of the four counters of a new
  interface and every interleaving of adds and ticks, what the connections added equals, modulo the
  width of the counters, the sum of the increases the reporter printed plus what it has not reported
  yet; right after a tick nothing is unreported.\<close>

theorem reports_conserve_counts:
  "\<forall>v \<in> set counter_views.
     case stat_run (NewStats iface n) stat_start ops of
       (s, old, rs) \<Rightarrow>
         added (cv_op v) ops mod 2 ^ 64 =
           (sum_list (map (cv_inc v) rs) + unreported v s old) mod 2 ^ 64 \<and>
         unreported v s (snd (Stat_tick s old)) = 0"
proof
  fix v assume v: "v \<in> set counter_views"
  obtain s old rs where run: "stat_run (NewStats iface n) stat_start ops = (s, old, rs)"
    by (metis prod_cases3)
  have "unreported v (NewStats iface n) stat_start = 0"
    using v by (auto simp: counter_views_def unreported_def NewStats_def stat_start_def)
  then show "case stat_run (NewStats iface n) stat_start ops of (s, old, rs) \<Rightarrow>
      added (cv_op v) ops mod 2 ^ 64 =
        (sum_list (map (cv_inc v) rs) + unreported v s old) mod 2 ^ 64 \<and>
      unreported v s (snd (Stat_tick s old)) = 0"
    using stat_run_conserves [OF v run] Stat_tick_unreported [OF v, of s old] run
    by (cases "Stat_tick s old") simp
qed

lemma reports_conserve_counts_witness:
  "case stat_run (NewStats ''eth0'' 5) stat_start [AddTX 1500 1, Tick, AddTX 40 1] of
     (s, old, rs) \<Rightarrow> added tx_bytes_of [AddTX 1500 1, Tick, AddTX 40 1] mod 2 ^ 64 =
       (sum_list (map incTxBytes rs) + (TXBytes s - oldtxBytes old)) mod 2 ^ 64"
  using reports_conserve_counts [where iface = "''eth0''" and n = 5 and
      ops = "[AddTX 1500 1, Tick, AddTX 40 1]"]
  by (auto simp: counter_views_def unreported_def simp del: stat_run.simps split: prod.splits)

text \<open>The text of a byte count below five thousand is the exact number; above that and below five
  gigabytes it is a number of kilobytes or megabytes with two decimals, within a hundredth of the true
  quotient although the division is done on a float32.\<close>

theorem bytes_accurate:
  assumes "0 \<le> n" "n < 5 * 1024 * 1024 * 1024"
  shows "if n < 5 * 1024 then bytes n = dec_int n @ ''B''
         else \<exists>t unit name. (unit, name) \<in> {(1024, ''KB''), (1048576, ''MB'')} \<and>
           bytes n = (dec_int (t div 100) @ ''.'' @ two_digits (t mod 100)) @ name \<and>
           \<bar>t * unit - 100 * n\<bar> \<le> unit"
proof (cases "n < 5 * 1024")
  case True
  then show ?thesis by (simp add: bytes_def)
next
  case big: False
  show ?thesis
  proof (cases "n < 5 * 1024 * 1024")
    case True
    have "float32 n = n" using True assms(1) by (intro float32_exact) simp_all
    then have "\<bar>round_half_even (100 * float32 n) 1024 * 1024 - 100 * n\<bar> \<le> 1024"
      by (intro hundredths_close [where e = 0]) simp_all
    moreover have "bytes n = fmt_2f (float32 n) 1024 @ ''KB''"
      using True big by (simp add: bytes_def)
    ultimately have "(1024, ''KB'') \<in> {(1024, ''KB''), (1048576, ''MB'')} \<and>
      bytes n = (dec_int (round_half_even (100 * float32 n) 1024 div 100) @ ''.'' @
        two_digits (round_half_even (100 * float32 n) 1024 mod 100)) @ ''KB'' \<and>
      \<bar>round_half_even (100 * float32 n) 1024 * 1024 - 100 * n\<bar> \<le> 1024"
      by (simp only: fmt_2f_def Let_def) simp
    then show ?thesis using big unfolding if_not_P [OF big] by blast
  next
    case False
    have "\<bar>2 * (float32 n - n)\<bar> \<le> 2 ^ 9" using assms by (intro float32_error) simp_all
    then have "\<bar>round_half_even (100 * float32 n) 1048576 * 1048576 - 100 * n\<bar> \<le> 1048576"
      by (intro hundredths_close [where e = "2 ^ 9"]) simp_all
    moreover have "bytes n = fmt_2f (float32 n) 1048576 @ ''MB''"
      using False big assms by (simp add: bytes_def)
    ultimately have "(1048576, ''MB'') \<in> {(1024, ''KB''), (1048576, ''MB'')} \<and>
      bytes n = (dec_int (round_half_even (100 * float32 n) 1048576 div 100) @ ''.'' @
        two_digits (round_half_even (100 * float32 n) 1048576 mod 100)) @ ''MB'' \<and>
      \<bar>round_half_even (100 * float32 n) 1048576 * 1048576 - 100 * n\<bar> \<le> 1048576"
      by (simp only: fmt_2f_def Let_def) simp
    then show ?thesis unfolding if_not_P [OF big] by blast
  qed
qed

lemma bytes_accurate_witness:
  "\<exists>t unit name. (unit, name) \<in> {(1024, ''KB''), (1048576, ''MB'')} \<and>
     bytes 6000 = (dec_int (t div 100) @ ''.'' @ two_digits (t mod 100)) @ name \<and>
     \<bar>t * unit - 100 * 6000\<bar> \<le> unit"
  using bytes_accurate [of 6000] by simp

end
