(* ===== verification/Sequence.thy ===== *)
theory Sequence
  imports Go_Prelude
begin

text \<open>
  The file \<open>tcp/tcp.go\<close>: TCP sequence numbers (\<open>Sequence\<close>, a 64-bit integer that holds a 32-bit
  value), their wrap-around difference and addition, and the record \<open>Reassembly\<close> that a
  connection hands to its statistics.
\<close>

unbundle bit_operations_syntax

definition uint32Max :: int where
  "uint32Max = 4294967295"

definition Difference :: "sequence \<Rightarrow> sequence \<Rightarrow> int" where
  "Difference s t =
     (let (s', t') =
        (if s > uint32Max - uint32Max div 4 \<and> t < uint32Max div 4 then (s, i64 (t + uint32Max))
         else if t > uint32Max - uint32Max div 4 \<and> s < uint32Max div 4 then (i64 (s + uint32Max), t)
         else (s, t))
      in i64 (t' - s'))"

definition Add :: "sequence \<Rightarrow> int \<Rightarrow> sequence" where
  "Add s t = i64 (s + t) AND uint32Max"

record reassembly =
  ra_Seq :: sequence
  ra_Ack :: sequence
  ra_Bytes :: string
  ra_Seen :: time
  ra_End :: bool

definition seq_range :: "sequence \<Rightarrow> bool" where
  "seq_range s \<longleftrightarrow> 0 \<le> s \<and> s \<le> uint32Max"

lemma Add_mod: "Add s t = (s + t) mod 2 ^ 32"
proof -
  have "uint32Max = mask 32" by (simp add: uint32Max_def mask_eq_exp_minus_1)
  then have "Add s t = take_bit 32 (i64 (s + t))" by (simp add: Add_def take_bit_eq_mask)
  also have "\<dots> = (s + t) mod 2 ^ 32" unfolding take_bit_i64 by (simp add: take_bit_eq_mod)
  finally show ?thesis .
qed

lemma Add_range: "seq_range (Add s t)"
  by (simp add: Add_mod seq_range_def uint32Max_def)

lemma Difference_unfold:
  assumes "seq_range s" "seq_range t"
  shows "Difference s t =
    (if s > 3221225472 \<and> t < 1073741823 then t + uint32Max - s
     else if t > 3221225472 \<and> s < 1073741823 then t - (s + uint32Max) else t - s)"
  using assms by (auto simp: Difference_def seq_range_def uint32Max_def)

text \<open>adding up to a quarter of the sequence space to a sequence number and asking for the difference
  gives the amount added back when the sum does not roll over, and one less than that when it does:
  the roll-over adjustment adds \<open>0xFFFFFFFF\<close> where the sequence space has \<open>0x100000000\<close> values.\<close>

theorem Difference_Add:
  assumes "seq_range s" "0 \<le> d" "d < 2 ^ 30 - 1"
  shows "Difference s (Add s d) = (if s + d \<le> uint32Max then d else d - 1)"
proof (cases "s + d \<le> uint32Max")
  case True
  then have add: "Add s d = s + d"
    using assms by (simp add: Add_mod seq_range_def uint32Max_def)
  then have "seq_range (Add s d)" using True assms by (simp add: seq_range_def)
  then show ?thesis using True add assms
    by (auto simp: Difference_unfold seq_range_def uint32Max_def)
next
  case False
  have "(s + d) mod 2 ^ 32 = (s + d - 2 ^ 32) mod 2 ^ 32"
    using minus_mod_self2 [of "s + d" "2 ^ 32"] by (rule sym)
  also have "\<dots> = s + d - 2 ^ 32"
    using False assms by (intro mod_pos_pos_trivial) (simp_all add: seq_range_def uint32Max_def)
  finally have add: "Add s d = s + d - 2 ^ 32" by (simp add: Add_mod)
  have "seq_range (Add s d)" by (rule Add_range)
  then show ?thesis using False add assms
    by (auto simp: Difference_unfold seq_range_def uint32Max_def)
qed

theorem Difference_Add_witness:
  "Difference 4294967295 (Add 4294967295 1) = 0"
  using Difference_Add [of 4294967295 1] by (simp add: seq_range_def uint32Max_def)

text \<open>on sequence numbers in range the difference is antisymmetric, so the two ends of a
  comparison always agree on the order.\<close>

theorem Difference_antisym:
  assumes "seq_range s" "seq_range t"
  shows "Difference t s = - Difference s t"
  using assms by (auto simp: Difference_unfold)

theorem Difference_antisym_witness: "Difference 5 4294967290 = - Difference 4294967290 5"
  using Difference_antisym [of 4294967290 5] by (simp add: seq_range_def uint32Max_def)

end
