(* ===== verification/RTT_Cache.thy ===== *)
theory RTT_Cache
  imports Sequence
begin

text \<open>
  The file \<open>common/cache/cache.go\<close>: the cache of the segments a client has sent and the server has
  not yet acknowledged. It is a map from keys to the elements of a doubly linked list
  (\<open>container/list\<close>). An element is a pointer: here a number, stored in the list together with the
  value it points to, so that the map and the list share elements as they do in the code. The clock
  reading of \<open>time.Now()\<close> is an argument.
\<close>

section \<open>Keys, values and the cache\<close>

record 'f RTTCacheKey =
  Net :: 'f
  Transport :: 'f
  Seq :: sequence

record 'f RTTCacheValue =
  vkey :: "'f RTTCacheKey"
  Seen :: time

type_synonym 'f element = "nat \<times> 'f RTTCacheValue"

record 'f RTTCache =
  cclosed :: bool
  Duration :: int
  cache :: "'f RTTCacheKey \<rightharpoonup> nat"
  linkedList :: "'f element list"
  fresh :: nat

definition err_closed :: string where
  "err_closed = ''RTTCache is closed''"

definition key_String :: "'f flow_api \<Rightarrow> 'f RTTCacheKey \<Rightarrow> string" where
  "key_String G k =
     fl_Src G (Net k) @ '':'' @ fl_Src G (Transport k) @ ''->'' @
     fl_Dst G (Net k) @ '':'' @ fl_Dst G (Transport k) @ '' ['' @ dec_int (Seq k) @ '']''"

definition sameKey :: "'f flow_api \<Rightarrow> 'f RTTCacheKey \<Rightarrow> 'f RTTCacheKey \<Rightarrow> bool" where
  "sameKey G k rckey \<longleftrightarrow>
     fl_String G (Net k) = fl_String G (Net rckey) \<and>
     fl_String G (Transport k) = fl_String G (Transport rckey)"

definition NewRTTCache :: "int \<Rightarrow> 'f RTTCache" where
  "NewRTTCache d =
     \<lparr>cclosed = False, Duration = d, cache = Map.empty, linkedList = [], fresh = 0\<rparr>"

section \<open>The linked list\<close>

definition list_Front :: "'f element list \<Rightarrow> nat option" where
  "list_Front l = (case l of [] \<Rightarrow> None | x # _ \<Rightarrow> Some (fst x))"

definition list_Back :: "'f element list \<Rightarrow> nat option" where
  "list_Back l = (if l = [] then None else Some (fst (last l)))"

fun elem_Next :: "'f element list \<Rightarrow> nat \<Rightarrow> nat option" where
  "elem_Next [] e = None"
| "elem_Next (x # l) e = (if fst x = e then list_Front l else elem_Next l e)"

definition elem_Prev :: "'f element list \<Rightarrow> nat \<Rightarrow> nat option" where
  "elem_Prev l e = elem_Next (rev l) e"

definition list_Remove :: "'f element list \<Rightarrow> nat \<Rightarrow> 'f element list" where
  "list_Remove l e = filter (\<lambda>x. fst x \<noteq> e) l"

definition list_MoveToFront :: "'f element list \<Rightarrow> nat \<Rightarrow> 'f element list" where
  "list_MoveToFront l e = filter (\<lambda>x. fst x = e) l @ list_Remove l e"

definition set_Seen :: "'f element list \<Rightarrow> nat \<Rightarrow> time \<Rightarrow> 'f element list" where
  "set_Seen l e ts = map (\<lambda>(i, v). (i, if i = e then v\<lparr>Seen := ts\<rparr> else v)) l"

section \<open>Operations\<close>

text \<open>\<open>removeElement\<close>: unlink the element, forget its key, return the element that followed it.\<close>

definition removeElement :: "'f RTTCache \<Rightarrow> nat \<Rightarrow> 'f RTTCache \<times> nat option" where
  "removeElement c e =
     (let eNext = elem_Next (linkedList c) e
      in case map_of (linkedList c) e of
           None \<Rightarrow> (c, eNext)
         | Some kv \<Rightarrow>
             (c\<lparr>linkedList := list_Remove (linkedList c) e,
                cache := (cache c)(vkey kv := None)\<rparr>, eNext))"

definition Length :: "'f RTTCache \<Rightarrow> nat" where
  "Length c = length (linkedList c)"

definition Len :: "'f RTTCache \<Rightarrow> nat" where
  "Len c = length (linkedList c)"

definition Push :: "'f RTTCache \<Rightarrow> 'f RTTCacheKey \<Rightarrow> time \<Rightarrow> 'f RTTCache \<times> (string + bool)" where
  "Push c k ts =
     (if cclosed c then (c, Inl err_closed)
      else case cache c k of
        Some e \<Rightarrow>
          (c\<lparr>linkedList := set_Seen (list_MoveToFront (linkedList c) e) e ts\<rparr>, Inr True)
      | None \<Rightarrow>
          (c\<lparr>linkedList := linkedList c @ [(fresh c, \<lparr>vkey = k, Seen = ts\<rparr>)],
             cache := (cache c)(k \<mapsto> fresh c), fresh := Suc (fresh c)\<rparr>, Inr False))"

text \<open>
  The loop of \<open>Pull\<close> after a hit: remove the element and everything before it, walking the
  \<open>Prev\<close> pointers. An element that is not in the list has no predecessor, so the walk ends.
\<close>

function removeBackwards :: "'f RTTCache \<Rightarrow> nat option \<Rightarrow> 'f RTTCache" where
  "removeBackwards c None = c"
| "removeBackwards c (Some e) =
     (let tmp = elem_Prev (linkedList c) e
      in removeBackwards (fst (removeElement c e)) tmp)"
  by pat_completeness auto

lemma elem_Next_absent: "e \<notin> fst ` set l \<Longrightarrow> elem_Next l e = None"
  by (induction l) auto

lemma elem_Prev_absent: "e \<notin> fst ` set l \<Longrightarrow> elem_Prev l e = None"
  by (simp add: elem_Prev_def elem_Next_absent)

lemma length_list_Remove_less: "e \<in> fst ` set l \<Longrightarrow> length (list_Remove l e) < length l"
  unfolding list_Remove_def by (auto intro: length_filter_less)

lemma length_removeElement_less:
  assumes "e \<in> fst ` set (linkedList c)"
  shows "length (linkedList (fst (removeElement c e))) < length (linkedList c)"
proof -
  obtain kv where "map_of (linkedList c) e = Some kv"
    using assms by (metis map_of_eq_None_iff not_None_eq)
  then show ?thesis using assms by (simp add: removeElement_def Let_def length_list_Remove_less)
qed

termination removeBackwards
proof (relation "measure (\<lambda>(c, e). case e of None \<Rightarrow> 0 | Some _ \<Rightarrow> Suc (length (linkedList c)))", simp)
  fix c :: "'f RTTCache" and e tmp
  assume tmp: "tmp = elem_Prev (linkedList c) e"
  show "((fst (removeElement c e), tmp), c, Some e) \<in>
    measure (\<lambda>(c, e). case e of None \<Rightarrow> 0 | Some _ \<Rightarrow> Suc (length (linkedList c)))"
  proof (cases "e \<in> fst ` set (linkedList c)")
    case True
    from length_removeElement_less [OF this] show ?thesis
      by (simp split: option.split)
  next
    case False
    then show ?thesis using tmp by (simp add: elem_Prev_absent)
  qed
qed

text \<open>
  The loop of \<open>Pull\<close> after a miss, over the elements still to visit: the element that follows is
  read before the current one is removed, so the walk visits the original list in order.
\<close>

fun pullScan :: "'f flow_api \<Rightarrow> 'f RTTCacheKey \<Rightarrow> 'f element list \<Rightarrow>
    'f RTTCache \<Rightarrow> 'f RTTCacheValue option \<Rightarrow> 'f RTTCache \<times> 'f RTTCacheValue option" where
  "pullScan G k [] c value = (c, value)"
| "pullScan G k ((e, tmpV) # es) c value =
     (if sameKey G (vkey tmpV) k
      then (if Seq (vkey tmpV) \<le> i64 (Seq k + 1)
            then pullScan G k es (fst (removeElement c e)) (Some tmpV)
            else (c, value))
      else pullScan G k es c value)"

definition Pull :: "'f flow_api \<Rightarrow> 'f RTTCache \<Rightarrow> 'f RTTCacheKey \<Rightarrow>
    'f RTTCache \<times> (string + 'f RTTCacheValue option)" where
  "Pull G c k =
     (if cclosed c then (c, Inl err_closed)
      else case cache c k of
        Some e \<Rightarrow>
          (removeBackwards c (Some e), Inr (map_of (linkedList c) e))
      | None \<Rightarrow>
          (let (c', value) = pullScan G k (linkedList c) c None
           in case value of
                None \<Rightarrow> (c', Inr None)
              | Some v \<Rightarrow>
                  (if Seq (vkey v) \<noteq> i64 (Seq k + 1) \<and> Seq (vkey v) \<noteq> i64 (Seq k - 1)
                   then (c', Inr None) else (c', Inr (Some v)))))"

text \<open>
  \<open>Purge\<close>: drop elements from the front while they are older than \<open>Duration\<close>. The loop does not
  advance when the map has lost the key of a listed element, so it need not end: \<^term>\<open>None\<close> is
  a loop that never returns. The \<open>i\<close>-th iteration reads the clock \<open>now i\<close>.
\<close>

partial_function (option) purgeLoop ::
    "(nat \<Rightarrow> time) \<Rightarrow> nat \<Rightarrow> nat option \<Rightarrow> 'f RTTCache \<Rightarrow> 'f RTTCache option" where
  "purgeLoop now i e c =
     (case e of
        None \<Rightarrow> Some c
      | Some e' \<Rightarrow>
          (case map_of (linkedList c) e' of
             None \<Rightarrow> Some c
           | Some v \<Rightarrow>
               (if Duration c \<noteq> 0 \<and> time_Sub (now i) (Seen v) > Duration c
                then (case cache c (vkey v) of
                        Some ele \<Rightarrow>
                          purgeLoop now (Suc i) (snd (removeElement c ele)) (fst (removeElement c ele))
                      | None \<Rightarrow> purgeLoop now (Suc i) e c)
                else Some c)))"

definition Purge :: "(nat \<Rightarrow> time) \<Rightarrow> 'f RTTCache \<Rightarrow> 'f RTTCache option" where
  "Purge now c = purgeLoop now 0 (list_Front (linkedList c)) c"

definition Remove :: "'f RTTCache \<Rightarrow> 'f RTTCacheKey \<Rightarrow> 'f RTTCache" where
  "Remove c k =
     (case cache c k of None \<Rightarrow> c | Some e \<Rightarrow> fst (removeElement c e))"

function removeForwards :: "'f RTTCache \<Rightarrow> nat option \<Rightarrow> 'f RTTCache" where
  "removeForwards c None = c"
| "removeForwards c (Some e) =
     removeForwards (fst (removeElement c e)) (snd (removeElement c e))"
  by pat_completeness auto

lemma snd_removeElement: "snd (removeElement c e) = elem_Next (linkedList c) e"
  by (simp add: removeElement_def Let_def split: option.split)

termination removeForwards
proof (relation "measure (\<lambda>(c, e). case e of None \<Rightarrow> 0 | Some _ \<Rightarrow> Suc (length (linkedList c)))", simp)
  fix c :: "'f RTTCache" and e
  show "((fst (removeElement c e), snd (removeElement c e)), c, Some e) \<in>
    measure (\<lambda>(c, e). case e of None \<Rightarrow> 0 | Some _ \<Rightarrow> Suc (length (linkedList c)))"
  proof (cases "e \<in> fst ` set (linkedList c)")
    case True
    from length_removeElement_less [OF this] show ?thesis
      by (cases "removeElement c e") (simp split: option.split)
  next
    case False
    then have "snd (removeElement c e) = None"
      by (simp add: snd_removeElement elem_Next_absent)
    then show ?thesis by (cases "removeElement c e") simp
  qed
qed

definition RemoveAll :: "'f RTTCache \<Rightarrow> 'f RTTCache" where
  "RemoveAll c = (removeForwards c (list_Front (linkedList c)))\<lparr>cclosed := True\<rparr>"

definition Reset :: "'f RTTCache \<Rightarrow> 'f RTTCache" where
  "Reset c = c\<lparr>cclosed := False\<rparr>"

definition RemoveOldest :: "'f RTTCache \<Rightarrow> 'f RTTCache" where
  "RemoveOldest c =
     (case list_Back (linkedList c) of None \<Rightarrow> c | Some e \<Rightarrow> fst (removeElement c e))"

section \<open>The invariant\<close>

text \<open>
  The map and the list agree: no element and no key is listed twice, the map sends a key to the
  listed element that carries it, and a new element differs from the listed ones.
\<close>

definition cache_inv :: "'f RTTCache \<Rightarrow> bool" where
  "cache_inv c \<longleftrightarrow>
     distinct (map fst (linkedList c)) \<and>
     distinct (map (vkey \<circ> snd) (linkedList c)) \<and>
     (\<forall>k e. cache c k = Some e \<longleftrightarrow> (\<exists>v. (e, v) \<in> set (linkedList c) \<and> vkey v = k)) \<and>
     (\<forall>x \<in> set (linkedList c). fst x < fresh c)"

text \<open>What the cache holds, oldest end first, without the pointers.\<close>

definition content :: "'f RTTCache \<Rightarrow> ('f RTTCacheKey \<times> time) list" where
  "content c = map (\<lambda>x. (vkey (snd x), Seen (snd x))) (linkedList c)"

lemma cache_inv_distinct: "cache_inv c \<Longrightarrow> distinct (map fst (linkedList c))"
  by (simp add: cache_inv_def)

lemma cache_inv_distinct_keys: "cache_inv c \<Longrightarrow> distinct (map (vkey \<circ> snd) (linkedList c))"
  by (simp add: cache_inv_def)

lemma cache_inv_fresh: "cache_inv c \<Longrightarrow> x \<in> set (linkedList c) \<Longrightarrow> fst x < fresh c"
  by (simp add: cache_inv_def)

lemma content_keys: "map fst (content c) = map (vkey \<circ> snd) (linkedList c)"
  by (simp add: content_def)

lemma cache_inv_distinct_content: "cache_inv c \<Longrightarrow> distinct (map fst (content c))"
  by (simp add: content_keys cache_inv_def)

lemma cache_Some_split:
  assumes "cache_inv c" "cache c k = Some e"
  obtains xs v ys where "linkedList c = xs @ (e, v) # ys" "vkey v = k"
proof -
  from assms obtain v where "(e, v) \<in> set (linkedList c)" "vkey v = k"
    by (auto simp: cache_inv_def)
  then show thesis using that by (metis split_list)
qed

lemma cache_inv_Some:
  "cache_inv c \<Longrightarrow> cache c k = Some e \<longleftrightarrow> (\<exists>v. (e, v) \<in> set (linkedList c) \<and> vkey v = k)"
  by (simp add: cache_inv_def)

lemma content_key_iff: "k \<in> fst ` set (content c) \<longleftrightarrow> (\<exists>e v. (e, v) \<in> set (linkedList c) \<and> vkey v = k)"
  by (force simp: content_def)

lemma cache_None_iff:
  assumes "cache_inv c"
  shows "cache c k = None \<longleftrightarrow> k \<notin> fst ` set (content c)"
proof -
  have "cache c k \<noteq> None \<longleftrightarrow> (\<exists>e v. (e, v) \<in> set (linkedList c) \<and> vkey v = k)"
    using cache_inv_Some [OF assms, of k] by auto
  then show ?thesis unfolding content_key_iff by blast
qed

lemma listed_cache:
  "cache_inv c \<Longrightarrow> linkedList c = xs @ (e, v) # ys \<Longrightarrow> cache c (vkey v) = Some e"
  by (auto simp: cache_inv_Some)

subsection \<open>Removing one element\<close>

lemma filter_fst_absent:
  "e \<notin> fst ` set l \<Longrightarrow> filter (\<lambda>x. fst x \<noteq> e) l = l"
  "e \<notin> fst ` set l \<Longrightarrow> filter (\<lambda>x. fst x = e) l = []"
  by (induction l) auto

lemma elem_Next_split:
  "e \<notin> fst ` set xs \<Longrightarrow> elem_Next (xs @ (e, v) # ys) e = list_Front ys"
  by (induction xs) auto

lemma elem_Prev_split:
  assumes "e \<notin> fst ` set ys"
  shows "elem_Prev (xs @ (e, v) # ys) e = list_Back xs"
proof -
  have "elem_Prev (xs @ (e, v) # ys) e = elem_Next (rev ys @ (e, v) # rev xs) e"
    by (simp add: elem_Prev_def)
  also have "\<dots> = list_Front (rev xs)" using assms by (intro elem_Next_split) simp
  also have "\<dots> = list_Back xs"
    by (cases xs rule: rev_cases) (simp_all add: list_Front_def list_Back_def)
  finally show ?thesis .
qed

lemma list_Remove_split:
  "e \<notin> fst ` set xs \<Longrightarrow> e \<notin> fst ` set ys \<Longrightarrow> list_Remove (xs @ (e, v) # ys) e = xs @ ys"
  by (simp add: list_Remove_def filter_fst_absent)

lemma map_of_split:
  "e \<notin> fst ` set xs \<Longrightarrow> map_of (xs @ (e, v) # ys) e = Some v"
  by (induction xs) auto

lemma split_ids:
  assumes "cache_inv c" "linkedList c = xs @ (e, v) # ys"
  shows "e \<notin> fst ` set xs" "e \<notin> fst ` set ys"
  using cache_inv_distinct [OF assms(1)] assms(2) by auto

lemma removeElement_split:
  assumes "cache_inv c" "linkedList c = xs @ (e, v) # ys"
  shows "removeElement c e =
    (c\<lparr>linkedList := xs @ ys, cache := (cache c)(vkey v := None)\<rparr>, list_Front ys)"
  using split_ids [OF assms] assms(2)
  by (simp add: removeElement_def elem_Next_split list_Remove_split map_of_split del: map_of_append)

lemma removeElement_inv [inv_intros]:
  assumes "cache_inv c" "linkedList c = xs @ (e, v) # ys"
  shows "cache_inv (c\<lparr>linkedList := xs @ ys, cache := (cache c)(vkey v := None)\<rparr>)"
proof -
  have keys: "vkey v \<notin> (vkey \<circ> snd) ` set (xs @ ys)"
    using cache_inv_distinct_keys [OF assms(1)] assms(2) by auto
  have "((cache c)(vkey v := None)) k = Some i \<longleftrightarrow> (\<exists>w. (i, w) \<in> set (xs @ ys) \<and> vkey w = k)" for k i
    using cache_inv_Some [OF assms(1), of k i] assms(2) keys by (cases "k = vkey v") force+
  moreover have "distinct (map fst (xs @ ys))" "distinct (map (vkey \<circ> snd) (xs @ ys))"
    using cache_inv_distinct [OF assms(1)] cache_inv_distinct_keys [OF assms(1)] assms(2) by auto
  moreover have "\<forall>x \<in> set (xs @ ys). fst x < fresh c"
    using cache_inv_fresh [OF assms(1)] assms(2) by auto
  ultimately show ?thesis unfolding cache_inv_def by simp
qed

lemma removeElement_cases:
  assumes "cache_inv c"
  obtains (absent) "e \<notin> fst ` set (linkedList c)" "removeElement c e = (c, None)"
  | (listed) xs v ys where "linkedList c = xs @ (e, v) # ys"
      "removeElement c e =
        (c\<lparr>linkedList := xs @ ys, cache := (cache c)(vkey v := None)\<rparr>, list_Front ys)"
proof (cases "e \<in> fst ` set (linkedList c)")
  case True
  then obtain v where "(e, v) \<in> set (linkedList c)" by auto
  then obtain xs ys where "linkedList c = xs @ (e, v) # ys" by (metis split_list)
  then show thesis using listed removeElement_split [OF assms] by blast
next
  case False
  then have "map_of (linkedList c) e = None" by (simp add: map_of_eq_None_iff)
  with False show thesis using absent by (simp add: removeElement_def elem_Next_absent)
qed

lemma removeElement_inv_any [inv_intros]:
  assumes "cache_inv c"
  shows "cache_inv (fst (removeElement c e))"
  by (rule removeElement_cases [OF assms, of e]) (simp_all add: assms removeElement_inv)

lemma removeElement_frame [simp]:
  "cclosed (fst (removeElement c e)) = cclosed c"
  "Duration (fst (removeElement c e)) = Duration c"
  by (simp_all add: removeElement_def Let_def split: option.split)

subsection \<open>The operations keep the invariant\<close>

lemma NewRTTCache_inv [inv_intros]: "cache_inv (NewRTTCache d)"
  by (simp add: cache_inv_def NewRTTCache_def)

lemma NewRTTCache_content [simp]: "content (NewRTTCache d) = []"
  by (simp add: content_def NewRTTCache_def)

lemma list_MoveToFront_split:
  "e \<notin> fst ` set xs \<Longrightarrow> e \<notin> fst ` set ys \<Longrightarrow>
   list_MoveToFront (xs @ (e, v) # ys) e = (e, v) # xs @ ys"
  by (simp add: list_MoveToFront_def list_Remove_split filter_fst_absent)

lemma set_Seen_absent: "e \<notin> fst ` set l \<Longrightarrow> set_Seen l e ts = l"
  by (induction l) (auto simp: set_Seen_def)

lemma Push_hit:
  assumes "cache_inv c" "\<not> cclosed c" "linkedList c = xs @ (e, v) # ys"
  shows "Push c (vkey v) ts =
    (c\<lparr>linkedList := (e, v\<lparr>Seen := ts\<rparr>) # xs @ ys\<rparr>, Inr True)"
proof -
  note ids = split_ids [OF assms(1,3)]
  then have "set_Seen ((e, v) # xs @ ys) e ts = (e, v\<lparr>Seen := ts\<rparr>) # xs @ ys"
    using set_Seen_absent [of e "xs @ ys" ts] by (simp add: set_Seen_def image_Un)
  then show ?thesis
    using assms ids by (simp add: Push_def listed_cache list_MoveToFront_split)
qed

lemma Push_miss:
  assumes "\<not> cclosed c" "cache c k = None"
  shows "Push c k ts =
    (c\<lparr>linkedList := linkedList c @ [(fresh c, \<lparr>vkey = k, Seen = ts\<rparr>)],
       cache := (cache c)(k \<mapsto> fresh c), fresh := Suc (fresh c)\<rparr>, Inr False)"
  using assms by (simp add: Push_def)

lemma Push_closed: "cclosed c \<Longrightarrow> Push c k ts = (c, Inl err_closed)"
  by (simp add: Push_def)

lemma Push_inv_hit:
  assumes "cache_inv c" "linkedList c = xs @ (e, v) # ys"
  shows "cache_inv (c\<lparr>linkedList := (e, v\<lparr>Seen := ts\<rparr>) # xs @ ys\<rparr>)"
proof -
  have "(\<exists>w. (i, w) \<in> set ((e, v\<lparr>Seen := ts\<rparr>) # xs @ ys) \<and> vkey w = k) \<longleftrightarrow>
        (\<exists>w. (i, w) \<in> set (linkedList c) \<and> vkey w = k)" for i k
    using assms(2) by auto
  moreover have "distinct (map fst ((e, v\<lparr>Seen := ts\<rparr>) # xs @ ys))"
    "distinct (map (vkey \<circ> snd) ((e, v\<lparr>Seen := ts\<rparr>) # xs @ ys))"
    using cache_inv_distinct [OF assms(1)] cache_inv_distinct_keys [OF assms(1)] assms(2) by auto
  moreover have "\<forall>x \<in> set ((e, v\<lparr>Seen := ts\<rparr>) # xs @ ys). fst x < fresh c"
    using cache_inv_fresh [OF assms(1)] unfolding assms(2) by fastforce
  ultimately show ?thesis using assms(1) unfolding cache_inv_def by simp
qed

lemma Push_inv_miss:
  assumes "cache_inv c" "cache c k = None"
  shows "cache_inv (c\<lparr>linkedList := linkedList c @ [(fresh c, \<lparr>vkey = k, Seen = ts\<rparr>)],
       cache := (cache c)(k \<mapsto> fresh c), fresh := Suc (fresh c)\<rparr>)"
proof -
  have new: "k \<notin> (vkey \<circ> snd) ` set (linkedList c)"
    using assms by (simp add: cache_None_iff content_def image_image)
  have ids: "fresh c \<notin> fst ` set (linkedList c)"
    using cache_inv_fresh [OF assms(1)] by fastforce
  have "((cache c)(k \<mapsto> fresh c)) k' = Some i \<longleftrightarrow>
      (\<exists>w. (i, w) \<in> set (linkedList c @ [(fresh c, \<lparr>vkey = k, Seen = ts\<rparr>)]) \<and> vkey w = k')" for k' i
    using cache_inv_Some [OF assms(1), of k' i] new by (cases "k' = k") force+
  moreover have "\<forall>x \<in> set (linkedList c @ [(fresh c, \<lparr>vkey = k, Seen = ts\<rparr>)]). fst x < Suc (fresh c)"
    using cache_inv_fresh [OF assms(1)] by (auto simp: less_Suc_eq)
  ultimately show ?thesis
    using assms(1) new ids unfolding cache_inv_def by auto
qed

lemma Push_inv [inv_intros]:
  assumes "cache_inv c"
  shows "cache_inv (fst (Push c k ts))"
proof (cases "cclosed c")
  case True
  then show ?thesis using assms by (simp add: Push_closed)
next
  case False
  show ?thesis
  proof (cases "cache c k")
    case None
    then show ?thesis using assms False by (simp add: Push_miss Push_inv_miss)
  next
    case (Some e)
    obtain xs v ys where "linkedList c = xs @ (e, v) # ys" "vkey v = k"
      using cache_Some_split [OF assms Some] .
    then show ?thesis
      using assms False Push_hit [OF assms False, of xs e v ys ts] by (auto intro: Push_inv_hit)
  qed
qed

section \<open>The operations refine operations on the content\<close>

definition spec_push :: "'k \<Rightarrow> time \<Rightarrow> ('k \<times> time) list \<Rightarrow> ('k \<times> time) list" where
  "spec_push k ts xs =
     (if k \<in> fst ` set xs then (k, ts) # filter (\<lambda>x. fst x \<noteq> k) xs else xs @ [(k, ts)])"

definition spec_after :: "'k \<Rightarrow> ('k \<times> time) list \<Rightarrow> ('k \<times> time) list" where
  "spec_after k xs = tl (dropWhile (\<lambda>x. fst x \<noteq> k) xs)"

lemma content_split:
  "linkedList c = xs @ (e, v) # ys \<Longrightarrow>
   content c = map (\<lambda>x. (vkey (snd x), Seen (snd x))) xs @ (vkey v, Seen v)
     # map (\<lambda>x. (vkey (snd x), Seen (snd x))) ys"
  by (simp add: content_def)

lemma filter_key_absent:
  "k \<notin> (vkey \<circ> snd) ` set l \<Longrightarrow>
   filter (\<lambda>x. fst x \<noteq> k) (map (\<lambda>x. (vkey (snd x), Seen (snd x))) l) =
   map (\<lambda>x. (vkey (snd x), Seen (snd x))) l"
  by (induction l) auto

lemma split_keys:
  assumes "cache_inv c" "linkedList c = xs @ (e, v) # ys"
  shows "vkey v \<notin> (vkey \<circ> snd) ` set xs" "vkey v \<notin> (vkey \<circ> snd) ` set ys"
  using cache_inv_distinct_keys [OF assms(1)] assms(2) by auto

lemma filter_content_split:
  assumes "cache_inv c" "linkedList c = xs @ (e, v) # ys"
  shows "filter (\<lambda>x. fst x \<noteq> vkey v) (content c) =
    map (\<lambda>x. (vkey (snd x), Seen (snd x))) (xs @ ys)"
  using split_keys [OF assms] by (simp add: content_split [OF assms(2)] filter_key_absent)

lemma content_Push:
  assumes "cache_inv c" "\<not> cclosed c"
  shows "content (fst (Push c k ts)) = spec_push k ts (content c)"
    and "snd (Push c k ts) = Inr (k \<in> fst ` set (content c))"
proof -
  have "content (fst (Push c k ts)) = spec_push k ts (content c) \<and>
    snd (Push c k ts) = Inr (k \<in> fst ` set (content c))"
  proof (cases "cache c k")
    case None
    then have "k \<notin> fst ` set (content c)" using assms by (simp add: cache_None_iff)
    then show ?thesis using Push_miss [OF assms(2) None, of ts]
      by (simp add: content_def spec_push_def)
  next
    case (Some e)
    obtain xs v ys where l: "linkedList c = xs @ (e, v) # ys" and k: "vkey v = k"
      using cache_Some_split [OF assms(1) Some] .
    have "k \<in> fst ` set (content c)" using k by (simp add: content_split [OF l])
    then show ?thesis
      using Push_hit [OF assms l, of ts] filter_content_split [OF assms(1) l] k
      by (simp add: spec_push_def content_def)
  qed
  then show "content (fst (Push c k ts)) = spec_push k ts (content c)"
    "snd (Push c k ts) = Inr (k \<in> fst ` set (content c))" by auto
qed

lemma Push_frame [simp]:
  "cclosed (fst (Push c k ts)) = cclosed c" "Duration (fst (Push c k ts)) = Duration c"
  by (simp_all add: Push_def split: option.split)

lemma Remove_inv [inv_intros]: "cache_inv c \<Longrightarrow> cache_inv (Remove c k)"
  by (simp add: Remove_def removeElement_inv_any split: option.split)

lemma content_Remove:
  assumes "cache_inv c"
  shows "content (Remove c k) = filter (\<lambda>x. fst x \<noteq> k) (content c)"
proof (cases "cache c k")
  case None
  then have "k \<notin> fst ` set (content c)" using assms by (simp add: cache_None_iff)
  then have "filter (\<lambda>x. fst x \<noteq> k) (content c) = content c" by (auto simp: filter_id_conv)
  then show ?thesis using None by (simp add: Remove_def)
next
  case (Some e)
  obtain xs v ys where l: "linkedList c = xs @ (e, v) # ys" and k: "vkey v = k"
    using cache_Some_split [OF assms Some] .
  then show ?thesis
    using Some removeElement_split [OF assms l] filter_content_split [OF assms l]
    by (simp add: Remove_def content_def)
qed

subsection \<open>Walking backwards after a hit\<close>

lemma removeBackwards_split:
  assumes "cache_inv c" "linkedList c = xs @ (e, v) # ys"
  shows "linkedList (removeBackwards c (Some e)) = ys \<and> cache_inv (removeBackwards c (Some e)) \<and>
    cclosed (removeBackwards c (Some e)) = cclosed c \<and>
    Duration (removeBackwards c (Some e)) = Duration c"
  using assms
proof (induction xs arbitrary: c e v rule: rev_induct)
  case Nil
  note ids = split_ids [OF Nil.prems]
  have "elem_Prev (linkedList c) e = None"
    using Nil.prems(2) elem_Prev_split [OF ids(2), of "[]"] by (simp add: list_Back_def)
  then show ?case
    using removeElement_split [OF Nil.prems] removeElement_inv [OF Nil.prems] by simp
next
  case (snoc x xs)
  obtain e' v' where x: "x = (e', v')" by (cases x)
  note ids = split_ids [OF snoc.prems]
  have prev: "elem_Prev (linkedList c) e = Some e'"
    unfolding snoc.prems(2) using elem_Prev_split [OF ids(2), of "xs @ [x]" v] x
    by (simp add: list_Back_def)
  let ?c = "c\<lparr>linkedList := (xs @ [x]) @ ys, cache := (cache c)(vkey v := None)\<rparr>"
  have rem: "removeElement c e = (?c, list_Front ys)" by (rule removeElement_split [OF snoc.prems])
  have "cache_inv ?c" by (rule removeElement_inv [OF snoc.prems])
  moreover have "linkedList ?c = xs @ (e', v') # ys" by (simp add: x)
  ultimately have "linkedList (removeBackwards ?c (Some e')) = ys \<and>
      cache_inv (removeBackwards ?c (Some e')) \<and>
      cclosed (removeBackwards ?c (Some e')) = cclosed ?c \<and>
      Duration (removeBackwards ?c (Some e')) = Duration ?c"
    by (rule snoc.IH)
  then show ?case using rem prev by (simp add: Let_def)
qed

lemma Pull_closed: "cclosed c \<Longrightarrow> Pull G c k = (c, Inl err_closed)"
  by (simp add: Pull_def)

lemma Pull_hit:
  assumes "cache_inv c" "\<not> cclosed c" "linkedList c = xs @ (e, v) # ys"
  shows "Pull G c (vkey v) = (removeBackwards c (Some e), Inr (Some v))"
  using assms split_ids [OF assms(1,3)]
  by (simp add: Pull_def listed_cache map_of_split del: map_of_append removeBackwards.simps)

lemma Pull_hit_content:
  assumes "cache_inv c" "\<not> cclosed c" "(k, ts) \<in> set (content c)"
  shows "content (fst (Pull G c k)) = spec_after k (content c)"
    and "snd (Pull G c k) = Inr (Some \<lparr>vkey = k, Seen = ts\<rparr>)"
    and "cache_inv (fst (Pull G c k))"
proof -
  obtain x where "x \<in> set (linkedList c)" "vkey (snd x) = k" "Seen (snd x) = ts"
    using assms(3) by (auto simp: content_def)
  then obtain xs e v ys where l: "linkedList c = xs @ (e, v) # ys" and k: "vkey v = k" "Seen v = ts"
    by (metis split_list prod.collapse)
  note R = removeBackwards_split [OF assms(1) l]
  note pull = Pull_hit [OF assms(1,2) l, of G, unfolded k(1)]
  have nk: "\<forall>x \<in> set (map (\<lambda>x. (vkey (snd x), Seen (snd x))) xs). fst x \<noteq> k"
    using split_keys(1) [OF assms(1) l] k(1) by force
  have "spec_after k (content c) = map (\<lambda>x. (vkey (snd x), Seen (snd x))) ys"
    unfolding content_split [OF l] spec_after_def
    using nk k(1) by (subst dropWhile_append2) auto
  then show "content (fst (Pull G c k)) = spec_after k (content c)"
    using R by (simp add: pull content_def del: removeBackwards.simps)
  show "snd (Pull G c k) = Inr (Some \<lparr>vkey = k, Seen = ts\<rparr>)" using k by (simp add: pull)
  show "cache_inv (fst (Pull G c k))" using R by (simp add: pull del: removeBackwards.simps)
qed

subsection \<open>Scanning after a miss\<close>

fun spec_keep :: "'f flow_api \<Rightarrow> 'f RTTCacheKey \<Rightarrow> ('f RTTCacheKey \<times> time) list \<Rightarrow>
    ('f RTTCacheKey \<times> time) list" where
  "spec_keep G k [] = []"
| "spec_keep G k ((k', t) # xs) =
     (if sameKey G k' k
      then (if Seq k' \<le> i64 (Seq k + 1) then spec_keep G k xs else (k', t) # xs)
      else (k', t) # spec_keep G k xs)"

fun spec_last :: "'f flow_api \<Rightarrow> 'f RTTCacheKey \<Rightarrow> ('f RTTCacheKey \<times> time) list \<Rightarrow>
    ('f RTTCacheKey \<times> time) option \<Rightarrow> ('f RTTCacheKey \<times> time) option" where
  "spec_last G k [] r = r"
| "spec_last G k ((k', t) # xs) r =
     (if sameKey G k' k
      then (if Seq k' \<le> i64 (Seq k + 1) then spec_last G k xs (Some (k', t)) else r)
      else spec_last G k xs r)"

abbreviation val_pair :: "'f RTTCacheValue \<Rightarrow> 'f RTTCacheKey \<times> time" where
  "val_pair v \<equiv> (vkey v, Seen v)"

abbreviation elems_content :: "'f element list \<Rightarrow> ('f RTTCacheKey \<times> time) list" where
  "elems_content l \<equiv> map (\<lambda>x. (vkey (snd x), Seen (snd x))) l"

lemma pullScan_spec:
  assumes "cache_inv c" "linkedList c = pre @ es"
  shows "cache_inv (fst (pullScan G k es c r)) \<and>
    content (fst (pullScan G k es c r)) = elems_content pre @ spec_keep G k (elems_content es) \<and>
    map_option val_pair (snd (pullScan G k es c r)) =
      spec_last G k (elems_content es) (map_option val_pair r) \<and>
    cclosed (fst (pullScan G k es c r)) = cclosed c \<and>
    Duration (fst (pullScan G k es c r)) = Duration c"
  using assms
proof (induction es arbitrary: c pre r)
  case Nil
  then show ?case by (simp add: content_def)
next
  case (Cons x es)
  obtain e v where x: "x = (e, v)" by (cases x)
  have split: "linkedList c = pre @ (e, v) # es" using Cons.prems(2) x by simp
  show ?case
  proof (cases "sameKey G (vkey v) k \<and> Seq (vkey v) \<le> i64 (Seq k + 1)")
    case True
    let ?c = "c\<lparr>linkedList := pre @ es, cache := (cache c)(vkey v := None)\<rparr>"
    have "removeElement c e = (?c, list_Front es)"
      by (rule removeElement_split [OF Cons.prems(1) split])
    moreover have "cache_inv ?c" by (rule removeElement_inv [OF Cons.prems(1) split])
    ultimately show ?thesis using True x Cons.IH [of ?c pre "Some v"] by simp
  next
    case False
    show ?thesis
    proof (cases "sameKey G (vkey v) k")
      case True
      with False x Cons.prems show ?thesis by (simp add: content_def)
    next
      case False
      with x Cons.prems Cons.IH [of c "pre @ [x]" r] show ?thesis by simp
    qed
  qed
qed

text \<open>The outcome of a \<open>Pull\<close> on the content: what is left, and the value found.\<close>

definition spec_pull :: "'f flow_api \<Rightarrow> 'f RTTCacheKey \<Rightarrow> ('f RTTCacheKey \<times> time) list \<Rightarrow>
    ('f RTTCacheKey \<times> time) list \<times> ('f RTTCacheKey \<times> time) option" where
  "spec_pull G k xs =
     (case map_of xs k of
        Some ts \<Rightarrow> (spec_after k xs, Some (k, ts))
      | None \<Rightarrow>
          (spec_keep G k xs,
           case spec_last G k xs None of
             None \<Rightarrow> None
           | Some (k', t) \<Rightarrow>
               (if Seq k' = i64 (Seq k + 1) \<or> Seq k' = i64 (Seq k - 1) then Some (k', t) else None)))"

lemma Pull_miss_content:
  assumes "cache_inv c" "\<not> cclosed c" "k \<notin> fst ` set (content c)"
  shows "cache_inv (fst (Pull G c k)) \<and>
    content (fst (Pull G c k)) = fst (spec_pull G k (content c)) \<and>
    (\<exists>r. snd (Pull G c k) = Inr r \<and> map_option val_pair r = snd (spec_pull G k (content c)))"
proof -
  have none: "cache c k = None" using assms by (simp add: cache_None_iff)
  have spec: "map_of (content c) k = None" using assms(3) by (simp add: map_of_eq_None_iff)
  have elems: "elems_content (linkedList c) = content c" by (simp add: content_def)
  obtain c' r where run: "pullScan G k (linkedList c) c None = (c', r)" by (meson surj_pair)
  note S = pullScan_spec [OF assms(1), of "[]" "linkedList c" G k None, simplified, unfolded run elems]
  show ?thesis
  proof (cases r)
    case None
    then show ?thesis using S none spec assms(2) run
      by (simp add: Pull_def spec_pull_def)
  next
    case (Some v)
    then have "spec_last G k (content c) None = Some (val_pair v)" using S by simp
    then show ?thesis using S Some none spec assms(2) run
      by (auto simp: Pull_def spec_pull_def)
  qed
qed

lemma content_Pull:
  assumes "cache_inv c" "\<not> cclosed c"
  shows "content (fst (Pull G c k)) = fst (spec_pull G k (content c))"
    and "\<exists>r. snd (Pull G c k) = Inr r \<and> map_option val_pair r = snd (spec_pull G k (content c))"
    and "cache_inv (fst (Pull G c k))"
proof -
  have "content (fst (Pull G c k)) = fst (spec_pull G k (content c)) \<and>
    (\<exists>r. snd (Pull G c k) = Inr r \<and> map_option val_pair r = snd (spec_pull G k (content c))) \<and>
    cache_inv (fst (Pull G c k))"
  proof (cases "map_of (content c) k")
    case None
    then have "k \<notin> fst ` set (content c)" by (simp add: map_of_eq_None_iff)
    then show ?thesis using Pull_miss_content [OF assms, of k G] by blast
  next
    case (Some ts)
    then have "(k, ts) \<in> set (content c)" by (rule map_of_SomeD)
    from Pull_hit_content [OF assms this, of G] show ?thesis
      using Some by (simp add: spec_pull_def)
  qed
  then show "content (fst (Pull G c k)) = fst (spec_pull G k (content c))"
    "\<exists>r. snd (Pull G c k) = Inr r \<and> map_option val_pair r = snd (spec_pull G k (content c))"
    "cache_inv (fst (Pull G c k))" by auto
qed

lemma Pull_inv [inv_intros]: "cache_inv c \<Longrightarrow> cache_inv (fst (Pull G c k))"
  by (cases "cclosed c") (simp_all add: Pull_closed content_Pull)

lemma removeBackwards_frame [simp]:
  "cclosed (removeBackwards c e) = cclosed c"
  "Duration (removeBackwards c e) = Duration c"
  by (induction c e rule: removeBackwards.induct) (simp_all add: Let_def)

lemma pullScan_frame [simp]:
  "cclosed (fst (pullScan G k es c r)) = cclosed c"
  "Duration (fst (pullScan G k es c r)) = Duration c"
  by (induction G k es c r rule: pullScan.induct) simp_all

lemma Pull_frame [simp]:
  "cclosed (fst (Pull G c k)) = cclosed c" "Duration (fst (Pull G c k)) = Duration c"
proof -
  have "cclosed (fst (Pull G c k)) = cclosed c \<and> Duration (fst (Pull G c k)) = Duration c"
    using pullScan_frame [of G k "linkedList c" c None]
    by (auto simp: Pull_def split: option.split prod.split simp del: removeBackwards.simps pullScan_frame)
  then show "cclosed (fst (Pull G c k)) = cclosed c" "Duration (fst (Pull G c k)) = Duration c"
    by auto
qed

subsection \<open>Purging, emptying, dropping one end\<close>

fun spec_purge :: "(nat \<Rightarrow> time) \<Rightarrow> nat \<Rightarrow> int \<Rightarrow> ('k \<times> time) list \<Rightarrow> ('k \<times> time) list" where
  "spec_purge now i d [] = []"
| "spec_purge now i d ((k, t) # xs) =
     (if d \<noteq> 0 \<and> time_Sub (now i) t > d then spec_purge now (Suc i) d xs else (k, t) # xs)"

lemma purgeLoop_spec:
  assumes "cache_inv c"
  shows "\<exists>c'. purgeLoop now i (list_Front (linkedList c)) c = Some c' \<and> cache_inv c' \<and>
    content c' = spec_purge now i (Duration c) (content c) \<and> cclosed c' = cclosed c"
  using assms
proof (induction "linkedList c" arbitrary: c i)
  case Nil
  then show ?case by (simp add: purgeLoop.simps list_Front_def content_def)
next
  case (Cons x l)
  obtain e v where x: "x = (e, v)" by (cases x)
  have split: "linkedList c = [] @ (e, v) # l" using Cons.hyps(2) x by simp
  have lookup: "cache c (vkey v) = Some e" by (rule listed_cache [OF Cons.prems split])
  let ?c = "c\<lparr>linkedList := l, cache := (cache c)(vkey v := None)\<rparr>"
  have rem: "removeElement c e = (?c, list_Front l)"
    using removeElement_split [OF Cons.prems split] by simp
  have cont: "content c = (vkey v, Seen v) # content ?c"
    by (simp add: content_def Cons.hyps(2) [symmetric] x)
  show ?case
  proof (cases "Duration c \<noteq> 0 \<and> time_Sub (now i) (Seen v) > Duration c")
    case True
    have "cache_inv ?c" using removeElement_inv [OF Cons.prems split] by simp
    then have "\<exists>c'. purgeLoop now (Suc i) (list_Front (linkedList ?c)) ?c = Some c' \<and> cache_inv c' \<and>
      content c' = spec_purge now (Suc i) (Duration ?c) (content ?c) \<and> cclosed c' = cclosed ?c"
      by (intro Cons.hyps(1)) simp_all
    moreover have "purgeLoop now i (Some e) c = purgeLoop now (Suc i) (list_Front l) ?c"
      using True lookup rem split by (simp add: purgeLoop.simps [of now i "Some e" c])
    moreover have "list_Front (linkedList c) = Some e" by (simp add: split list_Front_def)
    ultimately show ?thesis using True cont by simp
  next
    case False
    then show ?thesis
      using Cons.prems split cont by (auto simp: purgeLoop.simps list_Front_def)
  qed
qed

lemma removeForwards_spec:
  assumes "cache_inv c"
  shows "linkedList (removeForwards c (list_Front (linkedList c))) = [] \<and>
    cache_inv (removeForwards c (list_Front (linkedList c))) \<and>
    Duration (removeForwards c (list_Front (linkedList c))) = Duration c"
  using assms
proof (induction "linkedList c" arbitrary: c)
  case Nil
  then show ?case by (simp add: list_Front_def)
next
  case (Cons x l)
  obtain e v where x: "x = (e, v)" by (cases x)
  have split: "linkedList c = [] @ (e, v) # l" using Cons.hyps(2) x by simp
  let ?c = "c\<lparr>linkedList := l, cache := (cache c)(vkey v := None)\<rparr>"
  have rem: "removeElement c e = (?c, list_Front l)"
    using removeElement_split [OF Cons.prems split] by simp
  have "cache_inv ?c" using removeElement_inv [OF Cons.prems split] by simp
  then have "linkedList (removeForwards ?c (list_Front (linkedList ?c))) = [] \<and>
    cache_inv (removeForwards ?c (list_Front (linkedList ?c))) \<and>
    Duration (removeForwards ?c (list_Front (linkedList ?c))) = Duration ?c"
    by (intro Cons.hyps(1)) simp_all
  then show ?case using rem split by (simp add: list_Front_def)
qed

lemma RemoveAll_content:
  assumes "cache_inv c"
  shows "content (RemoveAll c) = []" "cclosed (RemoveAll c)" "cache_inv (RemoveAll c)"
    "Duration (RemoveAll c) = Duration c"
  using removeForwards_spec [OF assms]
  by (simp_all add: RemoveAll_def content_def cache_inv_def del: removeForwards.simps)

lemma Reset_content [simp]:
  "content (Reset c) = content c" "\<not> cclosed (Reset c)" "cache_inv (Reset c) = cache_inv c"
  "Duration (Reset c) = Duration c"
  by (simp_all add: Reset_def content_def cache_inv_def)

lemma RemoveOldest_content:
  assumes "cache_inv c"
  shows "content (RemoveOldest c) = butlast (content c)" "cache_inv (RemoveOldest c)"
    "cclosed (RemoveOldest c) = cclosed c"
proof -
  have "content (RemoveOldest c) = butlast (content c) \<and> cache_inv (RemoveOldest c) \<and>
    cclosed (RemoveOldest c) = cclosed c"
  proof (cases "linkedList c" rule: rev_cases)
    case Nil
    then show ?thesis using assms by (simp add: RemoveOldest_def list_Back_def content_def)
  next
    case (snoc l x)
    then have split: "linkedList c = l @ (fst x, snd x) # []" by simp
    show ?thesis
      using removeElement_split [OF assms split] removeElement_inv [OF assms split] snoc
      by (simp add: RemoveOldest_def list_Back_def content_def)
  qed
  then show "content (RemoveOldest c) = butlast (content c)" "cache_inv (RemoveOldest c)"
    "cclosed (RemoveOldest c) = cclosed c" by auto
qed

section \<open>The interface a stream relies on\<close>

text \<open>
  A stream pushes a key for every client segment and pulls one for every server segment, between a
  \<open>Reset\<close> and a \<open>RemoveAll\<close>. The locale states what these calls promise; it speaks of the content
  only, not of the list and the map behind it.
\<close>

datatype 'k cache_call = CallPush 'k time | CallPull 'k

fun run_calls :: "('c \<Rightarrow> 'k \<Rightarrow> time \<Rightarrow> 'c \<times> (string + bool)) \<Rightarrow>
    ('c \<Rightarrow> 'k \<Rightarrow> 'c \<times> (string + 'v option)) \<Rightarrow> 'c \<Rightarrow> 'k cache_call list \<Rightarrow> 'c \<times> 'v list" where
  "run_calls push pull c [] = (c, [])"
| "run_calls push pull c (CallPush k t # xs) = run_calls push pull (fst (push c k t)) xs"
| "run_calls push pull c (CallPull k # xs) =
     (let (c', vs) = run_calls push pull (fst (pull c k)) xs
      in (c', (case snd (pull c k) of Inr (Some v) \<Rightarrow> v # vs | _ \<Rightarrow> vs)))"

declare run_calls.simps(3) [simp del]

lemma run_calls_pull [simp]:
  "fst (run_calls push pull c (CallPull k # xs)) = fst (run_calls push pull (fst (pull c k)) xs)"
  "snd (run_calls push pull c (CallPull k # xs)) =
     (case snd (pull c k) of
        Inr (Some v) \<Rightarrow> v # snd (run_calls push pull (fst (pull c k)) xs)
      | _ \<Rightarrow> snd (run_calls push pull (fst (pull c k)) xs))"
  by (simp_all add: run_calls.simps(3) Let_def split: prod.split sum.split option.split)

fun pushes :: "'k cache_call list \<Rightarrow> ('k \<times> time) list" where
  "pushes [] = []"
| "pushes (CallPush k t # xs) = (k, t) # pushes xs"
| "pushes (CallPull k # xs) = pushes xs"

locale segment_cache =
  fixes inv :: "'c \<Rightarrow> bool"
    and closed :: "'c \<Rightarrow> bool"
    and cont :: "'c \<Rightarrow> ('k \<times> time) list"
    and val :: "'v \<Rightarrow> 'k \<times> time"
    and push :: "'c \<Rightarrow> 'k \<Rightarrow> time \<Rightarrow> 'c \<times> (string + bool)"
    and pull :: "'c \<Rightarrow> 'k \<Rightarrow> 'c \<times> (string + 'v option)"
    and reset :: "'c \<Rightarrow> 'c"
    and remove_all :: "'c \<Rightarrow> 'c"
  assumes push_inv: "inv c \<Longrightarrow> inv (fst (push c k t))"
    and push_frame: "closed (fst (push c k t)) = closed c"
    and push_cont: "inv c \<Longrightarrow> \<not> closed c \<Longrightarrow> cont (fst (push c k t)) = spec_push k t (cont c)"
    and push_result: "inv c \<Longrightarrow> \<not> closed c \<Longrightarrow> snd (push c k t) = Inr (k \<in> fst ` set (cont c))"
    and push_err: "closed c \<Longrightarrow> push c k t = (c, Inl err_closed)"
    and pull_inv: "inv c \<Longrightarrow> inv (fst (pull c k))"
    and pull_frame: "closed (fst (pull c k)) = closed c"
    and pull_err: "closed c \<Longrightarrow> pull c k = (c, Inl err_closed)"
    and pull_result: "inv c \<Longrightarrow> \<not> closed c \<Longrightarrow> \<exists>r. snd (pull c k) = Inr r"
    and pull_found: "inv c \<Longrightarrow> \<not> closed c \<Longrightarrow> (k, t) \<in> set (cont c) \<Longrightarrow>
      \<exists>v. snd (pull c k) = Inr (Some v) \<and> val v = (k, t)"
    and pull_subset: "inv c \<Longrightarrow> set (cont (fst (pull c k))) \<subseteq> set (cont c)"
    and pull_length: "inv c \<Longrightarrow> length (cont (fst (pull c k))) \<le> length (cont c)"
    and pull_consumes: "inv c \<Longrightarrow> snd (pull c k) = Inr (Some v) \<Longrightarrow>
      val v \<in> set (cont c) \<and> length (cont (fst (pull c k))) < length (cont c)"
    and remove_all: "inv c \<Longrightarrow> inv (remove_all c) \<and> closed (remove_all c) \<and> cont (remove_all c) = []"
    and reset: "inv c \<Longrightarrow> inv (reset c) \<and> \<not> closed (reset c) \<and> cont (reset c) = cont c"
begin

lemma run_inv: "inv c \<Longrightarrow> inv (fst (run_calls push pull c xs))"
proof (induction xs arbitrary: c)
  case (Cons x xs)
  then show ?case by (cases x) (simp_all add: push_inv pull_inv)
qed simp

lemma run_closed: "closed (fst (run_calls push pull c xs)) = closed c"
proof (induction xs arbitrary: c)
  case (Cons x xs)
  then show ?case by (cases x) (simp_all add: push_frame pull_frame)
qed simp

lemma length_spec_push: "length (spec_push k t xs) \<le> Suc (length xs)"
  by (simp add: spec_push_def)

lemma push_length: "inv c \<Longrightarrow> length (cont (fst (push c k t))) \<le> Suc (length (cont c))"
  by (cases "closed c") (simp_all add: push_err push_cont length_spec_push)

text \<open>Every value a pull returns was pushed, and no push is returned twice: the values returned
  and the entries still cached never outnumber the entries there at the start and the pushes.\<close>

lemma run_count:
  "inv c \<Longrightarrow> length (snd (run_calls push pull c xs)) + length (cont (fst (run_calls push pull c xs)))
    \<le> length (cont c) + length (pushes xs)"
proof (induction xs arbitrary: c)
  case Nil
  then show ?case by simp
next
  case (Cons x xs)
  show ?case
  proof (cases x)
    case (CallPush k t)
    from Cons.IH [OF push_inv [OF Cons.prems], of k t] push_length [OF Cons.prems, of k t]
    show ?thesis by (simp add: CallPush)
  next
    case (CallPull k)
    show ?thesis
      using Cons.IH [OF pull_inv [OF Cons.prems], of k] pull_length [OF Cons.prems, of k]
        pull_consumes [OF Cons.prems, of k]
      by (fastforce simp: CallPull split: sum.split option.split)
  qed
qed

lemma mem_spec_push: "x \<in> set (spec_push k t xs) \<Longrightarrow> x = (k, t) \<or> x \<in> set xs"
  by (auto simp: spec_push_def split: if_splits)

lemma push_subset: "inv c \<Longrightarrow> set (cont (fst (push c k t))) \<subseteq> insert (k, t) (set (cont c))"
  by (cases "closed c") (auto simp: push_err push_cont dest: mem_spec_push)

lemma run_sound:
  "inv c \<Longrightarrow> v \<in> set (snd (run_calls push pull c xs)) \<Longrightarrow>
    val v \<in> set (cont c) \<union> set (pushes xs)"
proof (induction xs arbitrary: c)
  case Nil
  then show ?case by simp
next
  case (Cons x xs)
  show ?case
  proof (cases x)
    case (CallPush k t)
    have "val v \<in> set (cont (fst (push c k t))) \<union> set (pushes xs)"
      using Cons.IH [OF push_inv [OF Cons.prems(1), of k t]] Cons.prems(2) by (simp add: CallPush)
    then show ?thesis using push_subset [OF Cons.prems(1), of k t] by (auto simp: CallPush)
  next
    case (CallPull k)
    have "v \<in> set (snd (run_calls push pull (fst (pull c k)) xs)) \<or> snd (pull c k) = Inr (Some v)"
      using Cons.prems(2)
      by (auto simp: CallPull split: sum.splits option.splits)
    then show ?thesis
    proof
      assume "v \<in> set (snd (run_calls push pull (fst (pull c k)) xs))"
      then have "val v \<in> set (cont (fst (pull c k))) \<union> set (pushes xs)"
        by (rule Cons.IH [OF pull_inv [OF Cons.prems(1)]])
      then show ?thesis using pull_subset [OF Cons.prems(1), of k] by (auto simp: CallPull)
    next
      assume "snd (pull c k) = Inr (Some v)"
      then show ?thesis using pull_consumes [OF Cons.prems(1)] by blast
    qed
  qed
qed

text \<open>A pushed key stays until it is pulled: other pushes do not evict it.\<close>

lemma keep_pushed:
  "inv c \<Longrightarrow> \<not> closed c \<Longrightarrow> (k, t) \<in> set (cont c) \<Longrightarrow> k \<noteq> k' \<Longrightarrow>
   (k, t) \<in> set (cont (fst (push c k' t')))"
  by (auto simp: push_cont spec_push_def)

lemma keep_pushes:
  "inv c \<Longrightarrow> \<not> closed c \<Longrightarrow> (k, t) \<in> set (cont c) \<Longrightarrow> k \<notin> fst ` set ps \<Longrightarrow>
   (k, t) \<in> set (cont (fst (run_calls push pull c (map (\<lambda>p. CallPush (fst p) (snd p)) ps))))"
  by (induction ps arbitrary: c) (simp_all add: push_inv push_frame keep_pushed)

lemma push_then_pull:
  assumes "inv c" "\<not> closed c" "k \<notin> fst ` set ps"
  shows "\<exists>v. snd (pull (fst (run_calls push pull (fst (push c k t))
      (map (\<lambda>p. CallPush (fst p) (snd p)) ps))) k) = Inr (Some v) \<and> val v = (k, t)"
proof -
  have "(k, t) \<in> set (cont (fst (push c k t)))"
    using assms by (simp add: push_cont spec_push_def)
  then show ?thesis
    using assms by (intro pull_found run_inv keep_pushes push_inv) (simp_all add: run_closed push_frame)
qed

end

lemma spec_keep_subset: "set (spec_keep G k xs) \<subseteq> set xs"
  by (induction G k xs rule: spec_keep.induct) auto

lemma spec_keep_length: "length (spec_keep G k xs) \<le> length xs"
  by (induction G k xs rule: spec_keep.induct) auto

lemma spec_last_consumes:
  "spec_last G k xs r = Some p \<Longrightarrow>
   p \<in> set xs \<and> length (spec_keep G k xs) < length xs \<or> r = Some p"
proof (induction G k xs r rule: spec_last.induct)
  case (2 G k k' t xs r)
  then show ?case using spec_keep_length [of G k xs] by (auto split: if_splits)
qed simp

lemma spec_after_subset: "set (spec_after k xs) \<subseteq> set xs"
proof
  fix x
  assume "x \<in> set (spec_after k xs)"
  then have "x \<in> set (dropWhile (\<lambda>x. fst x \<noteq> k) xs)"
    by (cases "dropWhile (\<lambda>x. fst x \<noteq> k) xs") (simp_all add: spec_after_def)
  then show "x \<in> set xs" by (rule set_dropWhileD)
qed

lemma spec_after_length: "length (spec_after k xs) \<le> length xs"
  using length_dropWhile_le [of "\<lambda>x. fst x \<noteq> k" xs] by (simp add: spec_after_def)

lemma spec_after_length_less: "k \<in> fst ` set xs \<Longrightarrow> length (spec_after k xs) < length xs"
proof -
  assume "k \<in> fst ` set xs"
  then have "xs \<noteq> []" by auto
  then show ?thesis
    using length_dropWhile_le [of "\<lambda>x. fst x \<noteq> k" xs] by (cases xs) (auto simp: spec_after_def)
qed

lemma spec_pull_shrinks:
  "set (fst (spec_pull G k xs)) \<subseteq> set xs" "length (fst (spec_pull G k xs)) \<le> length xs"
  by (auto simp: spec_pull_def spec_keep_length spec_after_length split: option.split
      dest: spec_keep_subset [THEN subsetD] spec_after_subset [THEN subsetD])

lemma spec_pull_consumes:
  assumes "snd (spec_pull G k xs) = Some p"
  shows "p \<in> set xs \<and> length (fst (spec_pull G k xs)) < length xs"
proof (cases "map_of xs k")
  case None
  then have "spec_last G k xs None = Some p"
    using assms by (auto simp: spec_pull_def split: option.splits if_splits)
  then show ?thesis using None spec_last_consumes [of G k xs None p] by (simp add: spec_pull_def)
next
  case (Some ts)
  then have "(k, ts) \<in> set xs" by (rule map_of_SomeD)
  then show ?thesis using Some assms spec_after_length_less [of k xs]
    by (force simp: spec_pull_def)
qed

lemma Pull_consumes:
  assumes "cache_inv c" "snd (Pull G c k) = Inr (Some v)"
  shows "val_pair v \<in> set (content c) \<and> length (content (fst (Pull G c k))) < length (content c)"
proof (cases "cclosed c")
  case True
  then show ?thesis using assms(2) by (simp add: Pull_closed)
next
  case False
  then have "snd (spec_pull G k (content c)) = Some (val_pair v)"
    using content_Pull(2) [OF assms(1), of G k] assms(2) by auto
  then show ?thesis
    using spec_pull_consumes [of G k "content c"] content_Pull(1) [OF assms(1) False, of G k] by simp
qed

interpretation rtt: segment_cache cache_inv cclosed content val_pair Push "Pull G" Reset RemoveAll
  for G
proof unfold_locales
  fix c :: "'a RTTCache" and k t
  assume inv: "cache_inv c" and op: "\<not> cclosed c" and mem: "(k, t) \<in> set (content c)"
  show "\<exists>v. snd (Pull G c k) = Inr (Some v) \<and> val_pair v = (k, t)"
    using Pull_hit_content(2) [OF inv op mem] by simp
next
  fix c :: "'a RTTCache" and k
  assume inv: "cache_inv c"
  show "set (content (fst (Pull G c k))) \<subseteq> set (content c)"
    by (cases "cclosed c") (simp_all add: Pull_closed content_Pull inv spec_pull_shrinks)
  show "length (content (fst (Pull G c k))) \<le> length (content c)"
    by (cases "cclosed c") (simp_all add: Pull_closed content_Pull inv spec_pull_shrinks)
next
  fix c :: "'a RTTCache" and k
  assume "cache_inv c" "\<not> cclosed c"
  then show "\<exists>r. snd (Pull G c k) = Inr r" using content_Pull(2) by blast
qed (auto simp: Push_inv Pull_inv content_Push Push_closed Pull_closed RemoveAll_content
    dest: Pull_consumes)

section \<open>Refinement of an ordered association list\<close>

text \<open>All operations as one datatype, what a call returns, and the specification: a closed flag, a
  duration and the content as a list of pairs.\<close>

datatype 'f cache_op =
  OpPush "'f RTTCacheKey" time
| OpPull "'f RTTCacheKey"
| OpPurge "nat \<Rightarrow> time"
| OpRemove "'f RTTCacheKey"
| OpRemoveAll
| OpReset
| OpRemoveOldest
| OpLen

datatype 'f cache_out =
  OutErr string
| OutPush bool
| OutPull "('f RTTCacheKey \<times> time) option"
| OutLen nat
| OutNil

fun push_out :: "string + bool \<Rightarrow> 'f cache_out" where
  "push_out (Inl e) = OutErr e"
| "push_out (Inr b) = OutPush b"

fun pull_out :: "string + 'f RTTCacheValue option \<Rightarrow> 'f cache_out" where
  "pull_out (Inl e) = OutErr e"
| "pull_out (Inr v) = OutPull (map_option val_pair v)"

fun exec_op :: "'f flow_api \<Rightarrow> 'f RTTCache \<Rightarrow> 'f cache_op \<Rightarrow> ('f RTTCache \<times> 'f cache_out) option" where
  "exec_op G c (OpPush k t) = Some (fst (Push c k t), push_out (snd (Push c k t)))"
| "exec_op G c (OpPull k) = Some (fst (Pull G c k), pull_out (snd (Pull G c k)))"
| "exec_op G c (OpPurge now) = map_option (\<lambda>c'. (c', OutNil)) (Purge now c)"
| "exec_op G c (OpRemove k) = Some (Remove c k, OutNil)"
| "exec_op G c OpRemoveAll = Some (RemoveAll c, OutNil)"
| "exec_op G c OpReset = Some (Reset c, OutNil)"
| "exec_op G c OpRemoveOldest = Some (RemoveOldest c, OutNil)"
| "exec_op G c OpLen = Some (c, OutLen (Len c))"

fun exec_ops :: "'f flow_api \<Rightarrow> 'f RTTCache \<Rightarrow> 'f cache_op list \<Rightarrow>
    ('f RTTCache \<times> 'f cache_out list) option" where
  "exec_ops G c [] = Some (c, [])"
| "exec_ops G c (x # xs) =
     (case exec_op G c x of
        None \<Rightarrow> None
      | Some (c', r) \<Rightarrow>
          (case exec_ops G c' xs of None \<Rightarrow> None | Some (c'', rs) \<Rightarrow> Some (c'', r # rs)))"

type_synonym 'f cache_spec = "bool \<times> int \<times> ('f RTTCacheKey \<times> time) list"

definition cache_abs :: "'f RTTCache \<Rightarrow> 'f cache_spec" where
  "cache_abs c = (cclosed c, Duration c, content c)"

fun spec_op :: "'f flow_api \<Rightarrow> 'f cache_spec \<Rightarrow> 'f cache_op \<Rightarrow> 'f cache_spec \<times> 'f cache_out" where
  "spec_op G (b, d, xs) (OpPush k t) =
     (if b then ((b, d, xs), OutErr err_closed)
      else ((b, d, spec_push k t xs), OutPush (k \<in> fst ` set xs)))"
| "spec_op G (b, d, xs) (OpPull k) =
     (if b then ((b, d, xs), OutErr err_closed)
      else ((b, d, fst (spec_pull G k xs)), OutPull (snd (spec_pull G k xs))))"
| "spec_op G (b, d, xs) (OpPurge now) = ((b, d, spec_purge now 0 d xs), OutNil)"
| "spec_op G (b, d, xs) (OpRemove k) = ((b, d, filter (\<lambda>x. fst x \<noteq> k) xs), OutNil)"
| "spec_op G (b, d, xs) OpRemoveAll = ((True, d, []), OutNil)"
| "spec_op G (b, d, xs) OpReset = ((False, d, xs), OutNil)"
| "spec_op G (b, d, xs) OpRemoveOldest = ((b, d, butlast xs), OutNil)"
| "spec_op G (b, d, xs) OpLen = ((b, d, xs), OutLen (length xs))"

fun spec_ops :: "'f flow_api \<Rightarrow> 'f cache_spec \<Rightarrow> 'f cache_op list \<Rightarrow> 'f cache_spec \<times> 'f cache_out list" where
  "spec_ops G a [] = (a, [])"
| "spec_ops G a (x # xs) =
     (let (a', r) = spec_op G a x; (a'', rs) = spec_ops G a' xs in (a'', r # rs))"

lemma Remove_frame [simp]: "cclosed (Remove c k) = cclosed c" "Duration (Remove c k) = Duration c"
  by (simp_all add: Remove_def split: option.split)

lemma RemoveOldest_Duration [simp]: "Duration (RemoveOldest c) = Duration c"
  by (simp add: RemoveOldest_def split: option.split)

lemma purgeLoop_Duration:
  assumes "purgeLoop now i e c = Some c'"
  shows "Duration c' = Duration c"
proof (rule purgeLoop.raw_induct [where P = "\<lambda>now i e c c'. Duration c' = Duration c", OF _ assms])
  fix loop and now :: "nat \<Rightarrow> time" and i e and c c' :: "'a RTTCache"
  assume "\<And>now i e c c'. loop now i e c = Some c' \<Longrightarrow> Duration c' = Duration c"
    and "(case e of None \<Rightarrow> Some c | Some e' \<Rightarrow>
      (case map_of (linkedList c) e' of None \<Rightarrow> Some c | Some v \<Rightarrow>
        (if Duration c \<noteq> 0 \<and> time_Sub (now i) (Seen v) > Duration c
         then (case cache c (vkey v) of
            Some ele \<Rightarrow> loop now (Suc i) (snd (removeElement c ele)) (fst (removeElement c ele))
          | None \<Rightarrow> loop now (Suc i) e c)
         else Some c))) = Some c'"
  then show "Duration c' = Duration c"
    by (fastforce split: option.splits if_splits)
qed

lemma exec_op_spec:
  assumes "cache_inv c"
  shows "\<exists>c'. exec_op G c x = Some (c', snd (spec_op G (cache_abs c) x)) \<and>
    cache_inv c' \<and> cache_abs c' = fst (spec_op G (cache_abs c) x)"
proof (cases x)
  case (OpPush k t)
  then show ?thesis using assms
    by (cases "cclosed c") (simp_all add: cache_abs_def Push_closed content_Push Push_inv)
next
  case (OpPull k)
  then show ?thesis using assms content_Pull [OF assms, of G k]
    by (cases "cclosed c") (auto simp: cache_abs_def Pull_closed Pull_inv)
next
  case (OpPurge now)
  then show ?thesis using purgeLoop_spec [OF assms, of now 0] purgeLoop_Duration
    by (fastforce simp: cache_abs_def Purge_def)
qed (use assms in \<open>simp_all add: cache_abs_def Remove_inv content_Remove RemoveAll_content
      RemoveOldest_content Len_def, simp add: content_def\<close>)

lemma exec_ops_spec:
  "cache_inv c \<Longrightarrow> \<exists>c'. exec_ops G c xs = Some (c', snd (spec_ops G (cache_abs c) xs)) \<and>
    cache_inv c' \<and> cache_abs c' = fst (spec_ops G (cache_abs c) xs)"
proof (induction xs arbitrary: c)
  case Nil
  then show ?case by simp
next
  case (Cons x xs)
  obtain c' where step: "exec_op G c x = Some (c', snd (spec_op G (cache_abs c) x))"
      "cache_inv c'" "cache_abs c' = fst (spec_op G (cache_abs c) x)"
    using exec_op_spec [OF Cons.prems] by blast
  from Cons.IH [OF step(2)] step show ?case
    by (auto simp: Let_def split: prod.split)
qed

section \<open>Properties\<close>

text \<open>C12: whatever calls a fresh cache receives, they all return (the loop of \<open>Purge\<close> included), what
  they return and what the cache then holds is what the specification on lists of pairs gives, and the
  map and the linked list still agree.\<close>

theorem cache_refines_spec:
  "\<exists>c. exec_ops G (NewRTTCache d) xs = Some (c, snd (spec_ops G (False, d, []) xs)) \<and>
    cache_inv c \<and> cache_abs c = fst (spec_ops G (False, d, []) xs)"
proof -
  have "cache_abs (NewRTTCache d :: 'a RTTCache) = (False, d, [])"
    by (simp add: cache_abs_def) (simp add: NewRTTCache_def)
  then show ?thesis using exec_ops_spec [OF NewRTTCache_inv, of G d xs] by simp
qed

text \<open>a segment's send time survives the segments sent after it: on an open cache a \<open>Push\<close>, any
  number of pushes of other keys, and a \<open>Pull\<close> of the key return exactly the time pushed.\<close>

theorem Push_Pull_roundtrip:
  assumes "cache_inv c" "\<not> cclosed c" "k \<notin> fst ` set ps"
  shows "snd (Pull G (fst (run_calls Push (Pull G) (fst (Push c k t))
      (map (\<lambda>p. CallPush (fst p) (snd p)) ps))) k) = Inr (Some \<lparr>vkey = k, Seen = t\<rparr>)"
  using rtt.push_then_pull [OF assms, of G t] by (auto intro: RTTCacheValue.equality)

definition sample_key :: "sequence \<Rightarrow> (string \<times> string) RTTCacheKey" where
  "sample_key n = \<lparr>Net = (''1.1.1.1'', ''2.2.2.2''), Transport = (''4000'', ''80''), Seq = n\<rparr>"

lemma sample_cache_open: "\<not> cclosed (NewRTTCache d)"
  by (simp add: NewRTTCache_def)

theorem Push_Pull_roundtrip_witness:
  "snd (Pull pair_flow (fst (run_calls Push (Pull pair_flow) (fst (Push (NewRTTCache 5) (sample_key 1) 10))
      (map (\<lambda>p. CallPush (fst p) (snd p)) [(sample_key 2, 20)]))) (sample_key 1)) =
    Inr (Some \<lparr>vkey = sample_key 1, Seen = 10\<rparr>)"
  by (rule Push_Pull_roundtrip [OF NewRTTCache_inv sample_cache_open]) (simp add: sample_key_def)

text \<open>a segment is measured at most once: over any interleaving of pushes and pulls, what the pulls
  return was in the cache or pushed, and there are never more answers than entries and pushes.\<close>

theorem Pull_answers_bounded:
  assumes "cache_inv c"
  shows "length (snd (run_calls Push (Pull G) c xs)) \<le> length (content c) + length (pushes xs) \<and>
    (\<forall>v \<in> set (snd (run_calls Push (Pull G) c xs)). val_pair v \<in> set (content c) \<union> set (pushes xs))"
  using rtt.run_count [OF assms, of G xs] rtt.run_sound [OF assms, of _ G xs] by auto

theorem Pull_answers_bounded_witness:
  "length (snd (run_calls Push (Pull pair_flow) (NewRTTCache 5)
    [CallPush (sample_key 1) 1, CallPull (sample_key 1), CallPull (sample_key 1)])) \<le> 1"
  using Pull_answers_bounded [OF NewRTTCache_inv [of 5], of pair_flow
    "[CallPush (sample_key 1) 1, CallPull (sample_key 1), CallPull (sample_key 1)]"]
  by simp

text \<open>C13: a hit acknowledges cumulatively: \<open>Pull\<close> of a cached key leaves exactly the entries listed
  behind it, the key itself and everything in front of it are gone.\<close>

theorem Pull_hit_drops_prefix:
  assumes "cache_inv c" "\<not> cclosed c" "content c = xs @ (k, t) # ys"
  shows "content (fst (Pull G c k)) = ys \<and> snd (Pull G c k) = Inr (Some \<lparr>vkey = k, Seen = t\<rparr>)"
proof -
  have "k \<notin> fst ` set xs"
    using cache_inv_distinct_content [OF assms(1)] assms(3) by auto
  then have "spec_after k (content c) = ys"
    unfolding assms(3) spec_after_def by (subst dropWhile_append2) auto
  then show ?thesis using Pull_hit_content [OF assms(1,2), of k t G] assms(3) by simp
qed

definition sample_cache :: "(string \<times> string) RTTCache" where
  "sample_cache = fst (run_calls Push (Pull pair_flow) (NewRTTCache 5)
     [CallPush (sample_key 1) 10, CallPush (sample_key 2) 20, CallPush (sample_key 5) 30])"

lemma sample_cache_props:
  "cache_inv sample_cache" "\<not> cclosed sample_cache" "Duration sample_cache = 5"
  "content sample_cache = [(sample_key 1, 10), (sample_key 2, 20), (sample_key 5, 30)]"
proof -
  let ?c1 = "fst (Push (NewRTTCache 5) (sample_key 1) 10)"
  let ?c2 = "fst (Push ?c1 (sample_key 2) 20)"
  have c: "sample_cache = fst (Push ?c2 (sample_key 5) 30)" by (simp add: sample_cache_def)
  show "cache_inv sample_cache" unfolding c by (intro Push_inv NewRTTCache_inv)
  show "\<not> cclosed sample_cache" by (simp add: c sample_cache_open)
  show "Duration sample_cache = 5" by (simp add: c) (simp add: NewRTTCache_def)
  have ne: "sample_key 1 \<noteq> sample_key 2" "sample_key 1 \<noteq> sample_key 5" "sample_key 2 \<noteq> sample_key 5"
    by (simp_all add: sample_key_def)
  show "content sample_cache = [(sample_key 1, 10), (sample_key 2, 20), (sample_key 5, 30)]"
    unfolding c using ne
    by (simp add: content_Push Push_inv NewRTTCache_inv sample_cache_open spec_push_def)
qed

theorem Pull_hit_drops_prefix_witness:
  "content (fst (Pull pair_flow sample_cache (sample_key 2))) = [(sample_key 5, 30)]"
  using Pull_hit_drops_prefix [OF sample_cache_props(1,2),
      of "[(sample_key 1, 10)]" "sample_key 2" 20 "[(sample_key 5, 30)]" pair_flow]
  by (simp add: sample_cache_props)

lemma spec_keep_same:
  "\<forall>x \<in> set xs. sameKey G (fst x) k \<Longrightarrow>
   spec_keep G k xs = dropWhile (\<lambda>x. Seq (fst x) \<le> i64 (Seq k + 1)) xs"
  by (induction xs) auto

lemma spec_last_same:
  "\<forall>x \<in> set xs. sameKey G (fst x) k \<Longrightarrow>
   spec_last G k xs r =
     (let l = takeWhile (\<lambda>x. Seq (fst x) \<le> i64 (Seq k + 1)) xs in if l = [] then r else Some (last l))"
  by (induction xs arbitrary: r) (auto simp: Let_def)

text \<open>when the acknowledged key is not cached and every entry belongs to the same flow, \<open>Pull\<close>
  drops the leading entries up to one past the acknowledgement, and answers with the last of them only
  if it is off by one.\<close>

theorem Pull_cumulative_ack:
  assumes "cache_inv c" "\<not> cclosed c" "k \<notin> fst ` set (content c)"
    and "\<forall>x \<in> set (content c). sameKey G (fst x) k"
  shows "content (fst (Pull G c k)) = dropWhile (\<lambda>x. Seq (fst x) \<le> i64 (Seq k + 1)) (content c) \<and>
    (\<exists>r. snd (Pull G c k) = Inr r \<and>
      map_option val_pair r =
       (let l = takeWhile (\<lambda>x. Seq (fst x) \<le> i64 (Seq k + 1)) (content c)
        in if l \<noteq> [] \<and> (Seq (fst (last l)) = i64 (Seq k + 1) \<or> Seq (fst (last l)) = i64 (Seq k - 1))
           then Some (last l) else None))"
proof -
  have "map_of (content c) k = None" using assms(3) by (simp add: map_of_eq_None_iff)
  then have "spec_pull G k (content c) =
      (dropWhile (\<lambda>x. Seq (fst x) \<le> i64 (Seq k + 1)) (content c),
       let l = takeWhile (\<lambda>x. Seq (fst x) \<le> i64 (Seq k + 1)) (content c)
       in if l \<noteq> [] \<and> (Seq (fst (last l)) = i64 (Seq k + 1) \<or> Seq (fst (last l)) = i64 (Seq k - 1))
          then Some (last l) else None)"
    by (simp add: spec_pull_def spec_keep_same [OF assms(4)] spec_last_same [OF assms(4)] Let_def
        case_prod_unfold)
  then show ?thesis using Pull_miss_content [OF assms(1,2,3), of G] by auto
qed

theorem Pull_cumulative_ack_witness:
  "content (fst (Pull pair_flow sample_cache (sample_key 3))) = [(sample_key 5, 30)]"
  using Pull_cumulative_ack [OF sample_cache_props(1,2), of "sample_key 3" pair_flow]
  by (simp add: sample_cache_props sameKey_def sample_key_def)

text \<open>\<open>RemoveOldest\<close> removes the newest entry: right after a \<open>Push\<close> of a new key it takes
  that very key out again, since new entries are appended at the end it removes from.\<close>

theorem RemoveOldest_drops_newest:
  assumes "cache_inv c" "\<not> cclosed c" "k \<notin> fst ` set (content c)"
  shows "content (RemoveOldest (fst (Push c k t))) = content c"
  using assms by (simp add: RemoveOldest_content Push_inv content_Push spec_push_def)

theorem RemoveOldest_drops_newest_witness:
  "content (RemoveOldest (fst (Push sample_cache (sample_key 9) 40))) =
    [(sample_key 1, 10), (sample_key 2, 20), (sample_key 5, 30)]"
proof -
  have "sample_key 9 \<notin> fst ` set (content sample_cache)"
    by (simp add: sample_cache_props sample_key_def)
  from RemoveOldest_drops_newest [OF sample_cache_props(1,2) this, of 40] show ?thesis
    by (simp add: sample_cache_props)
qed

text \<open>a retransmission hides expired entries from \<open>Purge\<close>: after a \<open>Push\<close> of a key that is
  already cached, \<open>Purge\<close> removes nothing while that push is younger than the duration, however old
  the other entries are.\<close>

theorem Purge_blocked_by_repush:
  assumes "cache_inv c" "\<not> cclosed c" "k \<in> fst ` set (content c)"
    and "time_Sub (now 0) t \<le> Duration c"
  shows "\<exists>c'. Purge now (fst (Push c k t)) = Some c' \<and> content c' = content (fst (Push c k t))"
proof -
  let ?c = "fst (Push c k t)"
  have "content ?c = (k, t) # filter (\<lambda>x. fst x \<noteq> k) (content c)"
    using assms by (simp add: content_Push spec_push_def)
  then have "spec_purge now 0 (Duration ?c) (content ?c) = content ?c" using assms(4) by simp
  then show ?thesis using purgeLoop_spec [OF Push_inv [OF assms(1), of k t], of now 0]
    by (auto simp: Purge_def)
qed

theorem Purge_blocked_by_repush_witness:
  "\<exists>c'. Purge (\<lambda>_. 1000) (fst (Push sample_cache (sample_key 5) 999)) = Some c' \<and>
    content c' = [(sample_key 5, 999), (sample_key 1, 10), (sample_key 2, 20)]"
proof -
  have k: "sample_key 5 \<in> fst ` set (content sample_cache)" by (simp add: sample_cache_props)
  have "time_Sub 1000 999 \<le> Duration sample_cache"
    by (simp add: sample_cache_props time_Sub_def min_int64_def max_int64_def)
  then show ?thesis
    using Purge_blocked_by_repush [OF sample_cache_props(1,2) k, of "\<lambda>_. 1000" 999] k
    by (simp add: content_Push sample_cache_props spec_push_def) (simp add: sample_key_def)
qed

end
