(* ===== verification/Http_Assembly.thy ===== *)
theory Http_Assembly
  imports Go_Prelude
begin

text \<open>
  The package \<open>httpassembly\<close>: parsing the head of an HTTP request or response out of the payload of one
  segment (\<open>request.go\<close>, \<open>response.go\<close>), and the request/response pair that is reported
  (\<open>httpstream.go\<close>). The parsers of \<open>net/url\<close> and of MIME headers, and the text of a Duration, are
  fields of the parameter \<open>net_api\<close>; the line reader, \<open>strings.SplitN\<close> and the number parser are
  modelled. \<^term>\<open>None\<close> stands for an index or slice panic, an error value is an \<open>Inl\<close>.
\<close>

section \<open>The library below\<close>

type_synonym header = "string \<rightharpoonup> string list"

record 'u net_api =
  url_ParseRequestURI :: "string \<Rightarrow> string + 'u"
  url_Host :: "'u \<Rightarrow> string"
  url_String :: "'u \<Rightarrow> string"
  ReadMIMEHeader :: "string \<Rightarrow> header"
  duration_String :: "int \<Rightarrow> string"

datatype http_error =
  IoEOF
| IoErrUnexpectedEOF
| Malformed string string
| UrlError string

text \<open>\<open>textproto.Reader.ReadLine\<close>: the bytes up to the first newline, without it and without a carriage
  return just before it; the bytes that are left. No data at all is \<open>io.EOF\<close>.\<close>

definition strip_cr :: "string \<Rightarrow> string" where
  "strip_cr l = (if l \<noteq> [] \<and> last l = CHR 0x0D then butlast l else l)"

definition ReadLine :: "string \<Rightarrow> http_error + string \<times> string" where
  "ReadLine data =
     (if data = [] then Inl IoEOF
      else if CHR 0x0A \<in> set data
      then Inr (strip_cr (takeWhile (\<lambda>c. c \<noteq> CHR 0x0A) data),
                tl (dropWhile (\<lambda>c. c \<noteq> CHR 0x0A) data))
      else Inr (data, []))"

fun SplitN :: "string \<Rightarrow> char \<Rightarrow> nat \<Rightarrow> string list" where
  "SplitN s c 0 = []"
| "SplitN s c (Suc 0) = [s]"
| "SplitN s c (Suc (Suc n)) =
     (if c \<in> set s
      then takeWhile (\<lambda>x. x \<noteq> c) s # SplitN (tl (dropWhile (\<lambda>x. x \<noteq> c) s)) c (Suc n)
      else [s])"

definition header_Get :: "header \<Rightarrow> string \<Rightarrow> string" where
  "header_Get h k = (case h k of Some (v # _) \<Rightarrow> v | _ \<Rightarrow> '''')"

section \<open>Requests\<close>

record 'u HTTPRequest =
  rq_Method :: string
  rq_RequestURI :: string
  rq_Proto :: string
  rq_ProtoMajor :: int
  rq_ProtoMinor :: int
  rq_URL :: 'u
  rq_Header :: header
  rq_Host :: string
  rq_ts :: time

definition req_GetTimestamp :: "'u HTTPRequest \<Rightarrow> time" where
  "req_GetTimestamp req = rq_ts req"

definition parseRequestLine :: "string \<Rightarrow> (string \<times> string \<times> string \<times> bool) option" where
  "parseRequestLine line = do {
     let s1 = str_Index line '' '';
     line1 \<leftarrow> go_from line (s1 + 1);
     let s2 = str_Index line1 '' '';
     if s1 < 0 \<or> s2 < 0 then Some ('''', '''', '''', False)
     else do {
       let s2 = s2 + s1 + 1;
       method \<leftarrow> go_slice line 0 s1;
       requestURI \<leftarrow> go_slice line (s1 + 1) s2;
       proto \<leftarrow> go_from line (s2 + 1);
       Some (method, requestURI, proto, True)
     }
   }"

definition Big :: int where
  "Big = 1000000"

definition ParseHTTPVersion :: "string \<Rightarrow> (int \<times> int \<times> bool) option" where
  "ParseHTTPVersion vers =
     (if vers = ''HTTP/1.1'' then Some (1, 1, True)
      else if vers = ''HTTP/1.0'' then Some (1, 0, True)
      else if \<not> str_HasPrefix vers ''HTTP/'' then Some (0, 0, False)
      else (let dot = str_Index vers ''.'' in
        if dot < 0 then Some (0, 0, False)
        else do {
          majs \<leftarrow> go_slice vers 5 dot;
          case strconv_Atoi majs of
            None \<Rightarrow> Some (0, 0, False)
          | Some major \<Rightarrow>
              (if major < 0 \<or> major > Big then Some (0, 0, False)
               else do {
                 mins \<leftarrow> go_from vers (dot + 1);
                 case strconv_Atoi mins of
                   None \<Rightarrow> Some (0, 0, False)
                 | Some minor \<Rightarrow>
                     (if minor < 0 \<or> minor > Big then Some (0, 0, False)
                      else Some (major, minor, True))
               })
        }))"

definition fixPragmaCacheControl :: "header \<Rightarrow> header" where
  "fixPragmaCacheControl h =
     (case h ''Pragma'' of
        Some hp \<Rightarrow>
          (if length hp > 0 \<and> hd hp = ''no-cache'' then
             (case h ''Cache-Control'' of
                None \<Rightarrow> h(''Cache-Control'' \<mapsto> [''no-cache''])
              | Some _ \<Rightarrow> h)
           else h)
      | None \<Rightarrow> h)"

definition Request :: "'u net_api \<Rightarrow> string \<Rightarrow> time \<Rightarrow> (http_error + 'u HTTPRequest) option" where
  "Request N data timestamp =
     (case ReadLine data of
        Inl err \<Rightarrow> Some (Inl err)
      | Inr (s, rest) \<Rightarrow> do {
          (method, requestURI, proto, ok) \<leftarrow> parseRequestLine s;
          if \<not> ok then Some (Inl (Malformed ''malformed HTTP request'' s))
          else do {
            (major, minor, ok) \<leftarrow> ParseHTTPVersion proto;
            if \<not> ok then Some (Inl (Malformed ''malformed HTTP request'' proto))
            else (case url_ParseRequestURI N requestURI of
              Inl err \<Rightarrow> Some (Inl (UrlError err))
            | Inr u \<Rightarrow>
                (let mimeHeader = ReadMIMEHeader N rest;
                     host = (if url_Host N u = '''' then header_Get mimeHeader ''Host'' else url_Host N u)
                 in Some (Inr \<lparr>rq_Method = method, rq_RequestURI = requestURI, rq_Proto = proto,
                      rq_ProtoMajor = major, rq_ProtoMinor = minor, rq_URL = u,
                      rq_Header = fixPragmaCacheControl mimeHeader, rq_Host = host,
                      rq_ts = timestamp\<rparr>)))
          }
        })"

section \<open>Responses\<close>

record HTTPResponse =
  rs_Status :: string
  rs_StatusCode :: int
  rs_Proto :: string
  rs_ProtoMajor :: int
  rs_ProtoMinor :: int
  rs_Header :: header
  rs_ts :: time

definition resp_GetTimestamp :: "HTTPResponse \<Rightarrow> time" where
  "resp_GetTimestamp resp = rs_ts resp"

definition Response :: "'u net_api \<Rightarrow> string \<Rightarrow> time \<Rightarrow> (http_error + HTTPResponse) option" where
  "Response N data timestamp =
     (case ReadLine data of
        Inl err \<Rightarrow> Some (Inl (if err = IoEOF then IoErrUnexpectedEOF else err))
      | Inr (line, rest) \<Rightarrow>
          (let f = SplitN line (CHR '' '') 3 in
           if length f < 2 then Some (Inl (Malformed ''malformed HTTP response'' line))
           else (let reasonPhrase = (if length f > 2 then f ! 2 else '''') in
             if length (f ! 1) \<noteq> 3 then Some (Inl (Malformed ''malformed HTTP status code'' (f ! 1)))
             else (case strconv_Atoi (f ! 1) of
               None \<Rightarrow> Some (Inl (Malformed ''malformed HTTP status code'' (f ! 1)))
             | Some code \<Rightarrow>
                 (if code < 0 then Some (Inl (Malformed ''malformed HTTP status code'' (f ! 1)))
                  else do {
                    (major, minor, ok) \<leftarrow> ParseHTTPVersion (f ! 0);
                    if \<not> ok then Some (Inl (Malformed ''malformed HTTP version'' (f ! 0)))
                    else Some (Inr \<lparr>rs_Status = f ! 1 @ '' '' @ reasonPhrase, rs_StatusCode = code,
                        rs_Proto = f ! 0, rs_ProtoMajor = major, rs_ProtoMinor = minor,
                        rs_Header = fixPragmaCacheControl (ReadMIMEHeader N rest),
                        rs_ts = timestamp\<rparr>)
                  })))))"

section \<open>The reported pair\<close>

record 'u httpStream =
  hs_URL :: 'u
  hs_Host :: string
  hs_Method :: string
  hs_StatusCode :: int
  hs_RTT :: int

definition NewHttpStream :: "'u HTTPRequest \<Rightarrow> HTTPResponse \<Rightarrow> 'u httpStream" where
  "NewHttpStream req resp =
     \<lparr>hs_URL = rq_URL req, hs_Host = rq_Host req, hs_Method = rq_Method req,
      hs_StatusCode = rs_StatusCode resp,
      hs_RTT = time_Sub (resp_GetTimestamp resp) (req_GetTimestamp req)\<rparr>"

definition httpStream_String :: "'u net_api \<Rightarrow> 'u httpStream \<Rightarrow> string" where
  "httpStream_String N h =
     ''HTTP '' @ hs_Method h @ '', '' @ hs_Host h @ url_String N (hs_URL h) @ '', '' @
     dec_int (hs_StatusCode h) @ '', RTT '' @ duration_String N (hs_RTT h)"

section \<open>Lemmas\<close>

lemma parseRequestLine_no_panic: "parseRequestLine line \<noteq> None"
proof (cases "CHR '' '' \<in> set line")
  case False
  then have "str_Index line '' '' = - 1" by (simp add: str_Index_char)
  then show ?thesis by (simp add: parseRequestLine_def go_from_Some)
next
  case True
  define s1 where "s1 = str_Index line '' ''"
  have s1: "0 \<le> s1" "s1 < int (length line)"
    using True str_Index_char_less [of line "CHR '' ''"] by (simp_all add: s1_def str_Index_char)
  define line1 where "line1 = drop (nat (s1 + 1)) line"
  have f: "go_from line (s1 + 1) = Some line1"
    using s1 by (simp add: go_from_Some line1_def)
  show ?thesis
  proof (cases "str_Index line1 '' '' < 0")
    case True
    then show ?thesis using f by (simp add: parseRequestLine_def s1_def [symmetric])
  next
    case False
    then have s2: "0 \<le> str_Index line1 '' ''" "str_Index line1 '' '' < int (length line1)"
      using str_Index_char_less [of line1 "CHR '' ''"] by simp_all
    have "int (length line1) = int (length line) - s1 - 1" using s1 by (simp add: line1_def)
    then show ?thesis using f s1 s2
      by (simp add: parseRequestLine_def s1_def [symmetric] go_slice_def go_from_def Let_def)
  qed
qed

lemma parseRequestLine_split:
  assumes "CHR '' '' \<notin> set m" "CHR '' '' \<notin> set u"
  shows "parseRequestLine (m @ '' '' @ u @ '' '' @ p) = Some (m, u, p, True)"
proof -
  have i1: "str_Index (m @ CHR '' '' # u @ CHR '' '' # p) '' '' = int (length m)"
    using assms(1) by (rule str_Index_char_append)
  have i2: "str_Index (u @ CHR '' '' # p) '' '' = int (length u)"
    using assms(2) by (rule str_Index_char_append)
  have d: "nat (int (length m) + 1) = Suc (length m)"
    "nat (2 + (int (length u) + int (length m))) = Suc (Suc (length u + length m))"
    "nat (int (length u) + int (length m) + 1 - (int (length m) + 1)) = length u"
    by simp_all
  show ?thesis
    by (simp add: parseRequestLine_def i1 go_from_Some go_slice_def d i2)
qed

lemma parseRequestLine_bad:
  assumes "length (filter (\<lambda>c. c = CHR '' '') line) < 2"
  shows "parseRequestLine line = Some ('''', '''', '''', False)"
proof (cases "CHR '' '' \<in> set line")
  case False
  then have "str_Index line '' '' = - 1" by (simp add: str_Index_char)
  then show ?thesis by (simp add: parseRequestLine_def go_from_Some)
next
  case True
  then obtain a b where line: "line = a @ CHR '' '' # b" "CHR '' '' \<notin> set a"
    by (metis split_list_first)
  then have "CHR '' '' \<notin> set b" using assms by (auto simp: filter_empty_conv)
  then have b: "str_Index b '' '' = - 1" by (simp add: str_Index_char)
  have a: "str_Index (a @ CHR '' '' # b) '' '' = int (length a)"
    using line(2) by (rule str_Index_char_append)
  have "nat (int (length a) + 1) = Suc (length a)" by simp
  then show ?thesis by (simp add: parseRequestLine_def line(1) a go_from_Some b)
qed

lemma filter_char_absent: "c \<notin> set l \<Longrightarrow> filter (\<lambda>x. x = c) l = []"
  by (induction l) auto

lemma two_spaces_split:
  assumes "\<not> length (filter (\<lambda>c. c = CHR '' '') line) < 2"
  obtains m u p where "line = m @ '' '' @ u @ '' '' @ p" "CHR '' '' \<notin> set m" "CHR '' '' \<notin> set u"
proof -
  have "CHR '' '' \<in> set line" using assms filter_char_absent [of "CHR '' ''" line] by fastforce
  then obtain m b where l: "line = m @ CHR '' '' # b" "CHR '' '' \<notin> set m"
    by (metis split_list_first)
  then have "filter (\<lambda>c. c = CHR '' '') m = []" by (auto simp: filter_empty_conv)
  then have "filter (\<lambda>c. c = CHR '' '') b \<noteq> []" using assms l(1) by auto
  then have "CHR '' '' \<in> set b" by (auto simp: filter_empty_conv)
  then obtain u p where "b = u @ CHR '' '' # p" "CHR '' '' \<notin> set u"
    by (metis split_list_first)
  then show thesis using that l by simp
qed

lemma version_slices:
  assumes "str_HasPrefix vers ''HTTP/''" "\<not> str_Index vers ''.'' < 0"
  obtains majs mins where "go_slice vers 5 (str_Index vers ''.'') = Some majs"
    "go_from vers (str_Index vers ''.'' + 1) = Some mins"
proof -
  obtain rest where v: "vers = ''HTTP/'' @ rest"
    using assms(1) by (auto simp: str_HasPrefix_def prefix_def)
  have less: "str_Index vers ''.'' < int (length vers)"
    using assms(2) by (intro str_Index_char_less) simp
  have "CHR ''.'' \<in> set rest" using assms(2) v by (auto simp: str_Index_char split: if_splits)
  then have "5 \<le> str_Index vers ''.''" unfolding v by (simp add: str_Index_char)
  then show thesis using less that by (simp add: go_slice_def go_from_def)
qed

lemma ParseHTTPVersion_cases:
  obtains "ParseHTTPVersion vers = Some (0, 0, False)"
  | major minor where "ParseHTTPVersion vers = Some (major, minor, True)"
      "0 \<le> major" "major \<le> Big" "0 \<le> minor" "minor \<le> Big"
proof (cases "vers = ''HTTP/1.1'' \<or> vers = ''HTTP/1.0''")
  case True
  then show thesis using that(2) by (auto simp: ParseHTTPVersion_def Big_def)
next
  case fixed: False
  show thesis
  proof (cases "str_HasPrefix vers ''HTTP/'' \<and> \<not> str_Index vers ''.'' < 0")
    case True
    then obtain majs mins where sl: "go_slice vers 5 (str_Index vers ''.'') = Some majs"
      "go_from vers (str_Index vers ''.'' + 1) = Some mins"
      using version_slices by blast
    define good where "good = (\<lambda>s. \<exists>a. strconv_Atoi s = Some a \<and> 0 \<le> a \<and> a \<le> Big)"
    show thesis
    proof (cases "good majs \<and> good mins")
      case True
      then show thesis using that(2) sl fixed \<open>str_HasPrefix vers _ \<and> _\<close>
        by (auto simp: good_def ParseHTTPVersion_def Let_def)
    next
      case False
      then have "ParseHTTPVersion vers = Some (0, 0, False)"
        using sl fixed \<open>str_HasPrefix vers _ \<and> _\<close>
        by (auto simp: good_def ParseHTTPVersion_def Let_def linorder_not_less split: option.split)
      then show thesis by (rule that(1))
    qed
  next
    case False
    then show thesis using fixed that(1) by (auto simp: ParseHTTPVersion_def Let_def)
  qed
qed

lemma ParseHTTPVersion_no_panic: "ParseHTTPVersion vers \<noteq> None"
  by (rule ParseHTTPVersion_cases [of vers]) simp_all

lemma ParseHTTPVersion_bounds:
  "ParseHTTPVersion vers = Some (major, minor, True) \<Longrightarrow>
   0 \<le> major \<and> major \<le> Big \<and> 0 \<le> minor \<and> minor \<le> Big"
  by (rule ParseHTTPVersion_cases [of vers]) simp_all

lemma dec_nat_no_dot: "CHR ''.'' \<notin> set (dec_nat n)"
  using dec_nat_digits [of n] by (auto simp: is_digit_iff)

lemma ParseHTTPVersion_dec:
  assumes "int m \<le> Big" "int n \<le> Big"
  shows "ParseHTTPVersion (''HTTP/'' @ dec_nat m @ ''.'' @ dec_nat n) = Some (int m, int n, True)"
proof -
  define v where "v = ''HTTP/'' @ dec_nat m @ ''.'' @ dec_nat n"
  have "v = (''HTTP/'' @ dec_nat m) @ CHR ''.'' # dec_nat n" by (simp add: v_def)
  then have dot: "str_Index v ''.'' = 5 + int (length (dec_nat m))"
    using str_Index_char_append [of "CHR ''.''" "''HTTP/'' @ dec_nat m" "dec_nat n"] dec_nat_no_dot [of m]
    by simp
  have sl: "go_slice v 5 (5 + int (length (dec_nat m))) = Some (dec_nat m)"
    by (simp add: go_slice_def v_def)
  have "nat (5 + int (length (dec_nat m)) + 1) = length (''HTTP/'' @ dec_nat m @ ''.'')" by simp
  moreover have "v = (''HTTP/'' @ dec_nat m @ ''.'') @ dec_nat n" by (simp add: v_def)
  ultimately have "drop (nat (5 + int (length (dec_nat m)) + 1)) v = dec_nat n"
    by (metis append_eq_conv_conj)
  then have fr: "go_from v (5 + int (length (dec_nat m)) + 1) = Some (dec_nat n)"
    by (subst go_from_Some) (simp_all add: v_def)
  have a: "strconv_Atoi (dec_nat m) = Some (int m)" "strconv_Atoi (dec_nat n) = Some (int n)"
    using assms by (simp_all add: atoi_dec_nat Big_def)
  have "ParseHTTPVersion v = Some (int m, int n, True)"
  proof (cases "v = ''HTTP/1.1'' \<or> v = ''HTTP/1.0''")
    case True
    have d: "strconv_Atoi ''1'' = Some 1" "strconv_Atoi ''0'' = Some 0"
      by (simp_all add: strconv_Atoi_def atoi_unsigned_def is_digit_iff digit_val_def)
    have "str_Index v ''.'' = 6" using True by auto
    then have "length (dec_nat m) = 1" using dot by simp
    then have "dec_nat m = ''1''" "dec_nat n = drop 7 v"
      using sl fr True by (auto simp: go_slice_def go_from_def)
    then show ?thesis using True a d by (auto simp: ParseHTTPVersion_def)
  next
    case False
    then show ?thesis
      using dot sl fr a assms by (simp add: ParseHTTPVersion_def str_HasPrefix_def) (simp add: v_def)
  qed
  then show ?thesis by (simp add: v_def)
qed

lemma SplitN_length_le: "length (SplitN s c n) \<le> n"
  by (induction s c n rule: SplitN.induct) auto

lemma atoi_three_bounds:
  assumes "strconv_Atoi s = Some n" "length s = 3"
  shows "n \<le> 999"
proof -
  obtain a b c where s: "s = [a, b, c]" using assms(2)
    by (auto simp: numeral_3_eq_3 length_Suc_conv)
  show ?thesis using assms(1) unfolding s
    by (auto simp: strconv_Atoi_def atoi_unsigned_def Let_def split: if_splits option.splits
        dest!: digit_val_bounds)
qed

lemma Response_no_panic: "Response N data ts \<noteq> None"
proof (cases "ReadLine data")
  case (Inl e)
  then show ?thesis by (simp add: Response_def)
next
  case (Inr p)
  obtain line rest where p: "p = (line, rest)" by (cases p)
  obtain a b ok where "ParseHTTPVersion (SplitN line (CHR '' '') 3 ! 0) = Some (a, b, ok)"
    using ParseHTTPVersion_no_panic by (metis not_None_eq prod_cases3)
  then show ?thesis using Inr p by (simp add: Response_def Let_def split: option.split)
qed

lemma Request_no_panic: "Request N data ts \<noteq> None"
proof (cases "ReadLine data")
  case (Inl e)
  then show ?thesis by (simp add: Request_def)
next
  case (Inr p)
  obtain line rest where p: "p = (line, rest)" by (cases p)
  obtain m u proto ok where l: "parseRequestLine line = Some (m, u, proto, ok)"
    using parseRequestLine_no_panic by (metis not_None_eq prod_cases4)
  obtain a b ok' where "ParseHTTPVersion proto = Some (a, b, ok')"
    using ParseHTTPVersion_no_panic by (metis not_None_eq prod_cases3)
  then show ?thesis using Inr p l by (simp add: Request_def Let_def split: sum.split)
qed

lemma ReadLine_crlf:
  assumes "CHR 0x0A \<notin> set l"
  shows "ReadLine (l @ [CHR 0x0D, CHR 0x0A] @ rest) = Inr (l, rest)"
proof -
  have t: "takeWhile (\<lambda>c. c \<noteq> CHR 0x0A) (l @ [CHR 0x0D, CHR 0x0A] @ rest) = l @ [CHR 0x0D]"
    and d: "dropWhile (\<lambda>c. c \<noteq> CHR 0x0A) (l @ [CHR 0x0D, CHR 0x0A] @ rest) = CHR 0x0A # rest"
    using assms by (induction l) auto
  show ?thesis by (simp only: ReadLine_def t d) (simp add: strip_cr_def)
qed

section \<open>Properties\<close>

text \<open>a request line is accepted exactly when it has at least two spaces, and the parts are the text
  before the first space, between the first two, and after the second; any other line is rejected
  with empty parts, and no line makes the slicing panic.\<close>

theorem parseRequestLine_correct:
  "(parseRequestLine line = Some (m, u, p, True) \<longleftrightarrow>
      line = m @ '' '' @ u @ '' '' @ p \<and> CHR '' '' \<notin> set m \<and> CHR '' '' \<notin> set u) \<and>
   (length (filter (\<lambda>c. c = CHR '' '') line) < 2 \<longleftrightarrow>
      parseRequestLine line = Some ('''', '''', '''', False))"
proof (cases "length (filter (\<lambda>c. c = CHR '' '') line) < 2")
  case True
  then show ?thesis using parseRequestLine_bad [OF True] by auto
next
  case False
  then obtain m' u' p' where l: "line = m' @ '' '' @ u' @ '' '' @ p'"
      "CHR '' '' \<notin> set m'" "CHR '' '' \<notin> set u'"
    using two_spaces_split by blast
  then have val: "parseRequestLine line = Some (m', u', p', True)"
    unfolding l(1) by (intro parseRequestLine_split)
  then have "parseRequestLine line = Some (m, u, p, True) \<Longrightarrow> m = m' \<and> u = u' \<and> p = p'" by simp
  moreover have "line = m @ '' '' @ u @ '' '' @ p \<Longrightarrow> CHR '' '' \<notin> set m \<Longrightarrow> CHR '' '' \<notin> set u \<Longrightarrow>
      parseRequestLine line = Some (m, u, p, True)"
    using parseRequestLine_split [of m u p] by blast
  moreover have "parseRequestLine line \<noteq> Some ('''', '''', '''', False)" by (simp add: val)
  ultimately show ?thesis using l False by blast
qed

text \<open>parsing the version text of any major and minor number up to the bound gives these numbers back.\<close>

theorem ParseHTTPVersion_roundtrip:
  assumes "int m \<le> Big" "int n \<le> Big"
  shows "ParseHTTPVersion (''HTTP/'' @ dec_int (int m) @ ''.'' @ dec_int (int n)) = Some (int m, int n, True)"
  using ParseHTTPVersion_dec [OF assms] by (simp add: dec_int_def)

theorem ParseHTTPVersion_roundtrip_witness:
  "ParseHTTPVersion (''HTTP/'' @ dec_int (int 2) @ ''.'' @ dec_int (int 10)) = Some (2, 10, True)"
  using ParseHTTPVersion_roundtrip [of 2 10] by (simp add: Big_def)

text \<open>no payload makes the parsers of a request or of a response panic: every slice and index they
  take is in range.\<close>

theorem Request_Response_total:
  "(\<exists>r. Request N data ts = Some r) \<and> (\<exists>r. Response N data ts = Some r)"
  using Request_no_panic Response_no_panic by blast

text \<open>C14: a well-formed request head is parsed into its parts: the method, the target and the version of
  the request line, the host of the target or else of the \<open>Host\<close> header, the headers after the
  line, and the time of the segment.\<close>

theorem Request_parses:
  assumes "CHR '' '' \<notin> set m" "CHR '' '' \<notin> set u"
    and "CHR 0x0A \<notin> set (m @ u)" "int a \<le> Big" "int b \<le> Big"
    and "url_ParseRequestURI N u = Inr x"
  shows "\<exists>r. Request N (m @ '' '' @ u @ '' HTTP/'' @ dec_nat a @ ''.'' @ dec_nat b @
        [CHR 0x0D, CHR 0x0A] @ rest) ts = Some (Inr r) \<and>
      rq_Method r = m \<and> rq_RequestURI r = u \<and> rq_ProtoMajor r = int a \<and> rq_ProtoMinor r = int b \<and>
      rq_URL r = x \<and> rq_Header r = fixPragmaCacheControl (ReadMIMEHeader N rest) \<and>
      rq_Host r = (if url_Host N x = '''' then header_Get (ReadMIMEHeader N rest) ''Host''
                   else url_Host N x) \<and>
      req_GetTimestamp r = ts"
proof -
  define proto where "proto = ''HTTP/'' @ dec_nat a @ ''.'' @ dec_nat b"
  define line where "line = m @ '' '' @ u @ '' '' @ proto"
  have "CHR 0x0A \<notin> set (dec_nat a @ dec_nat b)"
    using dec_nat_digits [of a] dec_nat_digits [of b] by (auto simp: is_digit_iff)
  then have "CHR 0x0A \<notin> set line" using assms(3) by (auto simp: line_def proto_def)
  then have read: "ReadLine (line @ [CHR 0x0D, CHR 0x0A] @ rest) = Inr (line, rest)"
    by (rule ReadLine_crlf)
  have parse: "parseRequestLine line = Some (m, u, proto, True)"
    unfolding line_def by (rule parseRequestLine_split [OF assms(1,2)])
  have vers: "ParseHTTPVersion proto = Some (int a, int b, True)"
    unfolding proto_def by (rule ParseHTTPVersion_dec [OF assms(4,5)])
  have data: "m @ '' '' @ u @ '' HTTP/'' @ dec_nat a @ ''.'' @ dec_nat b @ [CHR 0x0D, CHR 0x0A] @ rest
      = line @ [CHR 0x0D, CHR 0x0A] @ rest" by (simp add: line_def proto_def)
  show ?thesis
    unfolding data Request_def read using parse vers assms(6)
    by (simp add: req_GetTimestamp_def Let_def)
qed

definition sample_net :: "string net_api" where
  "sample_net =
     \<lparr>url_ParseRequestURI = (\<lambda>s. if s = '''' then Inl ''empty url'' else Inr s),
      url_Host = (\<lambda>_. ''''), url_String = (\<lambda>u. u),
      ReadMIMEHeader = (\<lambda>_. [''Host'' \<mapsto> [''a.b'']]), duration_String = dec_int\<rparr>"

theorem Request_parses_witness:
  "\<exists>r. Request sample_net (''GET'' @ '' '' @ ''/x'' @ '' HTTP/'' @ dec_nat 1 @ ''.'' @ dec_nat 1 @
      [CHR 0x0D, CHR 0x0A] @ []) 7 = Some (Inr r) \<and> rq_Host r = ''a.b''"
  using Request_parses [of "''GET''" "''/x''" 1 1 sample_net "''/x''" "[]" 7]
  by (auto simp: sample_net_def Big_def header_Get_def)

text \<open>an accepted response has a status code between 0 and 999 that is the number in its second
  field, and version numbers within the bound.\<close>

theorem Response_bounds:
  assumes "Response N data ts = Some (Inr r)"
  shows "0 \<le> rs_StatusCode r \<and> rs_StatusCode r \<le> 999 \<and>
    0 \<le> rs_ProtoMajor r \<and> rs_ProtoMajor r \<le> Big \<and> 0 \<le> rs_ProtoMinor r \<and> rs_ProtoMinor r \<le> Big \<and>
    (\<exists>line rest. ReadLine data = Inr (line, rest) \<and>
       strconv_Atoi (SplitN line (CHR '' '') 3 ! 1) = Some (rs_StatusCode r))"
proof -
  obtain line rest where "ReadLine data = Inr (line, rest)"
      "length (SplitN line (CHR '' '') 3 ! 1) = 3"
      "strconv_Atoi (SplitN line (CHR '' '') 3 ! 1) = Some (rs_StatusCode r)" "\<not> rs_StatusCode r < 0"
      "ParseHTTPVersion (SplitN line (CHR '' '') 3 ! 0) = Some (rs_ProtoMajor r, rs_ProtoMinor r, True)"
    using assms
    by (auto simp: Response_def Let_def bind_eq_Some_conv split: sum.splits option.splits if_splits)
  then show ?thesis
    using ParseHTTPVersion_bounds atoi_three_bounds by (auto simp: linorder_not_less)
qed

theorem Response_bounds_witness:
  "\<exists>r. Response sample_net ''HTTP/1.1 404 Not Found'' 3 = Some (Inr r) \<and>
     rs_StatusCode r = 404 \<and> rs_StatusCode r \<le> 999"
proof -
  have "\<exists>r. Response sample_net ''HTTP/1.1 404 Not Found'' 3 = Some (Inr r) \<and> rs_StatusCode r = 404"
    by (simp add: Response_def ReadLine_def numeral_3_eq_3 strconv_Atoi_def atoi_unsigned_def
        is_digit_iff digit_val_def ParseHTTPVersion_def)
  then show ?thesis using Response_bounds by blast
qed

text \<open>the status code of a response may carry a sign: three characters \<open>+20\<close> are read as the code 20,
  which is no three-digit code.\<close>

theorem Response_signed_code:
  "\<exists>r. Response N ''HTTP/1.1 +20 OK'' ts = Some (Inr r) \<and> rs_StatusCode r = 20 \<and>
     rs_Status r = ''+20 OK''"
  by (simp add: Response_def ReadLine_def numeral_3_eq_3 strconv_Atoi_def atoi_unsigned_def
      is_digit_iff digit_val_def ParseHTTPVersion_def)

text \<open>the rewriting of \<open>Pragma: no-cache\<close> is idempotent, touches no header but \<open>Cache-Control\<close>, and
  never changes a \<open>Cache-Control\<close> that is present.\<close>

theorem fixPragma_correct:
  "fixPragmaCacheControl (fixPragmaCacheControl h) = fixPragmaCacheControl h \<and>
   (k \<noteq> ''Cache-Control'' \<or> h k \<noteq> None \<longrightarrow> fixPragmaCacheControl h k = h k) \<and>
   (fixPragmaCacheControl h ''Cache-Control'' = None \<longrightarrow>
      (\<forall>hp. h ''Pragma'' = Some hp \<longrightarrow> hp = [] \<or> hd hp \<noteq> ''no-cache''))"
  by (auto simp: fixPragmaCacheControl_def split: option.splits if_splits)

theorem fixPragma_correct_witness:
  "fixPragmaCacheControl [''Pragma'' \<mapsto> [''no-cache'']] ''Pragma'' = Some [''no-cache''] \<and>
   fixPragmaCacheControl [''Pragma'' \<mapsto> [''no-cache'']] ''Cache-Control'' = Some [''no-cache'']"
  using fixPragma_correct [of "[''Pragma'' \<mapsto> [''no-cache'']]" "''Pragma''"]
  by (simp add: fixPragmaCacheControl_def)

end
