(* ===== verification/Dpi.thy ===== *)
theory Dpi
  imports Http_Assembly
begin

text \<open>
  The package \<open>dpi\<close>: the stream types (\<open>streamType.go\<close>), the HTTP decoder (\<open>http.go\<close>) and the engine
  that tries its registered decoders in turn (\<open>dpi.go\<close>). A call of the callback is an event, the pair
  of its arguments; a decoder returns its error and the events it caused, \<^term>\<open>None\<close> is a panic.
\<close>

section \<open>Stream types and callback events\<close>

datatype streamType = UNKNOWN | HTTP | BITTORRENT | HTTP_REQUEST | HTTP_RESPONSE

fun streamType_code :: "streamType \<Rightarrow> int" where
  "streamType_code UNKNOWN = 0"
| "streamType_code HTTP = 1"
| "streamType_code BITTORRENT = 2"
| "streamType_code HTTP_REQUEST = 1000"
| "streamType_code HTTP_RESPONSE = 1001"

instantiation streamType :: linorder
begin

definition less_eq_streamType :: "streamType \<Rightarrow> streamType \<Rightarrow> bool" where
  "less_eq_streamType a b \<longleftrightarrow> streamType_code a \<le> streamType_code b"

definition less_streamType :: "streamType \<Rightarrow> streamType \<Rightarrow> bool" where
  "less_streamType a b \<longleftrightarrow> streamType_code a < streamType_code b"

instance
proof
  fix x y :: streamType
  show "x \<le> y \<Longrightarrow> y \<le> x \<Longrightarrow> x = y"
    by (cases x; cases y) (simp_all add: less_eq_streamType_def)
qed (auto simp: less_eq_streamType_def less_streamType_def)

end

datatype 'u entry = EntryReq "'u HTTPRequest" | EntryResp HTTPResponse

type_synonym 'u event = "streamType \<times> 'u entry"

type_synonym 'u decoder = "string \<Rightarrow> time \<Rightarrow> bool \<Rightarrow> (http_error option \<times> 'u event list) option"

section \<open>The HTTP decoder\<close>

definition checkReq :: "'u net_api \<Rightarrow> 'u decoder" where
  "checkReq N payload ts cb = do {
     r \<leftarrow> Request N payload ts;
     (case r of
        Inr req \<Rightarrow> if cb then Some (None, [(HTTP_REQUEST, EntryReq req)]) else Some (None, [])
      | Inl err \<Rightarrow> Some (Some err, []))
   }"

definition checkRes :: "'u net_api \<Rightarrow> 'u decoder" where
  "checkRes N payload ts cb = do {
     r \<leftarrow> Response N payload ts;
     (case r of
        Inr resp \<Rightarrow> if cb then Some (None, [(HTTP_RESPONSE, EntryResp resp)]) else Some (None, [])
      | Inl err \<Rightarrow> Some (Some err, []))
   }"

definition Decoder :: "'u net_api \<Rightarrow> 'u decoder" where
  "Decoder N data ts cb =
     (if length data > 4 then
        (let p = take 4 data in
         if p = ''HEAD'' then checkReq N data ts cb
         else if p = ''GET '' then checkReq N data ts cb
         else if p = ''PUT '' then checkReq N data ts cb
         else if p = ''POST'' then checkReq N data ts cb
         else if p = ''DELE'' then checkReq N data ts cb
         else if p = ''HTTP'' then checkRes N data ts cb
         else Some (None, []))
      else Some (None, []))"

section \<open>The engine\<close>

record 'u DPIEnginer =
  adapters :: "string \<rightharpoonup> 'u decoder"

definition NewDPIEnginer :: "'u DPIEnginer" where
  "NewDPIEnginer = \<lparr>adapters = Map.empty\<rparr>"

text \<open>\<open>register\<close> panics on a nil decoder and on a name registered before.\<close>

definition register :: "'u DPIEnginer \<Rightarrow> string \<Rightarrow> 'u decoder option \<Rightarrow> 'u DPIEnginer option" where
  "register eng name dpiT =
     (case dpiT of
        None \<Rightarrow> None
      | Some d \<Rightarrow>
          (case adapters eng name of
             Some _ \<Rightarrow> None
           | None \<Rightarrow> Some (eng\<lparr>adapters := (adapters eng)(name \<mapsto> d)\<rparr>)))"

fun Register :: "'u net_api \<Rightarrow> 'u DPIEnginer \<Rightarrow> string list \<Rightarrow> 'u DPIEnginer option" where
  "Register N eng [] = Some eng"
| "Register N eng (name # names) =
     (if name = ''http'' then
        (case register eng ''http'' (Some (Decoder N)) of
           None \<Rightarrow> None
         | Some eng' \<Rightarrow> Register N eng' names)
      else Register N eng names)"

text \<open>The order in which Go visits a map is not fixed: \<open>ord\<close> lists the names as the loop meets them.\<close>

fun DPIDecoder :: "'u DPIEnginer \<Rightarrow> string list \<Rightarrow> string \<Rightarrow> time \<Rightarrow> bool \<Rightarrow> 'u event list option" where
  "DPIDecoder eng [] data ts cb = Some []"
| "DPIDecoder eng (name # ord) data ts cb =
     (case adapters eng name of
        None \<Rightarrow> DPIDecoder eng ord data ts cb
      | Some dup \<Rightarrow>
          (case dup data ts cb of
             None \<Rightarrow> None
           | Some (err, evs) \<Rightarrow>
               (if err = None then Some evs
                else map_option (\<lambda>evs'. evs @ evs') (DPIDecoder eng ord data ts cb))))"

definition DefaultDPIEnginer :: "'u net_api \<Rightarrow> 'u DPIEnginer option" where
  "DefaultDPIEnginer N = Register N NewDPIEnginer [''http'']"

section \<open>What the engine relies on\<close>

text \<open>An event whose type says what its entry is, as the callback of a stream asserts.\<close>

fun event_typed :: "'u event \<Rightarrow> bool" where
  "event_typed (HTTP_REQUEST, EntryReq _) = True"
| "event_typed (HTTP_RESPONSE, EntryResp _) = True"
| "event_typed _ = False"

locale dpi_adapter =
  fixes decode :: "'u decoder"
  assumes total: "decode data ts cb \<noteq> None"
    and one_event: "decode data ts cb = Some (err, evs) \<Longrightarrow> length evs \<le> 1"
    and typed: "decode data ts cb = Some (err, evs) \<Longrightarrow> list_all event_typed evs"
    and quiet_on_error: "decode data ts cb = Some (Some e, evs) \<Longrightarrow> evs = []"
begin

lemma engine_step:
  assumes "adapters eng name = Some decode"
    and "\<exists>evs. DPIDecoder eng ord data ts cb = Some evs \<and> length evs \<le> 1 \<and> list_all event_typed evs"
  shows "\<exists>evs. DPIDecoder eng (name # ord) data ts cb = Some evs \<and> length evs \<le> 1 \<and>
    list_all event_typed evs"
proof -
  obtain err evs where d: "decode data ts cb = Some (err, evs)"
    using total by (metis not_None_eq prod.collapse)
  show ?thesis
    using assms one_event [OF d] typed [OF d] d quiet_on_error [of data ts cb]
    by (cases err) auto
qed

text \<open>An engine all of whose adapters keep the contract never panics and causes at most one event,
  whatever order the map is visited in.\<close>

lemma engine_safe:
  assumes "ran (adapters eng) \<subseteq> {decode}"
  shows "\<exists>evs. DPIDecoder eng ord data ts cb = Some evs \<and> length evs \<le> 1 \<and> list_all event_typed evs"
proof (induction ord)
  case Nil
  then show ?case by simp
next
  case (Cons name ord)
  show ?case
  proof (cases "adapters eng name")
    case None
    then show ?thesis using Cons by simp
  next
    case (Some d)
    then have "d = decode" using assms by (auto intro: ranI)
    then show ?thesis using engine_step Some Cons by blast
  qed
qed

end

lemma checkReq_result:
  "\<exists>err evs. checkReq N data ts cb = Some (err, evs) \<and> length evs \<le> 1 \<and> list_all event_typed evs \<and>
     (err \<noteq> None \<longrightarrow> evs = [])"
proof -
  obtain r where "Request N data ts = Some r" using Request_no_panic by fastforce
  then show ?thesis by (cases r) (simp_all add: checkReq_def)
qed

lemma checkRes_result:
  "\<exists>err evs. checkRes N data ts cb = Some (err, evs) \<and> length evs \<le> 1 \<and> list_all event_typed evs \<and>
     (err \<noteq> None \<longrightarrow> evs = [])"
proof -
  obtain r where "Response N data ts = Some r" using Response_no_panic by fastforce
  then show ?thesis by (cases r) (simp_all add: checkRes_def)
qed

lemma Decoder_result:
  "\<exists>err evs. Decoder N data ts cb = Some (err, evs) \<and> length evs \<le> 1 \<and> list_all event_typed evs \<and>
     (err \<noteq> None \<longrightarrow> evs = [])"
  using checkReq_result [of N data ts cb] checkRes_result [of N data ts cb]
  by (simp add: Decoder_def Let_def)

interpretation http: dpi_adapter "Decoder N" for N
proof unfold_locales
  fix data ts cb err evs e
  obtain err' evs' where r: "Decoder N data ts cb = Some (err', evs')" "length evs' \<le> 1"
      "list_all event_typed evs'" "err' \<noteq> None \<longrightarrow> evs' = []"
    using Decoder_result by blast
  show "Decoder N data ts cb \<noteq> None" using r by simp
  show "Decoder N data ts cb = Some (err, evs) \<Longrightarrow> length evs \<le> 1" using r by simp
  show "Decoder N data ts cb = Some (err, evs) \<Longrightarrow> list_all event_typed evs" using r by simp
  show "Decoder N data ts cb = Some (Some e, evs) \<Longrightarrow> evs = []" using r by auto
qed

lemma DefaultDPIEnginer_Some:
  "DefaultDPIEnginer N = Some \<lparr>adapters = [''http'' \<mapsto> Decoder N]\<rparr>"
  by (simp add: DefaultDPIEnginer_def register_def NewDPIEnginer_def)

lemma DPIDecoder_total:
  "\<exists>eng. DefaultDPIEnginer N = Some eng \<and>
    (\<exists>evs. DPIDecoder eng ord data ts cb = Some evs \<and> length evs \<le> 1 \<and> list_all event_typed evs)"
proof -
  have "ran (adapters \<lparr>adapters = [''http'' \<mapsto> Decoder N]\<rparr>) \<subseteq> {Decoder N}" by simp
  from http.engine_safe [OF this] show ?thesis by (simp add: DefaultDPIEnginer_Some)
qed

section \<open>Properties\<close>


text \<open>registering the HTTP decoder a second time panics, and names other than \<open>http\<close> are ignored.\<close>

theorem Register_twice_panics:
  "Register N NewDPIEnginer (xs @ ''http'' # ys) = None \<longleftrightarrow> ''http'' \<in> set (xs @ ys)"
proof -
  have full: "Register N \<lparr>adapters = [''http'' \<mapsto> Decoder N]\<rparr> zs = None \<longleftrightarrow> ''http'' \<in> set zs" for zs
    by (induction zs) (auto simp: register_def)
  show ?thesis
    by (induction xs) (auto simp: full register_def NewDPIEnginer_def)
qed


end
