(* ===== verification/Tcp_Stream.thy ===== *)
theory Tcp_Stream
  imports Sequence RTT_Cache Dpi Stats
begin

text \<open>
  The data of \<open>tcpassembly\<close> and the operations of one stream: the keys and connections of
  \<open>conn.go\<close>, the stream of \<open>stream.go\<close> with its callback and its life cycle, and the texts of
  \<open>output.go\<close>. The two connections of a stream belong to it alone, so they are fields of the stream and
  a pointer to a connection is the side it stands for; a pointer that may be nil is an option, and
  \<^term>\<open>None\<close> as a result is the panic of a nil dereference or of a failed type assertion.
\<close>

section \<open>Keys, packets and connections\<close>

type_synonym 'f key = "'f \<times> 'f"

definition flow_key_String :: "'f flow_api \<Rightarrow> 'f key \<Rightarrow> string" where
  "flow_key_String G k =
     fl_Src G (fst k) @ '':'' @ fl_Src G (snd k) @ ''->'' @ fl_Dst G (fst k) @ '':'' @ fl_Dst G (snd k)"

definition key_Equal :: "'f flow_api \<Rightarrow> 'f key \<Rightarrow> 'f key \<Rightarrow> bool" where
  "key_Equal G k k' \<longleftrightarrow>
     fl_String G (fst k) = fl_String G (fst k') \<and> fl_String G (snd k) = fl_String G (snd k')"

definition key_Reverse :: "'f flow_api \<Rightarrow> 'f key \<Rightarrow> 'f key" where
  "key_Reverse G k = (fl_Reverse G (fst k), fl_Reverse G (snd k))"

text \<open>The fields of \<open>layers.TCP\<close> the program reads.\<close>

record 'f tcp_layer =
  tcp_Seq :: int
  tcp_Ack :: int
  tcp_FIN :: bool
  tcp_SYN :: bool
  tcp_RST :: bool
  tcp_PSH :: bool
  tcp_ACK :: bool
  tcp_Payload :: string
  tcp_LayerPayload :: string
  tcp_TransportFlow :: 'f

datatype side = C2S | S2C

record 'f conn =
  c_reverse :: "side option"
  c_key :: "'f key"
  c_cli2srv :: bool
  c_closed :: bool
  c_waitClose :: bool
  c_streamType :: streamType
  c_dpiTotal :: int
  c_Bytes :: int
  c_Packets :: int
  c_OldBytes :: int
  c_OldPackets :: int

definition newConn :: "'f key \<Rightarrow> bool \<Rightarrow> 'f conn" where
  "newConn k cli2srv =
     \<lparr>c_reverse = None, c_key = k, c_cli2srv = cli2srv, c_closed = False, c_waitClose = False,
      c_streamType = UNKNOWN, c_dpiTotal = 0, c_Bytes = 0, c_Packets = 0, c_OldBytes = 0,
      c_OldPackets = 0\<rparr>"

definition conn_reset :: "'f conn \<Rightarrow> 'f key \<Rightarrow> bool \<Rightarrow> 'f conn" where
  "conn_reset c k cli2srv =
     c\<lparr>c_key := k, c_closed := False, c_waitClose := False, c_streamType := UNKNOWN,
       c_dpiTotal := 0, c_cli2srv := cli2srv, c_Bytes := 0, c_Packets := 0, c_OldBytes := 0,
       c_OldPackets := 0\<rparr>"

section \<open>Streams\<close>

record 'f pbody =
  pb_key :: "'f key"
  pb_tcp :: "'f tcp_layer"
  pb_ts :: time

record ('f, 'u) stream =
  s_pool :: bool
  s_key :: "'f key"
  s_c2s :: "'f conn option"
  s_s2c :: "'f conn option"
  s_connMap :: "'f key \<rightharpoonup> side"
  s_data :: "'f pbody list option"
  s_firstSeen :: time
  s_lastSeen :: time
  s_closed :: bool
  s_SYNRTT :: int
  s_MinRTT :: int
  s_MaxRTT :: int
  s_TotalRTT :: int
  s_RttCount :: int
  s_RttCache :: "'f RTTCache option"
  s_stat :: "nat option"
  s_StreamType :: streamType
  s_dpitotal :: int
  s_dpier :: "'u DPIEnginer option"
  s_Req :: "'u HTTPRequest option"
  s_Resp :: "HTTPResponse option"

text \<open>What surrounds the program: the flows of gopacket and the zero flow, the packages behind the HTTP
  parser, the value of the flag \<open>-t\<close>, and the order in which the decoders of the engine are tried.\<close>

record ('f, 'u) env =
  e_flow :: "'f flow_api"
  e_zeroFlow :: 'f
  e_net :: "'u net_api"
  e_timeoutRtt :: int
  e_order :: "string list"

definition zero_stream :: "('f, 'u) env \<Rightarrow> ('f, 'u) stream" where
  "zero_stream E =
     \<lparr>s_pool = False, s_key = (e_zeroFlow E, e_zeroFlow E), s_c2s = None, s_s2c = None,
      s_connMap = Map.empty, s_data = None, s_firstSeen = 0, s_lastSeen = 0, s_closed = False,
      s_SYNRTT = 0, s_MinRTT = 0, s_MaxRTT = 0, s_TotalRTT = 0, s_RttCount = 0, s_RttCache = None,
      s_stat = None, s_StreamType = UNKNOWN, s_dpitotal = 0, s_dpier = None, s_Req = None,
      s_Resp = None\<rparr>"

text \<open>What the program logs, with the arguments of each call.\<close>

datatype ('f, 'u) log_line =
  LogClosed "'f key" int int nat time
| LogPushFailed "'f key" "'f RTTCacheKey" string
| LogPullFailed "'f key" "'f RTTCacheKey" string
| LogHttp "'f key" string
| LogFinish "'f key" string string string int
| LogCreated "'f key" time
| LogGrow nat
| LogPool int nat nat

definition set_reverse :: "side \<Rightarrow> 'f conn option \<Rightarrow> 'f conn option" where
  "set_reverse d c = map_option (\<lambda>c. c\<lparr>c_reverse := Some d\<rparr>) c"

definition stream_reset :: "('f, 'u) env \<Rightarrow> ('f, 'u) stream \<Rightarrow> 'f key \<Rightarrow> nat \<Rightarrow> time \<Rightarrow> ('f, 'u) stream" where
  "stream_reset E s k st ts =
     (let G = e_flow E;
          s = s\<lparr>s_pool := True, s_key := k\<rparr>;
          s = s\<lparr>s_c2s := Some (case s_c2s s of None \<Rightarrow> newConn k True
                                            | Some c \<Rightarrow> conn_reset c k True)\<rparr>;
          s = s\<lparr>s_s2c := Some (case s_s2c s of None \<Rightarrow> newConn (key_Reverse G k) False
                                            | Some c \<Rightarrow> conn_reset c (key_Reverse G k) False)\<rparr>;
          s = s\<lparr>s_c2s := set_reverse S2C (s_c2s s), s_s2c := set_reverse C2S (s_s2c s)\<rparr>;
          s = s\<lparr>s_connMap := (s_connMap s)(k \<mapsto> C2S, key_Reverse G k \<mapsto> S2C)\<rparr>;
          s = s\<lparr>s_firstSeen := ts, s_lastSeen := ts, s_closed := False\<rparr>;
          s = s\<lparr>s_data := (case s_data s of None \<Rightarrow> Some [] | Some q \<Rightarrow> Some q)\<rparr>;
          s = s\<lparr>s_MinRTT := max_int64, s_MaxRTT := min_int64, s_TotalRTT := 0, s_RttCount := 0,
                s_SYNRTT := - 1\<rparr>;
          rc = (case s_RttCache s of None \<Rightarrow> NewRTTCache (i64 (e_timeoutRtt E * 1000000))
                                   | Some rc \<Rightarrow> rc);
          s = s\<lparr>s_RttCache := Some (Reset rc), s_stat := Some st, s_StreamType := UNKNOWN,
                s_dpitotal := 0\<rparr>;
          s = s\<lparr>s_dpier := (case s_dpier s of None \<Rightarrow> DefaultDPIEnginer (e_net E)
                                            | Some eng \<Rightarrow> Some eng)\<rparr>
      in s\<lparr>s_Req := None, s_Resp := None\<rparr>)"

definition stream_getConn :: "('f, 'u) stream \<Rightarrow> 'f key \<Rightarrow> side option" where
  "stream_getConn s k = s_connMap s k"

definition resetMap :: "'f flow_api \<Rightarrow> ('f, 'u) stream \<Rightarrow> ('f, 'u) stream" where
  "resetMap G s =
     s\<lparr>s_connMap := (s_connMap s)(s_key s := None, key_Reverse G (s_key s) := None)\<rparr>"

text \<open>The connection a pointer leads to; dereferencing nil is \<^term>\<open>None\<close>.\<close>

fun get_conn :: "side \<Rightarrow> ('f, 'u) stream \<Rightarrow> 'f conn option" where
  "get_conn C2S s = s_c2s s"
| "get_conn S2C s = s_s2c s"

fun set_conn :: "side \<Rightarrow> 'f conn \<Rightarrow> ('f, 'u) stream \<Rightarrow> ('f, 'u) stream" where
  "set_conn C2S c s = s\<lparr>s_c2s := Some c\<rparr>"
| "set_conn S2C c s = s\<lparr>s_s2c := Some c\<rparr>"

fun other_side :: "side \<Rightarrow> side" where
  "other_side C2S = S2C"
| "other_side S2C = C2S"

section \<open>The callback of the decoder\<close>

definition dpicb ::
    "('f, 'u) env \<Rightarrow> 'u event \<Rightarrow> ('f, 'u) stream \<times> ('f, 'u) log_line list \<Rightarrow>
     (('f, 'u) stream \<times> ('f, 'u) log_line list) option" where
  "dpicb E ev sl =
     (case (sl, ev) of ((s, lg), (ty, en)) \<Rightarrow>
        (case ty of
           UNKNOWN \<Rightarrow> Some (s, lg)
         | HTTP_REQUEST \<Rightarrow>
             (case en of EntryReq rq \<Rightarrow> Some (s\<lparr>s_Req := Some rq\<rparr>, lg) | EntryResp _ \<Rightarrow> None)
         | HTTP_RESPONSE \<Rightarrow>
             (case en of
                EntryReq _ \<Rightarrow> None
              | EntryResp rs \<Rightarrow>
                  (let s = s\<lparr>s_Resp := Some rs\<rparr>
                   in case s_Req s of
                        None \<Rightarrow> Some (s, lg)
                      | Some rq \<Rightarrow>
                          (let h = NewHttpStream rq rs
                           in Some (s\<lparr>s_StreamType := HTTP, s_dpitotal := 0\<rparr>,
                                lg @ [LogHttp (s_key s) (httpStream_String (e_net E) h)]))))
         | _ \<Rightarrow> Some (s, lg)))"

fun dpicb_all ::
    "('f, 'u) env \<Rightarrow> 'u event list \<Rightarrow> ('f, 'u) stream \<times> ('f, 'u) log_line list \<Rightarrow>
     (('f, 'u) stream \<times> ('f, 'u) log_line list) option" where
  "dpicb_all E [] sl = Some sl"
| "dpicb_all E (ev # evs) sl = Option.bind (dpicb E ev sl) (dpicb_all E evs)"

section \<open>The texts of output.go\<close>

definition micro_s :: string where
  "micro_s = ''('' @ [CHR 0xC2, CHR 0xB5] @ ''s)''"

definition rtt_unit :: "int \<Rightarrow> string" where
  "rtt_unit x =
     (if x < 5000 then dec_int x @ micro_s
      else if x < 5 * 1000 * 1000 then dec_int (go_div x 1000) @ ''(ms)''
      else dec_int (go_div x (1000 * 1000)) @ ''(s)'')"

definition RTTStat :: "('f, 'u) stream \<Rightarrow> string" where
  "RTTStat s =
     (if s_RttCount s \<noteq> 0 then
        (let rttStr = ''RTT['';
             rttStr = rttStr @ ''syn:'' @ rtt_unit (s_SYNRTT s) @ ''/'';
             rttStr = rttStr @ ''max:'' @ rtt_unit (s_MaxRTT s) @ ''/'';
             rttStr = rttStr @ ''min:'' @ rtt_unit (s_MinRTT s) @ ''/'';
             avg = go_div (s_TotalRTT s) (s_RttCount s)
         in rttStr @ ''avg:'' @ rtt_unit avg @ ''|'' @ dec_int (s_RttCount s) @ '']'')
      else ''RTT[-1/-1/-1]'' @ micro_s)"

definition volume :: "int \<Rightarrow> int \<Rightarrow> string" where
  "volume b p =
     (if b > 5 * 1024 then
        (if b > 5 * 1024 * 1024 then dec_int (go_div b (1024 * 1024)) @ ''MB/'' @ dec_int p
         else dec_int (go_div b 1024) @ ''KB/'' @ dec_int p)
      else dec_int b @ ''B/'' @ dec_int p)"

text \<open>
  \<open>%.1f\<close> of a float32 divided by five. The quotient is rounded to 24 significant bits: with \<open>L\<close> the
  bit length of eight fifths of the dividend, its last place is worth \<open>2 ^ (L - 27)\<close>.
\<close>

definition float32_div5 :: "int \<Rightarrow> int \<times> int" where
  "float32_div5 x =
     (let y = float32 x; L = bit_len (nat (8 * y div 5));
          up = 2 ^ (27 - L); down = 2 ^ (L - 27)
      in (round_half_even (y * up) (5 * down) * down, up))"

definition fmt_rate :: "int \<Rightarrow> string" where
  "fmt_rate x =
     (let (num, den) = float32_div5 \<bar>x\<bar>; t = round_half_even (10 * num) den
      in (if x < 0 then ''-'' else []) @ dec_int (t div 10) @ ''.'' @ dec_int (t mod 10))"

definition rate_unit :: "int \<Rightarrow> int \<Rightarrow> string" where
  "rate_unit speed packets =
     (if speed > 5 * 1024 then
        (if speed > 5 * 1024 * 1024
         then dec_int (go_div speed (1024 * 1024)) @ ''(MB/s)/'' @ fmt_rate packets
         else dec_int (go_div speed 1024) @ ''(KB/s)/'' @ fmt_rate packets)
      else dec_int speed @ ''(B/s)/'' @ fmt_rate packets)"

definition BPStat :: "bool \<Rightarrow> ('f, 'u) stream \<Rightarrow> (('f, 'u) stream \<times> string) option" where
  "BPStat finish s = do {
     r \<leftarrow> s_s2c s;
     let (s2cbytes, olds2cbytes, s2cpackets, olds2cpackets) =
       (c_Bytes r, c_OldBytes r, c_Packets r, c_OldPackets r);
     let s = s\<lparr>s_s2c := Some (r\<lparr>c_OldPackets := s2cpackets, c_OldBytes := s2cbytes\<rparr>)\<rparr>;
     let ((c2sbytes, oldc2sbytes, c2spackets, oldc2spackets), s) =
       (case s_c2s s of
          None \<Rightarrow> ((0, 0, 0, 0), s)
        | Some c \<Rightarrow> ((c_Bytes c, c_OldBytes c, c_Packets c, c_OldPackets c),
            s\<lparr>s_c2s := Some (c\<lparr>c_OldPackets := c_Packets c, c_OldBytes := c_Bytes c\<rparr>)\<rparr>));
     let speedStr = ''B/P[tx:'' @ volume c2sbytes c2spackets @ '', rx:'' @
       volume s2cbytes s2cpackets @ '']'';
     (if finish then Some (s, speedStr)
      else
        (let c2sspeed = go_div (i64 (c2sbytes - oldc2sbytes)) 5;
             speedStr = speedStr @ '' Bps/Pps[tx:'' @
               rate_unit c2sspeed (i64 (c2spackets - oldc2spackets)) @ '', rx:'';
             s2cspeed = go_div (i64 (s2cbytes - olds2cbytes)) 5
         in Some (s, speedStr @ rate_unit s2cspeed (i64 (s2cpackets - olds2cpackets)) @ '']'')))
   }"

section \<open>The statistics of a packet\<close>

definition dpi_part ::
    "('f, 'u) env \<Rightarrow> reassembly \<Rightarrow> ('f, 'u) stream \<times> ('f, 'u) log_line list \<Rightarrow>
     (('f, 'u) stream \<times> ('f, 'u) log_line list) option" where
  "dpi_part E ret sl =
     (case sl of (s, lg) \<Rightarrow>
        (if length (ra_Bytes ret) > 0 \<and>
            ((s_StreamType s = UNKNOWN \<and> s_dpitotal s \<le> 5) \<or>
             s_StreamType s = HTTP_REQUEST \<or> s_StreamType s = HTTP)
         then do {
           let s = s\<lparr>s_dpitotal := i64 (s_dpitotal s + 1)\<rparr>;
           eng \<leftarrow> s_dpier s;
           evs \<leftarrow> DPIDecoder eng (e_order E) (ra_Bytes ret) (ra_Seen ret) True;
           dpicb_all E evs (s, lg)
         }
         else Some (s, lg)))"

text \<open>The round-trip time of an answered segment; the second result says whether the packet is
  handled further, which it is not when its time is before that of the segment it answers.\<close>

definition rtt_sample :: "reassembly \<Rightarrow> 'f RTTCacheValue \<Rightarrow> ('f, 'u) stream \<Rightarrow> ('f, 'u) stream \<times> bool" where
  "rtt_sample ret value s =
     (let s = s\<lparr>s_RttCount := i64 (s_RttCount s + 1)\<rparr>;
          rtt = time_Sub (ra_Seen ret) (Seen value);
          rttt = go_div rtt 1000
      in if rttt < 0 then (s, False)
         else
           (let s = (if s_RttCount s = 1 then s\<lparr>s_SYNRTT := rttt\<rparr> else s);
                s = (if rttt < s_MinRTT s then s\<lparr>s_MinRTT := rttt\<rparr> else s);
                s = (if rttt > s_MaxRTT s then s\<lparr>s_MaxRTT := rttt\<rparr> else s)
            in (s\<lparr>s_TotalRTT := i64 (s_TotalRTT s + rttt)\<rparr>, True)))"

text \<open>The state a packet's statistics read and change: the stream, the counters of the interfaces
  and the log.\<close>

type_synonym ('f, 'u) local_state =
  "('f, 'u) stream \<times> (nat \<Rightarrow> Stats) \<times> ('f, 'u) log_line list"

definition with_dpi ::
    "('f, 'u) env \<Rightarrow> reassembly \<Rightarrow> ('f, 'u) local_state \<Rightarrow> ('f, 'u) local_state option" where
  "with_dpi E ret L =
     (case L of (s, sts, lg) \<Rightarrow> map_option (\<lambda>(s, lg). (s, sts, lg)) (dpi_part E ret (s, lg)))"

definition conn_stat ::
    "('f, 'u) env \<Rightarrow> side \<Rightarrow> reassembly \<Rightarrow> ('f, 'u) local_state \<Rightarrow> ('f, 'u) local_state option" where
  "conn_stat E d ret L = do {
     let (s, sts, lg) = L;
     let G = e_flow E;
     c \<leftarrow> get_conn d s;
     let bytes = int (length (ra_Bytes ret));
     let c = c\<lparr>c_Bytes := i64 (c_Bytes c + bytes), c_Packets := i64 (c_Packets c + 1)\<rparr>;
     let s = set_conn d c s;
     rc \<leftarrow> s_RttCache s;
     (if c_cli2srv c then do {
        let rcKey =
          (if length (ra_Bytes ret) > 0
           then \<lparr>Net = fst (c_key c), Transport = snd (c_key c), Seq = i64 (ra_Seq ret + bytes)\<rparr>
           else \<lparr>Net = fst (c_key c), Transport = snd (c_key c), Seq = i64 (ra_Seq ret + 1)\<rparr>);
        let (rc', r) = Push rc rcKey (ra_Seen ret);
        let s = s\<lparr>s_RttCache := Some rc'\<rparr>;
        (case r of
           Inl err \<Rightarrow> Some (s, sts, lg @ [LogPushFailed (s_key s) rcKey err])
         | Inr _ \<Rightarrow> do {
             j \<leftarrow> s_stat s;
             let sts = sts(j := AddTXPackets (AddTXBytes (sts j) bytes) 1);
             with_dpi E ret (s, sts, lg)
           })
      }
      else do {
        let rcKey = \<lparr>Net = fl_Reverse G (fst (c_key c)), Transport = fl_Reverse G (snd (c_key c)),
                     Seq = ra_Ack ret\<rparr>;
        let (rc', r) = Pull G rc rcKey;
        let s = s\<lparr>s_RttCache := Some rc'\<rparr>;
        (case r of
           Inl err \<Rightarrow> Some (s, sts, lg @ [LogPullFailed (s_key s) rcKey err])
         | Inr v \<Rightarrow> do {
             j \<leftarrow> s_stat s;
             let sts = sts(j := AddRXPackets (AddRXBytes (sts j) bytes) 1);
             (case v of
                None \<Rightarrow> with_dpi E ret (s, sts, lg)
              | Some value \<Rightarrow>
                  (let (s, more) = rtt_sample ret value s
                   in if more then with_dpi E ret (s, sts, lg) else Some (s, sts, lg)))
           })
      })
   }"

section \<open>Well-formed streams\<close>

fun side_key :: "('f, 'u) env \<Rightarrow> side \<Rightarrow> ('f, 'u) stream \<Rightarrow> 'f key" where
  "side_key E C2S s = s_key s"
| "side_key E S2C s = key_Reverse (e_flow E) (s_key s)"

definition conn_wf :: "('f, 'u) env \<Rightarrow> side \<Rightarrow> ('f, 'u) stream \<Rightarrow> bool" where
  "conn_wf E d s \<longleftrightarrow>
     (\<exists>c. get_conn d s = Some c \<and> c_reverse c = Some (other_side d) \<and> c_cli2srv c = (d = C2S) \<and>
        c_key c = side_key E d s)"

text \<open>A stream that has been reset at least once: none of the pointers its operations follow is nil.\<close>

definition stream_wf :: "('f, 'u) env \<Rightarrow> ('f, 'u) stream \<Rightarrow> bool" where
  "stream_wf E s \<longleftrightarrow>
     s_pool s \<and> conn_wf E C2S s \<and> conn_wf E S2C s \<and> s_data s \<noteq> None \<and> s_stat s \<noteq> None \<and>
     s_dpier s = DefaultDPIEnginer (e_net E) \<and> (\<exists>rc. s_RttCache s = Some rc \<and> cache_inv rc)"

text \<open>A stream in use: its map leads from its two keys to its two connections, its cache is open.\<close>

definition live_map :: "('f, 'u) env \<Rightarrow> 'f key \<Rightarrow> 'f key \<rightharpoonup> side" where
  "live_map E k = [k \<mapsto> C2S, key_Reverse (e_flow E) k \<mapsto> S2C]"

definition conn_open :: "side \<Rightarrow> ('f, 'u) stream \<Rightarrow> bool" where
  "conn_open d s \<longleftrightarrow> (\<forall>c. get_conn d s = Some c \<longrightarrow> \<not> c_closed c)"

definition stream_live :: "('f, 'u) env \<Rightarrow> ('f, 'u) stream \<Rightarrow> bool" where
  "stream_live E s \<longleftrightarrow>
     stream_wf E s \<and> \<not> s_closed s \<and> s_connMap s = live_map E (s_key s) \<and>
     (\<forall>rc. s_RttCache s = Some rc \<longrightarrow> \<not> cclosed rc) \<and> conn_open C2S s \<and> conn_open S2C s"

text \<open>A stream in the free list: a zero value, or a closed stream that keeps no key and no segment.\<close>

definition stream_idle :: "('f, 'u) env \<Rightarrow> ('f, 'u) stream \<Rightarrow> bool" where
  "stream_idle E s \<longleftrightarrow>
     s = zero_stream E \<or>
     (stream_wf E s \<and> s_closed s \<and> s_connMap s = Map.empty \<and>
      (\<forall>rc. s_RttCache s = Some rc \<longrightarrow> cclosed rc \<and> content rc = []))"

lemma other_other [simp]: "other_side (other_side d) = d"
  by (cases d) simp_all

lemma other_neq [simp]: "other_side d \<noteq> d"
  by (cases d) simp_all

lemma get_set_conn [simp]:
  "get_conn d (set_conn d c s) = Some c"
  "d' \<noteq> d \<Longrightarrow> get_conn d' (set_conn d c s) = get_conn d' s"
  by (cases d; cases d'; simp)+

lemma set_conn_frame [simp]:
  "s_pool (set_conn d c s) = s_pool s" "s_key (set_conn d c s) = s_key s"
  "s_connMap (set_conn d c s) = s_connMap s" "s_data (set_conn d c s) = s_data s"
  "s_firstSeen (set_conn d c s) = s_firstSeen s" "s_lastSeen (set_conn d c s) = s_lastSeen s"
  "s_closed (set_conn d c s) = s_closed s" "s_RttCache (set_conn d c s) = s_RttCache s"
  "s_stat (set_conn d c s) = s_stat s" "s_dpier (set_conn d c s) = s_dpier s"
  "s_StreamType (set_conn d c s) = s_StreamType s" "s_dpitotal (set_conn d c s) = s_dpitotal s"
  "s_Req (set_conn d c s) = s_Req s" "s_Resp (set_conn d c s) = s_Resp s"
  "s_MinRTT (set_conn d c s) = s_MinRTT s" "s_MaxRTT (set_conn d c s) = s_MaxRTT s"
  "s_TotalRTT (set_conn d c s) = s_TotalRTT s" "s_RttCount (set_conn d c s) = s_RttCount s"
  "s_SYNRTT (set_conn d c s) = s_SYNRTT s"
  by (cases d; simp)+

lemma side_key_reverse:
  assumes "flow_laws (e_flow E)"
  shows "key_Reverse (e_flow E) (side_key E d s) = side_key E (other_side d) s"
  using assms by (cases d) (simp_all add: key_Reverse_def flow_laws_def)

text \<open>What the statistics of a packet never touch.\<close>

definition same_frame :: "('f, 'u) stream \<Rightarrow> ('f, 'u) stream \<Rightarrow> bool" where
  "same_frame s s' \<longleftrightarrow>
     s_pool s' = s_pool s \<and> s_key s' = s_key s \<and> s_connMap s' = s_connMap s \<and>
     s_data s' = s_data s \<and> s_firstSeen s' = s_firstSeen s \<and> s_lastSeen s' = s_lastSeen s \<and>
     s_closed s' = s_closed s \<and> s_stat s' = s_stat s \<and> s_dpier s' = s_dpier s"

definition rtt_frame :: "('f, 'u) stream \<Rightarrow> ('f, 'u) stream \<Rightarrow> bool" where
  "rtt_frame s s' \<longleftrightarrow>
     s_c2s s' = s_c2s s \<and> s_s2c s' = s_s2c s \<and> s_RttCache s' = s_RttCache s"

definition dpi_frame :: "('f, 'u) stream \<Rightarrow> ('f, 'u) stream \<Rightarrow> bool" where
  "dpi_frame s s' \<longleftrightarrow>
     same_frame s s' \<and> rtt_frame s s' \<and> s_SYNRTT s' = s_SYNRTT s \<and> s_MinRTT s' = s_MinRTT s \<and>
     s_MaxRTT s' = s_MaxRTT s \<and> s_TotalRTT s' = s_TotalRTT s \<and> s_RttCount s' = s_RttCount s"

lemmas frame_defs = same_frame_def rtt_frame_def dpi_frame_def

lemma dpi_frame_refl [simp, intro]: "dpi_frame s s"
  by (simp add: frame_defs)

lemma dpi_frame_trans: "dpi_frame s t \<Longrightarrow> dpi_frame t u \<Longrightarrow> dpi_frame s u"
  by (simp add: frame_defs)

lemma get_conn_rtt_frame: "rtt_frame s s' \<Longrightarrow> get_conn d s' = get_conn d s"
  by (cases d) (simp_all add: rtt_frame_def)

section \<open>The callback and the decoder do not panic\<close>

lemma dpicb_typed:
  assumes "event_typed ev"
  obtains s' lg' where "dpicb E ev (s, lg) = Some (s', lg')" "dpi_frame s s'"
  using assms
proof (cases ev rule: event_typed.cases)
  case (1 rq)
  with that show ?thesis by (auto simp: dpicb_def frame_defs)
next
  case (2 rs)
  with that show ?thesis
    by (cases "s_Req s") (auto simp: dpicb_def frame_defs Let_def)
qed (simp_all add: \<open>event_typed ev\<close>)

lemma dpicb_all_typed:
  "list_all event_typed evs \<Longrightarrow>
   \<exists>s' lg'. dpicb_all E evs (s, lg) = Some (s', lg') \<and> dpi_frame s s'"
proof (induction evs arbitrary: s lg)
  case Nil
  then show ?case by simp
next
  case (Cons ev evs)
  then have "event_typed ev" by simp
  then obtain s1 lg1 where 1: "dpicb E ev (s, lg) = Some (s1, lg1)" "dpi_frame s s1"
    by (rule dpicb_typed)
  with Cons obtain s2 lg2 where "dpicb_all E evs (s1, lg1) = Some (s2, lg2)" "dpi_frame s1 s2"
    by fastforce
  with 1 show ?case using dpi_frame_trans by auto
qed

lemma dpi_part_safe:
  assumes "s_dpier s = DefaultDPIEnginer (e_net E)"
  shows "\<exists>s' lg'. dpi_part E ret (s, lg) = Some (s', lg') \<and> dpi_frame s s'"
proof -
  let ?s = "s\<lparr>s_dpitotal := i64 (s_dpitotal s + 1)\<rparr>"
  obtain eng evs where eng: "DefaultDPIEnginer (e_net E) = Some eng"
      "DPIDecoder eng (e_order E) (ra_Bytes ret) (ra_Seen ret) True = Some evs"
      "list_all event_typed evs"
    using Dpi.DPIDecoder_total [of "e_net E"] by metis
  obtain s' lg' where "dpicb_all E evs (?s, lg) = Some (s', lg')" "dpi_frame ?s s'"
    using dpicb_all_typed [OF eng(3)] by blast
  moreover have "dpi_frame s ?s" by (simp add: frame_defs)
  ultimately show ?thesis using assms eng dpi_frame_trans
    by (auto simp: dpi_part_def)
qed

lemma with_dpi_safe:
  assumes "s_dpier s = DefaultDPIEnginer (e_net E)"
  obtains s' lg' where "with_dpi E ret (s, sts, lg) = Some (s', sts, lg')" "dpi_frame s s'"
proof -
  obtain s' lg' where "dpi_part E ret (s, lg) = Some (s', lg')" "dpi_frame s s'"
    using dpi_part_safe [OF assms] by blast
  then show thesis using that by (simp add: with_dpi_def)
qed

lemma rtt_sample_frame:
  "same_frame s (fst (rtt_sample ret v s))" "rtt_frame s (fst (rtt_sample ret v s))"
  by (simp_all add: rtt_sample_def Let_def frame_defs)

lemma same_frame_refl [simp]: "same_frame s s"
  by (simp add: same_frame_def)

lemma rtt_frame_refl [simp]: "rtt_frame s s"
  by (simp add: rtt_frame_def)

lemma same_frame_trans: "same_frame s t \<Longrightarrow> same_frame t u \<Longrightarrow> same_frame s u"
  by (simp add: same_frame_def)

lemma rtt_frame_trans: "rtt_frame s t \<Longrightarrow> rtt_frame t u \<Longrightarrow> rtt_frame s u"
  by (simp add: rtt_frame_def)

section \<open>What the statistics of a packet do\<close>

definition count_packet :: "'f conn \<Rightarrow> int \<Rightarrow> 'f conn" where
  "count_packet c n =
     c\<lparr>c_Bytes := i64 (c_Bytes c + n), c_Packets := i64 (c_Packets c + 1)\<rparr>"

definition data_key :: "'f conn \<Rightarrow> reassembly \<Rightarrow> 'f RTTCacheKey" where
  "data_key c ret =
     \<lparr>Net = fst (c_key c), Transport = snd (c_key c),
      Seq = (if length (ra_Bytes ret) > 0 then i64 (ra_Seq ret + int (length (ra_Bytes ret)))
             else i64 (ra_Seq ret + 1))\<rparr>"

definition ack_key :: "'f flow_api \<Rightarrow> 'f conn \<Rightarrow> reassembly \<Rightarrow> 'f RTTCacheKey" where
  "ack_key G c ret =
     \<lparr>Net = fl_Reverse G (fst (c_key c)), Transport = fl_Reverse G (snd (c_key c)), Seq = ra_Ack ret\<rparr>"

lemma conn_stat_c2s:
  assumes "stream_wf E s" and rc: "s_RttCache s = Some rc" "\<not> cclosed rc"
    and c: "s_c2s s = Some c" and j: "s_stat s = Some j"
  obtains s' lg' where
    "conn_stat E C2S ret (s, sts, lg) = Some (s',
       sts(j := AddTXPackets (AddTXBytes (sts j) (int (length (ra_Bytes ret)))) 1), lg')"
    "dpi_frame (s\<lparr>s_c2s := Some (count_packet c (int (length (ra_Bytes ret)))),
       s_RttCache := Some (fst (Push rc (data_key c ret) (ra_Seen ret)))\<rparr>) s'"
proof -
  let ?sts = "sts(j := AddTXPackets (AddTXBytes (sts j) (int (length (ra_Bytes ret)))) 1)"
  let ?s = "s\<lparr>s_c2s := Some (count_packet c (int (length (ra_Bytes ret)))),
    s_RttCache := Some (fst (Push rc (data_key c ret) (ra_Seen ret)))\<rparr>"
  have "s_dpier ?s = DefaultDPIEnginer (e_net E)" using assms by (simp add: stream_wf_def)
  then obtain s' lg' where w: "with_dpi E ret (?s, ?sts, lg) = Some (s', ?sts, lg')" "dpi_frame ?s s'"
    by (rule with_dpi_safe)
  have inv: "cache_inv rc" and cli: "c_cli2srv c"
    using assms by (auto simp: stream_wf_def conn_wf_def)
  obtain rc' b where p: "Push rc (data_key c ret) (ra_Seen ret) = (rc', Inr b)"
    using rtt.push_result [OF inv rc(2)] by (metis prod.collapse)
  have "conn_stat E C2S ret (s, sts, lg) = Some (s', ?sts, lg')"
    using w(1) p rc c cli j
    by (simp add: conn_stat_def data_key_def [symmetric] count_packet_def Let_def data_key_def
        split: if_splits)
  with w(2) show thesis using that by blast
qed

lemma conn_stat_s2c:
  assumes "stream_wf E s" and rc: "s_RttCache s = Some rc" "\<not> cclosed rc"
    and c: "s_s2c s = Some c" and j: "s_stat s = Some j"
  obtains s' lg' v where
    "snd (Pull (e_flow E) rc (ack_key (e_flow E) c ret)) = Inr v"
    "conn_stat E S2C ret (s, sts, lg) = Some (s',
       sts(j := AddRXPackets (AddRXBytes (sts j) (int (length (ra_Bytes ret)))) 1), lg')"
    "dpi_frame (let s1 = s\<lparr>s_s2c := Some (count_packet c (int (length (ra_Bytes ret)))),
        s_RttCache := Some (fst (Pull (e_flow E) rc (ack_key (e_flow E) c ret)))\<rparr>
      in case v of None \<Rightarrow> s1 | Some value \<Rightarrow> fst (rtt_sample ret value s1)) s'"
proof -
  let ?G = "e_flow E"
  let ?sts = "sts(j := AddRXPackets (AddRXBytes (sts j) (int (length (ra_Bytes ret)))) 1)"
  let ?s = "s\<lparr>s_s2c := Some (count_packet c (int (length (ra_Bytes ret)))),
    s_RttCache := Some (fst (Pull ?G rc (ack_key ?G c ret)))\<rparr>"
  have inv: "cache_inv rc" and cli: "\<not> c_cli2srv c"
    using assms by (auto simp: stream_wf_def conn_wf_def)
  obtain rc' v where p: "Pull ?G rc (ack_key ?G c ret) = (rc', Inr v)"
    using rtt.pull_result [OF inv rc(2)] by (metis prod.collapse)
  let ?t = "case v of None \<Rightarrow> ?s | Some value \<Rightarrow> fst (rtt_sample ret value ?s)"
  have "same_frame ?s ?t" by (cases v) (simp_all add: rtt_sample_frame)
  then have t: "s_dpier ?t = DefaultDPIEnginer (e_net E)"
    using assms by (auto simp: stream_wf_def same_frame_def)
  obtain s' lg' where w: "with_dpi E ret (?t, ?sts, lg) = Some (s', ?sts, lg')" "dpi_frame ?t s'"
    using with_dpi_safe [OF t] by blast
  have step: "conn_stat E S2C ret (s, sts, lg) =
      (case v of None \<Rightarrow> with_dpi E ret (?s, ?sts, lg)
       | Some value \<Rightarrow>
         (let (s, more) = rtt_sample ret value ?s
          in if more then with_dpi E ret (s, ?sts, lg) else Some (s, ?sts, lg)))"
    using p rc c cli j
    by (cases v) (simp_all add: conn_stat_def ack_key_def count_packet_def Let_def)
  have "snd (Pull ?G rc (ack_key ?G c ret)) = Inr v" using p by simp
  show thesis
  proof (cases "v \<noteq> None \<and> \<not> snd (rtt_sample ret (the v) ?s)")
    case True
    then have "conn_stat E S2C ret (s, sts, lg) = Some (?t, ?sts, lg)"
      unfolding step by (auto simp: split_beta)
    then show ?thesis using that \<open>snd _ = Inr v\<close> by (simp add: Let_def)
  next
    case False
    then have "conn_stat E S2C ret (s, sts, lg) = Some (s', ?sts, lg')"
      unfolding step using w(1) by (cases v) (auto simp: split_beta)
    then show ?thesis using that w(2) \<open>snd _ = Inr v\<close> by (simp add: Let_def)
  qed
qed

lemma count_packet_simps [simp]:
  "c_reverse (count_packet c n) = c_reverse c" "c_cli2srv (count_packet c n) = c_cli2srv c"
  "c_key (count_packet c n) = c_key c" "c_closed (count_packet c n) = c_closed c"
  "c_waitClose (count_packet c n) = c_waitClose c"
  by (simp_all add: count_packet_def)

lemma side_key_frame: "same_frame s s' \<Longrightarrow> side_key E d s' = side_key E d s"
  by (cases d) (simp_all add: same_frame_def)

lemma stream_live_cong:
  assumes live: "stream_live E s" and fr: "same_frame s s'"
    and rc: "s_RttCache s' = Some rc" "cache_inv rc" "\<not> cclosed rc"
    and o: "get_conn (other_side d) s' = get_conn (other_side d) s"
    and c: "get_conn d s = Some c" "get_conn d s' = Some c'"
    and c': "c_reverse c' = c_reverse c" "c_cli2srv c' = c_cli2srv c" "c_key c' = c_key c"
      "c_closed c' = c_closed c"
  shows "stream_live E s'"
proof -
  have old: "conn_wf E d' s \<and> conn_open d' s" for d'
    using live by (cases d') (simp_all add: stream_live_def stream_wf_def)
  have "conn_wf E d s' \<and> conn_open d s'"
    using old [of d] c c' side_key_frame [OF fr] by (simp add: conn_wf_def conn_open_def)
  moreover have "conn_wf E (other_side d) s' \<and> conn_open (other_side d) s'"
    using old [of "other_side d"] o side_key_frame [OF fr] by (simp add: conn_wf_def conn_open_def)
  ultimately have w: "conn_wf E d' s' \<and> conn_open d' s'" for d'
    by (cases d; cases d'; simp)
  then show ?thesis
    using live fr rc unfolding stream_live_def stream_wf_def same_frame_def by auto
qed

lemma live_conn:
  assumes "stream_live E s"
  obtains c where "get_conn d s = Some c" "\<not> c_closed c" "c_reverse c = Some (other_side d)"
    "c_cli2srv c = (d = C2S)" "c_key c = side_key E d s"
  using assms by (cases d) (auto simp: stream_live_def stream_wf_def conn_wf_def conn_open_def)

lemma live_cache:
  assumes "stream_live E s"
  obtains rc where "s_RttCache s = Some rc" "cache_inv rc" "\<not> cclosed rc"
  using assms by (auto simp: stream_live_def stream_wf_def)

text \<open>A packet's statistics: nothing panics, its connection counts it, the stream stays live.\<close>

lemma conn_stat_live:
  assumes live: "stream_live E s" and c: "get_conn d s = Some c"
  obtains s' sts' lg' where "conn_stat E d ret (s, sts, lg) = Some (s', sts', lg')"
    "stream_live E s'" "same_frame s s'" "get_conn (other_side d) s' = get_conn (other_side d) s"
    "get_conn d s' = Some (count_packet c (int (length (ra_Bytes ret))))"
proof -
  let ?n = "int (length (ra_Bytes ret))"
  obtain rc where rc: "s_RttCache s = Some rc" "cache_inv rc" "\<not> cclosed rc"
    using live by (rule live_cache)
  have wf: "stream_wf E s" using live by (simp add: stream_live_def)
  then obtain j where j: "s_stat s = Some j" by (auto simp: stream_wf_def)
  show thesis
  proof (cases d)
    case C2S
    let ?rc = "fst (Push rc (data_key c ret) (ra_Seen ret))"
    obtain s' sts' lg' where st: "conn_stat E C2S ret (s, sts, lg) = Some (s', sts', lg')"
      and fr: "dpi_frame (s\<lparr>s_c2s := Some (count_packet c ?n), s_RttCache := Some ?rc\<rparr>) s'"
      using conn_stat_c2s [OF wf rc(1,3) _ j, of c ret sts lg] c C2S by (metis get_conn.simps(1))
    have "same_frame s s'" "s_RttCache s' = Some ?rc" "s_c2s s' = Some (count_packet c ?n)"
      "s_s2c s' = s_s2c s" using fr by (simp_all add: frame_defs)
    moreover have "cache_inv ?rc" "\<not> cclosed ?rc"
      using rc rtt.push_inv rtt.push_frame by (blast, metis)
    ultimately have "stream_live E s'"
      using stream_live_cong [OF live, of s' ?rc C2S c "count_packet c ?n"] c C2S by simp
    then show ?thesis using that st C2S \<open>same_frame s s'\<close> \<open>s_c2s s' = _\<close> \<open>s_s2c s' = _\<close> by simp
  next
    case S2C
    let ?rc = "fst (Pull (e_flow E) rc (ack_key (e_flow E) c ret))"
    let ?s = "s\<lparr>s_s2c := Some (count_packet c ?n), s_RttCache := Some ?rc\<rparr>"
    obtain s' sts' lg' v where st: "conn_stat E S2C ret (s, sts, lg) = Some (s', sts', lg')"
      and fr: "dpi_frame (let s1 = ?s in
        case v of None \<Rightarrow> s1 | Some value \<Rightarrow> fst (rtt_sample ret value s1)) s'"
      using conn_stat_s2c [OF wf rc(1,3) _ j, of c ret sts lg] c S2C by (metis get_conn.simps(2))
    let ?t = "case v of None \<Rightarrow> ?s | Some value \<Rightarrow> fst (rtt_sample ret value ?s)"
    have "same_frame ?s ?t" "rtt_frame ?s ?t"
      by (cases v; simp add: rtt_sample_frame)+
    moreover have "same_frame ?t s'" "rtt_frame ?t s'"
      using fr unfolding dpi_frame_def Let_def by blast+
    ultimately have "same_frame ?s s'" "rtt_frame ?s s'"
      using same_frame_trans rtt_frame_trans by blast+
    then have "same_frame s s'" "s_RttCache s' = Some ?rc" "s_s2c s' = Some (count_packet c ?n)"
      "s_c2s s' = s_c2s s" by (simp_all add: frame_defs)
    moreover have "cache_inv ?rc" "\<not> cclosed ?rc"
      using rc rtt.pull_inv rtt.pull_frame by (blast, metis)
    ultimately have "stream_live E s'"
      using stream_live_cong [OF live, of s' ?rc S2C c "count_packet c ?n"] c S2C by simp
    then show ?thesis using that st S2C \<open>same_frame s s'\<close> \<open>s_s2c s' = _\<close> \<open>s_c2s s' = _\<close> by simp
  qed
qed

section \<open>Life cycle\<close>

lemma set_reverse_Some [simp]: "set_reverse d (Some c) = Some (c\<lparr>c_reverse := Some d\<rparr>)"
  by (simp add: set_reverse_def)

lemma cache_inv_New: "cache_inv (NewRTTCache d)" "content (NewRTTCache d) = []"
  by (simp_all add: cache_inv_def content_def NewRTTCache_def)

lemma cache_inv_closed_flag [simp]: "cache_inv (c\<lparr>cclosed := b\<rparr>) = cache_inv c"
  by (simp add: cache_inv_def)

lemma content_closed_flag [simp]: "content (c\<lparr>cclosed := b\<rparr>) = content c"
  by (simp add: content_def)

text \<open>Resetting any idle stream gives a live stream for the key, with all its measurements cleared.\<close>

lemma stream_reset_live:
  assumes "stream_idle E s"
  shows "stream_live E (stream_reset E s k j ts)"
    and "s_key (stream_reset E s k j ts) = k"
    and "\<exists>rc. s_RttCache (stream_reset E s k j ts) = Some rc \<and> content rc = []"
proof -
  let ?t = "stream_reset E s k j ts"
  have dp: "s_dpier s = None \<or> s_dpier s = DefaultDPIEnginer (e_net E)"
    using assms by (auto simp: stream_idle_def stream_wf_def zero_stream_def)
  have map: "s_connMap s = Map.empty" using assms by (auto simp: stream_idle_def zero_stream_def)
  have rc: "s_RttCache s = None \<or> (\<exists>rc. s_RttCache s = Some rc \<and> cache_inv rc \<and> content rc = [])"
    using assms by (auto simp: stream_idle_def stream_wf_def zero_stream_def)
  show key: "s_key ?t = k" by (simp add: stream_reset_def Let_def)
  have conns: "conn_wf E d ?t" "conn_open d ?t" for d
    by (cases d; simp add: conn_wf_def conn_open_def stream_reset_def Let_def newConn_def
        conn_reset_def split: option.split)+
  have cache: "\<exists>rc. s_RttCache ?t = Some rc \<and> cache_inv rc \<and> \<not> cclosed rc \<and> content rc = []"
    using rc cache_inv_New by (auto simp: stream_reset_def Let_def Reset_def)
  then show "\<exists>rc. s_RttCache ?t = Some rc \<and> content rc = []" by blast
  have misc: "s_pool ?t" "s_stat ?t = Some j" "\<not> s_closed ?t" "s_data ?t \<noteq> None"
    "s_dpier ?t = DefaultDPIEnginer (e_net E)" "s_connMap ?t = live_map E k"
    using dp map by (auto simp: stream_reset_def Let_def live_map_def DefaultDPIEnginer_Some
        split: option.split)
  show "stream_live E ?t"
    unfolding stream_live_def stream_wf_def using conns cache misc key by auto
qed

section \<open>Round-trip times\<close>

text \<open>The samples of a stream, in microseconds, in the order they are taken.\<close>

definition sample_us :: "reassembly \<times> 'f RTTCacheValue \<Rightarrow> int" where
  "sample_us x = go_div (time_Sub (ra_Seen (fst x)) (Seen (snd x))) 1000"

fun rtt_run :: "(reassembly \<times> 'f RTTCacheValue) list \<Rightarrow> ('f, 'u) stream \<Rightarrow> ('f, 'u) stream" where
  "rtt_run [] s = s"
| "rtt_run (x # xs) s = rtt_run xs (fst (rtt_sample (fst x) (snd x) s))"

definition good_samples :: "(reassembly \<times> 'f RTTCacheValue) list \<Rightarrow> int list" where
  "good_samples xs = filter (\<lambda>r. 0 \<le> r) (map sample_us xs)"

lemma rtt_sample_fields:
  fixes x :: "reassembly \<times> 'f RTTCacheValue"
  defines "r \<equiv> sample_us x"
  defines "t s \<equiv> fst (rtt_sample (fst x) (snd x) s)"
  shows "s_RttCount (t s) = i64 (s_RttCount s + 1)"
    and "s_MinRTT (t s) = (if 0 \<le> r then min r (s_MinRTT s) else s_MinRTT s)"
    and "s_MaxRTT (t s) = (if 0 \<le> r then max r (s_MaxRTT s) else s_MaxRTT s)"
    and "s_TotalRTT (t s) = (if 0 \<le> r then i64 (s_TotalRTT s + r) else s_TotalRTT s)"
    and "s_SYNRTT (t s) = (if 0 \<le> r \<and> i64 (s_RttCount s + 1) = 1 then r else s_SYNRTT s)"
  unfolding r_def t_def by (simp_all add: rtt_sample_def sample_us_def Let_def)

lemma i64_i64_add: "i64 (i64 x + y) = i64 (x + y)"
proof -
  have "take_bit 64 (i64 x + y) = take_bit 64 (x + y)"
    using i64_add_cong [of x y] by (simp add: take_bit_eq_mod)
  then show ?thesis unfolding i64_def
    by (metis signed_take_bit_eq_iff_take_bit_eq Suc_numeral semiring_norm(5) semiring_norm(2) semiring_norm(8))
qed

lemma rtt_run_fields:
  "s_MinRTT (rtt_run xs s) = fold min (good_samples xs) (s_MinRTT s)"
  "s_MaxRTT (rtt_run xs s) = fold max (good_samples xs) (s_MaxRTT s)"
  "is_i64 (s_TotalRTT s) \<Longrightarrow>
     s_TotalRTT (rtt_run xs s) = i64 (s_TotalRTT s + sum_list (good_samples xs))"
  "is_i64 (s_RttCount s) \<Longrightarrow> s_RttCount (rtt_run xs s) = i64 (s_RttCount s + int (length xs))"
proof (induction xs arbitrary: s)
  case (Cons x xs)
  {
    case 1
    show ?case using Cons(1)
      by (simp add: rtt_sample_fields good_samples_def)
  next
    case 2
    show ?case using Cons(2)
      by (simp add: rtt_sample_fields good_samples_def)
  next
    case 3
    have "is_i64 (s_TotalRTT (fst (rtt_sample (fst x) (snd x) s)))"
      using 3 i64_ge i64_less by (simp add: rtt_sample_fields)
    from Cons(3) [OF this] show ?case
      by (simp add: rtt_sample_fields good_samples_def i64_i64_add add.assoc)
  next
    case 4
    have "is_i64 (s_RttCount (fst (rtt_sample (fst x) (snd x) s)))"
      using i64_ge i64_less by (simp add: rtt_sample_fields)
    from Cons(4) [OF this] show ?case
      by (simp add: rtt_sample_fields i64_i64_add add.assoc)
  }
qed (simp_all add: good_samples_def)

lemma stream_reset_rtt:
  "s_MinRTT (stream_reset E s k j ts) = max_int64" "s_MaxRTT (stream_reset E s k j ts) = min_int64"
  "s_TotalRTT (stream_reset E s k j ts) = 0" "s_RttCount (stream_reset E s k j ts) = 0"
  "s_SYNRTT (stream_reset E s k j ts) = - 1" "s_dpitotal (stream_reset E s k j ts) = 0"
  "s_StreamType (stream_reset E s k j ts) = UNKNOWN" "s_Req (stream_reset E s k j ts) = None"
  "s_Resp (stream_reset E s k j ts) = None"
  by (simp_all add: stream_reset_def Let_def)

text \<open>C9: the round-trip statistics of a stream, from its reset on and for any sequence of answered
  segments: the minimum, the maximum and the total are those of the samples that are not negative, but
  the count, by which the total is divided for the average, also counts the negative ones; a stream all
  of whose samples are negative keeps the two sentinels and a count that is not zero.\<close>

theorem rtt_statistics:
  fixes xs :: "(reassembly \<times> 'f RTTCacheValue) list"
  defines "g \<equiv> good_samples xs"
  shows "s_MinRTT (rtt_run xs (stream_reset E s k j ts)) = Min (set (max_int64 # g)) \<and>
    s_MaxRTT (rtt_run xs (stream_reset E s k j ts)) = Max (set (min_int64 # g)) \<and>
    s_TotalRTT (rtt_run xs (stream_reset E s k j ts)) = i64 (sum_list g) \<and>
    s_RttCount (rtt_run xs (stream_reset E s k j ts)) = i64 (int (length xs))"
proof -
  let ?s = "stream_reset E s k j ts"
  have t: "s_TotalRTT (rtt_run xs ?s) = i64 (s_TotalRTT ?s + sum_list (good_samples xs))"
    by (rule rtt_run_fields) (simp add: stream_reset_rtt)
  have c: "s_RttCount (rtt_run xs ?s) = i64 (s_RttCount ?s + int (length xs))"
    by (rule rtt_run_fields) (simp add: stream_reset_rtt)
  show ?thesis
    unfolding g_def Min.set_eq_fold Max.set_eq_fold
    using t c rtt_run_fields(1,2) [of xs ?s] by (simp add: stream_reset_rtt)
qed

theorem rtt_statistics_negative:
  "RTTStat (s\<lparr>s_RttCount := 1, s_SYNRTT := - 1, s_TotalRTT := 0, s_MinRTT := max_int64,
      s_MaxRTT := min_int64\<rparr>) =
     ''RTT[syn:-1'' @ micro_s @ ''/max:-9223372036854775808'' @ micro_s @
     ''/min:9223372036854(s)/avg:0'' @ micro_s @ ''|1]''"
  by (simp add: RTTStat_def rtt_unit_def max_int64_def min_int64_def dec_int_def dec_nat.simps
      go_div_def digit_chars)

lemma side_keys_meet:
  assumes "flow_laws (e_flow E)" "c_key a = side_key E C2S s" "c_key b = side_key E S2C s"
    and "ra_Ack ret = Seq (data_key a ret0)"
  shows "ack_key (e_flow E) b ret = data_key a ret0"
  using assms by (simp add: ack_key_def data_key_def key_Reverse_def flow_laws_Reverse)

lemma content_after_push:
  "cache_inv c \<Longrightarrow> \<not> cclosed c \<Longrightarrow> (k, t) \<in> set (content (fst (Push c k t)))"
  by (auto simp: content_Push spec_push_def)

lemma Pull_near:
  assumes "cache_inv c" "snd (Pull G c k) = Inr (Some v)"
  shows "Seq (vkey v) \<in> {Seq k, i64 (Seq k + 1), i64 (Seq k - 1)}"
proof (cases "cclosed c")
  case True
  then show ?thesis using assms by (simp add: Pull_def)
next
  case op: False
  show ?thesis
  proof (cases "cache c k")
    case None
    then show ?thesis using assms op
      by (cases "snd (pullScan G k (linkedList c) c None)")
        (auto simp: Pull_def Let_def split_beta split: if_splits)
  next
    case (Some e)
    then obtain v' where v': "(e, v') \<in> set (linkedList c)" "vkey v' = k"
      using assms(1) by (auto simp: cache_inv_Some)
    then have "map_of (linkedList c) e = Some v'"
      using cache_inv_distinct [OF assms(1)] by simp
    then show ?thesis using assms op Some v' by (simp add: Pull_def)
  qed
qed

text \<open>C8: a round trip: on a live stream a segment of the client, and then a packet of the server that
  acknowledges exactly its end (one past its sequence number when it is empty), give one sample, the
  difference of their times in microseconds, and only that one.\<close>

theorem segment_ack_roundtrip:
  assumes "stream_live E s" "flow_laws (e_flow E)"
    and "conn_stat E C2S seg (s, sts, lg) = Some L1" "conn_stat E S2C ack L1 = Some (s2, sts2, lg2)"
    and "ra_Ack ack = ra_Seq seg + max 1 (int (length (ra_Bytes seg)))" "is_i64 (ra_Ack ack)"
    and "ra_Seen seg \<le> ra_Seen ack" "ra_Seen ack - ra_Seen seg \<le> max_int64"
  shows "s_RttCount s2 = i64 (s_RttCount s + 1) \<and>
    s_TotalRTT s2 = i64 (s_TotalRTT s + (ra_Seen ack - ra_Seen seg) div 1000)"
proof -
  let ?G = "e_flow E"
  obtain rc where rc: "s_RttCache s = Some rc" "cache_inv rc" "\<not> cclosed rc"
    using assms(1) by (rule live_cache)
  have wf: "stream_wf E s" using assms(1) by (simp add: stream_live_def)
  then obtain j where j: "s_stat s = Some j" by (auto simp: stream_wf_def)
  obtain a where a: "s_c2s s = Some a" "c_key a = side_key E C2S s"
    using live_conn [OF assms(1), of C2S] by (metis get_conn.simps(1))
  obtain b where b: "s_s2c s = Some b" "c_key b = side_key E S2C s"
    using live_conn [OF assms(1), of S2C] by (metis get_conn.simps(2))
  let ?rc = "fst (Push rc (data_key a seg) (ra_Seen seg))"
  obtain s1 sts1 lg1 where st1: "conn_stat E C2S seg (s, sts, lg) = Some (s1, sts1, lg1)"
    and f1: "dpi_frame (s\<lparr>s_c2s := Some (count_packet a (int (length (ra_Bytes seg)))),
       s_RttCache := Some ?rc\<rparr>) s1"
    using conn_stat_c2s [OF wf rc(1,3) a(1) j] by metis
  have L1: "L1 = (s1, sts1, lg1)" using assms(3) st1 by simp
  obtain s1' sts1' lg1' where "conn_stat E C2S seg (s, sts, lg) = Some (s1', sts1', lg1')"
      "stream_live E s1'"
    using conn_stat_live [OF assms(1), of C2S a seg sts lg] a by (metis get_conn.simps(1))
  then have live1: "stream_live E s1" using st1 by simp
  then have wf1: "stream_wf E s1" by (simp add: stream_live_def)
  have s1: "s_RttCache s1 = Some ?rc" "s_s2c s1 = Some b" "s_stat s1 = Some j"
      "s_RttCount s1 = s_RttCount s" "s_TotalRTT s1 = s_TotalRTT s"
    using f1 b j by (simp_all add: frame_defs)
  have inv: "cache_inv ?rc" "\<not> cclosed ?rc"
    using rc rtt.push_inv rtt.push_frame by (blast, metis)
  obtain s2' sts2' lg2' v where pull: "snd (Pull ?G ?rc (ack_key ?G b ack)) = Inr v"
    and st2: "conn_stat E S2C ack (s1, sts1, lg1) = Some (s2', sts2', lg2')"
    and f2: "dpi_frame (let s3 = s1\<lparr>s_s2c := Some (count_packet b (int (length (ra_Bytes ack)))),
        s_RttCache := Some (fst (Pull ?G ?rc (ack_key ?G b ack)))\<rparr>
      in case v of None \<Rightarrow> s3 | Some value \<Rightarrow> fst (rtt_sample ack value s3)) s2'"
    using conn_stat_s2c [OF wf1 s1(1) inv(2) s1(2,3), of ack sts1 lg1] by metis
  have s2: "s2 = s2'" using assms(4) st2 L1 by simp
  have "max 1 (int (length (ra_Bytes seg))) =
      (if length (ra_Bytes seg) > 0 then int (length (ra_Bytes seg)) else 1)"
    by (cases "ra_Bytes seg") simp_all
  then have "ra_Ack ack = Seq (data_key a seg)" using assms(5,6) by (auto simp: data_key_def)
  then have key: "ack_key ?G b ack = data_key a seg"
    using side_keys_meet [OF assms(2) a(2) b(2)] by blast
  have "(data_key a seg, ra_Seen seg) \<in> set (content ?rc)"
    by (rule content_after_push [OF rc(2,3)])
  then have v: "v = Some \<lparr>vkey = data_key a seg, Seen = ra_Seen seg\<rparr>"
    using Pull_hit_content(2) [OF inv] pull key by simp
  have us: "sample_us (ack, \<lparr>vkey = data_key a seg, Seen = ra_Seen seg\<rparr>) =
      (ra_Seen ack - ra_Seen seg) div 1000"
    using assms(7,8) by (simp add: sample_us_def time_Sub_def max_int64_def min_int64_def
        go_div_nonneg)
  let ?v = "\<lparr>vkey = data_key a seg, Seen = ra_Seen seg\<rparr>"
  let ?s3 = "s1\<lparr>s_s2c := Some (count_packet b (int (length (ra_Bytes ack)))),
    s_RttCache := Some (fst (Pull ?G ?rc (ack_key ?G b ack)))\<rparr>"
  have "dpi_frame (fst (rtt_sample ack ?v ?s3)) s2'" using f2 v by (simp add: Let_def)
  then have "s_RttCount s2' = s_RttCount (fst (rtt_sample ack ?v ?s3))"
    "s_TotalRTT s2' = s_TotalRTT (fst (rtt_sample ack ?v ?s3))" by (simp_all add: dpi_frame_def)
  moreover have "0 \<le> (ra_Seen ack - ra_Seen seg) div 1000"
    using assms(7) by (simp add: pos_imp_zdiv_nonneg_iff)
  ultimately show ?thesis
    using rtt_sample_fields(1,4) [of "(ack, ?v)" ?s3] us s1(4,5) s2 by simp
qed

definition sample_env :: "(string \<times> string, string) env" where
  "sample_env =
     \<lparr>e_flow = pair_flow, e_zeroFlow = ([], []), e_net = sample_net, e_timeoutRtt = 300000,
      e_order = [''http'']\<rparr>"

definition sample_stream :: "(string \<times> string, string) stream" where
  "sample_stream =
     stream_reset sample_env (zero_stream sample_env) ((''a'', ''b''), (''1'', ''2'')) 0 1000"

lemma sample_stream_live: "stream_live sample_env sample_stream"
  unfolding sample_stream_def by (rule stream_reset_live) (simp add: stream_idle_def)

lemma sample_laws: "flow_laws (e_flow sample_env)"
  by (simp add: sample_env_def pair_flow_laws)

definition segment :: "sequence \<Rightarrow> sequence \<Rightarrow> string \<Rightarrow> time \<Rightarrow> reassembly" where
  "segment q a p t = \<lparr>ra_Seq = q, ra_Ack = a, ra_Bytes = p, ra_Seen = t, ra_End = False\<rparr>"

theorem segment_ack_roundtrip_witness:
  "\<exists>L1 s2 sts2 lg2.
     conn_stat sample_env C2S (segment 100 0 ''abc'' 5000) (sample_stream, \<lambda>_. NewStats ''eth0'' 5, []) = Some L1 \<and>
     conn_stat sample_env S2C (segment 1 103 [] 255000) L1 = Some (s2, sts2, lg2) \<and>
     s_RttCount s2 = 1 \<and> s_TotalRTT s2 = 250"
proof -
  obtain c where "get_conn C2S sample_stream = Some c" using sample_stream_live live_conn by metis
  then obtain s1 sts1 lg1 where
    1: "conn_stat sample_env C2S (segment 100 0 ''abc'' 5000) (sample_stream, \<lambda>_. NewStats ''eth0'' 5, []) =
        Some (s1, sts1, lg1)" "stream_live sample_env s1"
    using conn_stat_live [OF sample_stream_live] by metis
  obtain d where "get_conn S2C s1 = Some d" using 1 live_conn by metis
  then obtain s2 sts2 lg2 where
    2: "conn_stat sample_env S2C (segment 1 103 [] 255000) (s1, sts1, lg1) = Some (s2, sts2, lg2)"
    using conn_stat_live [OF 1(2)] by metis
  show ?thesis
    using 1(1) 2 segment_ack_roundtrip [OF sample_stream_live sample_laws 1(1) 2]
    by (auto simp: segment_def max_int64_def sample_stream_def stream_reset_rtt)
qed

text \<open>a segment whose end passes the 32-bit sequence space is stored under a number that is not
  reduced modulo the space, and is never the sample of an acknowledgement: no packet's acknowledgement
  number comes within one of it.\<close>

theorem wrapped_segment_never_sampled:
  assumes "cache_inv rc" "seq_range (ra_Seq seg)" "seq_range (ra_Ack ack)"
    and "uint32Max + 1 < ra_Seq seg + int (length (ra_Bytes seg))"
    and "int (length (ra_Bytes seg)) \<le> 65535"
    and "snd (Pull G rc (ack_key G b ack)) = Inr (Some v)"
  shows "vkey v \<noteq> data_key a seg"
proof -
  have "length (ra_Bytes seg) > 0"
    using assms(2,4) by (cases "ra_Bytes seg") (simp_all add: seq_range_def)
  then have "Seq (data_key a seg) = ra_Seq seg + int (length (ra_Bytes seg))"
    using assms(2,4,5) by (simp add: data_key_def seq_range_def uint32Max_def)
  moreover have "Seq (vkey v) \<le> uint32Max + 1"
    using Pull_near [OF assms(1,6)] assms(3) by (auto simp: ack_key_def seq_range_def uint32Max_def)
  ultimately show ?thesis using assms(4) by auto
qed

definition sample_conn :: "(string \<times> string) conn" where
  "sample_conn = newConn ((''a'', ''b''), (''1'', ''2'')) True"

definition wrap_cache :: "(string \<times> string) RTTCache" where
  "wrap_cache =
     fst (Push (fst (Push (NewRTTCache 0) (data_key sample_conn (segment 4294967290 0 ''abcdefgh'' 1)) 1))
       (data_key sample_conn (segment 7 0 ''x'' 2)) 2)"

theorem wrapped_segment_never_sampled_witness:
  "\<exists>v. snd (Pull pair_flow wrap_cache (ack_key pair_flow
       (newConn ((''b'', ''a''), (''2'', ''1'')) False) (segment 0 8 [] 9))) = Inr (Some v) \<and>
     vkey v \<noteq> data_key sample_conn (segment 4294967290 0 ''abcdefgh'' 1)"
proof -
  let ?rc = "fst (Push (NewRTTCache 0) (data_key sample_conn (segment 4294967290 0 ''abcdefgh'' 1)) 1)"
  have i: "cache_inv ?rc" "\<not> cclosed ?rc"
    using rtt.push_inv [OF cache_inv_New(1)] rtt.push_frame by (blast, simp add: rtt.push_frame NewRTTCache_def)
  have inv: "cache_inv wrap_cache" "\<not> cclosed wrap_cache"
    unfolding wrap_cache_def using i rtt.push_inv rtt.push_frame by (blast, metis)
  let ?k = "ack_key pair_flow (newConn ((''b'', ''a''), (''2'', ''1'')) False) (segment 0 8 [] 9)"
  have k: "?k = data_key sample_conn (segment 7 0 ''x'' 2)"
    by (simp add: ack_key_def data_key_def sample_conn_def newConn_def segment_def pair_flow_def)
  have "(?k, 2) \<in> set (content wrap_cache)"
    unfolding k wrap_cache_def by (rule content_after_push [OF i])
  then have v: "snd (Pull pair_flow wrap_cache ?k) = Inr (Some \<lparr>vkey = ?k, Seen = 2\<rparr>)"
    by (rule Pull_hit_content(2) [OF inv])
  show ?thesis
    using v wrapped_segment_never_sampled [OF inv(1) _ _ _ _ v, of "segment 4294967290 0 ''abcdefgh'' 1" sample_conn]
    by (simp add: segment_def seq_range_def uint32Max_def)
qed

section \<open>Recognising traffic\<close>

fun dpi_run ::
    "('f, 'u) env \<Rightarrow> reassembly list \<Rightarrow> ('f, 'u) stream \<times> ('f, 'u) log_line list \<Rightarrow>
     (('f, 'u) stream \<times> ('f, 'u) log_line list) option" where
  "dpi_run E [] sl = Some sl"
| "dpi_run E (r # rs) sl = Option.bind (dpi_part E r sl) (dpi_run E rs)"

definition http_prefixes :: "string list" where
  "http_prefixes = [''HEAD'', ''GET '', ''PUT '', ''POST'', ''DELE'', ''HTTP'']"

text \<open>A payload that does not look like HTTP.\<close>

definition silent :: "string \<Rightarrow> bool" where
  "silent p \<longleftrightarrow> p \<noteq> [] \<and> \<not> (length p > 4 \<and> take 4 p \<in> set http_prefixes)"

lemma Decoder_silent: "silent p \<Longrightarrow> Decoder N p ts cb = Some (None, [])"
  by (auto simp: Decoder_def silent_def http_prefixes_def Let_def)

lemma DPIDecoder_default:
  assumes "DefaultDPIEnginer N = Some eng" "''http'' \<in> set ord" "Decoder N data ts cb = Some (None, evs)"
  shows "DPIDecoder eng ord data ts cb = Some evs"
  using assms(2)
proof (induction ord)
  case (Cons name ord)
  then show ?case using assms(1,3)
    by (cases "name = ''http''") (auto simp: DefaultDPIEnginer_Some)
qed simp

lemma DPIDecoder_silent:
  assumes "DefaultDPIEnginer N = Some eng" "silent data"
  shows "DPIDecoder eng ord data ts cb = Some []"
proof (induction ord)
  case (Cons name ord)
  then show ?case using assms Decoder_silent [OF assms(2), of N ts cb]
    by (cases "name = ''http''") (auto simp: DefaultDPIEnginer_Some)
qed simp

lemma dpi_part_silent:
  assumes "s_dpier s = DefaultDPIEnginer (e_net E)" "silent (ra_Bytes r)" "s_StreamType s = UNKNOWN"
    "s_dpitotal s = min 6 (int n)"
  obtains s' where "dpi_part E r (s, lg) = Some (s', lg)" "s_dpitotal s' = min 6 (int (Suc n))"
    "s_dpier s' = DefaultDPIEnginer (e_net E)" "s_StreamType s' = UNKNOWN"
proof -
  obtain eng where eng: "DefaultDPIEnginer (e_net E) = Some eng" by (simp add: DefaultDPIEnginer_Some)
  have ne: "ra_Bytes r \<noteq> []" using assms(2) by (simp add: silent_def)
  show thesis
  proof (cases "n \<le> 5")
    case True
    then have "dpi_part E r (s, lg) = Some (s\<lparr>s_dpitotal := int (Suc n)\<rparr>, lg)"
      using assms eng ne DPIDecoder_silent [OF eng assms(2)] by (simp add: dpi_part_def add.commute)
    with that show thesis using assms True by simp
  next
    case False
    then have "dpi_part E r (s, lg) = Some (s, lg)" using assms by (simp add: dpi_part_def)
    with that show thesis using assms False by simp
  qed
qed

lemma dpi_run_silent:
  "s_dpier s = DefaultDPIEnginer (e_net E) \<Longrightarrow> \<forall>r \<in> set rs. silent (ra_Bytes r) \<Longrightarrow>
   s_StreamType s = UNKNOWN \<Longrightarrow> s_dpitotal s = min 6 (int n) \<Longrightarrow>
   \<exists>s'. dpi_run E rs (s, lg) = Some (s', lg) \<and> s_dpitotal s' = min 6 (int (n + length rs)) \<and>
     s_StreamType s' = UNKNOWN"
proof (induction rs arbitrary: s n)
  case (Cons r rs)
  obtain s1 where 1: "dpi_part E r (s, lg) = Some (s1, lg)" "s_dpitotal s1 = min 6 (int (Suc n))"
      "s_dpier s1 = DefaultDPIEnginer (e_net E)" "s_StreamType s1 = UNKNOWN"
    using dpi_part_silent [OF Cons.prems(1) _ Cons.prems(3,4)] Cons.prems(2) by (metis list.set_intros(1))
  then show ?case using Cons.IH [OF 1(3) _ 1(4,2)] Cons.prems(2) by simp
qed simp

text \<open>C10: the budget of the traffic recognition: after its reset a stream whose payloads do not look like
  HTTP has its first six of them inspected and none after, and stays of unknown type.\<close>

theorem dpi_budget:
  assumes "stream_idle E s" "\<forall>r \<in> set rs. silent (ra_Bytes r)"
  shows "\<exists>s'. dpi_run E rs (stream_reset E s k j ts, lg) = Some (s', lg) \<and>
    s_dpitotal s' = min 6 (int (length rs)) \<and> s_StreamType s' = UNKNOWN"
proof -
  have "s_dpier (stream_reset E s k j ts) = DefaultDPIEnginer (e_net E)"
    using stream_reset_live(1) [OF assms(1)] by (auto simp: stream_live_def stream_wf_def)
  from dpi_run_silent [OF this assms(2), of 0] show ?thesis by (simp add: stream_reset_rtt)
qed

theorem dpi_budget_witness:
  "\<exists>s'. dpi_run sample_env (replicate 9 (segment 0 0 ''xyz'' 0))
      (stream_reset sample_env (zero_stream sample_env) ((''a'', ''b''), (''1'', ''2'')) 0 0, []) =
      Some (s', []) \<and> s_dpitotal s' = 6"
  using dpi_budget [of sample_env "zero_stream sample_env" "replicate 9 (segment 0 0 ''xyz'' 0)"]
  by (fastforce simp: stream_idle_def silent_def segment_def)

text \<open>C11: an HTTP exchange: a stream just reset that sees a payload the decoder reports as a request, any
  number of empty packets, and a payload it reports as a response, logs the pair once with its
  method, host, target, status code and the difference of the two times, and is of type HTTP.\<close>

theorem http_exchange_logged:
  assumes "stream_idle E s" "''http'' \<in> set (e_order E)"
    and "Decoder (e_net E) (ra_Bytes p) (ra_Seen p) True = Some (None, [(HTTP_REQUEST, EntryReq q)])"
    and "Decoder (e_net E) (ra_Bytes r) (ra_Seen r) True = Some (None, [(HTTP_RESPONSE, EntryResp a)])"
    and "\<forall>x \<in> set es. ra_Bytes x = []"
  shows "\<exists>s'. dpi_run E (p # es @ [r]) (stream_reset E s k j ts, lg) = Some (s', lg @ [LogHttp k
       (''HTTP '' @ rq_Method q @ '', '' @ rq_Host q @ url_String (e_net E) (rq_URL q) @ '', '' @
        dec_int (rs_StatusCode a) @ '', RTT '' @
        duration_String (e_net E) (time_Sub (rs_ts a) (rq_ts q)))]) \<and>
     s_StreamType s' = HTTP \<and> s_dpitotal s' = 0"
proof -
  let ?s = "stream_reset E s k j ts"
  let ?s1 = "?s\<lparr>s_dpitotal := 1, s_Req := Some q\<rparr>"
  have live: "stream_live E ?s" "s_key ?s = k" using stream_reset_live [OF assms(1)] by simp_all
  obtain eng where eng: "DefaultDPIEnginer (e_net E) = Some eng" by (simp add: DefaultDPIEnginer_Some)
  have dp: "s_dpier ?s = Some eng" using live eng by (auto simp: stream_live_def stream_wf_def)
  have ne: "ra_Bytes p \<noteq> []" "ra_Bytes r \<noteq> []" using assms(3,4) by (auto simp: Decoder_def)
  have 1: "dpi_part E p (?s, lg) = Some (?s1, lg)"
    using ne dp DPIDecoder_default [OF eng assms(2,3)]
    by (simp add: dpi_part_def dpicb_def stream_reset_rtt)
  have skip: "dpi_run E (es @ xs) sl = dpi_run E xs sl" for xs sl
    using assms(5) by (induction es) (simp_all add: dpi_part_def split_beta)
  let ?s2 = "?s1\<lparr>s_dpitotal := 0, s_Resp := Some a, s_StreamType := HTTP\<rparr>"
  have "dpi_part E r (?s1, lg) = Some (?s2, lg @ [LogHttp k
      (httpStream_String (e_net E) (NewHttpStream q a))])"
    using ne dp live DPIDecoder_default [OF eng assms(2,4)]
    by (simp add: dpi_part_def dpicb_def stream_reset_rtt Let_def)
  then show ?thesis
    using 1 by (simp add: skip httpStream_String_def NewHttpStream_def resp_GetTimestamp_def
        req_GetTimestamp_def)
qed

definition sample_request :: "string HTTPRequest" where
  "sample_request =
     \<lparr>rq_Method = ''GET'', rq_RequestURI = ''/x'', rq_Proto = ''HTTP/1.1'', rq_ProtoMajor = 1,
      rq_ProtoMinor = 1, rq_URL = ''/x'', rq_Header = [''Host'' \<mapsto> [''a.b'']], rq_Host = ''a.b'',
      rq_ts = 7\<rparr>"

definition sample_response :: HTTPResponse where
  "sample_response =
     \<lparr>rs_Status = ''404 Not Found'', rs_StatusCode = 404, rs_Proto = ''HTTP/1.1'',
      rs_ProtoMajor = 1, rs_ProtoMinor = 1, rs_Header = [''Host'' \<mapsto> [''a.b'']], rs_ts = 19\<rparr>"

lemma sample_request_decoded:
  "Decoder sample_net (''GET /x HTTP/1.1'' @ [CHR 0x0D, CHR 0x0A]) 7 True =
     Some (None, [(HTTP_REQUEST, EntryReq sample_request)])"
  by (simp add: Decoder_def checkReq_def Request_def ReadLine_def strip_cr_def parseRequestLine_def
      ParseHTTPVersion_def sample_net_def sample_request_def header_Get_def fixPragmaCacheControl_def
      go_slice_def go_from_def Let_def)

lemma sample_response_decoded:
  "Decoder sample_net ''HTTP/1.1 404 Not Found'' 19 True =
     Some (None, [(HTTP_RESPONSE, EntryResp sample_response)])"
  by (simp add: Decoder_def checkRes_def Response_def ReadLine_def numeral_3_eq_3 strconv_Atoi_def
      atoi_unsigned_def is_digit_iff digit_val_def ParseHTTPVersion_def sample_response_def
      sample_net_def fixPragmaCacheControl_def header_Get_def)

theorem http_exchange_logged_witness:
  "\<exists>s'. dpi_run sample_env
      [segment 0 0 (''GET /x HTTP/1.1'' @ [CHR 0x0D, CHR 0x0A]) 7, segment 0 0 [] 9,
       segment 0 0 ''HTTP/1.1 404 Not Found'' 19]
      (sample_stream, []) =
    Some (s', [LogHttp ((''a'', ''b''), (''1'', ''2'')) (''HTTP GET, a.b/x, 404, RTT 12'')])"
proof -
  let ?p = "segment 0 0 (''GET /x HTTP/1.1'' @ [CHR 0x0D, CHR 0x0A]) 7"
  let ?r = "segment 0 0 ''HTTP/1.1 404 Not Found'' 19"
  have net: "e_net sample_env = sample_net" "e_order sample_env = [''http'']"
    by (simp_all add: sample_env_def)
  have logged: "''HTTP '' @ rq_Method sample_request @ '', '' @ rq_Host sample_request @
      url_String sample_net (rq_URL sample_request) @ '', '' @
      dec_int (rs_StatusCode sample_response) @ '', RTT '' @
      duration_String sample_net (time_Sub (rs_ts sample_response) (rq_ts sample_request)) =
      ''HTTP GET, a.b/x, 404, RTT 12''"
    by (simp add: sample_request_def sample_response_def sample_net_def dec_int_def dec_nat.simps
        digit_chars time_Sub_def max_int64_def min_int64_def)
  have p: "Decoder (e_net sample_env) (ra_Bytes ?p) (ra_Seen ?p) True =
      Some (None, [(HTTP_REQUEST, EntryReq sample_request)])"
    using sample_request_decoded by (simp add: net segment_def)
  have r: "Decoder (e_net sample_env) (ra_Bytes ?r) (ra_Seen ?r) True =
      Some (None, [(HTTP_RESPONSE, EntryResp sample_response)])"
    using sample_response_decoded by (simp add: net segment_def)
  have "stream_idle sample_env (zero_stream sample_env)" by (simp add: stream_idle_def)
  from http_exchange_logged [OF this _ p r, of "[segment 0 0 [] 9]" "((''a'', ''b''), (''1'', ''2''))"
      0 1000 "[]"]
  show ?thesis unfolding net logged sample_stream_def by (auto simp: segment_def)
qed

end
