(* ===== verification/Tcp_Pool.thy ===== *)
theory Tcp_Pool
  imports Tcp_Stream "HOL-Library.AList"
begin

text \<open>
  The operations of \<open>tcpassembly\<close> that reach beyond one stream: closing a stream and handling a packet
  (\<open>stream.go\<close>, \<open>conn.go\<close>), the pool of streams (\<open>streampool.go\<close>) and the assembler
  (\<open>assembler.go\<close>). A pointer to a stream is its index in the order of allocation; the streams live in
  a heap. \<^term>\<open>None\<close> is a panic.
\<close>

unbundle bit_operations_syntax

section \<open>State\<close>

record 'f StreamPool =
  p_streams :: "('f key \<times> nat) list"
  p_users :: int
  p_free :: "nat list"
  p_all :: "nat list"
  p_nextAlloc :: int
  p_newConnectionCount :: int

record ('f, 'u) world =
  w_pool :: "'f StreamPool"
  w_heap :: "nat \<Rightarrow> ('f, 'u) stream"
  w_stats :: "nat \<Rightarrow> Stats"
  w_log :: "('f, 'u) log_line list"

definition initialAllocSize :: int where "initialAllocSize = 8192"

definition NewStreamPool :: "'f StreamPool" where
  "NewStreamPool =
     \<lparr>p_streams = [], p_users = 0, p_free = [], p_all = [], p_nextAlloc = initialAllocSize,
      p_newConnectionCount = 0\<rparr>"

definition init_world :: "('f, 'u) env \<Rightarrow> ('f, 'u) world" where
  "init_world E =
     \<lparr>w_pool = NewStreamPool, w_heap = (\<lambda>_. zero_stream E), w_stats = (\<lambda>_. NewStats [] 0),
      w_log = []\<rparr>"

definition put_stream :: "nat \<Rightarrow> ('f, 'u) stream \<Rightarrow> ('f, 'u) world \<Rightarrow> ('f, 'u) world" where
  "put_stream i s W = W\<lparr>w_heap := (w_heap W)(i := s)\<rparr>"

definition log_to :: "('f, 'u) log_line \<Rightarrow> ('f, 'u) world \<Rightarrow> ('f, 'u) world" where
  "log_to l W = W\<lparr>w_log := w_log W @ [l]\<rparr>"

section \<open>The pool\<close>

text \<open>How many streams have been allocated: the next block starts there.\<close>

definition allocated :: "'f StreamPool \<Rightarrow> nat" where
  "allocated p = sum_list (p_all p)"

definition grow :: "('f, 'u) world \<Rightarrow> ('f, 'u) world option" where
  "grow W =
     (let p = w_pool W; n = p_nextAlloc p in
      if n < 0 then None
      else Some (log_to (LogGrow (nat n))
        (W\<lparr>w_pool := p\<lparr>p_all := p_all p @ [nat n],
             p_free := p_free p @ [allocated p ..< allocated p + nat n],
             p_nextAlloc := i64 (n * 2)\<rparr>\<rparr>)))"

definition allStream :: "('f, 'u) world \<Rightarrow> nat list" where
  "allStream W = map snd (p_streams (w_pool W))"

definition count_request :: "('f, 'u) world \<Rightarrow> ('f, 'u) world" where
  "count_request W =
     (let p = w_pool W;
          p = p\<lparr>p_newConnectionCount := i64 (p_newConnectionCount p + 1)\<rparr>;
          W = W\<lparr>w_pool := p\<rparr>
      in if p_newConnectionCount p AND 0x7FFF = 0
         then log_to (LogPool (p_newConnectionCount p) (length (p_streams p)) (length (p_free p))) W
         else W)"

definition newStream ::
    "('f, 'u) env \<Rightarrow> 'f key \<Rightarrow> nat \<Rightarrow> time \<Rightarrow> ('f, 'u) world \<Rightarrow> (nat \<times> ('f, 'u) world) option" where
  "newStream E k j ts W = do {
     let W = count_request W;
     W \<leftarrow> (if length (p_free (w_pool W)) = 0 then grow W else Some W);
     let p = w_pool W;
     (if p_free p = [] then None
      else
        (let i = last (p_free p);
             p = p\<lparr>p_free := butlast (p_free p)\<rparr>;
             W = put_stream i (stream_reset E (w_heap W i) k j ts) (W\<lparr>w_pool := p\<rparr>)
         in Some (i, W\<lparr>w_pool := p\<lparr>p_streams := AList.update k i (p_streams p)\<rparr>\<rparr>)))
   }"

definition lookup_stream :: "('f, 'u) env \<Rightarrow> 'f key \<Rightarrow> ('f, 'u) world \<Rightarrow> nat option" where
  "lookup_stream E k W =
     (case map_of (p_streams (w_pool W)) k of
        Some i \<Rightarrow> Some i
      | None \<Rightarrow> map_of (p_streams (w_pool W)) (key_Reverse (e_flow E) k))"

definition getStream ::
    "('f, 'u) env \<Rightarrow> 'f key \<Rightarrow> nat \<Rightarrow> bool \<Rightarrow> bool \<Rightarrow> time \<Rightarrow> ('f, 'u) world \<Rightarrow>
     (nat option \<times> ('f, 'u) world) option" where
  "getStream E k j end' SYN ts W =
     (let stream = lookup_stream E k W in
      if end' \<or> \<not> SYN \<or> stream \<noteq> None then Some (stream, W)
      else map_option (\<lambda>(i, W). (Some i, W)) (newStream E k j ts (log_to (LogCreated k ts) W)))"

definition remove :: "nat \<Rightarrow> ('f, 'u) world \<Rightarrow> ('f, 'u) world" where
  "remove i W =
     (let p = w_pool W in
      W\<lparr>w_pool := p\<lparr>p_streams := AList.delete (s_key (w_heap W i)) (p_streams p),
                    p_free := p_free p @ [i]\<rparr>\<rparr>)"

section \<open>Closing a stream\<close>

definition finish ::
    "bool \<Rightarrow> ('f, 'u) stream \<Rightarrow> (('f, 'u) stream \<times> ('f, 'u) log_line) option" where
  "finish timeout s = do {
     (s', bp) \<leftarrow> BPStat True s;
     Some (s', LogFinish (s_key s) (if timeout then ''TIMEOUT FINISH'' else ''FINISH'') bp (RTTStat s')
       (time_Sub (s_lastSeen s') (s_firstSeen s')))
   }"

definition stream_close ::
    "('f, 'u) env \<Rightarrow> bool \<Rightarrow> nat \<Rightarrow> ('f, 'u) world \<Rightarrow> ('f, 'u) world option" where
  "stream_close E timeout i W =
     (let s = w_heap W i in
      if \<not> s_closed s then do {
        let s = resetMap (e_flow E) (s\<lparr>s_closed := True\<rparr>);
        rc \<leftarrow> s_RttCache s;
        let s = s\<lparr>s_RttCache := Some (RemoveAll rc)\<rparr>;
        (s, line) \<leftarrow> finish timeout s;
        let W = log_to line (put_stream i s W);
        (if s_pool s then Some (remove i W) else None)
      }
      else Some W)"

section \<open>Handling a packet\<close>

definition conn_close ::
    "('f, 'u) env \<Rightarrow> side \<Rightarrow> nat \<Rightarrow> ('f, 'u) world \<Rightarrow> ('f, 'u) world option" where
  "conn_close E d i W = do {
     let s = w_heap W i;
     c \<leftarrow> get_conn d s;
     let s = set_conn d (c\<lparr>c_closed := True\<rparr>) s;
     r \<leftarrow> c_reverse c;
     rc \<leftarrow> get_conn r s;
     let s = set_conn r (rc\<lparr>c_closed := True\<rparr>) s;
     stream_close E False i (put_stream i s W)
   }"

text \<open>The handling of FIN and RST: the direction waits to be closed, and the stream is finished when the
  other one waits already.\<close>

definition conn_mark_end :: "side \<Rightarrow> bool \<Rightarrow> ('f, 'u) stream \<Rightarrow> (('f, 'u) stream \<times> bool) option" where
  "conn_mark_end d end' s =
     (if end' then do {
        c \<leftarrow> get_conn d s;
        let s = set_conn d (c\<lparr>c_waitClose := True\<rparr>) s;
        r \<leftarrow> c_reverse c;
        rc \<leftarrow> get_conn r s;
        Some (s, c_waitClose rc)
      }
      else Some (s, False))"

definition conn_handle ::
    "('f, 'u) env \<Rightarrow> side \<Rightarrow> 'f tcp_layer \<Rightarrow> time \<Rightarrow> nat \<Rightarrow> ('f, 'u) world \<Rightarrow> ('f, 'u) world option" where
  "conn_handle E d tcp ts i W = do {
     let s = w_heap W i;
     let end' = tcp_FIN tcp \<or> tcp_RST tcp;
     c \<leftarrow> get_conn d s;
     (if c_closed c
      then Some (log_to (LogClosed (c_key c) (tcp_Seq tcp) (tcp_Ack tcp) (length (tcp_Payload tcp)) ts) W)
      else do {
        (s, fin) \<leftarrow> conn_mark_end d end' s;
        c \<leftarrow> get_conn d s;
        (if c_closed c then Some (put_stream i s W)
         else do {
           (s, sts, lg) \<leftarrow> conn_stat E d
             \<lparr>ra_Seq = tcp_Seq tcp, ra_Ack = tcp_Ack tcp, ra_Bytes = tcp_Payload tcp, ra_Seen = ts,
              ra_End = end'\<rparr> (s, w_stats W, w_log W);
           let W = put_stream i s (W\<lparr>w_stats := sts, w_log := lg\<rparr>);
           (if fin then conn_close E d i W else Some W)
         })
      })
   }"

section \<open>The assembler\<close>

record Assembler =
  as_Iface :: string
  as_stat :: nat

definition NewAssembler :: "string \<Rightarrow> nat \<Rightarrow> ('f, 'u) world \<Rightarrow> Assembler \<times> ('f, 'u) world" where
  "NewAssembler Iface j W =
     (\<lparr>as_Iface = Iface, as_stat = j\<rparr>,
      W\<lparr>w_pool := (w_pool W)\<lparr>p_users := i64 (p_users (w_pool W) + 1)\<rparr>,
        w_stats := (w_stats W)(j := NewStats Iface 10)\<rparr>)"

text \<open>\<open>Assemble\<close> up to the call of \<open>handle\<close>: the stream the packet is handed to, if any, and its key.\<close>

definition Assemble ::
    "('f, 'u) env \<Rightarrow> Assembler \<Rightarrow> 'f \<Rightarrow> 'f tcp_layer \<Rightarrow> time \<Rightarrow> ('f, 'u) world \<Rightarrow>
     (('f key \<times> nat option) \<times> ('f, 'u) world) option" where
  "Assemble E a netFlow tcp ts W = do {
     let k = (netFlow, tcp_TransportFlow tcp);
     let end' = tcp_FIN tcp \<or> tcp_RST tcp;
     (stream, W) \<leftarrow> getStream E k (as_stat a)
       (end' \<or> (\<not> tcp_SYN tcp \<and> \<not> tcp_PSH tcp \<and> length (tcp_LayerPayload tcp) = 0))
       (tcp_SYN tcp \<and> \<not> tcp_ACK tcp) ts W;
     Some ((k, stream), W)
   }"

fun flush_streams :: "('f, 'u) env \<Rightarrow> time \<Rightarrow> nat list \<Rightarrow> ('f, 'u) world \<Rightarrow> ('f, 'u) world option" where
  "flush_streams E t [] W = Some W"
| "flush_streams E t (i # is) W = do {
     W \<leftarrow> (if time_Before (s_lastSeen (w_heap W i)) t then stream_close E True i W else Some W);
     flush_streams E t is W
   }"

definition FlushOlderThan :: "('f, 'u) env \<Rightarrow> time \<Rightarrow> ('f, 'u) world \<Rightarrow> ('f, 'u) world option" where
  "FlushOlderThan E t W = flush_streams E t (allStream W) W"

section \<open>The invariant of the pool\<close>

text \<open>
  Every allocated stream is either in use, under its own key, or free, and not both or twice; the
  streams in use are live, the free ones idle; a key and its reverse are not both in use.
\<close>

definition ids_ok :: "'f StreamPool \<Rightarrow> bool" where
  "ids_ok p \<longleftrightarrow>
     distinct (map fst (p_streams p)) \<and> distinct (map snd (p_streams p) @ p_free p) \<and>
     set (map snd (p_streams p) @ p_free p) = {..<allocated p} \<and>
     p_nextAlloc p = i64 (8192 * 2 ^ length (p_all p))"

definition streams_ok :: "('f, 'u) env \<Rightarrow> 'f StreamPool \<Rightarrow> (nat \<Rightarrow> ('f, 'u) stream) \<Rightarrow> bool" where
  "streams_ok E p h \<longleftrightarrow>
     (\<forall>x \<in> set (p_streams p). stream_live E (h (snd x)) \<and> s_key (h (snd x)) = fst x) \<and>
     (\<forall>i \<in> set (p_free p). stream_idle E (h i)) \<and>
     (\<forall>i \<ge> allocated p. h i = zero_stream E)"

definition keys_ok :: "('f, 'u) env \<Rightarrow> 'f StreamPool \<Rightarrow> bool" where
  "keys_ok E p \<longleftrightarrow>
     (\<forall>x \<in> set (p_streams p). \<forall>y \<in> set (p_streams p).
        fst y = key_Reverse (e_flow E) (fst x) \<longrightarrow> x = y)"

definition pool_inv :: "('f, 'u) env \<Rightarrow> ('f, 'u) world \<Rightarrow> bool" where
  "pool_inv E W \<longleftrightarrow>
     ids_ok (w_pool W) \<and> streams_ok E (w_pool W) (w_heap W) \<and> keys_ok E (w_pool W)"

lemma pool_inv_frame [simp]:
  "pool_inv E (W\<lparr>w_stats := f\<rparr>) = pool_inv E W" "pool_inv E (W\<lparr>w_log := l\<rparr>) = pool_inv E W"
  "pool_inv E (log_to x W) = pool_inv E W"
  by (simp_all add: pool_inv_def log_to_def)

lemma log_to_frame [simp]:
  "w_pool (log_to x W) = w_pool W" "w_heap (log_to x W) = w_heap W" "w_stats (log_to x W) = w_stats W"
  by (simp_all add: log_to_def)

lemma put_stream_frame [simp]:
  "w_pool (put_stream i s W) = w_pool W" "w_stats (put_stream i s W) = w_stats W"
  "w_log (put_stream i s W) = w_log W"
  "w_heap (put_stream i s W) = (w_heap W)(i := s)"
  by (simp_all add: put_stream_def)

lemma pool_inv_init: "pool_inv E (init_world E)"
  by (simp add: pool_inv_def ids_ok_def streams_ok_def keys_ok_def init_world_def NewStreamPool_def
      allocated_def initialAllocSize_def)

lemma pool_inv_used:
  assumes "pool_inv E W" "(k, i) \<in> set (p_streams (w_pool W))"
  shows "stream_live E (w_heap W i)" "s_key (w_heap W i) = k" "i < allocated (w_pool W)"
    "i \<notin> set (p_free (w_pool W))" "map_of (p_streams (w_pool W)) k = Some i"
proof -
  have ids: "distinct (map fst (p_streams (w_pool W)))"
    "distinct (map snd (p_streams (w_pool W)) @ p_free (w_pool W))"
    "set (map snd (p_streams (w_pool W)) @ p_free (w_pool W)) = {..<allocated (w_pool W)}"
    and st: "\<forall>x \<in> set (p_streams (w_pool W)).
      stream_live E (w_heap W (snd x)) \<and> s_key (w_heap W (snd x)) = fst x"
    using assms(1) unfolding pool_inv_def ids_ok_def streams_ok_def by blast+
  have mem: "i \<in> set (map snd (p_streams (w_pool W)))" using assms(2) by (metis image_eqI list.set_map snd_conv)
  show "stream_live E (w_heap W i)" "s_key (w_heap W i) = k"
    using bspec [OF st assms(2)] by simp_all
  have "i \<in> {..<allocated (w_pool W)}" unfolding ids(3) [symmetric] using mem by simp
  then show "i < allocated (w_pool W)" by simp
  show "i \<notin> set (p_free (w_pool W))" using ids(2) mem by (metis distinct_append disjoint_iff)
  show "map_of (p_streams (w_pool W)) k = Some i" using ids(1) assms(2) by (rule map_of_is_SomeI)
qed

lemma used_unique:
  assumes "pool_inv E W" "(k, i) \<in> set (p_streams (w_pool W))" "(k', i) \<in> set (p_streams (w_pool W))"
  shows "k' = k"
  using pool_inv_used(2) [OF assms(1)] assms(2,3) by metis

text \<open>Updating a stream in use, keeping it live and its key.\<close>

lemma pool_inv_put:
  assumes inv: "pool_inv E W" and use: "(k, i) \<in> set (p_streams (w_pool W))"
    and s: "stream_live E s" "s_key s = k"
  shows "pool_inv E (put_stream i s W)"
proof -
  have "streams_ok E (w_pool W) ((w_heap W)(i := s))"
    unfolding streams_ok_def
  proof (intro conjI ballI allI impI)
    fix x assume x: "x \<in> set (p_streams (w_pool W))"
    show "stream_live E (((w_heap W)(i := s)) (snd x))"
      using x inv s by (auto simp: pool_inv_def streams_ok_def)
    show "s_key (((w_heap W)(i := s)) (snd x)) = fst x"
      using pool_inv_used(2) [OF inv, of "fst x" "snd x"] used_unique [OF inv use, of "fst x"] x s
      by (cases "snd x = i") auto
  next
    fix j assume "j \<in> set (p_free (w_pool W))"
    then show "stream_idle E (((w_heap W)(i := s)) j)"
      using inv pool_inv_used(4) [OF inv use] by (auto simp: pool_inv_def streams_ok_def)
  next
    fix j assume "allocated (w_pool W) \<le> j"
    then show "((w_heap W)(i := s)) j = zero_stream E"
      using inv pool_inv_used(3) [OF inv use] by (auto simp: pool_inv_def streams_ok_def)
  qed
  then show ?thesis using inv by (simp add: pool_inv_def)
qed

section \<open>Closing\<close>

lemma BPStat_finish:
  assumes "s_s2c s = Some r" "s_c2s s = Some c"
  shows "\<exists>text. BPStat True s = Some
    (s\<lparr>s_s2c := Some (r\<lparr>c_OldPackets := c_Packets r, c_OldBytes := c_Bytes r\<rparr>),
       s_c2s := Some (c\<lparr>c_OldPackets := c_Packets c, c_OldBytes := c_Bytes c\<rparr>)\<rparr>, text)"
  using assms by (simp add: BPStat_def Let_def)

text \<open>The stream \<open>close\<close> leaves behind is idle and keeps its key.\<close>

lemma stream_close_live:
  assumes "stream_wf E (w_heap W i)" "\<not> s_closed (w_heap W i)"
    and map: "s_connMap (w_heap W i) = live_map E (s_key (w_heap W i))"
  obtains s line where "stream_close E timeout i W = Some (remove i (log_to line (put_stream i s W)))"
    "stream_idle E s" "s_closed s" "s_key s = s_key (w_heap W i)" "s_data s = s_data (w_heap W i)"
proof -
  let ?s = "w_heap W i"
  obtain rc where rc: "s_RttCache ?s = Some rc" "cache_inv rc"
    using assms(1) by (auto simp: stream_wf_def)
  obtain c where c: "s_c2s ?s = Some c" using assms(1) by (auto simp: stream_wf_def conn_wf_def)
  obtain r where r: "s_s2c ?s = Some r" using assms(1) by (auto simp: stream_wf_def conn_wf_def)
  let ?t = "(resetMap (e_flow E) (?s\<lparr>s_closed := True\<rparr>))\<lparr>s_RttCache := Some (RemoveAll rc)\<rparr>"
  let ?u = "?t\<lparr>s_s2c := Some (r\<lparr>c_OldPackets := c_Packets r, c_OldBytes := c_Bytes r\<rparr>),
       s_c2s := Some (c\<lparr>c_OldPackets := c_Packets c, c_OldBytes := c_Bytes c\<rparr>)\<rparr>"
  obtain line where fin: "finish timeout ?t = Some (?u, line)"
    using BPStat_finish [of ?t r c] c r by (auto simp: finish_def resetMap_def)
  have "s_pool ?u" using assms(1) by (simp add: stream_wf_def resetMap_def)
  then have st: "stream_close E timeout i W = Some (remove i (log_to line (put_stream i ?u W)))"
    using assms(2) rc(1) fin by (simp add: stream_close_def resetMap_def Let_def)
  have ra: "cache_inv (RemoveAll rc)" "cclosed (RemoveAll rc)" "content (RemoveAll rc) = []"
    using rtt.remove_all [OF rc(2)] by blast+
  have "s_connMap ?u = Map.empty"
    using map by (auto simp: resetMap_def live_map_def)
  moreover have "stream_wf E ?u"
    using assms(1) ra c r by (auto simp: stream_wf_def conn_wf_def resetMap_def)
  ultimately have "stream_idle E ?u" "s_closed ?u"
    using ra by (simp_all add: stream_idle_def resetMap_def)
  then show thesis using that [OF st] by (simp add: resetMap_def)
qed

lemma set_delete: "distinct (map fst xs) \<Longrightarrow> set (AList.delete k xs) = {x \<in> set xs. fst x \<noteq> k}"
  by (auto simp: AList.delete_eq)

lemma snd_delete:
  assumes "distinct (map fst xs)" "distinct (map snd xs)" "(k, i) \<in> set xs"
  shows "set (map snd (AList.delete k xs)) = set (map snd xs) - {i}"
proof -
  have k: "x = (k, i)" if "x \<in> set xs" "fst x = k" for x
    using eq_key_imp_eq_value [OF assms(1), of k "snd x" i] that assms(3) by (cases x) auto
  have i: "x = (k, i)" if "x \<in> set xs" "snd x = i" for x
    using assms(2) inj_onD [of snd "set xs" x "(k, i)"] that assms(3) by (simp add: distinct_map)
  show ?thesis
  proof
    show "set (map snd (AList.delete k xs)) \<subseteq> set (map snd xs) - {i}"
      using i by (auto simp: set_delete [OF assms(1)])
    show "set (map snd xs) - {i} \<subseteq> set (map snd (AList.delete k xs))"
      using k by (auto simp: set_delete [OF assms(1)])
  qed
qed

lemma ids_ok_remove:
  assumes "ids_ok p" "(k, i) \<in> set (p_streams p)"
  shows "ids_ok (p\<lparr>p_streams := AList.delete k (p_streams p), p_free := p_free p @ [i]\<rparr>)"
proof -
  have d: "distinct (map fst (p_streams p))" "distinct (map snd (p_streams p))"
    "distinct (p_free p)" "set (map snd (p_streams p)) \<inter> set (p_free p) = {}"
    "set (map snd (p_streams p)) \<union> set (p_free p) = {..<allocated p}"
    using assms(1) by (auto simp: ids_ok_def)
  have i: "i \<in> set (map snd (p_streams p))" using assms(2) by force
  note s = snd_delete [OF d(1,2) assms(2)]
  have "distinct (map snd (AList.delete k (p_streams p)) @ p_free p @ [i])"
  proof -
    have "distinct (map snd (AList.delete k (p_streams p)))"
      using d(2) by (simp add: AList.delete_eq distinct_map_filter)
    moreover have "i \<notin> set (p_free p)" using d(4) i by blast
    ultimately show ?thesis unfolding distinct_append s using d(3,4) by auto
  qed
  moreover have "set (map snd (AList.delete k (p_streams p)) @ p_free p @ [i]) = {..<allocated p}"
    unfolding set_append s using d(5) i by auto
  moreover have "distinct (map fst (AList.delete k (p_streams p)))"
    using d(1) by (rule distinct_delete)
  ultimately show ?thesis using assms(1) by (simp add: ids_ok_def allocated_def)
qed

lemma keys_ok_subset: "keys_ok E p \<Longrightarrow> set (p_streams q) \<subseteq> set (p_streams p) \<Longrightarrow> keys_ok E q"
  unfolding keys_ok_def by blast

text \<open>Giving an idle stream back, whose key is still in the map.\<close>

lemma pool_inv_remove:
  assumes inv: "pool_inv E W" and use: "(k, i) \<in> set (p_streams (w_pool W))"
    and s: "stream_idle E s" "s_key s = k"
  shows "pool_inv E (remove i (put_stream i s W))"
proof -
  let ?p = "w_pool W"
  let ?q = "?p\<lparr>p_streams := AList.delete k (p_streams ?p), p_free := p_free ?p @ [i]\<rparr>"
  have ids: "ids_ok ?p" using inv by (simp add: pool_inv_def)
  have del: "set (AList.delete k (p_streams ?p)) = {x \<in> set (p_streams ?p). fst x \<noteq> k}"
    by (rule set_delete) (use ids in \<open>simp add: ids_ok_def\<close>)
  have "streams_ok E ?q ((w_heap W)(i := s))"
    unfolding streams_ok_def
  proof (intro conjI ballI allI impI)
    fix x assume "x \<in> set (p_streams ?q)"
    then have x: "x \<in> set (p_streams ?p)" "fst x \<noteq> k" using del by simp_all
    then have "snd x \<noteq> i" using used_unique [OF inv use, of "fst x"] by auto
    then show "stream_live E (((w_heap W)(i := s)) (snd x))"
      "s_key (((w_heap W)(i := s)) (snd x)) = fst x"
      using x pool_inv_used(1,2) [OF inv, of "fst x" "snd x"] by simp_all
  next
    fix j assume "j \<in> set (p_free ?q)"
    then show "stream_idle E (((w_heap W)(i := s)) j)"
      using inv s by (auto simp: pool_inv_def streams_ok_def)
  next
    fix j assume "allocated ?q \<le> j"
    then show "((w_heap W)(i := s)) j = zero_stream E"
      using inv pool_inv_used(3) [OF inv use] by (auto simp: pool_inv_def streams_ok_def allocated_def)
  qed
  moreover have "keys_ok E ?q"
    using inv del keys_ok_subset [of E ?p ?q] by (auto simp: pool_inv_def)
  ultimately show ?thesis
    using ids_ok_remove [OF ids use] s by (simp add: pool_inv_def remove_def Let_def)
qed

lemma stream_close_used:
  assumes inv: "pool_inv E W" and use: "(k, i) \<in> set (p_streams (w_pool W))"
  obtains W' where "stream_close E timeout i W = Some W'" "pool_inv E W'"
    "p_streams (w_pool W') = AList.delete k (p_streams (w_pool W))"
    "p_free (w_pool W') = p_free (w_pool W) @ [i]" "p_all (w_pool W') = p_all (w_pool W)"
    "\<forall>j. j \<noteq> i \<longrightarrow> w_heap W' j = w_heap W j" "s_closed (w_heap W' i)"
    "s_data (w_heap W' i) = s_data (w_heap W i)" "w_stats W' = w_stats W"
proof -
  note live = pool_inv_used(1,2) [OF inv use]
  obtain s line where st: "stream_close E timeout i W = Some (remove i (log_to line (put_stream i s W)))"
    and s: "stream_idle E s" "s_closed s" "s_key s = k" "s_data s = s_data (w_heap W i)"
    using stream_close_live [of E W i timeout] live by (metis stream_live_def)
  have eq: "remove i (log_to line (put_stream i s W)) =
      log_to line (remove i (put_stream i s W))"
    by (simp add: remove_def log_to_def put_stream_def Let_def)
  have "pool_inv E (log_to line (remove i (put_stream i s W)))"
    using pool_inv_remove [OF inv use s(1,3)] by simp
  then show thesis
    using that [of "remove i (log_to line (put_stream i s W))"] st s eq
    by (simp add: remove_def Let_def)
qed

lemma stream_close_closed: "s_closed (w_heap W i) \<Longrightarrow> stream_close E timeout i W = Some W"
  by (simp add: stream_close_def Let_def)

section \<open>Creating a stream\<close>

lemma allocated_grow: "allocated (p\<lparr>p_all := p_all p @ [n], p_free := f, p_nextAlloc := m\<rparr>) = allocated p + n"
  by (simp add: allocated_def)

text \<open>The allocation size is positive as long as the pool has grown less than fifty times.\<close>

lemma nextAlloc_small:
  assumes "ids_ok p" "length (p_all p) < 50"
  shows "0 < p_nextAlloc p"
proof -
  have "(2::int) ^ length (p_all p) \<le> 2 ^ 49"
    using assms(2) by (intro power_increasing) simp_all
  then have "i64 (8192 * 2 ^ length (p_all p)) = 8192 * 2 ^ length (p_all p)"
    by (intro i64_id) (simp_all add: order_trans [of _ 0])
  then show ?thesis using assms(1) by (simp add: ids_ok_def)
qed

lemma i64_double: "i64 (i64 x * 2) = i64 (x * 2)"
proof -
  have "i64 (i64 x * 2) = i64 (i64 x + i64 x)" by (simp add: mult_2_right)
  also have "\<dots> = i64 (x + i64 x)" by (rule i64_i64_add)
  also have "\<dots> = i64 (i64 x + x)" by (simp add: add.commute)
  also have "\<dots> = i64 (x * 2)" unfolding i64_i64_add by (simp add: mult_2_right)
  finally show ?thesis .
qed

lemma grow_inv:
  assumes inv: "pool_inv E W" and "p_free (w_pool W) = []" "length (p_all (w_pool W)) < 50"
  obtains W' where "grow W = Some W'" "pool_inv E W'" "p_free (w_pool W') \<noteq> []"
    "p_streams (w_pool W') = p_streams (w_pool W)" "w_heap W' = w_heap W" "w_stats W' = w_stats W"
    "length (p_all (w_pool W')) = Suc (length (p_all (w_pool W)))"
proof -
  let ?p = "w_pool W"
  let ?n = "nat (p_nextAlloc ?p)"
  let ?q = "?p\<lparr>p_all := p_all ?p @ [?n],
    p_free := p_free ?p @ [allocated ?p ..< allocated ?p + ?n], p_nextAlloc := i64 (p_nextAlloc ?p * 2)\<rparr>"
  have ids: "ids_ok ?p" using inv by (simp add: pool_inv_def)
  have pos: "0 < p_nextAlloc ?p" by (rule nextAlloc_small [OF ids assms(3)])
  have q: "p_streams ?q = p_streams ?p" "p_free ?q = [allocated ?p ..< allocated ?p + ?n]"
    "allocated ?q = allocated ?p + ?n"
    using assms(2) by (simp_all add: allocated_def)
  have used: "set (map snd (p_streams ?p)) = {..<allocated ?p}" "distinct (map snd (p_streams ?p))"
    using ids assms(2) by (simp_all add: ids_ok_def)
  have "distinct (map snd (p_streams ?q) @ p_free ?q)"
    unfolding distinct_append q used(1) using used(2) by auto
  moreover have "set (map snd (p_streams ?q) @ p_free ?q) = {..<allocated ?q}"
    unfolding set_append q used(1) by auto
  moreover have "p_nextAlloc ?q = i64 (8192 * 2 ^ length (p_all ?q))"
    using ids i64_double by (simp add: ids_ok_def mult.assoc mult.commute [of _ 2])
  moreover have "distinct (map fst (p_streams ?q))" using ids by (simp add: ids_ok_def)
  ultimately have "ids_ok ?q" by (simp only: ids_ok_def)
  moreover have "streams_ok E ?q (w_heap W)"
    using inv unfolding pool_inv_def streams_ok_def q by (auto simp: stream_idle_def)
  moreover have "keys_ok E ?q" using inv by (simp add: pool_inv_def keys_ok_def)
  ultimately have "pool_inv E (W\<lparr>w_pool := ?q\<rparr>)" by (simp add: pool_inv_def)
  moreover have "grow W = Some (log_to (LogGrow ?n) (W\<lparr>w_pool := ?q\<rparr>))"
    using pos by (simp add: grow_def Let_def)
  moreover have "p_free ?q \<noteq> []" using pos q by simp
  moreover have "length (p_all ?q) = Suc (length (p_all ?p))" by simp
  ultimately show thesis using that [of "log_to (LogGrow ?n) (W\<lparr>w_pool := ?q\<rparr>)"]
    by simp
qed

lemma map_fst_update: "k \<notin> fst ` set xs \<Longrightarrow> AList.update k v xs = xs @ [(k, v)]"
  by (induction xs) auto

text \<open>Taking the last free stream for a key neither of whose directions is in use.\<close>

lemma ids_ok_take:
  assumes "ids_ok p" "p_free p = xs @ [i]" "k \<notin> fst ` set (p_streams p)"
  shows "ids_ok (p\<lparr>p_free := xs, p_streams := p_streams p @ [(k, i)]\<rparr>)"
  using assms by (auto simp: ids_ok_def allocated_def)

lemma pool_inv_take:
  assumes inv: "pool_inv E W" and free: "p_free (w_pool W) = xs @ [i]"
    and new: "k \<notin> fst ` set (p_streams (w_pool W))"
      "key_Reverse (e_flow E) k \<notin> fst ` set (p_streams (w_pool W))"
    and laws: "flow_laws (e_flow E)"
    and s: "stream_live E s" "s_key s = k"
  shows "pool_inv E (W\<lparr>w_pool := (w_pool W)\<lparr>p_free := xs,
      p_streams := p_streams (w_pool W) @ [(k, i)]\<rparr>, w_heap := (w_heap W)(i := s)\<rparr>)"
proof -
  let ?p = "w_pool W"
  let ?q = "?p\<lparr>p_free := xs, p_streams := p_streams ?p @ [(k, i)]\<rparr>"
  have ids: "ids_ok ?p" using inv by (simp add: pool_inv_def)
  have alloc: "i < allocated ?p"
    using ids free by (auto simp: ids_ok_def)
  have unused: "snd x \<noteq> i" if "x \<in> set (p_streams ?p)" for x
    using ids free that by (auto simp: ids_ok_def)
  have notfree: "i \<notin> set xs" using ids free by (auto simp: ids_ok_def)
  have "streams_ok E ?q ((w_heap W)(i := s))"
    unfolding streams_ok_def
  proof (intro conjI ballI allI impI)
    fix x assume "x \<in> set (p_streams ?q)"
    then consider "x = (k, i)" | "x \<in> set (p_streams ?p)" "snd x \<noteq> i"
      using unused [of x] by auto
    then show "stream_live E (((w_heap W)(i := s)) (snd x))"
      "s_key (((w_heap W)(i := s)) (snd x)) = fst x"
      using s pool_inv_used(1,2) [OF inv, of "fst x" "snd x"] by (cases; simp)+
  next
    fix j assume "j \<in> set (p_free ?q)"
    then show "stream_idle E (((w_heap W)(i := s)) j)"
      using inv free notfree by (auto simp: pool_inv_def streams_ok_def)
  next
    fix j assume "allocated ?q \<le> j"
    then show "((w_heap W)(i := s)) j = zero_stream E"
      using inv alloc by (auto simp: pool_inv_def streams_ok_def allocated_def)
  qed
  moreover have "keys_ok E ?q"
    unfolding keys_ok_def
  proof (intro ballI impI)
    fix x y assume x: "x \<in> set (p_streams ?q)" and y: "y \<in> set (p_streams ?q)"
      and r: "fst y = key_Reverse (e_flow E) (fst x)"
    have rev_eq: "fst x = key_Reverse (e_flow E) (fst y)"
      using r laws by (simp add: key_Reverse_def flow_laws_Reverse)
    consider "x = (k, i)" "y = (k, i)" | "x = (k, i)" "y \<in> set (p_streams ?p)"
      | "y = (k, i)" "x \<in> set (p_streams ?p)" | "x \<in> set (p_streams ?p)" "y \<in> set (p_streams ?p)"
      using x y by auto
    then show "x = y"
    proof cases
      case 2
      then show ?thesis using r new(2) by (metis fst_conv imageI)
    next
      case 3
      then show ?thesis using rev_eq new(2) by (metis fst_conv imageI)
    next
      case 4
      then show ?thesis using inv r by (auto simp: pool_inv_def keys_ok_def)
    qed simp
  qed
  ultimately show ?thesis using ids_ok_take [OF ids free new(1)] by (simp add: pool_inv_def)
qed

lemma newStream_new:
  assumes inv: "pool_inv E W" and laws: "flow_laws (e_flow E)"
    and new: "lookup_stream E k W = None" and small: "length (p_all (w_pool W)) < 50"
  obtains i W' where "newStream E k j ts W = Some (i, W')" "pool_inv E W'"
    "p_streams (w_pool W') = p_streams (w_pool W) @ [(k, i)]"
    "i \<notin> snd ` set (p_streams (w_pool W))" "\<forall>m. m \<noteq> i \<longrightarrow> w_heap W' m = w_heap W m"
    "w_heap W' i = stream_reset E (w_heap W i) k j ts" "w_stats W' = w_stats W"
    "stream_idle E (w_heap W i)" "length (p_all (w_pool W')) \<le> Suc (length (p_all (w_pool W)))"
proof -
  define W1 where "W1 = count_request W"
  have inv1: "pool_inv E W1"
    using inv by (simp add: W1_def count_request_def Let_def pool_inv_def ids_ok_def streams_ok_def
        keys_ok_def allocated_def)
  have W1: "p_streams (w_pool W1) = p_streams (w_pool W)" "p_free (w_pool W1) = p_free (w_pool W)"
    "p_all (w_pool W1) = p_all (w_pool W)" "w_heap W1 = w_heap W" "w_stats W1 = w_stats W"
    by (simp_all add: W1_def count_request_def Let_def)
  obtain W2 where grown: "(if length (p_free (w_pool W)) = 0 then grow W1 else Some W1) = Some W2"
    and inv2: "pool_inv E W2" and free: "p_free (w_pool W2) \<noteq> []"
    and W2: "p_streams (w_pool W2) = p_streams (w_pool W)" "w_heap W2 = w_heap W"
      "w_stats W2 = w_stats W" "length (p_all (w_pool W2)) \<le> Suc (length (p_all (w_pool W)))"
  proof (cases "p_free (w_pool W) = []")
    case True
    obtain W2 where "grow W1 = Some W2" "pool_inv E W2" "p_free (w_pool W2) \<noteq> []"
      "p_streams (w_pool W2) = p_streams (w_pool W1)" "w_heap W2 = w_heap W1" "w_stats W2 = w_stats W1"
      "length (p_all (w_pool W2)) = Suc (length (p_all (w_pool W1)))"
      using grow_inv [OF inv1] True small W1 by metis
    then show ?thesis using that True W1 by simp
  next
    case False
    then show ?thesis using that [of W1] inv1 W1 by simp
  qed
  obtain xs i where xs: "p_free (w_pool W2) = xs @ [i]" using free by (metis rev_exhaust)
  have keys: "k \<notin> fst ` set (p_streams (w_pool W2))"
    "key_Reverse (e_flow E) k \<notin> fst ` set (p_streams (w_pool W2))"
    using new W2 by (auto simp: lookup_stream_def map_of_eq_None_iff split: option.splits)
  have idle: "stream_idle E (w_heap W i)"
    using inv2 xs W2 by (auto simp: pool_inv_def streams_ok_def)
  let ?s = "stream_reset E (w_heap W i) k j ts"
  let ?W3 = "W2\<lparr>w_pool := (w_pool W2)\<lparr>p_free := xs, p_streams := p_streams (w_pool W2) @ [(k, i)]\<rparr>,
    w_heap := (w_heap W2)(i := ?s)\<rparr>"
  have inv3: "pool_inv E ?W3"
    by (rule pool_inv_take [OF inv2 xs keys laws]) (simp_all add: stream_reset_live [OF idle])
  have "newStream E k j ts W = Some (i, ?W3)"
    using grown xs W1 W2 keys(1)
    by (simp add: newStream_def Let_def W1_def [symmetric] put_stream_def map_fst_update)
  moreover have "i \<notin> snd ` set (p_streams (w_pool W))"
    using inv2 xs W2 by (auto simp: pool_inv_def ids_ok_def)
  ultimately show thesis using that [of i ?W3] inv3 W2 idle by simp
qed

section \<open>Handling a packet\<close>

lemma put_stream_twice [simp]: "put_stream i s (put_stream i t W) = put_stream i s W"
  by (simp add: put_stream_def)

lemma live_set_wait:
  assumes live: "stream_live E s" and c: "get_conn d s = Some c"
  shows "stream_live E (set_conn d (c\<lparr>c_waitClose := True\<rparr>) s)"
proof -
  obtain rc where "s_RttCache s = Some rc" "cache_inv rc" "\<not> cclosed rc"
    using live by (rule live_cache)
  then show ?thesis
    by (intro stream_live_cong [OF live, where d = d and c = c and c' = "c\<lparr>c_waitClose := True\<rparr>"])
      (simp_all add: c same_frame_def)
qed

text \<open>Closing from a connection marks both connections closed, then closes the stream.\<close>

lemma conn_close_used:
  assumes inv: "pool_inv E W" and use: "(k, i) \<in> set (p_streams (w_pool W))"
    and s: "stream_live E s" "s_key s = k"
  obtains W' where "conn_close E d i (put_stream i s W) = Some W'" "pool_inv E W'"
    "p_streams (w_pool W') = AList.delete k (p_streams (w_pool W))"
    "p_free (w_pool W') = p_free (w_pool W) @ [i]"
    "\<forall>j. j \<noteq> i \<longrightarrow> w_heap W' j = w_heap W j" "s_closed (w_heap W' i)"
    "s_data (w_heap W' i) = s_data s" "p_all (w_pool W') = p_all (w_pool W)"
proof -
  obtain c where c: "get_conn d s = Some c" "c_reverse c = Some (other_side d)"
    "c_cli2srv c = (d = C2S)" "c_key c = side_key E d s"
    using live_conn [OF s(1), of d] by metis
  obtain r where r: "get_conn (other_side d) s = Some r" "c_reverse r = Some d"
    "c_cli2srv r = (other_side d = C2S)" "c_key r = side_key E (other_side d) s"
    using live_conn [OF s(1), of "other_side d"] by (metis other_other)
  let ?t = "set_conn (other_side d) (r\<lparr>c_closed := True\<rparr>) (set_conn d (c\<lparr>c_closed := True\<rparr>) s)"
  have ne: "other_side d \<noteq> d" by (cases d) simp_all
  have st: "conn_close E d i (put_stream i s W) = stream_close E False i (put_stream i ?t W)"
    using c r ne by (simp add: conn_close_def)
  have "conn_wf E d ?t \<and> conn_wf E (other_side d) ?t"
    using c r ne by (cases d) (simp_all add: conn_wf_def)
  then have "conn_wf E C2S ?t \<and> conn_wf E S2C ?t" by (cases d) auto
  then have wf: "stream_wf E ?t" using s by (auto simp: stream_live_def stream_wf_def)
  have "\<not> s_closed ?t" "s_connMap ?t = live_map E (s_key ?t)" "s_key ?t = k" "s_data ?t = s_data s"
    using s by (simp_all add: stream_live_def)
  then have p: "stream_wf E (w_heap (put_stream i ?t W) i)" "\<not> s_closed (w_heap (put_stream i ?t W) i)"
    "s_connMap (w_heap (put_stream i ?t W) i) = live_map E (s_key (w_heap (put_stream i ?t W) i))"
    "s_key (w_heap (put_stream i ?t W) i) = k" "s_data (w_heap (put_stream i ?t W) i) = s_data s"
    using wf by simp_all
  obtain u line where "stream_close E False i (put_stream i ?t W) =
      Some (remove i (log_to line (put_stream i u (put_stream i ?t W))))"
      "stream_idle E u" "s_closed u" "s_key u = s_key (w_heap (put_stream i ?t W) i)"
      "s_data u = s_data (w_heap (put_stream i ?t W) i)"
    by (rule stream_close_live [OF p(1-3)])
  then have u: "stream_close E False i (put_stream i ?t W) =
      Some (remove i (log_to line (put_stream i u W)))" "stream_idle E u" "s_closed u" "s_key u = k"
      "s_data u = s_data s" using p by simp_all
  have eq: "remove i (log_to line (put_stream i u W)) = log_to line (remove i (put_stream i u W))"
    by (simp add: remove_def log_to_def put_stream_def Let_def)
  have "pool_inv E (log_to line (remove i (put_stream i u W)))"
    using pool_inv_remove [OF inv use u(2,4)] by simp
  then show thesis
    using that [of "remove i (log_to line (put_stream i u W))"] st u eq
    by (simp add: remove_def Let_def)
qed

text \<open>What an operation on a stream in use does to the pool: nothing, or it gives the stream back.\<close>

definition pool_kept :: "nat \<Rightarrow> ('f, 'u) world \<Rightarrow> ('f, 'u) world \<Rightarrow> bool" where
  "pool_kept i W W' \<longleftrightarrow>
     p_streams (w_pool W') = p_streams (w_pool W) \<and> p_free (w_pool W') = p_free (w_pool W) \<and>
     p_all (w_pool W') = p_all (w_pool W) \<and> (\<forall>j. j \<noteq> i \<longrightarrow> w_heap W' j = w_heap W j) \<and>
     s_data (w_heap W' i) = s_data (w_heap W i)"

definition pool_freed :: "'f key \<Rightarrow> nat \<Rightarrow> ('f, 'u) world \<Rightarrow> ('f, 'u) world \<Rightarrow> bool" where
  "pool_freed k i W W' \<longleftrightarrow>
     p_streams (w_pool W') = AList.delete k (p_streams (w_pool W)) \<and>
     p_free (w_pool W') = p_free (w_pool W) @ [i] \<and>
     p_all (w_pool W') = p_all (w_pool W) \<and> (\<forall>j. j \<noteq> i \<longrightarrow> w_heap W' j = w_heap W j) \<and>
     s_data (w_heap W' i) = s_data (w_heap W i) \<and> s_closed (w_heap W' i)"

definition wait_other :: "side \<Rightarrow> ('f, 'u) stream \<Rightarrow> bool" where
  "wait_other d s \<longleftrightarrow> (\<exists>c. get_conn (other_side d) s = Some c \<and> c_waitClose c)"

text \<open>A packet on a stream in use is always handled without a panic; it ends the stream exactly when
  it carries FIN or RST and the other direction has seen one before.\<close>

lemma conn_handle_used:
  fixes tcp :: "'f tcp_layer" and d :: side
  assumes inv: "pool_inv E W" and use: "(k, i) \<in> set (p_streams (w_pool W))"
  defines "ends \<equiv> (tcp_FIN tcp \<or> tcp_RST tcp) \<and> wait_other d (w_heap W i)"
  obtains W' where "conn_handle E d tcp ts i W = Some W'" "pool_inv E W'"
    "if ends then pool_freed k i W W' else pool_kept i W W'"
proof -
  let ?s = "w_heap W i"
  let ?fin = "tcp_FIN tcp \<or> tcp_RST tcp"
  let ?ret = "\<lparr>ra_Seq = tcp_Seq tcp, ra_Ack = tcp_Ack tcp, ra_Bytes = tcp_Payload tcp, ra_Seen = ts,
    ra_End = ?fin\<rparr>"
  note live = pool_inv_used(1,2) [OF inv use]
  obtain c where c: "get_conn d ?s = Some c" "\<not> c_closed c" "c_reverse c = Some (other_side d)"
    using live_conn [OF live(1), of d] by metis
  obtain r where r: "get_conn (other_side d) ?s = Some r"
    using live_conn [OF live(1), of "other_side d"] by metis
  define s1 where "s1 = (if ?fin then set_conn d (c\<lparr>c_waitClose := True\<rparr>) ?s else ?s)"
  have s1: "stream_live E s1" "s_key s1 = k" "s_data s1 = s_data ?s"
    using live live_set_wait [OF live(1) c(1)] by (simp_all add: s1_def)
  obtain c1 where c1: "get_conn d s1 = Some c1" "\<not> c_closed c1"
    using live_conn [OF s1(1), of d] by metis
  have first: "conn_mark_end d ?fin ?s = Some (s1, ends)"
    using c r by (auto simp: s1_def ends_def wait_other_def conn_mark_end_def)
  obtain s2 sts2 lg2 where st: "conn_stat E d ?ret (s1, w_stats W, w_log W) = Some (s2, sts2, lg2)"
    and s2: "stream_live E s2" "same_frame s1 s2"
    using conn_stat_live [OF s1(1) c1(1)] by metis
  let ?W = "W\<lparr>w_stats := sts2, w_log := lg2\<rparr>"
  have inv2: "pool_inv E ?W" "(k, i) \<in> set (p_streams (w_pool ?W))" using inv use by simp_all
  have key2: "s_key s2 = k" "s_data s2 = s_data ?s" using s1 s2 by (simp_all add: same_frame_def)
  have step: "conn_handle E d tcp ts i W =
      (if ends then conn_close E d i (put_stream i s2 ?W) else Some (put_stream i s2 ?W))"
    using c first c1 st by (simp add: conn_handle_def Let_def)
  show thesis
  proof (cases ends)
    case False
    then show thesis
      using that [of "put_stream i s2 ?W"] step pool_inv_put [OF inv2 s2(1) key2(1)] key2
      by (simp add: pool_kept_def)
  next
    case True
    obtain W' where "conn_close E d i (put_stream i s2 ?W) = Some W'" "pool_inv E W'"
      "p_streams (w_pool W') = AList.delete k (p_streams (w_pool ?W))"
      "p_free (w_pool W') = p_free (w_pool ?W) @ [i]"
      "\<forall>j. j \<noteq> i \<longrightarrow> w_heap W' j = w_heap ?W j" "s_closed (w_heap W' i)"
      "s_data (w_heap W' i) = s_data s2" "p_all (w_pool W') = p_all (w_pool ?W)"
      by (rule conn_close_used [OF inv2 s2(1) key2(1)])
    then show thesis using that [of W'] step True key2 by (simp add: pool_freed_def)
  qed
qed

section \<open>Lookup\<close>

lemma key_Reverse_Reverse: "flow_laws G \<Longrightarrow> key_Reverse G (key_Reverse G k) = k"
  by (simp add: key_Reverse_def flow_laws_Reverse)

lemma lookup_used:
  assumes inv: "pool_inv E W"
  shows "lookup_stream E k W = Some i \<longleftrightarrow>
    (k, i) \<in> set (p_streams (w_pool W)) \<or> (key_Reverse (e_flow E) k, i) \<in> set (p_streams (w_pool W))"
proof -
  let ?l = "p_streams (w_pool W)"
  have d: "distinct (map fst ?l)" and ks: "keys_ok E (w_pool W)"
    using inv by (simp_all add: pool_inv_def ids_ok_def)
  have m: "map_of ?l q = Some i' \<longleftrightarrow> (q, i') \<in> set ?l" for q i' using d by (rule map_of_eq_Some_iff)
  show ?thesis
  proof (cases "map_of ?l k")
    case None
    then have "lookup_stream E k W = map_of ?l (key_Reverse (e_flow E) k)" "(k, i) \<notin> set ?l"
      using m [of k i] by (simp_all add: lookup_stream_def)
    then show ?thesis using m [of "key_Reverse (e_flow E) k" i] by simp
  next
    case (Some j)
    have "i = j" if "(key_Reverse (e_flow E) k, i) \<in> set ?l"
      using ks Some m [of k j] that unfolding keys_ok_def by fastforce
    moreover have "lookup_stream E k W = Some j" using Some by (simp add: lookup_stream_def)
    ultimately show ?thesis using Some m [of k i] by auto
  qed
qed

lemma lookup_Reverse:
  assumes "pool_inv E W" "flow_laws (e_flow E)"
  shows "lookup_stream E (key_Reverse (e_flow E) k) W = lookup_stream E k W"
proof -
  have "lookup_stream E (key_Reverse (e_flow E) k) W = Some i \<longleftrightarrow> lookup_stream E k W = Some i" for i
    unfolding lookup_used [OF assms(1)] key_Reverse_Reverse [OF assms(2)] by blast
  then show ?thesis by (metis not_None_eq)
qed

lemma lookup_log [simp]: "lookup_stream E k (log_to x W) = lookup_stream E k W"
  unfolding lookup_stream_def log_to_frame ..

text \<open>\<open>getStream\<close> either looks up or, for a first SYN, creates.\<close>

lemma getStream_cases:
  assumes inv: "pool_inv E W" and laws: "flow_laws (e_flow E)" and small: "length (p_all (w_pool W)) < 50"
  obtains
    (found) "getStream E k j e SYN ts W = Some (lookup_stream E k W, W)"
      "e \<or> \<not> SYN \<or> lookup_stream E k W \<noteq> None"
  | (created) i W' where "getStream E k j e SYN ts W = Some (Some i, W')" "\<not> e" SYN
      "lookup_stream E k W = None" "pool_inv E W'"
      "p_streams (w_pool W') = p_streams (w_pool W) @ [(k, i)]"
      "i \<notin> snd ` set (p_streams (w_pool W))" "\<forall>m. m \<noteq> i \<longrightarrow> w_heap W' m = w_heap W m"
      "w_heap W' i = stream_reset E (w_heap W i) k j ts" "w_stats W' = w_stats W"
      "stream_idle E (w_heap W i)" "length (p_all (w_pool W')) \<le> Suc (length (p_all (w_pool W)))"
proof (cases "e \<or> \<not> SYN \<or> lookup_stream E k W \<noteq> None")
  case True
  then show thesis using found by (simp add: getStream_def Let_def)
next
  case False
  let ?W = "log_to (LogCreated k ts) W"
  obtain i W' where "newStream E k j ts ?W = Some (i, W')" "pool_inv E W'"
    "p_streams (w_pool W') = p_streams (w_pool ?W) @ [(k, i)]"
    "i \<notin> snd ` set (p_streams (w_pool ?W))" "\<forall>m. m \<noteq> i \<longrightarrow> w_heap W' m = w_heap ?W m"
    "w_heap W' i = stream_reset E (w_heap ?W i) k j ts" "w_stats W' = w_stats ?W"
    "stream_idle E (w_heap ?W i)" "length (p_all (w_pool W')) \<le> Suc (length (p_all (w_pool ?W)))"
    using newStream_new [of E ?W k j ts] inv laws small False by auto
  then show thesis using created [of i W'] False by (simp add: getStream_def Let_def)
qed

section \<open>Flushing\<close>

lemma flush_used:
  "pool_inv E W \<Longrightarrow> distinct is \<Longrightarrow> set is \<subseteq> snd ` set (p_streams (w_pool W)) \<Longrightarrow>
   \<exists>W'. flush_streams E t is W = Some W' \<and> pool_inv E W' \<and>
     set (p_streams (w_pool W')) =
       {x \<in> set (p_streams (w_pool W)). \<not> (snd x \<in> set is \<and> s_lastSeen (w_heap W (snd x)) < t)}"
proof (induction "is" arbitrary: W)
  case Nil
  then show ?case by auto
next
  case (Cons i "is")
  then obtain k where use: "(k, i) \<in> set (p_streams (w_pool W))" by auto
  have ids: "distinct (map fst (p_streams (w_pool W)))" "distinct (map snd (p_streams (w_pool W)))"
    using Cons.prems(1) by (simp_all add: pool_inv_def ids_ok_def)
  have uniq: "x = (k, i)" if "x \<in> set (p_streams (w_pool W))" "fst x = k \<or> snd x = i" for x
    using that(2)
  proof
    assume "fst x = k"
    then have "(k, snd x) \<in> set (p_streams (w_pool W))" using that(1) by (metis prod.collapse)
    from eq_key_imp_eq_value [OF ids(1) this use] show ?thesis using \<open>fst x = k\<close> by (metis prod.collapse)
  next
    assume "snd x = i"
    then have "(fst x, i) \<in> set (p_streams (w_pool W))" using that(1) by (metis prod.collapse)
    from used_unique [OF Cons.prems(1) use this] show ?thesis using \<open>snd x = i\<close> by (metis prod.collapse)
  qed
  show ?case
  proof (cases "s_lastSeen (w_heap W i) < t")
    case False
    obtain W' where W': "flush_streams E t is W = Some W'" "pool_inv E W'"
      "set (p_streams (w_pool W')) = {x \<in> set (p_streams (w_pool W)).
        \<not> (snd x \<in> set is \<and> s_lastSeen (w_heap W (snd x)) < t)}"
      using Cons.IH [OF Cons.prems(1)] Cons.prems(2,3) by auto
    have "set (p_streams (w_pool W')) = {x \<in> set (p_streams (w_pool W)).
        \<not> (snd x \<in> set (i # is) \<and> s_lastSeen (w_heap W (snd x)) < t)}"
      unfolding W'(3) using False by auto
    then show ?thesis using W' False by (simp add: time_Before_def)
  next
    case True
    obtain W1 where W1: "stream_close E True i W = Some W1" "pool_inv E W1"
      "p_streams (w_pool W1) = AList.delete k (p_streams (w_pool W))"
      "\<forall>m. m \<noteq> i \<longrightarrow> w_heap W1 m = w_heap W m"
      using stream_close_used [OF Cons.prems(1) use, of True] by metis
    have del: "set (p_streams (w_pool W1)) = {x \<in> set (p_streams (w_pool W)). fst x \<noteq> k}"
      unfolding W1(3) by (rule set_delete [OF ids(1)])
    have "set is \<subseteq> snd ` set (p_streams (w_pool W1))"
    proof
      fix m assume m: "m \<in> set is"
      then obtain x where x: "x \<in> set (p_streams (w_pool W))" "snd x = m" using Cons.prems(3) by auto
      have "snd x \<noteq> i" using x(2) m Cons.prems(2) by auto
      then have "fst x \<noteq> k" using uniq [OF x(1)] by (metis snd_conv)
      then show "m \<in> snd ` set (p_streams (w_pool W1))" using x del by auto
    qed
    then obtain W2 where W2: "flush_streams E t is W1 = Some W2" "pool_inv E W2"
      "set (p_streams (w_pool W2)) = {x \<in> set (p_streams (w_pool W1)).
        \<not> (snd x \<in> set is \<and> s_lastSeen (w_heap W1 (snd x)) < t)}"
      using Cons.IH [OF W1(2)] Cons.prems(2) by auto
    have "set (p_streams (w_pool W2)) = {x \<in> set (p_streams (w_pool W)).
        \<not> (snd x \<in> set (i # is) \<and> s_lastSeen (w_heap W (snd x)) < t)}"
    proof -
      have "(fst x \<noteq> k \<and> \<not> (snd x \<in> set is \<and> s_lastSeen (w_heap W1 (snd x)) < t)) \<longleftrightarrow>
          \<not> (snd x \<in> set (i # is) \<and> s_lastSeen (w_heap W (snd x)) < t)"
        if "x \<in> set (p_streams (w_pool W))" for x
      proof (cases "snd x = i")
        case i: True
        then have "x = (k, i)" using uniq [OF that] by blast
        then show ?thesis using True by simp
      next
        case False
        then have "fst x \<noteq> k" using uniq [OF that] by (metis snd_conv)
        then show ?thesis using False W1(4) by simp
      qed
      then show ?thesis unfolding W2(3) del by blast
    qed
    then show ?thesis using W1(1) W2 True by (simp add: time_Before_def)
  qed
qed

section \<open>The pool as a table of sessions\<close>

text \<open>
  What the assembler relies on: a session is found under its key and under the reverse of it, opening
  one changes nothing else, and so does closing it. \<open>room n\<close> says that \<open>n\<close> sessions can be opened.
\<close>

datatype 'k session_op = Open 'k | Close 'k

fun run_sessions ::
    "('k \<Rightarrow> 'w \<Rightarrow> 'i option) \<Rightarrow> ('k \<Rightarrow> 'w \<Rightarrow> ('i \<times> 'w) option) \<Rightarrow> ('i \<Rightarrow> 'w \<Rightarrow> 'w option) \<Rightarrow>
     'k session_op list \<Rightarrow> 'w \<Rightarrow> 'w option" where
  "run_sessions look opn cls [] w = Some w"
| "run_sessions look opn cls (Open k # xs) w =
     (case look k w of
        Some i \<Rightarrow> run_sessions look opn cls xs w
      | None \<Rightarrow> Option.bind (opn k w) (\<lambda>(i, w). run_sessions look opn cls xs w))"
| "run_sessions look opn cls (Close k # xs) w =
     (case look k w of
        None \<Rightarrow> run_sessions look opn cls xs w
      | Some i \<Rightarrow> Option.bind (cls i w) (run_sessions look opn cls xs))"

fun spec_sessions :: "('k \<Rightarrow> 'k) \<Rightarrow> 'k session_op list \<Rightarrow> 'k set \<Rightarrow> 'k set" where
  "spec_sessions rv [] S = S"
| "spec_sessions rv (Open k # xs) S = spec_sessions rv xs (S \<union> {k, rv k})"
| "spec_sessions rv (Close k # xs) S = spec_sessions rv xs (S - {k, rv k})"

fun opens :: "'k session_op list \<Rightarrow> nat" where
  "opens [] = 0"
| "opens (Open k # xs) = Suc (opens xs)"
| "opens (Close k # xs) = opens xs"

locale session_table =
  fixes inv :: "'w \<Rightarrow> bool"
    and room :: "nat \<Rightarrow> 'w \<Rightarrow> bool"
    and rv :: "'k \<Rightarrow> 'k"
    and look :: "'k \<Rightarrow> 'w \<Rightarrow> 'i option"
    and opn :: "'k \<Rightarrow> 'w \<Rightarrow> ('i \<times> 'w) option"
    and cls :: "'i \<Rightarrow> 'w \<Rightarrow> 'w option"
  assumes rv_rv: "inv w \<Longrightarrow> rv (rv k) = k"
    and look_rv: "inv w \<Longrightarrow> look (rv k) w = look k w"
    and open_ok: "inv w \<Longrightarrow> room (Suc n) w \<Longrightarrow> look k w = None \<Longrightarrow>
      \<exists>i w'. opn k w = Some (i, w') \<and> inv w' \<and> room n w' \<and>
        (\<forall>q. look q w \<noteq> Some i) \<and>
        (\<forall>q. look q w' = (if q = k \<or> q = rv k then Some i else look q w))"
    and close_ok: "inv w \<Longrightarrow> look k w = Some i \<Longrightarrow>
      \<exists>w'. cls i w = Some w' \<and> inv w' \<and> (\<forall>n. room n w \<longrightarrow> room n w') \<and>
        (\<forall>q. look q w' = (if q = k \<or> q = rv k then None else look q w))"
    and room_mono: "room (Suc n) w \<Longrightarrow> room n w"
begin

definition sessions :: "'w \<Rightarrow> 'k set" where
  "sessions w = {k. look k w \<noteq> None}"

lemma sessions_rv: "inv w \<Longrightarrow> rv k \<in> sessions w \<longleftrightarrow> k \<in> sessions w"
  by (simp add: sessions_def look_rv)

lemma sessions_open:
  assumes "inv w" "room (Suc n) w" "look k w = None"
  shows "\<exists>i w'. opn k w = Some (i, w') \<and> inv w' \<and> room n w' \<and> sessions w' = sessions w \<union> {k, rv k}"
  using open_ok [OF assms] by (fastforce simp: sessions_def)

lemma sessions_close:
  assumes "inv w" "look k w = Some i"
  shows "\<exists>w'. cls i w = Some w' \<and> inv w' \<and> (\<forall>n. room n w \<longrightarrow> room n w') \<and>
    sessions w' = sessions w - {k, rv k}"
  using close_ok [OF assms] by (fastforce simp: sessions_def)

text \<open>The table refines the set of its keys.\<close>

lemma run_refines:
  "inv w \<Longrightarrow> room (opens xs) w \<Longrightarrow>
   \<exists>w'. run_sessions look opn cls xs w = Some w' \<and> inv w' \<and>
     sessions w' = spec_sessions rv xs (sessions w)"
proof (induction xs arbitrary: w)
  case Nil
  then show ?case by simp
next
  case (Cons x xs)
  show ?case
  proof (cases x)
    case (Open k)
    show ?thesis
    proof (cases "look k w")
      case None
      obtain i w1 where o: "opn k w = Some (i, w1)" "inv w1" "room (opens xs) w1"
        "sessions w1 = sessions w \<union> {k, rv k}"
        using sessions_open [OF Cons.prems(1) _ None, of "opens xs"] Cons.prems(2) Open by auto
      with Cons.IH [OF o(2,3)] show ?thesis using None Open by simp
    next
      case (Some i)
      then have "sessions w \<union> {k, rv k} = sessions w"
        using sessions_rv [OF Cons.prems(1)] by (auto simp: sessions_def)
      moreover have "room (opens xs) w" using room_mono Cons.prems(2) Open by simp
      ultimately show ?thesis using Cons.IH [OF Cons.prems(1)] Some Open by simp
    qed
  next
    case (Close k)
    show ?thesis
    proof (cases "look k w")
      case None
      then have "sessions w - {k, rv k} = sessions w"
        using sessions_rv [OF Cons.prems(1)] by (auto simp: sessions_def)
      then show ?thesis using Cons.IH [OF Cons.prems(1)] Cons.prems(2) None Close by simp
    next
      case (Some i)
      obtain w1 where o: "cls i w = Some w1" "inv w1" "room (opens xs) w1"
        "sessions w1 = sessions w - {k, rv k}"
        using sessions_close [OF Cons.prems(1) Some] Cons.prems(2) Close by auto
      with Cons.IH [OF o(2,3)] show ?thesis using Some Close by simp
    qed
  qed
qed

end

definition pool_ok :: "('f, 'u) env \<Rightarrow> ('f, 'u) world \<Rightarrow> bool" where
  "pool_ok E W \<longleftrightarrow> flow_laws (e_flow E) \<and> pool_inv E W"

definition pool_room :: "nat \<Rightarrow> ('f, 'u) world \<Rightarrow> bool" where
  "pool_room n W \<longleftrightarrow> length (p_all (w_pool W)) + n \<le> 50"

lemma option_eqI: "(\<And>m. a = Some m \<longleftrightarrow> b = Some m) \<Longrightarrow> a = b"
  by (cases a; cases b) auto

lemma lookup_opened:
  assumes "pool_inv E W" "pool_inv E W'" "flow_laws (e_flow E)"
    and "p_streams (w_pool W') = p_streams (w_pool W) @ [(k, i)]"
  shows "lookup_stream E q W' =
    (if q = k \<or> q = key_Reverse (e_flow E) k then Some i else lookup_stream E q W)"
proof (cases "q = k \<or> q = key_Reverse (e_flow E) k")
  case True
  then have "lookup_stream E q W' = Some i"
    using assms(4) key_Reverse_Reverse [OF assms(3), of k] unfolding lookup_used [OF assms(2)] by auto
  then show ?thesis using True by simp
next
  case False
  then have "q \<noteq> k" "key_Reverse (e_flow E) q \<noteq> k"
    using key_Reverse_Reverse [OF assms(3), of q] by auto
  then have "lookup_stream E q W' = lookup_stream E q W"
    using assms(4) by (intro option_eqI) (simp add: lookup_used [OF assms(1)] lookup_used [OF assms(2)])
  then show ?thesis using False by simp
qed

lemma lookup_closed:
  assumes inv: "pool_inv E W" and inv': "pool_inv E W'" and laws: "flow_laws (e_flow E)"
    and found: "(k0, i) \<in> set (p_streams (w_pool W))" "k0 = k \<or> k0 = key_Reverse (e_flow E) k"
    and del: "p_streams (w_pool W') = AList.delete k0 (p_streams (w_pool W))"
  shows "lookup_stream E q W' =
    (if q = k \<or> q = key_Reverse (e_flow E) k then None else lookup_stream E q W)"
proof -
  let ?l = "p_streams (w_pool W)"
  have ids: "distinct (map fst ?l)" and ks: "keys_ok E (w_pool W)"
    using inv by (simp_all add: pool_inv_def ids_ok_def)
  have l': "set (p_streams (w_pool W')) = {x \<in> set ?l. fst x \<noteq> k0}"
    unfolding del by (rule set_delete [OF ids])
  have gone: "(k', m) \<notin> set (p_streams (w_pool W'))" if "k' = k0 \<or> k' = key_Reverse (e_flow E) k0" for k' m
    using that ks found(1) unfolding l' keys_ok_def by fastforce
  show ?thesis
  proof (cases "q = k \<or> q = key_Reverse (e_flow E) k")
    case True
    then have "(q = k0 \<or> q = key_Reverse (e_flow E) k0) \<and>
        (key_Reverse (e_flow E) q = k0 \<or> key_Reverse (e_flow E) q = key_Reverse (e_flow E) k0)"
      using found(2) key_Reverse_Reverse [OF laws, of k] by auto
    then have "lookup_stream E q W' \<noteq> Some m" for m
      unfolding lookup_used [OF inv'] using gone by blast
    then have "lookup_stream E q W' = None" by (metis not_None_eq)
    then show ?thesis using True by simp
  next
    case False
    then have "q \<noteq> k0" "key_Reverse (e_flow E) q \<noteq> k0"
      using found(2) key_Reverse_Reverse [OF laws, of q] key_Reverse_Reverse [OF laws, of k] by metis+
    then have "lookup_stream E q W' = lookup_stream E q W"
      by (intro option_eqI) (simp add: lookup_used [OF inv] lookup_used [OF inv'] l')
    then show ?thesis using False by simp
  qed
qed

interpretation pool: session_table "pool_ok E" pool_room "key_Reverse (e_flow E)" "lookup_stream E"
  "\<lambda>k. newStream E k j ts" "stream_close E True" for E j ts
proof unfold_locales
  fix W :: "('a, 'b) world" and k n i
  assume ok: "pool_ok E W"
  then have inv: "pool_inv E W" and laws: "flow_laws (e_flow E)" by (simp_all add: pool_ok_def)
  show "key_Reverse (e_flow E) (key_Reverse (e_flow E) k) = k" by (rule key_Reverse_Reverse [OF laws])
  show "lookup_stream E (key_Reverse (e_flow E) k) W = lookup_stream E k W"
    by (rule lookup_Reverse [OF inv laws])
  {
    assume room: "pool_room (Suc n) W" and new: "lookup_stream E k W = None"
    have "length (p_all (w_pool W)) < 50" using room by (simp add: pool_room_def)
    then obtain i W' where W': "newStream E k j ts W = Some (i, W')" "pool_inv E W'"
      "p_streams (w_pool W') = p_streams (w_pool W) @ [(k, i)]"
      "i \<notin> snd ` set (p_streams (w_pool W))"
      "length (p_all (w_pool W')) \<le> Suc (length (p_all (w_pool W)))"
      using newStream_new [OF inv laws new] by metis
    have fresh: "lookup_stream E q W \<noteq> Some i" for q
      using W'(4) unfolding lookup_used [OF inv] by force
    note lookup_opened [OF inv W'(2) laws W'(3)]
    then show "\<exists>i W'. newStream E k j ts W = Some (i, W') \<and> pool_ok E W' \<and> pool_room n W' \<and>
        (\<forall>q. lookup_stream E q W \<noteq> Some i) \<and>
        (\<forall>q. lookup_stream E q W' = (if q = k \<or> q = key_Reverse (e_flow E) k then Some i
          else lookup_stream E q W))"
      using W' fresh laws room by (auto simp: pool_ok_def pool_room_def)
  }
  {
    assume found: "lookup_stream E k W = Some i"
    show "\<exists>W'. stream_close E True i W = Some W' \<and> pool_ok E W' \<and>
        (\<forall>n. pool_room n W \<longrightarrow> pool_room n W') \<and>
        (\<forall>q. lookup_stream E q W' = (if q = k \<or> q = key_Reverse (e_flow E) k then None
          else lookup_stream E q W))"
    proof -
      obtain k0 where k0: "(k0, i) \<in> set (p_streams (w_pool W))"
        "k0 = k \<or> k0 = key_Reverse (e_flow E) k"
        using found unfolding lookup_used [OF inv] by blast
      obtain W' where "stream_close E True i W = Some W'" "pool_inv E W'"
        "p_streams (w_pool W') = AList.delete k0 (p_streams (w_pool W))"
        "p_all (w_pool W') = p_all (w_pool W)"
        by (rule stream_close_used [OF inv k0(1), of True])
      then show ?thesis using lookup_closed [OF inv _ laws k0, of W'] laws
        by (auto simp: pool_ok_def pool_room_def)
    qed
  }
qed (simp add: pool_room_def)

section \<open>Properties\<close>

text \<open>C4: the pool refines a set of sessions: any sequence of openings (unless the key or its reverse is
  in use) and closings runs without a panic, keeps the invariant, and what is found afterwards, by
  either direction's key, is what the set that adds and removes both keys holds. The bound on the
  openings keeps the doubling block size below 64 bits.\<close>

theorem pool_refines_sessions:
  assumes "flow_laws (e_flow E)" "pool_inv E W" "length (p_all (w_pool W)) + opens xs \<le> 50"
  shows "\<exists>W'. run_sessions (lookup_stream E) (\<lambda>k. newStream E k j ts) (stream_close E True) xs W = Some W' \<and>
    pool_inv E W' \<and>
    {k. lookup_stream E k W' \<noteq> None} =
      spec_sessions (key_Reverse (e_flow E)) xs {k. lookup_stream E k W \<noteq> None}"
  using pool.run_refines [of E W xs j ts] assms
  by (auto simp: pool_ok_def pool_room_def pool.sessions_def)

definition sample_flow_key :: "(string \<times> string) key" where
  "sample_flow_key = ((''a'', ''b''), (''1'', ''2''))"

lemma init_pool [simp]:
  "p_streams (w_pool (init_world E)) = []" "p_all (w_pool (init_world E)) = []"
  by (simp_all add: init_world_def NewStreamPool_def)

lemma init_lookup [simp]: "lookup_stream E k (init_world E) = None"
  by (simp add: lookup_stream_def)

theorem pool_refines_sessions_witness:
  "\<exists>W'. run_sessions (lookup_stream sample_env) (\<lambda>k. newStream sample_env k 0 5)
      (stream_close sample_env True)
      [Open sample_flow_key, Open ((''b'', ''a''), (''2'', ''1'')), Open ((''a'', ''c''), (''1'', ''3'')),
       Close ((''b'', ''a''), (''2'', ''1''))] (init_world sample_env) = Some W' \<and>
    {k. lookup_stream sample_env k W' \<noteq> None} =
      {((''a'', ''c''), (''1'', ''3'')), ((''c'', ''a''), (''3'', ''1''))}"
proof -
  have rv: "key_Reverse (e_flow sample_env) ((a, b), (c, d)) = ((b, a), (d, c))" for a b c d
    by (simp add: key_Reverse_def sample_env_def pair_flow_def)
  let ?xs = "[Open sample_flow_key, Open ((''b'', ''a''), (''2'', ''1'')),
    Open ((''a'', ''c''), (''1'', ''3'')), Close ((''b'', ''a''), (''2'', ''1''))]"
  have spec: "spec_sessions (key_Reverse (e_flow sample_env)) ?xs
      {k. lookup_stream sample_env k (init_world sample_env) \<noteq> None} =
      {((''a'', ''c''), (''1'', ''3'')), ((''c'', ''a''), (''3'', ''1''))}"
    by (auto simp: rv sample_flow_key_def)
  have "length (p_all (w_pool (init_world sample_env))) + opens ?xs \<le> 50" by simp
  from pool_refines_sessions [OF sample_laws pool_inv_init this, of 0 5] show ?thesis
    unfolding spec by blast
qed

text \<open>C5: \<open>Assemble\<close> opens a session exactly for a SYN without ACK, FIN and RST whose key and reverse
  key are not in use; it then hands the packet to the new, live stream, reset to that key. Any other
  packet is handed to the stream found, if there is one, and the state does not change. In either case
  the stream is the one both directions of the connection find afterwards.\<close>

theorem Assemble_opens_on_first_SYN:
  assumes "pool_inv E W" "flow_laws (e_flow E)" "length (p_all (w_pool W)) < 50"
  shows "\<exists>r W'. Assemble E a net tcp ts W = Some (((net, tcp_TransportFlow tcp), r), W') \<and> pool_inv E W' \<and>
    lookup_stream E (net, tcp_TransportFlow tcp) W' = r \<and>
    lookup_stream E (key_Reverse (e_flow E) (net, tcp_TransportFlow tcp)) W' = r \<and>
    (if tcp_SYN tcp \<and> \<not> tcp_ACK tcp \<and> \<not> tcp_FIN tcp \<and> \<not> tcp_RST tcp \<and>
        lookup_stream E (net, tcp_TransportFlow tcp) W = None
     then \<exists>i. r = Some i \<and>
       w_heap W' i = stream_reset E (w_heap W i) (net, tcp_TransportFlow tcp) (as_stat a) ts \<and>
       p_streams (w_pool W') = p_streams (w_pool W) @ [((net, tcp_TransportFlow tcp), i)]
     else W' = W)"
proof -
  let ?k = "(net, tcp_TransportFlow tcp)"
  let ?e = "(tcp_FIN tcp \<or> tcp_RST tcp) \<or>
    (\<not> tcp_SYN tcp \<and> \<not> tcp_PSH tcp \<and> length (tcp_LayerPayload tcp) = 0)"
  let ?S = "tcp_SYN tcp \<and> \<not> tcp_ACK tcp"
  consider
      (found) "getStream E ?k (as_stat a) ?e ?S ts W = Some (lookup_stream E ?k W, W)"
        "?e \<or> \<not> ?S \<or> lookup_stream E ?k W \<noteq> None"
    | (created) i W' where "getStream E ?k (as_stat a) ?e ?S ts W = Some (Some i, W')" "\<not> ?e" ?S
        "lookup_stream E ?k W = None" "pool_inv E W'"
        "p_streams (w_pool W') = p_streams (w_pool W) @ [(?k, i)]"
        "w_heap W' i = stream_reset E (w_heap W i) ?k (as_stat a) ts"
    by (rule getStream_cases [OF assms(1-3), of ?k "as_stat a" ?e ?S ts]) metis+
  then show ?thesis
  proof cases
    case found
    then show ?thesis using lookup_Reverse [OF assms(1,2)] assms(1)
      by (auto simp: Assemble_def Let_def)
  next
    case (created i W')
    have "lookup_stream E ?k W' = Some i"
      using lookup_opened [OF assms(1) created(5) assms(2) created(6)] by simp
    then show ?thesis using created lookup_Reverse [OF created(5) assms(2)]
      by (auto simp: Assemble_def Let_def)
  qed
qed

definition sample_syn :: "(string \<times> string) tcp_layer" where
  "sample_syn =
     \<lparr>tcp_Seq = 99, tcp_Ack = 0, tcp_FIN = False, tcp_SYN = True, tcp_RST = False, tcp_PSH = False,
      tcp_ACK = False, tcp_Payload = [], tcp_LayerPayload = [], tcp_TransportFlow = (''1'', ''2'')\<rparr>"

theorem Assemble_opens_on_first_SYN_witness:
  "\<exists>i W'. Assemble sample_env \<lparr>as_Iface = ''eth0'', as_stat = 0\<rparr> (''a'', ''b'') sample_syn 5
      (init_world sample_env) = Some ((sample_flow_key, Some i), W') \<and>
    p_streams (w_pool W') = [(sample_flow_key, i)]"
proof -
  have small: "length (p_all (w_pool (init_world sample_env))) < 50" by simp
  have syn: "tcp_SYN sample_syn \<and> \<not> tcp_ACK sample_syn \<and> \<not> tcp_FIN sample_syn \<and> \<not> tcp_RST sample_syn"
    and key: "((''a'', ''b''), tcp_TransportFlow sample_syn) = sample_flow_key"
    by (simp_all add: sample_syn_def sample_flow_key_def)
  show ?thesis
    using Assemble_opens_on_first_SYN [OF pool_inv_init sample_laws small,
      of "\<lparr>as_Iface = ''eth0'', as_stat = 0\<rparr>" "(''a'', ''b'')" sample_syn 5] syn
    unfolding key by auto
qed

text \<open>C6: a packet handed to a stream in use is handled without a panic; the stream is closed, taken out
  of the map and put back in the free list exactly when the packet carries FIN or RST and the other
  direction has seen one before, otherwise the pool is as it was.\<close>

theorem handle_closes_on_second_end:
  fixes tcp :: "'f tcp_layer"
  assumes "pool_inv E W" "(k, i) \<in> set (p_streams (w_pool W))"
  shows "\<exists>W'. conn_handle E d tcp ts i W = Some W' \<and> pool_inv E W' \<and>
    (if (tcp_FIN tcp \<or> tcp_RST tcp) \<and> wait_other d (w_heap W i)
     then pool_freed k i W W' else pool_kept i W W')"
  by (rule conn_handle_used [OF assms]) blast

lemma sample_world:
  obtains W i where "pool_inv sample_env W" "(sample_flow_key, i) \<in> set (p_streams (w_pool W))"
    "w_heap W i = stream_reset sample_env (w_heap (init_world sample_env) i) sample_flow_key 0 5"
  using newStream_new [OF pool_inv_init sample_laws init_lookup, of sample_flow_key 0 5]
  by (metis init_pool append_Nil less_numeral_extra(3) list.set_intros(1) list.size(3) zero_less_numeral)

theorem handle_closes_on_second_end_witness:
  "\<exists>W i W'. (sample_flow_key, i) \<in> set (p_streams (w_pool W)) \<and>
     conn_handle sample_env C2S sample_syn 7 i W = Some W' \<and> pool_kept i W W'"
proof -
  obtain W i where W: "pool_inv sample_env W" "(sample_flow_key, i) \<in> set (p_streams (w_pool W))"
    by (rule sample_world)
  from handle_closes_on_second_end [OF W, of C2S sample_syn 7] W(2) show ?thesis
    by (fastforce simp: sample_syn_def)
qed

text \<open>a stream in use is closed at most once: the first \<open>close\<close>, whoever calls it, logs one line,
  takes the stream out of the map, appends it to the free list once and leaves every other stream
  alone; any later \<open>close\<close> changes nothing.\<close>

theorem close_only_once:
  assumes "pool_inv E W" "(k, i) \<in> set (p_streams (w_pool W))"
  shows "\<exists>W'. stream_close E timeout i W = Some W' \<and> pool_inv E W' \<and> pool_freed k i W W' \<and>
    (\<exists>line. w_log W' = w_log W @ [line]) \<and> stream_close E timeout' i W' = Some W'"
proof -
  note live = pool_inv_used(1,2) [OF assms]
  obtain W' where W': "stream_close E timeout i W = Some W'" "pool_inv E W'"
    "p_streams (w_pool W') = AList.delete k (p_streams (w_pool W))"
    "p_free (w_pool W') = p_free (w_pool W) @ [i]" "p_all (w_pool W') = p_all (w_pool W)"
    "\<forall>j. j \<noteq> i \<longrightarrow> w_heap W' j = w_heap W j" "s_closed (w_heap W' i)"
    "s_data (w_heap W' i) = s_data (w_heap W i)"
    using stream_close_used [OF assms, of timeout] by metis
  obtain s line where "stream_close E timeout i W = Some (remove i (log_to line (put_stream i s W)))"
    using stream_close_live [of E W i timeout] live by (metis stream_live_def)
  then have "w_log W' = w_log W @ [line]" using W'(1) by (auto simp: remove_def log_to_def Let_def)
  then show ?thesis using W' stream_close_closed [OF W'(7), of E timeout']
    by (auto simp: pool_freed_def)
qed

theorem close_only_once_witness:
  "\<exists>W i W'. (sample_flow_key, i) \<in> set (p_streams (w_pool W)) \<and>
     stream_close sample_env False i W = Some W' \<and> stream_close sample_env True i W' = Some W'"
proof -
  obtain W i where W: "pool_inv sample_env W" "(sample_flow_key, i) \<in> set (p_streams (w_pool W))"
    by (rule sample_world)
  from close_only_once [OF W, of False True] W(2) show ?thesis by blast
qed

text \<open>C7: \<open>FlushOlderThan\<close> closes exactly the streams in use that were last seen before the given
  time: the others stay in the map.\<close>

theorem FlushOlderThan_exact:
  assumes "pool_inv E W"
  shows "\<exists>W'. FlushOlderThan E t W = Some W' \<and> pool_inv E W' \<and>
    set (p_streams (w_pool W')) = {x \<in> set (p_streams (w_pool W)). \<not> s_lastSeen (w_heap W (snd x)) < t}"
proof -
  have ids: "ids_ok (w_pool W)" using assms by (simp add: pool_inv_def)
  have "distinct (allStream W)" using ids by (simp add: allStream_def ids_ok_def)
  moreover have "set (allStream W) \<subseteq> snd ` set (p_streams (w_pool W))" by (simp add: allStream_def)
  ultimately obtain W' where W': "flush_streams E t (allStream W) W = Some W'" "pool_inv E W'"
    "set (p_streams (w_pool W')) = {x \<in> set (p_streams (w_pool W)).
      \<not> (snd x \<in> set (allStream W) \<and> s_lastSeen (w_heap W (snd x)) < t)}"
    using flush_used [OF assms] by blast
  have "snd x \<in> set (allStream W)" if "x \<in> set (p_streams (w_pool W))" for x
    using that by (simp add: allStream_def)
  then have "set (p_streams (w_pool W')) =
      {x \<in> set (p_streams (w_pool W)). \<not> s_lastSeen (w_heap W (snd x)) < t}"
    unfolding W'(3) by blast
  with W'(1,2) show ?thesis unfolding FlushOlderThan_def by blast
qed

theorem FlushOlderThan_exact_witness:
  "\<exists>W W'. p_streams (w_pool W) \<noteq> [] \<and> FlushOlderThan sample_env 0 W = Some W' \<and>
     set (p_streams (w_pool W')) =
       {x \<in> set (p_streams (w_pool W)). \<not> s_lastSeen (w_heap W (snd x)) < 0}"
proof -
  obtain W i where W: "pool_inv sample_env W" "(sample_flow_key, i) \<in> set (p_streams (w_pool W))"
    by (rule sample_world)
  have "p_streams (w_pool W) \<noteq> []" using W(2) by auto
  then show ?thesis using FlushOlderThan_exact [OF W(1), of 0] by blast
qed

end
