(* ===== verification/Tcp_System.thy ===== *)
theory Tcp_System
  imports Tcp_Pool
begin

text \<open>
  The goroutines of \<open>tcpassembly\<close> and their interleavings: one capture goroutine per interface, which
  assembles packets and sends them into the channels of their streams, and for every reset of a stream
  a goroutine that runs \<open>dump\<close> of \<open>stream.go\<close> and handles what arrives. One step is a section of code under one
  lock or between two communications. The steps read \<open>s.closed\<close> and the map of connections
  without the lock the code does not take either; memory is sequentially consistent.
\<close>

section \<open>State\<close>

datatype 'f cap =
  CapIdle
| CapCreate "'f key" "'f tcp_layer" time
| CapSend nat "'f pbody"

datatype dump_pc = Loop | Select | Drain | Exited

datatype dump_event = EvCheck | EvRecv | EvTick time | EvDrain

record ('f, 'u) system =
  sy_world :: "('f, 'u) world"
  sy_caps :: "(Assembler \<times> 'f cap) list"
  sy_dumps :: "(nat \<times> dump_pc) list"

definition chan_capacity :: nat where "chan_capacity = 10"

text \<open>Two minutes.\<close>

definition stream_timeout :: int where "stream_timeout = 120 * 1000000000"

section \<open>The capture goroutines\<close>

text \<open>\<open>handle\<close> of a stream, up to the send: a closed stream drops the packet.\<close>

definition stream_handle ::
    "nat \<Rightarrow> 'f key \<Rightarrow> 'f tcp_layer \<Rightarrow> time \<Rightarrow> ('f, 'u) world \<Rightarrow> 'f cap" where
  "stream_handle i k tcp ts W =
     (if s_closed (w_heap W i) then CapIdle
      else CapSend i \<lparr>pb_key = k, pb_tcp = tcp, pb_ts = ts\<rparr>)"

text \<open>The send blocks, which is \<^term>\<open>None\<close>, on a nil or full channel.\<close>

definition chan_send :: "nat \<Rightarrow> 'f pbody \<Rightarrow> ('f, 'u) world \<Rightarrow> ('f, 'u) world option" where
  "chan_send i b W =
     (case s_data (w_heap W i) of
        None \<Rightarrow> None
      | Some q \<Rightarrow> (if length q < chan_capacity
                  then Some (put_stream i ((w_heap W i)\<lparr>s_data := Some (q @ [b])\<rparr>) W) else None))"

text \<open>\<open>Assemble\<close> and \<open>getStream\<close> up to the release of the read lock.\<close>

definition cap_receive ::
    "('f, 'u) env \<Rightarrow> 'f \<Rightarrow> 'f tcp_layer \<Rightarrow> time \<Rightarrow> ('f, 'u) world \<Rightarrow> 'f cap \<times> ('f, 'u) world" where
  "cap_receive E net tcp ts W =
     (let k = (net, tcp_TransportFlow tcp);
          end' = tcp_FIN tcp \<or> tcp_RST tcp;
          e = end' \<or> (\<not> tcp_SYN tcp \<and> \<not> tcp_PSH tcp \<and> length (tcp_LayerPayload tcp) = 0);
          SYN = tcp_SYN tcp \<and> \<not> tcp_ACK tcp;
          stream = lookup_stream E k W
      in if e \<or> \<not> SYN \<or> stream \<noteq> None
         then (case stream of None \<Rightarrow> (CapIdle, W) | Some i \<Rightarrow> (stream_handle i k tcp ts W, W))
         else (CapCreate k tcp ts, log_to (LogCreated k ts) W))"

section \<open>The goroutine of a stream\<close>

definition dump_recv ::
    "('f, 'u) env \<Rightarrow> nat \<Rightarrow> 'f pbody \<Rightarrow> ('f, 'u) world \<Rightarrow> ('f, 'u) world option" where
  "dump_recv E i b W =
     (if \<not> s_closed (w_heap W i)
      then (case stream_getConn (w_heap W i) (pb_key b) of
              None \<Rightarrow> Some W
            | Some d \<Rightarrow>
                (let s = w_heap W i;
                     s = (if time_Before (s_lastSeen s) (pb_ts b) then s\<lparr>s_lastSeen := pb_ts b\<rparr> else s)
                 in conn_handle E d (pb_tcp b) (pb_ts b) i (put_stream i s W)))
      else Some W)"

fun dump_step ::
    "('f, 'u) env \<Rightarrow> nat \<Rightarrow> dump_pc \<Rightarrow> dump_event \<Rightarrow> ('f, 'u) world \<Rightarrow>
     (dump_pc \<times> ('f, 'u) world) option" where
  "dump_step E i Loop EvCheck W = Some (if \<not> s_closed (w_heap W i) then Select else Drain, W)"
| "dump_step E i Select EvRecv W =
     (case s_data (w_heap W i) of
        Some (b # q) \<Rightarrow>
          map_option (Pair Loop) (dump_recv E i b (put_stream i ((w_heap W i)\<lparr>s_data := Some q\<rparr>) W))
      | _ \<Rightarrow> None)"
| "dump_step E i Select (EvTick now) W =
     (if time_Before (s_lastSeen (w_heap W i)) (now - stream_timeout)
      then map_option (Pair Loop) (stream_close E True i W) else Some (Loop, W))"
| "dump_step E i Drain EvDrain W =
     (case s_data (w_heap W i) of
        Some (b # q) \<Rightarrow> Some (Drain, put_stream i ((w_heap W i)\<lparr>s_data := Some q\<rparr>) W)
      | _ \<Rightarrow> Some (Exited, W))"
| "dump_step E i _ _ W = None"

text \<open>Which events can happen: a receive needs a packet in the channel.\<close>

fun dump_enabled :: "nat \<Rightarrow> dump_pc \<Rightarrow> dump_event \<Rightarrow> ('f, 'u) world \<Rightarrow> bool" where
  "dump_enabled i Loop EvCheck W = True"
| "dump_enabled i Select EvRecv W = (\<exists>b q. s_data (w_heap W i) = Some (b # q))"
| "dump_enabled i Select (EvTick now) W = True"
| "dump_enabled i Drain EvDrain W = True"
| "dump_enabled i _ _ W = False"

section \<open>Steps\<close>

inductive step :: "('f, 'u) env \<Rightarrow> ('f, 'u) system \<Rightarrow> ('f, 'u) system \<Rightarrow> bool" for E where
  cap_receive: "c < length (sy_caps S) \<Longrightarrow> sy_caps S ! c = (a, CapIdle) \<Longrightarrow>
    cap_receive E net tcp ts (sy_world S) = (st, W) \<Longrightarrow>
    step E S (S\<lparr>sy_world := W, sy_caps := (sy_caps S)[c := (a, st)]\<rparr>)"
| cap_create: "c < length (sy_caps S) \<Longrightarrow> sy_caps S ! c = (a, CapCreate k tcp ts) \<Longrightarrow>
    newStream E k (as_stat a) ts (sy_world S) = Some (i, W) \<Longrightarrow>
    step E S (S\<lparr>sy_world := W, sy_caps := (sy_caps S)[c := (a, stream_handle i k tcp ts W)],
      sy_dumps := sy_dumps S @ [(i, Loop)]\<rparr>)"
| cap_send: "c < length (sy_caps S) \<Longrightarrow> sy_caps S ! c = (a, CapSend i b) \<Longrightarrow>
    chan_send i b (sy_world S) = Some W \<Longrightarrow>
    step E S (S\<lparr>sy_world := W, sy_caps := (sy_caps S)[c := (a, CapIdle)]\<rparr>)"
| dump: "m < length (sy_dumps S) \<Longrightarrow> sy_dumps S ! m = (i, pc) \<Longrightarrow>
    dump_enabled i pc ev (sy_world S) \<Longrightarrow> dump_step E i pc ev (sy_world S) = Some (pc', W) \<Longrightarrow>
    step E S (S\<lparr>sy_world := W, sy_dumps := (sy_dumps S)[m := (i, pc')]\<rparr>)"

inductive_cases step_elim: "step E S S'"

text \<open>The start: one assembler per interface, the \<open>j\<close>-th with the \<open>j\<close>-th counters, and no stream.\<close>

fun start_caps :: "nat \<Rightarrow> string list \<Rightarrow> ('f, 'u) world \<Rightarrow> (Assembler \<times> 'f cap) list \<times> ('f, 'u) world" where
  "start_caps j [] W = ([], W)"
| "start_caps j (iface # ifs) W =
     (let (a, W) = NewAssembler iface j W; (cs, W) = start_caps (Suc j) ifs W
      in ((a, CapIdle) # cs, W))"

definition start :: "('f, 'u) env \<Rightarrow> string list \<Rightarrow> ('f, 'u) system" where
  "start E ifs =
     (let (cs, W) = start_caps 0 ifs (init_world E)
      in \<lparr>sy_world = W, sy_caps = cs, sy_dumps = []\<rparr>)"

definition reachable :: "('f, 'u) env \<Rightarrow> string list \<Rightarrow> ('f, 'u) system \<Rightarrow> bool" where
  "reachable E ifs S \<longleftrightarrow> (step E)\<^sup>*\<^sup>* (start E ifs) S"

section \<open>Invariant\<close>

text \<open>A goroutine's stream has been reset before; the channel holds at most its capacity; a stream in use
  has a goroutine that serves it; a key about to be created is not in use.\<close>

definition dumps_ok :: "(nat \<Rightarrow> ('f, 'u) stream) \<Rightarrow> (nat \<times> dump_pc) list \<Rightarrow> bool" where
  "dumps_ok h ds \<longleftrightarrow> (\<forall>x \<in> set ds. s_pool (h (fst x)))"

definition chans_ok :: "(nat \<Rightarrow> ('f, 'u) stream) \<Rightarrow> bool" where
  "chans_ok h \<longleftrightarrow> (\<forall>i q. s_data (h i) = Some q \<longrightarrow> length q \<le> chan_capacity)"

definition served :: "'f StreamPool \<Rightarrow> (nat \<times> dump_pc) list \<Rightarrow> bool" where
  "served p ds \<longleftrightarrow>
     (\<forall>x \<in> set (p_streams p). (snd x, Loop) \<in> set ds \<or> (snd x, Select) \<in> set ds)"

fun cap_ok :: "('f, 'u) env \<Rightarrow> ('f, 'u) world \<Rightarrow> 'f cap \<Rightarrow> bool" where
  "cap_ok E W CapIdle = True"
| "cap_ok E W (CapCreate k tcp ts) = (lookup_stream E k W = None)"
| "cap_ok E W (CapSend i b) = s_pool (w_heap W i)"

definition sys_inv :: "('f, 'u) env \<Rightarrow> ('f, 'u) system \<Rightarrow> bool" where
  "sys_inv E S \<longleftrightarrow>
     pool_inv E (sy_world S) \<and> dumps_ok (w_heap (sy_world S)) (sy_dumps S) \<and>
     chans_ok (w_heap (sy_world S)) \<and> served (w_pool (sy_world S)) (sy_dumps S) \<and>
     length (sy_caps S) \<le> 1 \<and> (\<forall>x \<in> set (sy_caps S). cap_ok E (sy_world S) (snd x))"

text \<open>A stream that was ever reset is in use and live, or free, closed and without keys.\<close>

lemma pool_cases:
  assumes inv: "pool_inv E W" and p: "s_pool (w_heap W i)"
  obtains (used) k where "(k, i) \<in> set (p_streams (w_pool W))" "stream_live E (w_heap W i)"
  | (idle) "i \<in> set (p_free (w_pool W))" "stream_wf E (w_heap W i)" "s_closed (w_heap W i)"
    "stream_idle E (w_heap W i)" "\<forall>k. (k, i) \<notin> set (p_streams (w_pool W))"
proof -
  have nz: "w_heap W i \<noteq> zero_stream E" using p by (auto simp: zero_stream_def)
  then have "i \<in> {..<allocated (w_pool W)}"
    using inv by (metis lessThan_iff not_le pool_inv_def streams_ok_def)
  then have "i \<in> set (map snd (p_streams (w_pool W)) @ p_free (w_pool W))"
    using inv by (simp add: pool_inv_def ids_ok_def)
  then consider k where "(k, i) \<in> set (p_streams (w_pool W))" | "i \<in> set (p_free (w_pool W))" by auto
  then show thesis
  proof cases
    case 1
    then show ?thesis using used pool_inv_used(1) [OF inv] by blast
  next
    case 2
    then have id: "stream_idle E (w_heap W i)" using inv by (simp add: pool_inv_def streams_ok_def)
    moreover have "\<forall>k. (k, i) \<notin> set (p_streams (w_pool W))"
      using 2 pool_inv_used(4) [OF inv] by blast
    ultimately show ?thesis using idle 2 nz by (auto simp: stream_idle_def)
  qed
qed

text \<open>Queueing and dequeuing touches neither the invariant nor the life of a stream.\<close>

lemma data_update_live: "stream_live E (s\<lparr>s_data := Some q\<rparr>) \<longleftrightarrow> stream_live E s" if "s_data s \<noteq> None"
  using that by (simp add: stream_live_def stream_wf_def conn_wf_def conn_open_def)

lemma data_update_idle:
  "s_pool s \<Longrightarrow> stream_idle E s \<Longrightarrow> stream_idle E (s\<lparr>s_data := Some q\<rparr>)"
  by (auto simp: stream_idle_def zero_stream_def stream_wf_def conn_wf_def)

lemma seen_update_live: "stream_live E s \<Longrightarrow> stream_live E (s\<lparr>s_lastSeen := t\<rparr>)"
  by (simp add: stream_live_def stream_wf_def conn_wf_def conn_open_def)

lemma pool_inv_put_free:
  assumes inv: "pool_inv E W" and free: "i \<in> set (p_free (w_pool W))" and s: "stream_idle E s"
  shows "pool_inv E (put_stream i s W)"
proof -
  have ids: "ids_ok (w_pool W)" and st: "streams_ok E (w_pool W) (w_heap W)"
    using inv by (simp_all add: pool_inv_def)
  have "i \<in> {..<allocated (w_pool W)}" using ids free by (auto simp: ids_ok_def)
  moreover have "snd x \<noteq> i" if "x \<in> set (p_streams (w_pool W))" for x
    using pool_inv_used(4) [OF inv, of "fst x" "snd x"] that free by auto
  ultimately have "streams_ok E (w_pool W) ((w_heap W)(i := s))"
    using st s by (simp add: streams_ok_def)
  then show ?thesis using inv by (simp add: pool_inv_def)
qed

lemma pool_inv_put_data:
  assumes inv: "pool_inv E W" and p: "s_pool (w_heap W i)"
  shows "pool_inv E (put_stream i ((w_heap W i)\<lparr>s_data := Some q\<rparr>) W)"
  using inv p
proof (cases rule: pool_cases)
  case (used k)
  then have "s_data (w_heap W i) \<noteq> None" by (simp add: stream_live_def stream_wf_def)
  then show ?thesis
    using pool_inv_put [OF inv used(1), of "(w_heap W i)\<lparr>s_data := Some q\<rparr>"] used
      pool_inv_used(2) [OF inv used(1)] by (simp add: data_update_live)
next
  case idle
  then show ?thesis using pool_inv_put_free [OF inv idle(1) data_update_idle [OF p idle(4)]] by blast
qed

section \<open>The goroutine of a stream keeps the invariant\<close>

definition dump_frame :: "('f, 'u) env \<Rightarrow> nat \<Rightarrow> ('f, 'u) world \<Rightarrow> ('f, 'u) world \<Rightarrow> bool" where
  "dump_frame E i W W' \<longleftrightarrow>
     pool_inv E W' \<and> p_all (w_pool W') = p_all (w_pool W) \<and>
     set (p_streams (w_pool W')) \<subseteq> set (p_streams (w_pool W)) \<and>
     (\<forall>j. j \<noteq> i \<longrightarrow> w_heap W' j = w_heap W j) \<and> s_pool (w_heap W' i) \<and>
     (\<forall>q'. s_data (w_heap W' i) = Some q' \<longrightarrow>
        (\<exists>q. s_data (w_heap W i) = Some q \<and> length q' \<le> length q))"

lemma dump_frame_refl: "pool_inv E W \<Longrightarrow> s_pool (w_heap W i) \<Longrightarrow> dump_frame E i W W"
  by (auto simp: dump_frame_def)

lemma dump_frame_trans: "dump_frame E i W V \<Longrightarrow> dump_frame E i V U \<Longrightarrow> dump_frame E i W U"
  unfolding dump_frame_def by (fastforce intro: order_trans)

lemma freed_frame:
  assumes inv: "pool_inv E W" and use: "(k, i) \<in> set (p_streams (w_pool W))"
    and inv': "pool_inv E W'" and f: "pool_freed k i W W'"
  shows "dump_frame E i W W'"
proof -
  have "distinct (map fst (p_streams (w_pool W)))" using inv by (simp add: pool_inv_def ids_ok_def)
  then have "set (p_streams (w_pool W')) \<subseteq> set (p_streams (w_pool W))"
    using f by (auto simp: pool_freed_def set_delete)
  moreover have "s_pool (w_heap W' i)"
  proof -
    have "i \<in> set (p_free (w_pool W'))" using f by (simp add: pool_freed_def)
    then have "stream_idle E (w_heap W' i)" using inv' by (simp add: pool_inv_def streams_ok_def)
    then show ?thesis
      using f by (auto simp: stream_idle_def stream_wf_def pool_freed_def zero_stream_def)
  qed
  ultimately show ?thesis using f inv' by (auto simp: dump_frame_def pool_freed_def)
qed

lemma kept_frame:
  assumes "pool_inv E W" "(k, i) \<in> set (p_streams (w_pool W))" "pool_inv E W'" "pool_kept i W W'"
  shows "dump_frame E i W W'"
proof -
  have "(k, i) \<in> set (p_streams (w_pool W'))" using assms by (simp add: pool_kept_def)
  then have "s_pool (w_heap W' i)"
    using pool_inv_used(1) [OF assms(3)] by (simp add: stream_live_def stream_wf_def)
  then show ?thesis using assms(3,4) by (auto simp: dump_frame_def pool_kept_def)
qed

lemma put_data_frame:
  assumes "pool_inv E W" "s_pool (w_heap W i)" "s_data (w_heap W i) = Some (b # q)"
  shows "dump_frame E i W (put_stream i ((w_heap W i)\<lparr>s_data := Some q\<rparr>) W)"
  using pool_inv_put_data [OF assms(1,2), of q] assms(2,3) by (simp add: dump_frame_def)

lemma dump_recv_frame:
  assumes inv: "pool_inv E W" and p: "s_pool (w_heap W i)"
  obtains W' where "dump_recv E i b W = Some W'" "dump_frame E i W W'"
  using inv p
proof (cases rule: pool_cases)
  case (used k)
  then have op: "\<not> s_closed (w_heap W i)" by (simp add: stream_live_def)
  show thesis
  proof (cases "stream_getConn (w_heap W i) (pb_key b)")
    case None
    then show thesis using that op dump_frame_refl [OF inv p] by (simp add: dump_recv_def)
  next
    case (Some d)
    let ?s = "w_heap W i"
    let ?t = "if time_Before (s_lastSeen ?s) (pb_ts b) then ?s\<lparr>s_lastSeen := pb_ts b\<rparr> else ?s"
    have t: "stream_live E ?t" "s_key ?t = k" "s_data ?t = s_data ?s" "s_pool ?t"
      using used(2) pool_inv_used(2) [OF inv used(1)] p by (simp_all add: seen_update_live)
    let ?W = "put_stream i ?t W"
    have inv1: "pool_inv E ?W" by (rule pool_inv_put [OF inv used(1) t(1,2)])
    have use1: "(k, i) \<in> set (p_streams (w_pool ?W))" using used by simp
    have fr: "dump_frame E i W ?W" using inv1 t by (simp add: dump_frame_def)
    obtain W' where W': "conn_handle E d (pb_tcp b) (pb_ts b) i ?W = Some W'" "pool_inv E W'"
      "if (tcp_FIN (pb_tcp b) \<or> tcp_RST (pb_tcp b)) \<and> wait_other d (w_heap ?W i)
       then pool_freed k i ?W W' else pool_kept i ?W W'"
      by (rule conn_handle_used [OF inv1 use1])
    then have "dump_frame E i ?W W'"
      using freed_frame [OF inv1 use1 W'(2)] kept_frame [OF inv1 use1 W'(2)] by (metis (full_types))
    then show thesis
      using that W'(1) op Some dump_frame_trans [OF fr] by (simp add: dump_recv_def Let_def)
  qed
next
  case idle
  then show thesis using that dump_frame_refl [OF inv p] by (simp add: dump_recv_def)
qed

text \<open>An enabled event of a goroutine never panics; the goroutine of a stream that stays in use goes
  on serving it.\<close>

definition serving :: "dump_pc \<Rightarrow> bool" where
  "serving pc \<longleftrightarrow> pc = Loop \<or> pc = Select"

lemma dump_step_ok:
  assumes inv: "pool_inv E W" and p: "s_pool (w_heap W i)" and en: "dump_enabled i pc ev W"
  obtains pc' W' where "dump_step E i pc ev W = Some (pc', W')" "dump_frame E i W W'"
    "serving pc \<Longrightarrow> (\<exists>k. (k, i) \<in> set (p_streams (w_pool W'))) \<Longrightarrow> serving pc'"
proof -
  note refl = dump_frame_refl [OF inv p]
  consider "pc = Loop" "ev = EvCheck" | "pc = Select" "ev = EvRecv"
    | now where "pc = Select" "ev = EvTick now" | "pc = Drain" "ev = EvDrain"
    using en by (cases pc; cases ev) auto
  then show thesis
  proof cases
    case 1
    have "\<not> s_closed (w_heap W i)" if "(k, i) \<in> set (p_streams (w_pool W))" for k
      using pool_inv_used(1) [OF inv that] by (simp add: stream_live_def)
    then show thesis using that [of "if \<not> s_closed (w_heap W i) then Select else Drain" W] refl 1
      by (cases "s_closed (w_heap W i)") (simp_all add: serving_def, blast)
  next
    case 2
    then obtain b q where q: "s_data (w_heap W i) = Some (b # q)" using en by auto
    let ?W = "put_stream i ((w_heap W i)\<lparr>s_data := Some q\<rparr>) W"
    have inv1: "pool_inv E ?W" "s_pool (w_heap ?W i)" using pool_inv_put_data [OF inv p] p by simp_all
    obtain W' where "dump_recv E i b ?W = Some W'" "dump_frame E i ?W W'"
      by (rule dump_recv_frame [OF inv1])
    then show thesis
      using that [of Loop W'] 2 q dump_frame_trans [OF put_data_frame [OF inv p q]]
      by (simp add: serving_def)
  next
    case (3 now)
    show thesis
    proof (cases "time_Before (s_lastSeen (w_heap W i)) (now - stream_timeout)")
      case False
      then show thesis using that [OF _ refl] 3 by (auto simp: serving_def)
    next
      case True
      show thesis using inv p
      proof (cases rule: pool_cases)
        case (used k)
        obtain W' where W': "stream_close E True i W = Some W'" "pool_inv E W'"
          "p_streams (w_pool W') = AList.delete k (p_streams (w_pool W))"
          "p_free (w_pool W') = p_free (w_pool W) @ [i]" "p_all (w_pool W') = p_all (w_pool W)"
          "\<forall>j. j \<noteq> i \<longrightarrow> w_heap W' j = w_heap W j" "s_closed (w_heap W' i)"
          "s_data (w_heap W' i) = s_data (w_heap W i)"
          using stream_close_used [OF inv used(1), of True] by metis
        then have "pool_freed k i W W'" by (simp add: pool_freed_def)
        from freed_frame [OF inv used(1) W'(2) this] show thesis
          using that [of Loop W'] 3 True W'(1) by (simp add: serving_def)
      next
        case idle
        then show thesis
          using that [of Loop W] 3 True refl stream_close_closed [of W i E True]
          by (simp add: serving_def)
      qed
    qed
  next
    case 4
    show thesis
    proof (cases "s_data (w_heap W i)")
      case None
      then show thesis using that [of Exited W] 4 refl by (simp add: serving_def)
    next
      case (Some q)
      show thesis
      proof (cases q)
        case Nil
        then show thesis using that [of Exited W] 4 refl Some by (simp add: serving_def)
      next
        case (Cons b q')
        then have "s_data (w_heap W i) = Some (b # q')" using Some by simp
        from put_data_frame [OF inv p this] show thesis using that 4 Some Cons
          by (simp add: serving_def)
      qed
    qed
  qed
qed

section \<open>Every step keeps the invariant\<close>

lemma dump_frame_lookup:
  assumes "pool_inv E W" "dump_frame E i W W'" "lookup_stream E k W = None"
  shows "lookup_stream E k W' = None"
proof -
  have "pool_inv E W'" "set (p_streams (w_pool W')) \<subseteq> set (p_streams (w_pool W))"
    using assms(2) by (simp_all add: dump_frame_def)
  then have "lookup_stream E k W' \<noteq> Some m" for m
    using assms(3) lookup_used [OF assms(1), of k m] lookup_used [of E W' k m] by auto
  then show ?thesis by (metis not_None_eq)
qed

lemma dump_frame_caps:
  assumes "pool_inv E W" "dump_frame E i W W'" "cap_ok E W x"
  shows "cap_ok E W' x"
proof (cases x)
  case (CapCreate k tcp ts)
  then show ?thesis using dump_frame_lookup [OF assms(1,2)] assms(3) by simp
next
  case (CapSend j b)
  then show ?thesis using assms by (cases "j = i") (auto simp: dump_frame_def)
qed simp

lemma dump_frame_chans: "dump_frame E i W W' \<Longrightarrow> chans_ok (w_heap W) \<Longrightarrow> chans_ok (w_heap W')"
  unfolding chans_ok_def dump_frame_def by (metis order_trans)

lemma dump_frame_dumps: "dump_frame E i W W' \<Longrightarrow> dumps_ok (w_heap W) ds \<Longrightarrow> dumps_ok (w_heap W') ds"
  unfolding dumps_ok_def dump_frame_def by metis

lemma served_alt:
  "served p ds \<longleftrightarrow> (\<forall>x \<in> set (p_streams p). \<exists>pc. serving pc \<and> (snd x, pc) \<in> set ds)"
  by (auto simp: served_def serving_def)

lemma served_update:
  assumes "served p ds" "m < length ds" "ds ! m = (i, pc)" "set (p_streams q) \<subseteq> set (p_streams p)"
    and "serving pc \<Longrightarrow> (\<exists>k. (k, i) \<in> set (p_streams q)) \<Longrightarrow> serving pc'"
  shows "served q (ds[m := (i, pc')])"
  unfolding served_alt
proof
  fix x assume x: "x \<in> set (p_streams q)"
  then obtain pc0 where pc0: "serving pc0" "(snd x, pc0) \<in> set ds"
    using assms(1,4) unfolding served_alt by blast
  then obtain n where n: "n < length ds" "ds ! n = (snd x, pc0)" by (metis in_set_conv_nth)
  show "\<exists>pc. serving pc \<and> (snd x, pc) \<in> set (ds[m := (i, pc')])"
  proof (cases "n = m")
    case True
    then have "snd x = i" "pc0 = pc" using n assms(3) by simp_all
    then have "serving pc'" using assms(5) pc0(1) x by (metis prod.collapse)
    then show ?thesis using \<open>snd x = i\<close> assms(2) by (metis set_update_memI)
  next
    case False
    then have "ds[m := (i, pc')] ! n = (snd x, pc0)" using n by simp
    then show ?thesis using pc0(1) n(1) by (metis length_list_update nth_mem)
  qed
qed

lemma chan_send_frame:
  assumes inv: "pool_inv E W" and p: "s_pool (w_heap W i)" and s: "chan_send i b W = Some W'"
    and ch: "chans_ok (w_heap W)"
  shows "pool_inv E W'" "w_pool W' = w_pool W" "\<forall>j. s_pool (w_heap W' j) = s_pool (w_heap W j)"
    "chans_ok (w_heap W')"
proof -
  obtain q where q: "s_data (w_heap W i) = Some q" "length q < chan_capacity"
      and W': "W' = put_stream i ((w_heap W i)\<lparr>s_data := Some (q @ [b])\<rparr>) W"
    using s by (auto simp: chan_send_def split: option.splits if_splits)
  show "pool_inv E W'" unfolding W' by (rule pool_inv_put_data [OF inv p])
  show "w_pool W' = w_pool W" "\<forall>j. s_pool (w_heap W' j) = s_pool (w_heap W j)"
    "chans_ok (w_heap W')"
    using q ch by (simp_all add: W' chans_ok_def)
qed

lemma cap_ok_cong:
  assumes "w_pool W' = w_pool W" "\<forall>j. s_pool (w_heap W' j) = s_pool (w_heap W j)"
  shows "cap_ok E W' x = cap_ok E W x"
proof -
  have "lookup_stream E k W' = lookup_stream E k W" for k
    unfolding lookup_stream_def assms(1) ..
  then show ?thesis using assms(2) by (cases x) simp_all
qed

lemma single_cap:
  assumes "length cs \<le> 1" "c < length cs"
  shows "cs[c := y] = [y]" "cs = [cs ! c]"
  using assms by (cases cs; simp)+

lemma used_pool: "pool_inv E W \<Longrightarrow> (k, i) \<in> set (p_streams (w_pool W)) \<Longrightarrow> s_pool (w_heap W i)"
  using pool_inv_used(1) by (fastforce simp: stream_live_def stream_wf_def)

lemma stream_reset_data:
  "s_data (stream_reset E s k j ts) = (case s_data s of None \<Rightarrow> Some [] | Some q \<Rightarrow> Some q)"
  "s_pool (stream_reset E s k j ts)"
  by (simp_all add: stream_reset_def Let_def)

lemma sys_inv_step:
  assumes st: "step E S S'" and inv: "sys_inv E S" and laws: "flow_laws (e_flow E)"
    and small: "length (p_all (w_pool (sy_world S))) < 50"
  shows "sys_inv E S'"
proof -
  let ?W = "sy_world S"
  have pool: "pool_inv E ?W" and dm: "dumps_ok (w_heap ?W) (sy_dumps S)"
    and ch: "chans_ok (w_heap ?W)" and sv: "served (w_pool ?W) (sy_dumps S)"
    and one: "length (sy_caps S) \<le> 1" and caps: "\<forall>x \<in> set (sy_caps S). cap_ok E ?W (snd x)"
    using inv by (simp_all add: sys_inv_def)
  show ?thesis using st
  proof cases
    case 1: (cap_receive c a net tcp ts st W)
    have "w_pool W = w_pool ?W" "w_heap W = w_heap ?W"
      using 1(4) by (auto simp: cap_receive_def Let_def split: if_splits option.splits)
    moreover from this have "pool_inv E W" using pool by (simp add: pool_inv_def)
    moreover have "cap_ok E W st"
    proof -
      have "cap_ok E W (CapSend i b)" if "lookup_stream E k ?W = Some i" for i b k
        using that used_pool [OF pool] unfolding \<open>w_heap W = _\<close> cap_ok.simps lookup_used [OF pool]
        by blast
      then show ?thesis using 1(4)
        by (auto simp: cap_receive_def Let_def stream_handle_def split: if_splits option.splits)
    qed
    ultimately show ?thesis
      using 1(1) dm ch sv single_cap(1) [OF one 1(2)] by (simp add: sys_inv_def)
  next
    case 2: (cap_create c a k tcp ts i W)
    have new: "lookup_stream E k ?W = None"
      using caps 2(3) nth_mem [OF 2(2)] by auto
    obtain i' W' where W': "newStream E k (as_stat a) ts ?W = Some (i', W')" "pool_inv E W'"
      "p_streams (w_pool W') = p_streams (w_pool ?W) @ [(k, i')]"
      "\<forall>m. m \<noteq> i' \<longrightarrow> w_heap W' m = w_heap ?W m"
      "w_heap W' i' = stream_reset E (w_heap ?W i') k (as_stat a) ts"
      using newStream_new [OF pool laws new small] by metis
    then have eq: "i' = i" "W' = W" using 2(4) by simp_all
    have "dumps_ok (w_heap W) (sy_dumps S @ [(i, Loop)])"
      using dm W'(4,5) stream_reset_data(2) unfolding eq dumps_ok_def by (metis Un_iff empty_iff
        fst_conv insert_iff list.set set_append)
    moreover have "chans_ok (w_heap W)"
      unfolding chans_ok_def
    proof (intro allI impI)
      fix j q assume "s_data (w_heap W j) = Some q"
      then show "length q \<le> chan_capacity"
        using ch W'(4,5) unfolding eq chans_ok_def
        by (cases "j = i") (auto simp: stream_reset_data split: option.splits)
    qed
    moreover have "served (w_pool W) (sy_dumps S @ [(i, Loop)])"
      using sv W'(3) unfolding eq served_def by auto
    moreover have "cap_ok E W (stream_handle i k tcp ts W)"
      using W'(5) unfolding eq by (simp add: stream_handle_def stream_reset_data(2))
    ultimately show ?thesis
      using 2(1) W'(2) single_cap(1) [OF one 2(2)] unfolding eq by (simp add: sys_inv_def)
  next
    case 3: (cap_send c a i b W)
    have p: "s_pool (w_heap ?W i)" using caps 3(3) nth_mem [OF 3(2)] by auto
    note fr = chan_send_frame [OF pool p 3(4) ch]
    have "dumps_ok (w_heap W) (sy_dumps S)" using dm fr(3) by (simp add: dumps_ok_def)
    then show ?thesis
      using 3(1) fr sv single_cap(1) [OF one 3(2)] by (simp add: sys_inv_def)
  next
    case 4: (dump m i pc ev pc' W)
    have p: "s_pool (w_heap ?W i)"
      using dm 4(3) nth_mem [OF 4(2)] by (auto simp: dumps_ok_def)
    obtain pc'' W'' where d: "dump_step E i pc ev ?W = Some (pc'', W'')" "dump_frame E i ?W W''"
      "serving pc \<Longrightarrow> (\<exists>k. (k, i) \<in> set (p_streams (w_pool W''))) \<Longrightarrow> serving pc''"
      using dump_step_ok [OF pool p 4(4)] by blast
    then have eq: "pc'' = pc'" "W'' = W" using 4(5) by simp_all
    have "dumps_ok (w_heap W) ((sy_dumps S)[m := (i, pc')])"
    proof -
      have "set ((sy_dumps S)[m := (i, pc')]) \<subseteq> insert (i, pc') (set (sy_dumps S))"
        by (rule set_update_subset_insert)
      moreover have "s_pool (w_heap W i)" using d(2) eq by (simp add: dump_frame_def)
      ultimately show ?thesis
        using dump_frame_dumps [OF d(2) dm] unfolding eq dumps_ok_def by auto
    qed
    moreover have "served (w_pool W) ((sy_dumps S)[m := (i, pc')])"
      by (rule served_update [OF sv 4(2,3)]) (use d(2,3) eq in \<open>auto simp: dump_frame_def\<close>)
    moreover have "\<forall>x \<in> set (sy_caps S). cap_ok E W (snd x)"
      using caps dump_frame_caps [OF pool d(2)] eq by blast
    ultimately show ?thesis
      using 4(1) d(2) dump_frame_chans [OF d(2) ch] one unfolding eq
      by (simp add: sys_inv_def dump_frame_def)
  qed
qed

lemma newStream_p_all:
  assumes "newStream E k j ts W = Some (i, W')"
  shows "length (p_all (w_pool W)) \<le> length (p_all (w_pool W'))"
proof -
  have c: "p_all (w_pool (count_request W)) = p_all (w_pool W)"
    by (simp add: count_request_def Let_def)
  have g: "length (p_all (w_pool V)) \<le> length (p_all (w_pool V'))" if "grow V = Some V'" for V V' :: "('a, 'b) world"
    using that by (auto simp: grow_def Let_def split: if_splits)
  obtain V where V: "(if length (p_free (w_pool (count_request W))) = 0 then grow (count_request W)
      else Some (count_request W)) = Some V" "p_all (w_pool W') = p_all (w_pool V)"
    using assms by (auto simp: newStream_def Let_def bind_eq_Some_conv split: if_splits)
  then show ?thesis using g [of "count_request W" V] c by (auto split: if_splits)
qed

lemma stream_close_p_all:
  "stream_close E timeout i W = Some W' \<Longrightarrow> p_all (w_pool W') = p_all (w_pool W)"
  by (auto simp: stream_close_def Let_def bind_eq_Some_conv remove_def split: if_splits)

lemma conn_close_p_all: "conn_close E d i W = Some W' \<Longrightarrow> p_all (w_pool W') = p_all (w_pool W)"
  by (auto simp: conn_close_def Let_def bind_eq_Some_conv dest!: stream_close_p_all)

lemma conn_handle_p_all:
  "conn_handle E d tcp ts i W = Some W' \<Longrightarrow> p_all (w_pool W') = p_all (w_pool W)"
  by (auto simp: conn_handle_def Let_def bind_eq_Some_conv dest!: conn_close_p_all split: if_splits)

lemma dump_step_p_all:
  assumes "dump_step E i pc ev W = Some (pc', W')"
  shows "p_all (w_pool W') = p_all (w_pool W)"
proof -
  have recv: "p_all (w_pool V') = p_all (w_pool V)" if "dump_recv E i b V = Some V'" for b V V'
    using that by (auto simp: dump_recv_def Let_def dest!: conn_handle_p_all split: if_splits option.splits)
  show ?thesis
    using assms by (cases "(E, i, pc, ev, W)" rule: dump_step.cases)
      (auto dest!: recv stream_close_p_all split: if_splits option.splits list.splits)
qed

lemma step_grows:
  assumes "step E S S'"
  shows "length (p_all (w_pool (sy_world S))) \<le> length (p_all (w_pool (sy_world S')))"
  using assms
proof cases
  case 1: (cap_receive c a net tcp ts st W)
  have "w_pool W = w_pool (sy_world S)"
    using 1(4) by (auto simp: cap_receive_def Let_def split: if_splits option.splits)
  then show ?thesis using 1(1) by simp
next
  case 2: (cap_create c a k tcp ts i W)
  then show ?thesis using newStream_p_all [OF 2(4)] by simp
next
  case 3: (cap_send c a i b W)
  then show ?thesis by (auto simp: chan_send_def split: option.splits if_splits)
next
  case 4: (dump m i pc ev pc' W)
  then show ?thesis using dump_step_p_all [OF 4(5)] by simp
qed

lemma start_caps_pool:
  "start_caps j ifs W = (cs, W') \<Longrightarrow>
   p_streams (w_pool W') = p_streams (w_pool W) \<and> p_free (w_pool W') = p_free (w_pool W) \<and>
   p_all (w_pool W') = p_all (w_pool W) \<and> p_nextAlloc (w_pool W') = p_nextAlloc (w_pool W) \<and>
   w_heap W' = w_heap W \<and> length cs = length ifs \<and> snd ` set cs \<subseteq> {CapIdle}"
proof (induction j ifs W arbitrary: cs W' rule: start_caps.induct)
  case (2 j iface ifs W)
  obtain a V where a: "NewAssembler iface j W = (a, V)" by (meson surj_pair)
  obtain cs' V' where r: "start_caps (Suc j) ifs V = (cs', V')" by (meson surj_pair)
  note IH = "2.IH" [OF a [symmetric] refl r]
  have V: "cs = (a, CapIdle) # cs'" "W' = V'" using a r "2.prems" by auto
  have W: "p_streams (w_pool V) = p_streams (w_pool W)" "p_free (w_pool V) = p_free (w_pool W)"
    "p_all (w_pool V) = p_all (w_pool W)" "p_nextAlloc (w_pool V) = p_nextAlloc (w_pool W)"
    "w_heap V = w_heap W"
    using a by (auto simp: NewAssembler_def)
  show ?case using IH unfolding V W by simp
qed simp

lemma sys_inv_start: "length ifs \<le> 1 \<Longrightarrow> sys_inv E (start E ifs)"
proof -
  assume one: "length ifs \<le> 1"
  obtain cs W where cs: "start_caps 0 ifs (init_world E) = (cs, W)" by (meson surj_pair)
  note f = start_caps_pool [OF cs]
  have "pool_inv E W"
    using pool_inv_init [of E] f
    by (simp add: pool_inv_def ids_ok_def streams_ok_def keys_ok_def allocated_def)
  moreover have "cap_ok E W (snd x)" if "x \<in> set cs" for x
    using f that by (metis cap_ok.simps(1) imageI singletonD subsetD)
  moreover have "chans_ok (w_heap W)"
    using f by (simp add: chans_ok_def init_world_def zero_stream_def)
  ultimately show ?thesis
    using f one cs by (simp add: start_def sys_inv_def dumps_ok_def served_def)
qed

lemma reachable_inv:
  assumes "reachable E ifs S" "length ifs \<le> 1" "flow_laws (e_flow E)"
    "length (p_all (w_pool (sy_world S))) < 50"
  shows "sys_inv E S"
proof -
  have "(step E)\<^sup>*\<^sup>* (start E ifs) S" using assms(1) by (simp add: reachable_def)
  then show ?thesis using assms(4)
  proof (induction rule: rtranclp_induct)
    case base
    show ?case by (rule sys_inv_start [OF assms(2)])
  next
    case (step S S')
    have "length (p_all (w_pool (sy_world S))) < 50"
      using step_grows [OF step.hyps(2)] step.prems by simp
    then show ?case using sys_inv_step [OF step.hyps(2)] step.IH assms(3) by blast
  qed
qed

section \<open>A waiting send always has a goroutine to make room\<close>

definition pending :: "('f, 'u) system \<Rightarrow> nat \<Rightarrow> bool" where
  "pending S i \<longleftrightarrow> (\<exists>a b. (a, CapSend i b) \<in> set (sy_caps S))"

definition active :: "('f, 'u) system \<Rightarrow> nat \<Rightarrow> bool" where
  "active S i \<longleftrightarrow> (\<exists>pc. pc \<noteq> Exited \<and> (i, pc) \<in> set (sy_dumps S))"

definition queued :: "('f, 'u) system \<Rightarrow> nat \<Rightarrow> nat" where
  "queued S i = (case s_data (w_heap (sy_world S) i) of None \<Rightarrow> 0 | Some q \<Rightarrow> length q)"

text \<open>Once all the goroutines of a stream have ended, at most one packet is left behind for it.\<close>

definition drained :: "('f, 'u) system \<Rightarrow> bool" where
  "drained S \<longleftrightarrow> (\<forall>i. active S i \<or> queued S i + (if pending S i then 1 else 0) \<le> 1)"

lemma update_other:
  assumes "ds ! m = (i, p)" "n \<noteq> i"
  shows "(n, q) \<in> set (ds[m := (i, p')]) \<longleftrightarrow> (n, q) \<in> set ds"
proof
  assume "(n, q) \<in> set (ds[m := (i, p')])"
  then show "(n, q) \<in> set ds" using set_update_subset_insert [of ds m "(i, p')"] assms(2) by auto
next
  assume "(n, q) \<in> set ds"
  then obtain l where l: "l < length ds" "ds ! l = (n, q)" by (auto simp: in_set_conv_nth)
  then have "ds[m := (i, p')] ! l = (n, q)" using assms by (cases "l = m") simp_all
  then show "(n, q) \<in> set (ds[m := (i, p')])" using l(1) by (metis length_list_update nth_mem)
qed

lemma dump_step_exits:
  assumes "dump_step E i pc ev W = Some (Exited, W')"
  shows "s_data (w_heap W' i) = None \<or> s_data (w_heap W' i) = Some []"
  using assms by (cases "(E, i, pc, ev, W)" rule: dump_step.cases)
    (auto split: if_splits option.splits list.splits)

lemma drained_step:
  assumes st: "step E S S'" and inv: "sys_inv E S" and laws: "flow_laws (e_flow E)"
    and small: "length (p_all (w_pool (sy_world S))) < 50" and dr: "drained S"
  shows "drained S'"
proof -
  let ?W = "sy_world S"
  have pool: "pool_inv E ?W" and sv: "served (w_pool ?W) (sy_dumps S)"
    and one: "length (sy_caps S) \<le> 1" and caps: "\<forall>x \<in> set (sy_caps S). cap_ok E ?W (snd x)"
    using inv by (simp_all add: sys_inv_def)
  have used: "active S i" if "lookup_stream E k ?W = Some i" for k i
    using that sv unfolding lookup_used [OF pool] served_def active_def by fastforce
  have old: "active S i \<or> queued S i \<le> 1" for i
    using dr unfolding drained_def by (metis add_leD1)
  show ?thesis using st
  proof cases
    case 1: (cap_receive c a net tcp ts st W)
    have W: "w_heap W = w_heap ?W"
      using 1(4) by (auto simp: cap_receive_def Let_def split: if_splits option.splits)
    have p: "pending S' i \<longleftrightarrow> (\<exists>b. st = CapSend i b)" for i
      using single_cap(1) [OF one 1(2)] 1(1) by (auto simp: pending_def)
    have "active S i" if "st = CapSend i b" for i b
    proof -
      have "lookup_stream E (net, tcp_TransportFlow tcp) ?W = Some i"
        using 1(4) that by (auto simp: cap_receive_def Let_def stream_handle_def
            split: if_splits option.splits)
      then show ?thesis by (rule used)
    qed
    moreover have "queued S' i = queued S i" "active S' i = active S i" for i
      using 1(1) W by (simp_all add: queued_def active_def)
    ultimately show ?thesis using old p unfolding drained_def by (metis add_0_right)
  next
    case 2: (cap_create c a k tcp ts i W)
    have new: "lookup_stream E k ?W = None" using caps 2(3) nth_mem [OF 2(2)] by auto
    obtain i' W' where W': "newStream E k (as_stat a) ts ?W = Some (i', W')"
      "\<forall>m. m \<noteq> i' \<longrightarrow> w_heap W' m = w_heap ?W m"
      using newStream_new [OF pool laws new small] by metis
    then have eq: "i' = i" "W' = W" using 2(4) by simp_all
    have p: "\<not> pending S' m" if "m \<noteq> i" for m
      using single_cap(1) [OF one 2(2)] 2(1) that by (auto simp: pending_def stream_handle_def)
    have "active S' i" using 2(1) by (auto simp: active_def)
    moreover have "queued S' m = queued S m" if "m \<noteq> i" for m
      using 2(1) W'(2) that by (simp add: queued_def eq)
    moreover have "active S' m" if "active S m" for m using 2(1) that by (auto simp: active_def)
    ultimately show ?thesis using old p unfolding drained_def by (metis add_0_right)
  next
    case 3: (cap_send c a i b W)
    have p: "\<not> pending S' m" for m
      using single_cap(1) [OF one 3(2)] 3(1) by (auto simp: pending_def)
    have "pending S i" using 3(3) nth_mem [OF 3(2)] by (auto simp: pending_def)
    then have "active S i \<or> queued S i = 0" using dr unfolding drained_def by (metis add_le_same_cancel2 le_zero_eq)
    moreover have "queued S' i = Suc (queued S i)" "m \<noteq> i \<Longrightarrow> queued S' m = queued S m" for m
      using 3(1,4) by (auto simp: queued_def chan_send_def split: option.splits if_splits)
    moreover have "active S' m = active S m" for m using 3(1) by (simp add: active_def)
    ultimately show ?thesis using old p unfolding drained_def by (metis One_nat_def add_0_right le_refl)
  next
    case 4: (dump m i pc ev pc' W)
    have pl: "s_pool (w_heap ?W i)"
      using inv 4(3) nth_mem [OF 4(2)] by (auto simp: sys_inv_def dumps_ok_def)
    have fr: "dump_frame E i ?W W" using dump_step_ok [OF pool pl 4(4)] 4(5) by fastforce
    have p: "pending S' n = pending S n" for n using 4(1) by (simp add: pending_def)
    have others: "active S' n = active S n" "queued S' n = queued S n" if "n \<noteq> i" for n
      using fr that update_other [OF 4(3) that] 4(1) by (simp_all add: active_def queued_def dump_frame_def)
    have "active S' i \<or> queued S' i = 0"
    proof (cases "pc' = Exited")
      case True
      then have "dump_step E i pc ev ?W = Some (Exited, W)" using 4(5) by simp
      from dump_step_exits [OF this] show ?thesis using 4(1) by (auto simp: queued_def)
    next
      case False
      then show ?thesis using 4(1,2) by (auto simp: active_def intro!: exI [of _ pc'] set_update_memI)
    qed
    then show ?thesis using others p dr unfolding drained_def by (metis add_0 le_refl zero_le_one)
  qed
qed

lemma drained_start: "drained (start E ifs)"
proof -
  obtain cs W where cs: "start_caps 0 ifs (init_world E) = (cs, W)" by (meson surj_pair)
  have "w_heap W = (\<lambda>_. zero_stream E)" "\<forall>x \<in> set cs. snd x = CapIdle"
    using start_caps_pool [OF cs] by (auto simp: init_world_def)
  then show ?thesis
    using cs by (auto simp: start_def drained_def queued_def zero_stream_def pending_def)
qed

lemma reachable_drained:
  assumes "reachable E ifs S" "length ifs \<le> 1" "flow_laws (e_flow E)"
    "length (p_all (w_pool (sy_world S))) < 50"
  shows "drained S"
proof -
  have "(step E)\<^sup>*\<^sup>* (start E ifs) S" using assms(1) by (simp add: reachable_def)
  then show ?thesis using assms(4)
  proof (induction rule: rtranclp_induct)
    case base
    show ?case by (rule drained_start)
  next
    case (step S S')
    have small: "length (p_all (w_pool (sy_world S))) < 50"
      using step_grows [OF step.hyps(2)] step.prems by simp
    have "reachable E ifs S" using step.hyps(1) by (simp add: reachable_def)
    from reachable_inv [OF this assms(2,3) small] show ?case
      using drained_step [OF step.hyps(2)] step.IH assms(3) small by blast
  qed
qed

section \<open>Executions\<close>

text \<open>What the pool does when it has a free stream, and when it is empty.\<close>

lemma newStream_exact:
  assumes "p_free (w_pool W) = xs @ [i]"
  shows "newStream E k j ts W = Some (i, let V = count_request W in
    V\<lparr>w_pool := (w_pool V)\<lparr>p_free := xs, p_streams := AList.update k i (p_streams (w_pool W))\<rparr>,
      w_heap := (w_heap W)(i := stream_reset E (w_heap W i) k j ts)\<rparr>)"
proof -
  have "p_free (w_pool (count_request W)) = xs @ [i]" "w_heap (count_request W) = w_heap W"
    "p_streams (w_pool (count_request W)) = p_streams (w_pool W)"
    using assms by (simp_all add: count_request_def Let_def)
  then show ?thesis by (simp add: newStream_def Let_def put_stream_def)
qed

definition first_stream :: nat where "first_stream = nat initialAllocSize - 1"

lemma newStream_first:
  assumes "p_free (w_pool W) = []" "p_all (w_pool W) = []" "p_nextAlloc (w_pool W) = initialAllocSize"
    "p_streams (w_pool W) = []"
  obtains W' where "newStream E k j ts W = Some (first_stream, W')"
    "p_streams (w_pool W') = [(k, first_stream)]" "p_free (w_pool W') = [0..<first_stream]"
    "p_all (w_pool W') = [nat initialAllocSize]"
    "w_heap W' = (w_heap W)(first_stream := stream_reset E (w_heap W first_stream) k j ts)"
proof -
  let ?V = "count_request W"
  have V: "p_free (w_pool ?V) = []" "p_all (w_pool ?V) = []" "p_nextAlloc (w_pool ?V) = initialAllocSize"
    "p_streams (w_pool ?V) = []" "w_heap ?V = w_heap W"
    using assms by (simp_all add: count_request_def Let_def)
  have pos: "\<not> initialAllocSize < 0" "nat initialAllocSize = Suc first_stream"
    by (simp_all add: initialAllocSize_def first_stream_def)
  have free: "[0..<nat initialAllocSize] = [0..<first_stream] @ [first_stream]"
    unfolding pos(2) by simp
  obtain U where U: "grow ?V = Some U" "p_free (w_pool U) = [0..<first_stream] @ [first_stream]"
    "p_streams (w_pool U) = []" "w_heap U = w_heap W" "p_all (w_pool U) = [nat initialAllocSize]"
    using V pos(1) free by (simp add: grow_def Let_def allocated_def)
  then show thesis
    using that V by (simp add: newStream_def Let_def put_stream_def)
qed

lemma start_world:
  "p_free (w_pool (sy_world (start E ifs))) = []" "p_all (w_pool (sy_world (start E ifs))) = []"
  "p_nextAlloc (w_pool (sy_world (start E ifs))) = initialAllocSize"
  "p_streams (w_pool (sy_world (start E ifs))) = []" "sy_dumps (start E ifs) = []"
  "w_heap (sy_world (start E ifs)) = (\<lambda>_. zero_stream E)"
proof -
  obtain cs W where cs: "start_caps 0 ifs (init_world E) = (cs, W)" by (meson surj_pair)
  from start_caps_pool [OF cs] cs show
    "p_free (w_pool (sy_world (start E ifs))) = []" "p_all (w_pool (sy_world (start E ifs))) = []"
    "p_nextAlloc (w_pool (sy_world (start E ifs))) = initialAllocSize"
    "p_streams (w_pool (sy_world (start E ifs))) = []" "sy_dumps (start E ifs) = []"
    "w_heap (sy_world (start E ifs)) = (\<lambda>_. zero_stream E)"
    by (simp_all add: start_def init_world_def NewStreamPool_def)
qed

lemma start_caps_one: "sy_caps (start E [x]) = [(\<lparr>as_Iface = x, as_stat = 0\<rparr>, CapIdle)]"
  by (simp add: start_def NewAssembler_def)

lemma start_caps_two: "sy_caps (start E [x, y]) =
    [(\<lparr>as_Iface = x, as_stat = 0\<rparr>, CapIdle), (\<lparr>as_Iface = y, as_stat = 1\<rparr>, CapIdle)]"
  by (simp add: start_def NewAssembler_def)

text \<open>A SYN that finds no stream.\<close>

lemma receive_syn:
  assumes "lookup_stream E (net, tcp_TransportFlow tcp) W = None" "tcp_SYN tcp" "\<not> tcp_ACK tcp"
    "\<not> tcp_FIN tcp" "\<not> tcp_RST tcp"
  shows "cap_receive E net tcp ts W = (CapCreate (net, tcp_TransportFlow tcp) tcp ts,
    log_to (LogCreated (net, tcp_TransportFlow tcp) ts) W)"
  using assms by (simp add: cap_receive_def Let_def)

section \<open>Properties\<close>


lemma first_stream_pos: "0 < first_stream" "nat initialAllocSize = Suc first_stream"
  by (simp_all add: first_stream_def initialAllocSize_def)

lemma sample_syn_key: "((''a'', ''b''), tcp_TransportFlow sample_syn) = sample_flow_key"
  by (simp add: sample_syn_def sample_flow_key_def)

lemma receive_sample_syn:
  assumes "p_streams (w_pool W) = []"
  shows "cap_receive E (''a'', ''b'') sample_syn ts W =
    (CapCreate sample_flow_key sample_syn ts, log_to (LogCreated sample_flow_key ts) W)"
proof -
  have "lookup_stream E ((''a'', ''b''), tcp_TransportFlow sample_syn) W = None"
    using assms by (simp add: lookup_stream_def)
  from receive_syn [OF this, of ts] show ?thesis unfolding sample_syn_key
    by (simp add: sample_syn_def)
qed

text \<open>with two capture goroutines a stream can be lost: both find no stream for the same SYN, then both
  create one; the second replaces the first in the map, and the first is open but neither in the map nor
  in the free list.\<close>

theorem two_captures_lose_a_stream:
  "\<exists>S i. reachable sample_env [''eth0'', ''eth1''] S \<and> i < allocated (w_pool (sy_world S)) \<and>
     i \<notin> set (map snd (p_streams (w_pool (sy_world S))) @ p_free (w_pool (sy_world S))) \<and>
     \<not> s_closed (w_heap (sy_world S) i) \<and> s_key (w_heap (sy_world S) i) = sample_flow_key"
proof -
  let ?E = sample_env and ?k = sample_flow_key and ?net = "(''a'', ''b'')"
  let ?a = "\<lparr>as_Iface = ''eth0'', as_stat = 0\<rparr>" and ?b = "\<lparr>as_Iface = ''eth1'', as_stat = 1\<rparr>"
  define S0 where "S0 = start ?E [''eth0'', ''eth1'']"
  let ?W0 = "sy_world S0"
  define W1 where "W1 = log_to (LogCreated ?k 5) ?W0"
  define S1 where "S1 = S0\<lparr>sy_world := W1, sy_caps := (sy_caps S0)[0 := (?a, CapCreate ?k sample_syn 5)]\<rparr>"
  define W2 where "W2 = log_to (LogCreated ?k 6) W1"
  define S2 where "S2 = S1\<lparr>sy_world := W2, sy_caps := (sy_caps S1)[1 := (?b, CapCreate ?k sample_syn 6)]\<rparr>"
  have caps0: "sy_caps S0 = [(?a, CapIdle), (?b, CapIdle)]" by (simp add: S0_def start_caps_two)
  have W2: "p_free (w_pool W2) = []" "p_all (w_pool W2) = []" "p_nextAlloc (w_pool W2) = initialAllocSize"
    "p_streams (w_pool W2) = []" "p_streams (w_pool W1) = []" "p_streams (w_pool ?W0) = []"
    by (simp_all add: W2_def W1_def S0_def start_world)
  have s1: "step ?E S0 S1" unfolding S1_def W1_def
    by (rule cap_receive [where net = ?net and tcp = sample_syn and ts = 5])
      (simp_all add: caps0 receive_sample_syn W2)
  have caps1: "sy_caps S1 = [(?a, CapCreate ?k sample_syn 5), (?b, CapIdle)]" "sy_world S1 = W1"
    by (simp_all add: S1_def caps0)
  have s2: "step ?E S1 S2" unfolding S2_def W2_def
    by (rule cap_receive [where net = ?net and tcp = sample_syn and ts = 6])
      (simp_all add: caps1 receive_sample_syn W2)
  have caps2: "sy_caps S2 = [(?a, CapCreate ?k sample_syn 5), (?b, CapCreate ?k sample_syn 6)]"
    "sy_world S2 = W2" by (simp_all add: S2_def caps1)
  obtain W3 where W3: "newStream ?E ?k 0 5 W2 = Some (first_stream, W3)"
    "p_streams (w_pool W3) = [(?k, first_stream)]" "p_free (w_pool W3) = [0..<first_stream]"
    "p_all (w_pool W3) = [nat initialAllocSize]"
    "w_heap W3 = (w_heap W2)(first_stream := stream_reset ?E (w_heap W2 first_stream) ?k 0 5)"
    by (rule newStream_first [OF W2(1-4)])
  define S3 where "S3 = S2\<lparr>sy_world := W3,
    sy_caps := (sy_caps S2)[0 := (?a, stream_handle first_stream ?k sample_syn 5 W3)],
    sy_dumps := sy_dumps S2 @ [(first_stream, Loop)]\<rparr>"
  have s3: "step ?E S2 S3" unfolding S3_def
    by (rule cap_create [where c = 0]) (simp_all add: caps2 W3(1))
  have caps3: "sy_caps S3 ! 1 = (?b, CapCreate ?k sample_syn 6)" "length (sy_caps S3) = 2" "sy_world S3 = W3"
    by (simp_all add: S3_def caps2)
  have "[0..<first_stream] \<noteq> []" using first_stream_pos(1) by simp
  then obtain xs i where xs: "[0..<first_stream] = xs @ [i]" by (cases "[0..<first_stream]" rule: rev_cases) auto
  then have free: "p_free (w_pool W3) = xs @ [i]" using W3(3) by simp
  define W4 where "W4 = (let V = count_request W3 in
    V\<lparr>w_pool := (w_pool V)\<lparr>p_free := xs, p_streams := AList.update ?k i (p_streams (w_pool W3))\<rparr>,
      w_heap := (w_heap W3)(i := stream_reset ?E (w_heap W3 i) ?k 1 6)\<rparr>)"
  define S4 where "S4 = S3\<lparr>sy_world := W4,
    sy_caps := (sy_caps S3)[1 := (?b, stream_handle i ?k sample_syn 6 W4)],
    sy_dumps := sy_dumps S3 @ [(i, Loop)]\<rparr>"
  have s4: "step ?E S3 S4" unfolding S4_def
    by (rule cap_create [where c = 1], use caps3 in \<open>simp_all add: newStream_exact [OF free] W4_def\<close>)
  have "reachable ?E [''eth0'', ''eth1''] S4"
    unfolding reachable_def S0_def [symmetric] using s1 s2 s3 s4 by (meson converse_rtranclp_into_rtranclp rtranclp.rtrancl_refl)
  moreover have "set xs \<union> {i} = {0..<first_stream}" using arg_cong [OF xs, of set] by simp
  moreover have "p_streams (w_pool W4) = [(?k, i)]" "p_free (w_pool W4) = xs"
    "p_all (w_pool W4) = [nat initialAllocSize]"
    using W3(2,4) by (simp_all add: W4_def Let_def count_request_def)
  moreover have "i \<in> set [0..<first_stream]" unfolding xs by simp
  then have "first_stream \<noteq> i" by simp
  moreover have "w_heap W4 first_stream = stream_reset ?E (w_heap W2 first_stream) ?k 0 5"
    using W3(5) \<open>first_stream \<noteq> i\<close> by (simp add: W4_def Let_def)
  ultimately have "first_stream < allocated (w_pool W4)"
    "first_stream \<notin> set (map snd (p_streams (w_pool W4)) @ p_free (w_pool W4))"
    "\<not> s_closed (w_heap W4 first_stream)" "s_key (w_heap W4 first_stream) = ?k"
    by (simp_all add: allocated_def first_stream_pos(2) stream_reset_def Let_def)
  moreover have "sy_world S4 = W4" by (simp add: S4_def)
  ultimately show ?thesis using \<open>reachable ?E _ S4\<close> by metis
qed

text \<open>A stream that is opened, closed by its own timeout and opened again at once, before its goroutine
  has looked at its flag.\<close>

lemma reopened_stream:
  fixes E :: "('f, 'u) env" and tcp :: "'f tcp_layer"
  assumes "flow_laws (e_flow E)" "tcp_SYN tcp" "\<not> tcp_ACK tcp" "\<not> tcp_FIN tcp" "\<not> tcp_RST tcp"
  shows "\<exists>S. reachable E [iface] S \<and> sy_dumps S = [(first_stream, Loop), (first_stream, Loop)] \<and>
    p_streams (w_pool (sy_world S)) = [((net, tcp_TransportFlow tcp), first_stream)] \<and>
    length (p_all (w_pool (sy_world S))) = 1 \<and>
    (\<exists>a b. sy_caps S = [(a, CapSend first_stream b)])"
proof -
  let ?k = "(net, tcp_TransportFlow tcp)"
  let ?a = "\<lparr>as_Iface = iface, as_stat = 0\<rparr>"
  let ?i = first_stream
  define S0 where "S0 = start E [iface]"
  let ?W0 = "sy_world S0"
  define W1 where "W1 = log_to (LogCreated ?k 0) ?W0"
  define S1 where "S1 = S0\<lparr>sy_world := W1, sy_caps := (sy_caps S0)[0 := (?a, CapCreate ?k tcp 0)]\<rparr>"
  have caps0: "sy_caps S0 = [(?a, CapIdle)]" "sy_dumps S0 = []"
    by (simp_all add: S0_def start_caps_one start_world)
  have W1: "p_free (w_pool W1) = []" "p_all (w_pool W1) = []" "p_nextAlloc (w_pool W1) = initialAllocSize"
    "p_streams (w_pool W1) = []" "p_streams (w_pool ?W0) = []" "w_heap W1 = (\<lambda>_. zero_stream E)"
    by (simp_all add: W1_def S0_def start_world)
  have none: "lookup_stream E ?k ?W0 = None" by (simp add: lookup_stream_def W1)
  have s1: "step E S0 S1" unfolding S1_def W1_def
    by (rule cap_receive [where c = 0 and net = net and tcp = tcp and ts = 0]) (simp_all add: caps0 receive_syn [OF none assms(2-5)])
  have S1: "sy_caps S1 = [(?a, CapCreate ?k tcp 0)]" "sy_world S1 = W1" "sy_dumps S1 = []"
    by (simp_all add: S1_def caps0)
  obtain W2 where W2: "newStream E ?k 0 0 W1 = Some (?i, W2)"
    "p_streams (w_pool W2) = [(?k, ?i)]" "p_free (w_pool W2) = [0..<?i]"
    "p_all (w_pool W2) = [nat initialAllocSize]"
    "w_heap W2 = (w_heap W1)(?i := stream_reset E (w_heap W1 ?i) ?k 0 0)"
    by (rule newStream_first [OF W1(1-4)])
  have inv0: "sys_inv E S0" unfolding S0_def by (rule sys_inv_start) simp
  have inv1: "sys_inv E S1" by (rule sys_inv_step [OF s1 inv0 assms(1)]) (simp add: S0_def start_world)
  define S2 where "S2 = S1\<lparr>sy_world := W2, sy_caps := (sy_caps S1)[0 := (?a, stream_handle ?i ?k tcp 0 W2)],
    sy_dumps := sy_dumps S1 @ [(?i, Loop)]\<rparr>"
  have s2: "step E S1 S2" unfolding S2_def by (rule cap_create [where c = 0]) (simp_all add: S1 W2(1))
  have inv2: "sys_inv E S2" by (rule sys_inv_step [OF s2 inv1 assms(1)]) (simp add: S1 W1)
  let ?b = "\<lparr>pb_key = ?k, pb_tcp = tcp, pb_ts = 0\<rparr>"
  have h2: "s_closed (w_heap W2 ?i) = False" "s_data (w_heap W2 ?i) = Some []" "s_lastSeen (w_heap W2 ?i) = 0"
    by (simp_all add: W2(5) W1(6) stream_reset_def Let_def zero_stream_def)
  have S2: "sy_caps S2 = [(?a, CapSend ?i ?b)]" "sy_world S2 = W2" "sy_dumps S2 = [(?i, Loop)]"
    by (simp_all add: S2_def S1 stream_handle_def h2)
  define W3 where "W3 = put_stream ?i ((w_heap W2 ?i)\<lparr>s_data := Some [?b]\<rparr>) W2"
  have send: "chan_send ?i ?b W2 = Some W3"
    unfolding chan_send_def W3_def h2(2) by (simp add: chan_capacity_def)
  define S3 where "S3 = S2\<lparr>sy_world := W3, sy_caps := (sy_caps S2)[0 := (?a, CapIdle)]\<rparr>"
  have s3: "step E S2 S3" unfolding S3_def
    by (rule cap_send [where c = 0 and i = ?i and b = ?b]) (simp_all add: S2 send)
  have inv3: "sys_inv E S3" by (rule sys_inv_step [OF s3 inv2 assms(1)]) (simp add: S2 W2)
  have h3: "s_closed (w_heap W3 ?i) = False" "s_lastSeen (w_heap W3 ?i) = 0" by (simp_all add: W3_def h2)
  define S4 where "S4 = S3\<lparr>sy_world := W3, sy_dumps := (sy_dumps S3)[0 := (?i, Select)]\<rparr>"
  have S3: "sy_caps S3 = [(?a, CapIdle)]" "sy_world S3 = W3" "sy_dumps S3 = [(?i, Loop)]"
    by (simp_all add: S3_def S2)
  have s4: "step E S3 S4" unfolding S4_def
    by (rule dump [where m = 0 and ev = EvCheck and pc = Loop]) (simp_all add: S3 h3)
  have S4: "sy_caps S4 = [(?a, CapIdle)]" "sy_world S4 = W3" "sy_dumps S4 = [(?i, Select)]"
    by (simp_all add: S4_def S3)
  have pool3: "pool_inv E W3" "(?k, ?i) \<in> set (p_streams (w_pool W3))"
    using inv3 S3 W2(2) by (simp_all add: sys_inv_def W3_def)
  obtain W4 where W4: "stream_close E True ?i W3 = Some W4" "pool_inv E W4"
    "p_streams (w_pool W4) = AList.delete ?k (p_streams (w_pool W3))"
    "p_free (w_pool W4) = p_free (w_pool W3) @ [?i]" "p_all (w_pool W4) = p_all (w_pool W3)"
    using stream_close_used [OF pool3, of True] by metis
  have W4': "p_streams (w_pool W4) = []" "p_free (w_pool W4) = [0..<?i] @ [?i]"
    "p_all (w_pool W4) = [nat initialAllocSize]"
    using W4 W2 by (simp_all add: W3_def)
  define S5 where "S5 = S4\<lparr>sy_world := W4, sy_dumps := (sy_dumps S4)[0 := (?i, Loop)]\<rparr>"
  have s5: "step E S4 S5" unfolding S5_def
    by (rule dump [where m = 0 and ev = "EvTick (stream_timeout + 1)" and pc = Select])
      (simp_all add: S4 h3 W4(1) time_Before_def)
  have S5: "sy_caps S5 = [(?a, CapIdle)]" "sy_world S5 = W4" "sy_dumps S5 = [(?i, Loop)]"
    by (simp_all add: S5_def S4)
  define S6 where "S6 = S5\<lparr>sy_world := log_to (LogCreated ?k 1) W4,
    sy_caps := (sy_caps S5)[0 := (?a, CapCreate ?k tcp 1)]\<rparr>"
  have none4: "lookup_stream E ?k W4 = None" by (simp add: lookup_stream_def W4')
  have s6: "step E S5 S6" unfolding S6_def
    by (rule cap_receive [where c = 0 and net = net and tcp = tcp and ts = 1]) (simp_all add: S5 receive_syn [OF none4 assms(2-5)])
  have S6: "sy_caps S6 = [(?a, CapCreate ?k tcp 1)]" "sy_world S6 = log_to (LogCreated ?k 1) W4"
    "sy_dumps S6 = [(?i, Loop)]"
    by (simp_all add: S6_def S5)
  let ?W5 = "log_to (LogCreated ?k 1) W4"
  have free5: "p_free (w_pool ?W5) = [0..<?i] @ [?i]" by (simp add: W4')
  define W6 where "W6 = (let V = count_request ?W5 in
    V\<lparr>w_pool := (w_pool V)\<lparr>p_free := [0..<?i], p_streams := AList.update ?k ?i (p_streams (w_pool ?W5))\<rparr>,
      w_heap := (w_heap ?W5)(?i := stream_reset E (w_heap ?W5 ?i) ?k 0 1)\<rparr>)"
  define S7 where "S7 = S6\<lparr>sy_world := W6, sy_caps := (sy_caps S6)[0 := (?a, stream_handle ?i ?k tcp 1 W6)],
    sy_dumps := sy_dumps S6 @ [(?i, Loop)]\<rparr>"
  have s7: "step E S6 S7" unfolding S7_def
    by (rule cap_create [where c = 0]) (simp_all add: S6 newStream_exact [OF free5] W6_def)
  have "(step E)\<^sup>*\<^sup>* S0 S7"
    using s1 s2 s3 s4 s5 s6 s7 by (meson converse_rtranclp_into_rtranclp rtranclp.rtrancl_refl)
  then have "reachable E [iface] S7" by (simp add: reachable_def S0_def)
  moreover have "sy_dumps S7 = [(?i, Loop), (?i, Loop)]" "sy_world S7 = W6" by (simp_all add: S7_def S6)
  moreover have "p_streams (w_pool W6) = [(?k, ?i)]" "length (p_all (w_pool W6)) = 1"
    using W4' by (simp_all add: W6_def Let_def count_request_def)
  moreover have "\<not> s_closed (w_heap W6 ?i)" by (simp add: W6_def Let_def stream_reset_def)
  then have "\<exists>a b. sy_caps S7 = [(a, CapSend ?i b)]" by (simp add: S7_def S6 stream_handle_def)
  ultimately show ?thesis by metis
qed

lemma sample_reopened:
  obtains S where "reachable sample_env [''eth0''] S"
    "sy_dumps S = [(first_stream, Loop), (first_stream, Loop)]"
    "p_streams (w_pool (sy_world S)) = [(sample_flow_key, first_stream)]"
    "length (p_all (w_pool (sy_world S))) < 50" "\<exists>a b. sy_caps S = [(a, CapSend first_stream b)]"
proof -
  have syn: "tcp_SYN sample_syn" "\<not> tcp_ACK sample_syn" "\<not> tcp_FIN sample_syn" "\<not> tcp_RST sample_syn"
    by (simp_all add: sample_syn_def)
  from reopened_stream [OF sample_laws syn, of "''eth0''" "(''a'', ''b'')"] show thesis
    using that unfolding sample_syn_key by fastforce
qed


text \<open>one stream can be served by two goroutines: when it times out and is opened again for the next
  SYN before its goroutine has looked at the flag, the old goroutine goes on next to the new one. Every
  such reuse adds one more.\<close>

theorem two_goroutines_serve_one_stream:
  "\<exists>S i k. reachable sample_env [''eth0''] S \<and> (k, i) \<in> set (p_streams (w_pool (sy_world S))) \<and>
     sy_dumps S = [(i, Loop), (i, Loop)]"
  using sample_reopened by (metis list.set_intros(1))

text \<open>C2: nothing in the goroutines panics: in a reachable state of one capture goroutine every event that
  can happen to the goroutine of a stream has a result, and a pending creation succeeds.\<close>

theorem reachable_no_panic:
  assumes "reachable E ifs S" "length ifs \<le> 1" "flow_laws (e_flow E)"
    "length (p_all (w_pool (sy_world S))) < 50"
  shows "(\<forall>(i, pc) \<in> set (sy_dumps S). \<forall>ev. dump_enabled i pc ev (sy_world S) \<longrightarrow>
      dump_step E i pc ev (sy_world S) \<noteq> None) \<and>
    (\<forall>(a, st) \<in> set (sy_caps S). \<forall>k tcp ts. st = CapCreate k tcp ts \<longrightarrow>
      newStream E k (as_stat a) ts (sy_world S) \<noteq> None)"
proof -
  have inv: "sys_inv E S" by (rule reachable_inv [OF assms])
  then have pool: "pool_inv E (sy_world S)" by (simp add: sys_inv_def)
  have "dump_step E i pc ev (sy_world S) \<noteq> None"
    if "(i, pc) \<in> set (sy_dumps S)" "dump_enabled i pc ev (sy_world S)" for i pc ev
  proof -
    have "s_pool (w_heap (sy_world S) i)"
      using inv that(1) by (auto simp: sys_inv_def dumps_ok_def)
    from dump_step_ok [OF pool this that(2)] show ?thesis by (metis option.distinct(1))
  qed
  moreover have "newStream E k (as_stat a) ts (sy_world S) \<noteq> None"
    if "(a, CapCreate k tcp ts) \<in> set (sy_caps S)" for a k tcp ts
  proof -
    have "lookup_stream E k (sy_world S) = None" using inv that by (fastforce simp: sys_inv_def)
    from newStream_new [OF pool assms(3) this assms(4)] show ?thesis by (metis option.distinct(1))
  qed
  ultimately show ?thesis by blast
qed

theorem reachable_no_panic_witness:
  "\<exists>S. reachable sample_env [''eth0''] S \<and>
     dump_step sample_env first_stream Loop EvCheck (sy_world S) \<noteq> None"
proof -
  obtain S where S: "reachable sample_env [''eth0''] S" "length (p_all (w_pool (sy_world S))) < 50"
    "sy_dumps S = [(first_stream, Loop), (first_stream, Loop)]"
    using sample_reopened by metis
  then show ?thesis using reachable_no_panic [OF S(1) _ sample_laws S(2)] by auto
qed

text \<open>a packet left over from an earlier use of a stream is harmless: a packet that belongs to neither
  direction of the stream's present key changes nothing when it is received.\<close>

theorem stale_packet_ignored:
  assumes "pool_inv E W" "(k, i) \<in> set (p_streams (w_pool W))"
    and "pb_key b \<noteq> k" "pb_key b \<noteq> key_Reverse (e_flow E) k"
  shows "dump_recv E i b W = Some W"
proof -
  have "stream_getConn (w_heap W i) (pb_key b) = None"
    using pool_inv_used(1,2) [OF assms(1,2)] assms(3,4)
    by (simp add: stream_live_def live_map_def stream_getConn_def)
  then show ?thesis by (simp add: dump_recv_def)
qed

theorem stale_packet_ignored_witness:
  "\<exists>W i. (sample_flow_key, i) \<in> set (p_streams (w_pool W)) \<and>
     dump_recv sample_env i \<lparr>pb_key = ((''x'', ''y''), (''3'', ''4'')), pb_tcp = sample_syn, pb_ts = 1\<rparr> W = Some W"
proof -
  obtain W i where W: "pool_inv sample_env W" "(sample_flow_key, i) \<in> set (p_streams (w_pool W))"
    by (rule sample_world)
  from stale_packet_ignored [OF W] W(2) show ?thesis
    by (fastforce simp: sample_flow_key_def key_Reverse_def sample_env_def pair_flow_def)
qed

text \<open>C17: the capture goroutine is never stuck: when it waits to send to a stream, either there is room in
  the channel or some goroutine of that stream can go on at once, without waiting for its ticker.\<close>

theorem send_never_stuck:
  assumes "reachable E ifs S" "length ifs \<le> 1" "flow_laws (e_flow E)"
    "length (p_all (w_pool (sy_world S))) < 50"
    and "(a, CapSend i b) \<in> set (sy_caps S)"
  shows "chan_send i b (sy_world S) \<noteq> None \<or>
    (\<exists>pc ev. (i, pc) \<in> set (sy_dumps S) \<and> (\<forall>now. ev \<noteq> EvTick now) \<and>
       dump_enabled i pc ev (sy_world S))"
proof (cases "chan_send i b (sy_world S)")
  case None
  have inv: "sys_inv E S" by (rule reachable_inv [OF assms(1-4)])
  have "drained S" by (rule reachable_drained [OF assms(1-4)])
  moreover have "s_pool (w_heap (sy_world S) i)" using inv assms(5) by (fastforce simp: sys_inv_def)
  then have "s_data (w_heap (sy_world S) i) \<noteq> None"
    using inv by (elim pool_cases [rotated]) (auto simp: sys_inv_def stream_live_def stream_wf_def)
  then obtain q where q: "s_data (w_heap (sy_world S) i) = Some q" by blast
  then have full: "10 \<le> length q" using None by (auto simp: chan_send_def chan_capacity_def split: if_splits)
  ultimately have "active S i" unfolding drained_def queued_def using q by (metis (no_types, lifting)
    One_nat_def add_leD1 le_trans numeral_le_one_iff option.simps(5) semiring_norm(69))
  then obtain pc where pc: "pc \<noteq> Exited" "(i, pc) \<in> set (sy_dumps S)" by (auto simp: active_def)
  have "\<exists>ev. (\<forall>now. ev \<noteq> EvTick now) \<and> dump_enabled i pc ev (sy_world S)"
  proof (cases pc)
    case Loop
    then show ?thesis by (intro exI [of _ EvCheck]) simp
  next
    case Select
    moreover obtain b q' where "q = b # q'" using full by (cases q) auto
    ultimately show ?thesis using q by (intro exI [of _ EvRecv]) simp
  next
    case Drain
    then show ?thesis by (intro exI [of _ EvDrain]) simp
  qed (use pc in simp)
  with pc(2) show ?thesis by blast
qed simp

theorem send_never_stuck_witness:
  "\<exists>S a b. reachable sample_env [''eth0''] S \<and> (a, CapSend first_stream b) \<in> set (sy_caps S) \<and>
     (chan_send first_stream b (sy_world S) \<noteq> None \<or>
      (\<exists>pc ev. (first_stream, pc) \<in> set (sy_dumps S) \<and> dump_enabled first_stream pc ev (sy_world S)))"
proof -
  obtain S where S: "reachable sample_env [''eth0''] S" "length (p_all (w_pool (sy_world S))) < 50"
    "\<exists>a b. sy_caps S = [(a, CapSend first_stream b)]"
    using sample_reopened by metis
  then obtain a b where c: "(a, CapSend first_stream b) \<in> set (sy_caps S)" by auto
  have "length [''eth0''] \<le> 1" by simp
  from send_never_stuck [OF S(1) this sample_laws S(2) c] show ?thesis using S(1) c by blast
qed

end
