(* ===== verification/Json_Scanner.thy ===== *)
theory Json_Scanner
  imports Go_Prelude
begin

text \<open>
  The file \<open>common/json/scanner.go\<close>: the state machine that recognises JSON byte by byte, with the
  comments (\<open>//\<close> to the end of the line) this fork of \<open>encoding/json\<close> adds. A state function of the code is
  a constructor of \<open>step_fn\<close> and a definition of the same name; a step gives the opcode and the
  scanner after it, \<^term>\<open>None\<close> is an index out of range.
\<close>

section \<open>State\<close>

datatype scan_op =
  scanContinue | scanBeginLiteral | scanBeginObject | scanObjectKey | scanObjectValue | scanEndObject
| scanBeginArray | scanArrayValue | scanEndArray | scanSkipSpace | scanEnd | scanError

fun scan_code :: "scan_op \<Rightarrow> nat" where
  "scan_code scanContinue = 0"
| "scan_code scanBeginLiteral = 1"
| "scan_code scanBeginObject = 2"
| "scan_code scanObjectKey = 3"
| "scan_code scanObjectValue = 4"
| "scan_code scanEndObject = 5"
| "scan_code scanBeginArray = 6"
| "scan_code scanArrayValue = 7"
| "scan_code scanEndArray = 8"
| "scan_code scanSkipSpace = 9"
| "scan_code scanEnd = 10"
| "scan_code scanError = 11"

instantiation scan_op :: linorder
begin

definition less_eq_scan_op :: "scan_op \<Rightarrow> scan_op \<Rightarrow> bool" where
  "less_eq_scan_op a b \<longleftrightarrow> scan_code a \<le> scan_code b"

definition less_scan_op :: "scan_op \<Rightarrow> scan_op \<Rightarrow> bool" where
  "less_scan_op a b \<longleftrightarrow> scan_code a < scan_code b"

instance
proof
  fix x y :: scan_op
  show "x \<le> y \<Longrightarrow> y \<le> x \<Longrightarrow> x = y"
    by (cases x; cases y) (simp_all add: less_eq_scan_op_def)
qed (auto simp: less_eq_scan_op_def less_scan_op_def)

end

datatype parse_state = parseObjectKey | parseObjectValue | parseArrayValue

datatype step_fn =
  StateBeginValueOrEmpty | StateBeginValue | StateBeginStringOrEmpty | StateBeginString
| StateMaybeCommentAtBeginValue | StateInCommentAtBeginValue
| StateMaybeCommentAtBeginString | StateInCommentAtBeginString
| StateMaybeCommentAtEndValue | StateInCommentAtEndValue
| StateMaybeCommentAtEndArrayValue | StateInCommentAtEndArrayValue
| StateEndValue | StateEndTop | StateInString | StateInStringEsc | StateInStringEscU
| StateInStringEscU1 | StateInStringEscU12 | StateInStringEscU123
| StateNeg | State1 | State0 | StateDot | StateDot0 | StateE | StateESign | StateE0
| StateT | StateTr | StateTru | StateF | StateFa | StateFal | StateFals | StateN | StateNu | StateNul
| StateError | StateRedo

record SyntaxError =
  se_msg :: string
  se_Offset :: int

record scanner =
  sc_step :: step_fn
  sc_endTop :: bool
  sc_parseState :: "parse_state list"
  sc_err :: "SyntaxError option"
  sc_redo :: bool
  sc_redoCode :: scan_op
  sc_redoState :: "step_fn option"
  sc_bytes :: int

text \<open>A zero scanner has no step function; every use resets it first.\<close>

definition scanner_reset :: "scanner \<Rightarrow> scanner" where
  "scanner_reset s =
     s\<lparr>sc_step := StateBeginValue, sc_parseState := [], sc_err := None, sc_redo := False,
       sc_endTop := False\<rparr>"

section \<open>Error messages\<close>

text \<open>\<open>strconv.Quote\<close> of the text of one byte value, without its quotation marks: the named escapes,
  the printable runes in UTF-8, the others by their number.\<close>

definition hex_digit :: "nat \<Rightarrow> char" where
  "hex_digit n = (if n < 10 then char_of (n + 48) else char_of (n + 87))"

definition quote_body :: "char \<Rightarrow> string" where
  "quote_body c =
     (let n = of_char c :: nat in
      if c = CHR 0x5C then [CHR 0x5C, CHR 0x5C]
      else if n = 7 then [CHR 0x5C, CHR ''a'']
      else if n = 8 then [CHR 0x5C, CHR ''b'']
      else if n = 12 then [CHR 0x5C, CHR ''f'']
      else if n = 10 then [CHR 0x5C, CHR ''n'']
      else if n = 13 then [CHR 0x5C, CHR ''r'']
      else if n = 9 then [CHR 0x5C, CHR ''t'']
      else if n = 11 then [CHR 0x5C, CHR ''v'']
      else if n < 32 \<or> n = 127 then [CHR 0x5C, CHR ''x'', hex_digit (n div 16), hex_digit (n mod 16)]
      else if n < 127 then [c]
      else if n < 161 \<or> n = 173
      then [CHR 0x5C, CHR ''u'', CHR ''0'', CHR ''0'', hex_digit (n div 16), hex_digit (n mod 16)]
      else [char_of (192 + n div 64), char_of (128 + n mod 64)])"

definition quoteChar :: "char \<Rightarrow> string" where
  "quoteChar c =
     (if c = CHR 0x27 then [CHR 0x27, CHR 0x5C, CHR 0x27, CHR 0x27]
      else if c = CHR 0x22 then [CHR 0x27, CHR 0x22, CHR 0x27]
      else [CHR 0x27] @ quote_body c @ [CHR 0x27])"

section \<open>The state functions\<close>

type_synonym step_result = "(scan_op \<times> scanner) option"

definition goto :: "scanner \<Rightarrow> step_fn \<Rightarrow> scan_op \<Rightarrow> step_result" where
  "goto s f v = Some (v, s\<lparr>sc_step := f\<rparr>)"

definition scanner_error :: "scanner \<Rightarrow> char \<Rightarrow> string \<Rightarrow> step_result" where
  "scanner_error s c ctx =
     Some (scanError, s\<lparr>sc_step := StateError,
       sc_err := Some \<lparr>se_msg = ''invalid character '' @ quoteChar c @ '' '' @ ctx, se_Offset = sc_bytes s\<rparr>\<rparr>)"

definition pushParseState :: "scanner \<Rightarrow> parse_state \<Rightarrow> scanner" where
  "pushParseState s p = s\<lparr>sc_parseState := sc_parseState s @ [p]\<rparr>"

definition popParseState :: "scanner \<Rightarrow> scanner option" where
  "popParseState s =
     (if sc_parseState s = [] then None
      else
        (let ps = butlast (sc_parseState s); s = s\<lparr>sc_parseState := ps, sc_redo := False\<rparr>
         in if ps = [] then Some (s\<lparr>sc_step := StateEndTop, sc_endTop := True\<rparr>)
            else Some (s\<lparr>sc_step := StateEndValue\<rparr>)))"

text \<open>\<open>s.parseState[n-1] = p\<close>.\<close>

definition set_top :: "scanner \<Rightarrow> parse_state \<Rightarrow> scanner" where
  "set_top s p = s\<lparr>sc_parseState := butlast (sc_parseState s) @ [p]\<rparr>"

definition isSpace :: "char \<Rightarrow> bool" where
  "isSpace c \<longleftrightarrow> c = CHR '' '' \<or> c = CHR 0x09 \<or> c = CHR 0x0D \<or> c = CHR 0x0A"

definition stateEndTop :: "scanner \<Rightarrow> char \<Rightarrow> step_result" where
  "stateEndTop s c =
     (if c \<noteq> CHR '' '' \<and> c \<noteq> CHR 0x09 \<and> c \<noteq> CHR 0x0D \<and> c \<noteq> CHR 0x0A
      then map_option (\<lambda>(v, s). (scanEnd, s)) (scanner_error s c ''after top-level value'')
      else Some (scanEnd, s))"

definition stateEndValue :: "scanner \<Rightarrow> char \<Rightarrow> step_result" where
  "stateEndValue s c =
     (if sc_parseState s = [] then stateEndTop (s\<lparr>sc_step := StateEndTop, sc_endTop := True\<rparr>) c
      else if c \<le> CHR '' '' \<and> isSpace c then goto s StateEndValue scanSkipSpace
      else (case last (sc_parseState s) of
        parseObjectKey \<Rightarrow>
          (if c = CHR '':'' then goto (set_top s parseObjectValue) StateBeginValue scanObjectKey
           else scanner_error s c ''after object key'')
      | parseObjectValue \<Rightarrow>
          (if c = CHR '','' then goto (set_top s parseObjectKey) StateBeginString scanObjectValue
           else if c = CHR ''}'' then map_option (Pair scanEndObject) (popParseState s)
           else if c = CHR ''/'' then goto s StateMaybeCommentAtEndValue scanSkipSpace
           else scanner_error s c ''after object key:value pair'')
      | parseArrayValue \<Rightarrow>
          (if c = CHR '','' then goto s StateBeginValue scanArrayValue
           else if c = CHR '']'' then map_option (Pair scanEndArray) (popParseState s)
           else if c = CHR ''/'' then goto s StateMaybeCommentAtEndArrayValue scanSkipSpace
           else scanner_error s c ''after array element'')))"

definition stateBeginValue :: "scanner \<Rightarrow> char \<Rightarrow> step_result" where
  "stateBeginValue s c =
     (if c \<le> CHR '' '' \<and> isSpace c then Some (scanSkipSpace, s)
      else if c = CHR ''{'' then goto (pushParseState s parseObjectKey) StateBeginStringOrEmpty scanBeginObject
      else if c = CHR ''['' then goto (pushParseState s parseArrayValue) StateBeginValueOrEmpty scanBeginArray
      else if c = CHR 0x22 then goto s StateInString scanBeginLiteral
      else if c = CHR ''-'' then goto s StateNeg scanBeginLiteral
      else if c = CHR ''0'' then goto s State0 scanBeginLiteral
      else if c = CHR ''t'' then goto s StateT scanBeginLiteral
      else if c = CHR ''f'' then goto s StateF scanBeginLiteral
      else if c = CHR ''n'' then goto s StateN scanBeginLiteral
      else if c = CHR ''/'' then goto s StateMaybeCommentAtBeginValue scanSkipSpace
      else if CHR ''1'' \<le> c \<and> c \<le> CHR ''9'' then goto s State1 scanBeginLiteral
      else scanner_error s c ''looking for beginning of value'')"

definition stateBeginValueOrEmpty :: "scanner \<Rightarrow> char \<Rightarrow> step_result" where
  "stateBeginValueOrEmpty s c =
     (if c \<le> CHR '' '' \<and> isSpace c then Some (scanSkipSpace, s)
      else if c = CHR '']'' then stateEndValue s c
      else stateBeginValue s c)"

definition stateBeginString :: "scanner \<Rightarrow> char \<Rightarrow> step_result" where
  "stateBeginString s c =
     (if c \<le> CHR '' '' \<and> isSpace c then Some (scanSkipSpace, s)
      else if c = CHR ''/'' then goto s StateMaybeCommentAtBeginString scanSkipSpace
      else if c = CHR 0x22 then goto s StateInString scanBeginLiteral
      else scanner_error s c ''looking for beginning of object key string'')"

definition stateBeginStringOrEmpty :: "scanner \<Rightarrow> char \<Rightarrow> step_result" where
  "stateBeginStringOrEmpty s c =
     (if c \<le> CHR '' '' \<and> isSpace c then Some (scanSkipSpace, s)
      else if c = CHR ''}'' then
        (if sc_parseState s = [] then None else stateEndValue (set_top s parseObjectValue) c)
      else stateBeginString s c)"

definition stateMaybeCommentAtBeginValue :: "scanner \<Rightarrow> char \<Rightarrow> step_result" where
  "stateMaybeCommentAtBeginValue s c =
     (if c = CHR ''/'' then goto s StateInCommentAtBeginValue scanSkipSpace
      else scanner_error (s\<lparr>sc_bytes := i64 (sc_bytes s - 1)\<rparr>) (CHR ''/'') ''looking for beginning of value'')"

definition stateInCommentAtBeginValue :: "scanner \<Rightarrow> char \<Rightarrow> step_result" where
  "stateInCommentAtBeginValue s c =
     (if c = CHR 0x0A then goto s StateBeginValueOrEmpty scanSkipSpace else Some (scanSkipSpace, s))"

definition stateMaybeCommentAtBeginString :: "scanner \<Rightarrow> char \<Rightarrow> step_result" where
  "stateMaybeCommentAtBeginString s c =
     (if c = CHR ''/'' then goto s StateInCommentAtBeginString scanSkipSpace
      else scanner_error (s\<lparr>sc_bytes := i64 (sc_bytes s - 1)\<rparr>) (CHR ''/'') ''looking for beginning of object key string'')"

definition stateInCommentAtBeginString :: "scanner \<Rightarrow> char \<Rightarrow> step_result" where
  "stateInCommentAtBeginString s c =
     (if c = CHR 0x0A then goto s StateBeginString scanSkipSpace else Some (scanSkipSpace, s))"

definition stateMaybeCommentAtEndValue :: "scanner \<Rightarrow> char \<Rightarrow> step_result" where
  "stateMaybeCommentAtEndValue s c =
     (if c = CHR ''/'' then goto s StateInCommentAtEndValue scanSkipSpace
      else scanner_error (s\<lparr>sc_bytes := i64 (sc_bytes s - 1)\<rparr>) (CHR ''/'') ''after object key:value pair'')"

definition stateInCommentAtEndValue :: "scanner \<Rightarrow> char \<Rightarrow> step_result" where
  "stateInCommentAtEndValue s c =
     (if c = CHR 0x0A then goto s StateEndValue scanSkipSpace else Some (scanSkipSpace, s))"

definition stateMaybeCommentAtEndArrayValue :: "scanner \<Rightarrow> char \<Rightarrow> step_result" where
  "stateMaybeCommentAtEndArrayValue s c =
     (if c = CHR ''/'' then goto s StateInCommentAtEndArrayValue scanSkipSpace
      else scanner_error (s\<lparr>sc_bytes := i64 (sc_bytes s - 1)\<rparr>) (CHR ''/'') ''after array element'')"

definition stateInCommentAtEndArrayValue :: "scanner \<Rightarrow> char \<Rightarrow> step_result" where
  "stateInCommentAtEndArrayValue s c =
     (if c = CHR 0x0A then goto s StateEndValue scanSkipSpace else Some (scanSkipSpace, s))"

definition stateInString :: "scanner \<Rightarrow> char \<Rightarrow> step_result" where
  "stateInString s c =
     (if c = CHR 0x22 then goto s StateEndValue scanContinue
      else if c = CHR 0x5C then goto s StateInStringEsc scanContinue
      else if (of_char c :: nat) < 0x20 then scanner_error s c ''in string literal''
      else Some (scanContinue, s))"

definition stateInStringEsc :: "scanner \<Rightarrow> char \<Rightarrow> step_result" where
  "stateInStringEsc s c =
     (if c \<in> {CHR ''b'', CHR ''f'', CHR ''n'', CHR ''r'', CHR ''t'', CHR 0x5C, CHR ''/'', CHR 0x22}
      then goto s StateInString scanContinue
      else if c = CHR ''u'' then goto s StateInStringEscU scanContinue
      else scanner_error s c ''in string escape code'')"

definition is_hex :: "char \<Rightarrow> bool" where
  "is_hex c \<longleftrightarrow> CHR ''0'' \<le> c \<and> c \<le> CHR ''9'' \<or> CHR ''a'' \<le> c \<and> c \<le> CHR ''f'' \<or>
     CHR ''A'' \<le> c \<and> c \<le> CHR ''F''"

definition stateInStringEscU :: "scanner \<Rightarrow> char \<Rightarrow> step_result" where
  "stateInStringEscU s c =
     (if is_hex c then goto s StateInStringEscU1 scanContinue
      else scanner_error s c (''in '' @ [CHR 0x5C] @ ''u hexadecimal character escape''))"

definition stateInStringEscU1 :: "scanner \<Rightarrow> char \<Rightarrow> step_result" where
  "stateInStringEscU1 s c =
     (if is_hex c then goto s StateInStringEscU12 scanContinue
      else scanner_error s c (''in '' @ [CHR 0x5C] @ ''u hexadecimal character escape''))"

definition stateInStringEscU12 :: "scanner \<Rightarrow> char \<Rightarrow> step_result" where
  "stateInStringEscU12 s c =
     (if is_hex c then goto s StateInStringEscU123 scanContinue
      else scanner_error s c (''in '' @ [CHR 0x5C] @ ''u hexadecimal character escape''))"

definition stateInStringEscU123 :: "scanner \<Rightarrow> char \<Rightarrow> step_result" where
  "stateInStringEscU123 s c =
     (if is_hex c then goto s StateInString scanContinue
      else scanner_error s c (''in '' @ [CHR 0x5C] @ ''u hexadecimal character escape''))"

definition stateNeg :: "scanner \<Rightarrow> char \<Rightarrow> step_result" where
  "stateNeg s c =
     (if c = CHR ''0'' then goto s State0 scanContinue
      else if CHR ''1'' \<le> c \<and> c \<le> CHR ''9'' then goto s State1 scanContinue
      else scanner_error s c ''in numeric literal'')"

definition state0 :: "scanner \<Rightarrow> char \<Rightarrow> step_result" where
  "state0 s c =
     (if c = CHR ''.'' then goto s StateDot scanContinue
      else if c = CHR ''e'' \<or> c = CHR ''E'' then goto s StateE scanContinue
      else stateEndValue s c)"

definition state1 :: "scanner \<Rightarrow> char \<Rightarrow> step_result" where
  "state1 s c =
     (if CHR ''0'' \<le> c \<and> c \<le> CHR ''9'' then goto s State1 scanContinue else state0 s c)"

definition stateDot :: "scanner \<Rightarrow> char \<Rightarrow> step_result" where
  "stateDot s c =
     (if CHR ''0'' \<le> c \<and> c \<le> CHR ''9'' then goto s StateDot0 scanContinue
      else scanner_error s c ''after decimal point in numeric literal'')"

definition stateDot0 :: "scanner \<Rightarrow> char \<Rightarrow> step_result" where
  "stateDot0 s c =
     (if CHR ''0'' \<le> c \<and> c \<le> CHR ''9'' then goto s StateDot0 scanContinue
      else if c = CHR ''e'' \<or> c = CHR ''E'' then goto s StateE scanContinue
      else stateEndValue s c)"

definition stateESign :: "scanner \<Rightarrow> char \<Rightarrow> step_result" where
  "stateESign s c =
     (if CHR ''0'' \<le> c \<and> c \<le> CHR ''9'' then goto s StateE0 scanContinue
      else scanner_error s c ''in exponent of numeric literal'')"

definition stateE :: "scanner \<Rightarrow> char \<Rightarrow> step_result" where
  "stateE s c =
     (if c = CHR ''+'' then goto s StateESign scanContinue
      else if c = CHR ''-'' then goto s StateESign scanContinue
      else stateESign s c)"

definition stateE0 :: "scanner \<Rightarrow> char \<Rightarrow> step_result" where
  "stateE0 s c =
     (if CHR ''0'' \<le> c \<and> c \<le> CHR ''9'' then goto s StateE0 scanContinue else stateEndValue s c)"

definition stateT :: "scanner \<Rightarrow> char \<Rightarrow> step_result" where
  "stateT s c =
     (if c = CHR ''r'' then goto s StateTr scanContinue
      else scanner_error s c (''in literal true (expecting '' @ [CHR 0x27, CHR ''r'', CHR 0x27] @ '')''))"

definition stateTr :: "scanner \<Rightarrow> char \<Rightarrow> step_result" where
  "stateTr s c =
     (if c = CHR ''u'' then goto s StateTru scanContinue
      else scanner_error s c (''in literal true (expecting '' @ [CHR 0x27, CHR ''u'', CHR 0x27] @ '')''))"

definition stateTru :: "scanner \<Rightarrow> char \<Rightarrow> step_result" where
  "stateTru s c =
     (if c = CHR ''e'' then goto s StateEndValue scanContinue
      else scanner_error s c (''in literal true (expecting '' @ [CHR 0x27, CHR ''e'', CHR 0x27] @ '')''))"

definition stateF :: "scanner \<Rightarrow> char \<Rightarrow> step_result" where
  "stateF s c =
     (if c = CHR ''a'' then goto s StateFa scanContinue
      else scanner_error s c (''in literal false (expecting '' @ [CHR 0x27, CHR ''a'', CHR 0x27] @ '')''))"

definition stateFa :: "scanner \<Rightarrow> char \<Rightarrow> step_result" where
  "stateFa s c =
     (if c = CHR ''l'' then goto s StateFal scanContinue
      else scanner_error s c (''in literal false (expecting '' @ [CHR 0x27, CHR ''l'', CHR 0x27] @ '')''))"

definition stateFal :: "scanner \<Rightarrow> char \<Rightarrow> step_result" where
  "stateFal s c =
     (if c = CHR ''s'' then goto s StateFals scanContinue
      else scanner_error s c (''in literal false (expecting '' @ [CHR 0x27, CHR ''s'', CHR 0x27] @ '')''))"

definition stateFals :: "scanner \<Rightarrow> char \<Rightarrow> step_result" where
  "stateFals s c =
     (if c = CHR ''e'' then goto s StateEndValue scanContinue
      else scanner_error s c (''in literal false (expecting '' @ [CHR 0x27, CHR ''e'', CHR 0x27] @ '')''))"

definition stateN :: "scanner \<Rightarrow> char \<Rightarrow> step_result" where
  "stateN s c =
     (if c = CHR ''u'' then goto s StateNu scanContinue
      else scanner_error s c (''in literal null (expecting '' @ [CHR 0x27, CHR ''u'', CHR 0x27] @ '')''))"

definition stateNu :: "scanner \<Rightarrow> char \<Rightarrow> step_result" where
  "stateNu s c =
     (if c = CHR ''l'' then goto s StateNul scanContinue
      else scanner_error s c (''in literal null (expecting '' @ [CHR 0x27, CHR ''l'', CHR 0x27] @ '')''))"

definition stateNul :: "scanner \<Rightarrow> char \<Rightarrow> step_result" where
  "stateNul s c =
     (if c = CHR ''l'' then goto s StateEndValue scanContinue
      else scanner_error s c (''in literal null (expecting '' @ [CHR 0x27, CHR ''l'', CHR 0x27] @ '')''))"

definition stateError :: "scanner \<Rightarrow> char \<Rightarrow> step_result" where
  "stateError s c = Some (scanError, s)"

text \<open>A scanner whose step is \<open>stateRedo\<close> was left by \<open>undo\<close>, which stored a state; without one the next
  step would call a nil function.\<close>

definition stateRedo :: "scanner \<Rightarrow> char \<Rightarrow> step_result" where
  "stateRedo s c =
     (case sc_redoState s of
        None \<Rightarrow> None
      | Some f \<Rightarrow> Some (sc_redoCode s, s\<lparr>sc_redo := False, sc_step := f\<rparr>))"

definition undo :: "scanner \<Rightarrow> scan_op \<Rightarrow> scanner option" where
  "undo s scanCode =
     (if sc_redo s then None
      else Some (s\<lparr>sc_redoCode := scanCode, sc_redoState := Some (sc_step s), sc_step := StateRedo,
                   sc_redo := True\<rparr>))"

text \<open>The call \<open>s.step(s, c)\<close>.\<close>

fun step_of :: "step_fn \<Rightarrow> scanner \<Rightarrow> char \<Rightarrow> step_result" where
  "step_of StateBeginValueOrEmpty = stateBeginValueOrEmpty"
| "step_of StateBeginValue = stateBeginValue"
| "step_of StateBeginStringOrEmpty = stateBeginStringOrEmpty"
| "step_of StateBeginString = stateBeginString"
| "step_of StateMaybeCommentAtBeginValue = stateMaybeCommentAtBeginValue"
| "step_of StateInCommentAtBeginValue = stateInCommentAtBeginValue"
| "step_of StateMaybeCommentAtBeginString = stateMaybeCommentAtBeginString"
| "step_of StateInCommentAtBeginString = stateInCommentAtBeginString"
| "step_of StateMaybeCommentAtEndValue = stateMaybeCommentAtEndValue"
| "step_of StateInCommentAtEndValue = stateInCommentAtEndValue"
| "step_of StateMaybeCommentAtEndArrayValue = stateMaybeCommentAtEndArrayValue"
| "step_of StateInCommentAtEndArrayValue = stateInCommentAtEndArrayValue"
| "step_of StateEndValue = stateEndValue"
| "step_of StateEndTop = stateEndTop"
| "step_of StateInString = stateInString"
| "step_of StateInStringEsc = stateInStringEsc"
| "step_of StateInStringEscU = stateInStringEscU"
| "step_of StateInStringEscU1 = stateInStringEscU1"
| "step_of StateInStringEscU12 = stateInStringEscU12"
| "step_of StateInStringEscU123 = stateInStringEscU123"
| "step_of StateNeg = stateNeg"
| "step_of State1 = state1"
| "step_of State0 = state0"
| "step_of StateDot = stateDot"
| "step_of StateDot0 = stateDot0"
| "step_of StateE = stateE"
| "step_of StateESign = stateESign"
| "step_of StateE0 = stateE0"
| "step_of StateT = stateT"
| "step_of StateTr = stateTr"
| "step_of StateTru = stateTru"
| "step_of StateF = stateF"
| "step_of StateFa = stateFa"
| "step_of StateFal = stateFal"
| "step_of StateFals = stateFals"
| "step_of StateN = stateN"
| "step_of StateNu = stateNu"
| "step_of StateNul = stateNul"
| "step_of StateError = stateError"
| "step_of StateRedo = stateRedo"

definition scan_step :: "scanner \<Rightarrow> char \<Rightarrow> step_result" where
  "scan_step s c = step_of (sc_step s) s c"

section \<open>Running the scanner\<close>

definition scanner_eof :: "scanner \<Rightarrow> step_result" where
  "scanner_eof s =
     (if sc_err s \<noteq> None then Some (scanError, s)
      else if sc_endTop s then Some (scanEnd, s)
      else do {
        (v, s) \<leftarrow> scan_step s (CHR '' '');
        (if sc_endTop s then Some (scanEnd, s)
         else if sc_err s = None
         then Some (scanError, s\<lparr>sc_err := Some
           \<lparr>se_msg = ''unexpected end of JSON input'', se_Offset = sc_bytes s\<rparr>\<rparr>)
         else Some (scanError, s))
      })"

text \<open>\<open>checkValid\<close>: the inner option is the error, \<^term>\<open>None\<close> when the data is valid.\<close>

fun checkValid_loop :: "string \<Rightarrow> scanner \<Rightarrow> (SyntaxError option \<times> scanner) option" where
  "checkValid_loop [] s = do {
     (v, s) \<leftarrow> scanner_eof s;
     (if v = scanError then Some (sc_err s, s) else Some (None, s))
   }"
| "checkValid_loop (c # cs) s = do {
     (v, s) \<leftarrow> scan_step (s\<lparr>sc_bytes := i64 (sc_bytes s + 1)\<rparr>) c;
     (if v = scanError then Some (sc_err s, s) else checkValid_loop cs s)
   }"

definition checkValid :: "string \<Rightarrow> scanner \<Rightarrow> (SyntaxError option \<times> scanner) option" where
  "checkValid data scan = checkValid_loop data (scanner_reset scan)"

text \<open>\<open>nextValue\<close>: the error, or the value and what follows it; \<open>i\<close> is the offset of the byte to read.\<close>

fun nextValue_loop ::
    "string \<Rightarrow> nat \<Rightarrow> string \<Rightarrow> scanner \<Rightarrow>
     ((SyntaxError option + string \<times> string) \<times> scanner) option" where
  "nextValue_loop data i [] s = do {
     (v, s) \<leftarrow> scanner_eof s;
     (if v = scanError then Some (Inl (sc_err s), s) else Some (Inr (data, []), s))
   }"
| "nextValue_loop data i (c # cs) s = do {
     (v, s) \<leftarrow> scan_step s c;
     (if v \<ge> scanEnd
      then (if v = scanError then Some (Inl (sc_err s), s)
            else if v = scanEnd then Some (Inr (take i data, drop i data), s)
            else nextValue_loop data (Suc i) cs s)
      else nextValue_loop data (Suc i) cs s)
   }"

definition nextValue ::
    "string \<Rightarrow> scanner \<Rightarrow> ((SyntaxError option + string \<times> string) \<times> scanner) option" where
  "nextValue data scan = nextValue_loop data 0 data (scanner_reset scan)"

section \<open>No step fails\<close>

text \<open>The state after an opening brace is the only one that indexes the stack without a test, and a redo
  needs the state that was stored.\<close>

definition fn_ok :: "step_fn \<Rightarrow> parse_state list \<Rightarrow> bool" where
  "fn_ok f ps \<longleftrightarrow> f \<noteq> StateRedo \<and> (f = StateBeginStringOrEmpty \<longrightarrow> ps \<noteq> [])"

definition scan_inv :: "scanner \<Rightarrow> bool" where
  "scan_inv s \<longleftrightarrow>
     (if sc_step s = StateRedo
      then sc_redo s \<and> (\<exists>f. sc_redoState s = Some f \<and> fn_ok f (sc_parseState s))
      else fn_ok (sc_step s) (sc_parseState s))"

definition step_ok :: "step_result \<Rightarrow> bool" where
  "step_ok r \<longleftrightarrow> (\<exists>v s. r = Some (v, s) \<and> scan_inv s)"

lemma step_ok_Some [inv_intros]: "scan_inv s \<Longrightarrow> step_ok (Some (v, s))"
  by (simp add: step_ok_def)

lemma step_ok_goto [inv_intros]: "fn_ok f (sc_parseState s) \<Longrightarrow> step_ok (goto s f v)"
  by (auto simp: step_ok_def goto_def scan_inv_def fn_ok_def)

lemma step_ok_error [inv_intros]: "step_ok (scanner_error s c ctx)"
  by (simp add: step_ok_def scanner_error_def scan_inv_def fn_ok_def)

lemma step_ok_pop [inv_intros]:
  "sc_parseState s \<noteq> [] \<Longrightarrow> step_ok (map_option (Pair v) (popParseState s))"
  by (auto simp: step_ok_def popParseState_def Let_def scan_inv_def fn_ok_def)

lemma step_ok_EndTop [inv_intros]: "scan_inv s \<Longrightarrow> step_ok (stateEndTop s c)"
  by (auto simp: stateEndTop_def step_ok_def scanner_error_def scan_inv_def fn_ok_def)

lemma set_top_simps [simp]:
  "sc_parseState (set_top s p) \<noteq> []" "last (sc_parseState (set_top s p)) = p"
  "sc_parseState (set_top s p) = butlast (sc_parseState s) @ [p]"
  by (simp_all add: set_top_def)

lemma push_simps [simp]: "sc_parseState (pushParseState s p) = sc_parseState s @ [p]"
  by (simp add: pushParseState_def)

lemma fn_ok_simps [simp]:
  "f \<noteq> StateRedo \<Longrightarrow> f \<noteq> StateBeginStringOrEmpty \<Longrightarrow> fn_ok f ps"
  "fn_ok StateBeginStringOrEmpty ps \<longleftrightarrow> ps \<noteq> []"
  by (simp_all add: fn_ok_def)

lemma step_ok_EndValue [inv_intros]: "step_ok (stateEndValue s c)"
proof (cases "sc_parseState s = []")
  case True
  have "scan_inv (s\<lparr>sc_step := StateEndTop, sc_endTop := True\<rparr>)" by (simp add: scan_inv_def)
  then show ?thesis using True by (simp add: stateEndValue_def inv_intros)
next
  case False
  then show ?thesis
    by (cases "last (sc_parseState s)") (simp_all add: stateEndValue_def inv_intros)
qed

lemmas state_defs =
  stateBeginValue_def stateBeginValueOrEmpty_def stateBeginString_def stateBeginStringOrEmpty_def
  stateMaybeCommentAtBeginValue_def stateInCommentAtBeginValue_def
  stateMaybeCommentAtBeginString_def stateInCommentAtBeginString_def
  stateMaybeCommentAtEndValue_def stateInCommentAtEndValue_def
  stateMaybeCommentAtEndArrayValue_def stateInCommentAtEndArrayValue_def
  stateInString_def stateInStringEsc_def stateInStringEscU_def stateInStringEscU1_def
  stateInStringEscU12_def stateInStringEscU123_def stateNeg_def state1_def state0_def stateDot_def
  stateDot0_def stateE_def stateESign_def stateE0_def stateT_def stateTr_def stateTru_def
  stateF_def stateFa_def stateFal_def stateFals_def stateN_def stateNu_def stateNul_def stateError_def

lemma scan_step_ok:
  assumes "scan_inv s"
  shows "step_ok (scan_step s c)"
proof (cases "sc_step s = StateRedo")
  case True
  then obtain f where "sc_redoState s = Some f" "fn_ok f (sc_parseState s)"
    using assms by (auto simp: scan_inv_def)
  then show ?thesis using True
    by (simp add: scan_step_def stateRedo_def step_ok_def scan_inv_def fn_ok_def)
next
  case False
  then show ?thesis using assms
    by (cases "sc_step s") (simp_all add: scan_step_def state_defs inv_intros scan_inv_def)
qed

lemma scan_inv_bytes [simp]: "scan_inv (s\<lparr>sc_bytes := b\<rparr>) = scan_inv s"
  by (simp add: scan_inv_def)

lemma scan_inv_reset: "scan_inv (scanner_reset s)"
  by (simp add: scan_inv_def scanner_reset_def)

lemma eof_ok:
  assumes "scan_inv s"
  shows "step_ok (scanner_eof s)"
proof -
  obtain v t where st: "scan_step s (CHR '' '') = Some (v, t)" "scan_inv t"
    using scan_step_ok [OF assms, of "CHR '' ''"] by (auto simp: step_ok_def)
  have "scan_inv (t\<lparr>sc_err := e\<rparr>)" for e using st(2) by (simp add: scan_inv_def)
  then show ?thesis using assms st by (simp add: scanner_eof_def inv_intros)
qed

section \<open>Byte machines\<close>

text \<open>What the clients of the scanner (validation, splitting, indenting, the decoder) rely on: a step on a
  good state always returns, an error is final, and a run is the composition of its steps.\<close>

fun run_bytes :: "('s \<Rightarrow> char \<Rightarrow> ('v \<times> 's) option) \<Rightarrow> string \<Rightarrow> 's \<Rightarrow> ('v list \<times> 's) option" where
  "run_bytes st [] s = Some ([], s)"
| "run_bytes st (c # cs) s = do {
     (v, s) \<leftarrow> st s c;
     (vs, s) \<leftarrow> run_bytes st cs s;
     Some (v # vs, s)
   }"

locale byte_machine =
  fixes inv :: "'s \<Rightarrow> bool"
    and plain :: "'s \<Rightarrow> bool"
    and st :: "'s \<Rightarrow> char \<Rightarrow> ('v \<times> 's) option"
    and err :: "'v"
    and failed :: "'s \<Rightarrow> bool"
  assumes step_total: "inv s \<Longrightarrow> \<exists>v s'. st s c = Some (v, s') \<and> inv s'"
    and step_plain: "plain s \<Longrightarrow> st s c = Some (v, s') \<Longrightarrow> plain s'"
    and err_failed: "plain s \<Longrightarrow> st s c = Some (err, s') \<Longrightarrow> failed s'"
    and failed_stuck: "failed s \<Longrightarrow> st s c = Some (err, s)"
begin

lemma run_total: "inv s \<Longrightarrow> \<exists>vs s'. run_bytes st cs s = Some (vs, s') \<and> inv s' \<and> length vs = length cs"
proof (induction cs arbitrary: s)
  case (Cons c cs)
  then obtain v s1 where "st s c = Some (v, s1)" "inv s1" using step_total by blast
  moreover then obtain vs s2 where "run_bytes st cs s1 = Some (vs, s2)" "inv s2" "length vs = length cs"
    using Cons.IH by blast
  ultimately show ?case by simp
qed simp

lemma run_append:
  "run_bytes st (xs @ ys) s =
     Option.bind (run_bytes st xs s)
       (\<lambda>(vs, t). Option.bind (run_bytes st ys t) (\<lambda>(ws, u). Some (vs @ ws, u)))"
proof (induction xs arbitrary: s)
  case Nil
  then show ?case by (cases "run_bytes st ys s") auto
next
  case (Cons c xs)
  show ?case
  proof (cases "st s c")
    case (Some p)
    obtain v s1 where p: "p = (v, s1)" by (cases p)
    show ?thesis
    proof (cases "run_bytes st xs s1")
      case (Some q)
      then show ?thesis using \<open>st s c = Some p\<close> p Cons.IH [of s1]
        by (cases q; cases "run_bytes st ys (snd q)") auto
    qed (use Some p Cons.IH [of s1] in simp)
  qed simp
qed

lemma failed_run: "failed s \<Longrightarrow> run_bytes st cs s = Some (replicate (length cs) err, s)"
  by (induction cs) (simp_all add: failed_stuck)

text \<open>After an error every opcode is the error.\<close>

lemma error_final:
  "plain s \<Longrightarrow> run_bytes st cs s = Some (vs, s') \<Longrightarrow> i \<le> j \<Longrightarrow> j < length vs \<Longrightarrow> vs ! i = err \<Longrightarrow>
   vs ! j = err"
proof (induction cs arbitrary: s vs i j)
  case (Cons c cs)
  obtain v s1 where v: "st s c = Some (v, s1)" using Cons.prems(2) by (cases "st s c") auto
  then obtain ws where ws: "run_bytes st cs s1 = Some (ws, s')" "vs = v # ws"
    using Cons.prems(2) by (auto simp: bind_eq_Some_conv)
  show ?case
  proof (cases i)
    case 0
    then have "v = err" using Cons.prems(5) ws(2) by simp
    then have "failed s1" using err_failed [OF Cons.prems(1)] v by simp
    then have "ws = replicate (length cs) err" using failed_run ws(1) by simp
    then show ?thesis using Cons.prems(4) ws(2) \<open>v = err\<close> by (cases j) auto
  next
    case (Suc i')
    then obtain j' where "j = Suc j'" using Cons.prems(3) by (cases j) auto
    then show ?thesis
      using Cons.IH [OF step_plain [OF Cons.prems(1) v] ws(1)] Cons.prems(3-5) ws(2) Suc by simp
  qed
qed simp

end

text \<open>A scanner that \<open>undo\<close> has not touched since its reset.\<close>

definition scan_plain :: "scanner \<Rightarrow> bool" where
  "scan_plain s \<longleftrightarrow> scan_inv s \<and> sc_step s \<noteq> StateRedo"

definition plain_ok :: "step_result \<Rightarrow> bool" where
  "plain_ok r \<longleftrightarrow> (\<forall>v s. r = Some (v, s) \<longrightarrow> sc_step s \<noteq> StateRedo \<and> (v = scanError \<longrightarrow> sc_step s = StateError))"

lemma plain_ok_intros [inv_intros]:
  "sc_step s \<noteq> StateRedo \<Longrightarrow> v \<noteq> scanError \<Longrightarrow> plain_ok (Some (v, s))"
  "f \<noteq> StateRedo \<Longrightarrow> v \<noteq> scanError \<Longrightarrow> plain_ok (goto s f v)"
  "plain_ok (scanner_error s c ctx)" "plain_ok None"
  "v \<noteq> scanError \<Longrightarrow> plain_ok (map_option (Pair v) (popParseState s))"
  "sc_step s \<noteq> StateRedo \<Longrightarrow> plain_ok (stateEndTop s c)"
  by (auto simp: plain_ok_def goto_def scanner_error_def popParseState_def Let_def stateEndTop_def
      split: if_splits)

lemma plain_ok_EndValue [inv_intros]: "sc_step s \<noteq> StateRedo \<Longrightarrow> plain_ok (stateEndValue s c)"
  by (cases "sc_parseState s = []"; cases "last (sc_parseState s)")
    (simp_all add: stateEndValue_def inv_intros)

lemma scan_step_plain:
  assumes "sc_step s \<noteq> StateRedo"
  shows "plain_ok (scan_step s c)"
proof (cases "sc_step s = StateError")
  case True
  then show ?thesis by (simp add: scan_step_def stateError_def plain_ok_def)
next
  case False
  then show ?thesis using assms
    by (cases "sc_step s") (simp_all add: scan_step_def state_defs inv_intros set_top_def)
qed

interpretation json: byte_machine scan_inv scan_plain scan_step scanError "\<lambda>s. sc_step s = StateError"
proof unfold_locales
  fix s c
  show "scan_inv s \<Longrightarrow> \<exists>v s'. scan_step s c = Some (v, s') \<and> scan_inv s'"
    using scan_step_ok by (auto simp: step_ok_def)
next
  fix s c v s'
  assume "scan_plain s" "scan_step s c = Some (v, s')"
  then show "scan_plain s'"
    using scan_step_ok [of s c] scan_step_plain [of s c]
    by (auto simp: scan_plain_def step_ok_def plain_ok_def)
next
  fix s c s'
  assume "scan_plain s" "scan_step s c = Some (scanError, s')"
  then show "sc_step s' = StateError"
    using scan_step_plain [of s c] by (auto simp: scan_plain_def plain_ok_def)
qed (simp add: scan_step_def stateError_def)

lemma checkValid_loop_total: "scan_inv s \<Longrightarrow> checkValid_loop cs s \<noteq> None"
proof (induction cs arbitrary: s)
  case Nil
  then show ?case using eof_ok [of s] by (auto simp: step_ok_def)
next
  case (Cons c cs)
  obtain v t where "scan_step (s\<lparr>sc_bytes := i64 (sc_bytes s + 1)\<rparr>) c = Some (v, t)" "scan_inv t"
    using json.step_total [of "s\<lparr>sc_bytes := i64 (sc_bytes s + 1)\<rparr>" c] Cons.prems by auto
  then show ?case using Cons.IH by simp
qed

lemma nextValue_loop_total: "scan_inv s \<Longrightarrow> nextValue_loop data i cs s \<noteq> None"
proof (induction cs arbitrary: s i)
  case Nil
  then show ?case using eof_ok [of s] by (auto simp: step_ok_def)
next
  case (Cons c cs)
  obtain v t where "scan_step s c = Some (v, t)" "scan_inv t"
    using json.step_total [OF Cons.prems, of c] by auto
  then show ?case using Cons.IH by simp
qed

end
