(* ===== verification/Json_Grammar.thy ===== *)
theory Json_Grammar
  imports Json_Scanner
begin

text \<open>
  What the scanner of \<open>common/json/scanner.go\<close> accepts: the control states a text leads it through, the
  JSON values as a data type (a string by what stands between its quotes) with the text that renders them,
  and the proof that the scanner accepts every rendered value whole, with or without more text after it.
\<close>

section \<open>The control states a text leads through\<close>

text \<open>The part of the scanner that steers it, and what a text does to it, whatever happens to the
  count of bytes meanwhile: every byte is accepted and none ends the value.\<close>

definition at :: "step_fn \<Rightarrow> parse_state list \<Rightarrow> scanner \<Rightarrow> bool" where
  "at f ps s \<longleftrightarrow>
     sc_step s = f \<and> sc_parseState s = ps \<and> sc_endTop s = (f = StateEndTop) \<and> sc_err s = None \<and>
     \<not> sc_redo s"

definition moves :: "step_fn \<Rightarrow> parse_state list \<Rightarrow> char \<Rightarrow> scan_op \<Rightarrow> step_fn \<Rightarrow> parse_state list \<Rightarrow> bool" where
  "moves f ps c v f' ps' \<longleftrightarrow>
     v < scanEnd \<and> (\<forall>s. at f ps s \<longrightarrow> (\<exists>s'. scan_step s c = Some (v, s') \<and> at f' ps' s'))"

fun leads ::
    "step_fn \<Rightarrow> parse_state list \<Rightarrow> string \<Rightarrow> scan_op list \<Rightarrow> step_fn \<Rightarrow> parse_state list \<Rightarrow> bool" where
  "leads f ps [] vs f' ps' \<longleftrightarrow> vs = [] \<and> f' = f \<and> ps' = ps"
| "leads f ps (c # cs) vs f' ps' \<longleftrightarrow>
     (\<exists>v ws g qs. vs = v # ws \<and> moves f ps c v g qs \<and> leads g qs cs ws f' ps')"

text \<open>The opcodes of the rest of a literal, and of a whole one.\<close>

abbreviation conts :: "string \<Rightarrow> scan_op list" where
  "conts cs \<equiv> replicate (length cs) scanContinue"

definition lit_ops :: "string \<Rightarrow> scan_op list" where
  "lit_ops cs = scanBeginLiteral # replicate (length cs - 1) scanContinue"

lemma lit_ops_Cons: "scanBeginLiteral # conts cs = lit_ops (c # cs)"
  by (simp add: lit_ops_def)

lemma at_bytes [simp]: "at f ps (s\<lparr>sc_bytes := b\<rparr>) = at f ps s"
  by (simp add: at_def)

lemma leads_append:
  "leads f ps xs vs g qs \<Longrightarrow> leads g qs ys ws h rs \<Longrightarrow> leads f ps (xs @ ys) (vs @ ws) h rs"
  by (induction xs arbitrary: f ps vs) fastforce+

lemma leads_Cons: "moves f ps c v g qs \<Longrightarrow> leads g qs cs vs h rs \<Longrightarrow> leads f ps (c # cs) (v # vs) h rs"
  by auto

lemma leads_single: "moves f ps c v g qs \<Longrightarrow> leads f ps [c] [v] g qs"
  by simp

lemma leads_length: "leads f ps xs vs g qs \<Longrightarrow> length vs = length xs"
  by (induction xs arbitrary: f ps vs) auto

declare leads.simps(2) [simp del]

lemma less_scanEnd [simp]: "v < scanEnd \<longleftrightarrow> v \<noteq> scanEnd \<and> v \<noteq> scanError"
  by (cases v) (simp_all add: less_scan_op_def)

lemma ge_scanEnd [simp]: "scanEnd \<le> v \<longleftrightarrow> v = scanEnd \<or> v = scanError"
  by (cases v) (simp_all add: less_eq_scan_op_def)

lemma movesI:
  assumes "v \<noteq> scanEnd" "v \<noteq> scanError"
    and "\<And>s. at f ps s \<Longrightarrow> \<exists>s'. scan_step s c = Some (v, s') \<and> at f' ps' s'"
  shows "moves f ps c v f' ps'"
  using assms by (simp add: moves_def)

text \<open>Strings.\<close>

definition plain_char :: "char \<Rightarrow> bool" where
  "plain_char c \<longleftrightarrow> c \<noteq> CHR 0x22 \<and> c \<noteq> CHR 0x5C \<and> (of_char c :: nat) \<ge> 0x20"

text \<open>What may stand between the quotes of a string: plain bytes and escapes.\<close>

inductive string_body :: "string \<Rightarrow> bool" where
  body_Nil: "string_body []"
| body_plain: "plain_char c \<Longrightarrow> string_body s \<Longrightarrow> string_body (c # s)"
| body_escape:
    "e \<in> {CHR 0x22, CHR 0x5C, CHR ''/'', CHR ''b'', CHR ''f'', CHR ''n'', CHR ''r'', CHR ''t''} \<Longrightarrow>
     string_body s \<Longrightarrow> string_body (CHR 0x5C # e # s)"
| body_unicode:
    "is_hex h1 \<Longrightarrow> is_hex h2 \<Longrightarrow> is_hex h3 \<Longrightarrow> is_hex h4 \<Longrightarrow> string_body s \<Longrightarrow>
     string_body (CHR 0x5C # CHR ''u'' # h1 # h2 # h3 # h4 # s)"

definition render_string :: "string \<Rightarrow> string" where
  "render_string b = [CHR 0x22] @ b @ [CHR 0x22]"

lemma move_string:
  "plain_char c \<Longrightarrow> moves StateInString ps c scanContinue StateInString ps"
  "moves StateInString ps (CHR 0x22) scanContinue StateEndValue ps"
  "moves StateInString ps (CHR 0x5C) scanContinue StateInStringEsc ps"
  "c \<in> {CHR 0x22, CHR 0x5C, CHR ''/'', CHR ''b'', CHR ''f'', CHR ''n'', CHR ''r'', CHR ''t''} \<Longrightarrow>
     moves StateInStringEsc ps c scanContinue StateInString ps"
  "moves StateInStringEsc ps (CHR ''u'') scanContinue StateInStringEscU ps"
  "is_hex c \<Longrightarrow> moves StateInStringEscU ps c scanContinue StateInStringEscU1 ps"
  "is_hex c \<Longrightarrow> moves StateInStringEscU1 ps c scanContinue StateInStringEscU12 ps"
  "is_hex c \<Longrightarrow> moves StateInStringEscU12 ps c scanContinue StateInStringEscU123 ps"
  "is_hex c \<Longrightarrow> moves StateInStringEscU123 ps c scanContinue StateInString ps"
  by (rule movesI; auto simp: at_def scan_step_def state_defs goto_def plain_char_def)+

lemma string_body_append: "string_body s \<Longrightarrow> string_body t \<Longrightarrow> string_body (s @ t)"
proof (induction s rule: string_body.induct)
  case body_Nil
  then show ?case by simp
next
  case (body_plain c s)
  then show ?case using string_body.body_plain [of c "s @ t"] by simp
next
  case (body_escape e s)
  then show ?case using string_body.body_escape [of e "s @ t"] by simp
next
  case (body_unicode h1 h2 h3 h4 s)
  then show ?case using string_body.body_unicode [of h1 h2 h3 h4 "s @ t"] by simp
qed

lemma leads_chars:
  "string_body b \<Longrightarrow> leads StateInString ps (b @ [CHR 0x22]) (conts (b @ [CHR 0x22])) StateEndValue ps"
proof (induction b rule: string_body.induct)
  case body_Nil
  then show ?case using leads_single [OF move_string(2)] by simp
next
  case (body_plain c s)
  then show ?case using leads_Cons [OF move_string(1) [OF body_plain(1)] body_plain.IH] by simp
next
  case (body_escape e s)
  then show ?case using leads_Cons [OF move_string(3) leads_Cons [OF move_string(4) [OF body_escape(1)] body_escape.IH]] by simp
next
  case (body_unicode h1 h2 h3 h4 s)
  note h = move_string(6) [OF body_unicode(1)] move_string(7) [OF body_unicode(2)] move_string(8) [OF body_unicode(3)]
    move_string(9) [OF body_unicode(4)]
  show ?case
    using leads_Cons [OF move_string(3) leads_Cons [OF move_string(5) leads_Cons [OF h(1) leads_Cons [OF h(2)
      leads_Cons [OF h(3) leads_Cons [OF h(4) body_unicode.IH]]]]]] by simp
qed

lemma leads_string:
  assumes "f = StateBeginValue \<or> f = StateBeginValueOrEmpty \<or> f = StateBeginString \<or> f = StateBeginStringOrEmpty"
    and t: "string_body t"
  shows "leads f ps (render_string t) (lit_ops (render_string t)) StateEndValue ps"
proof -
  have "moves f ps (CHR 0x22) scanBeginLiteral StateInString ps"
    by (rule movesI) (use assms in \<open>auto simp: at_def scan_step_def state_defs goto_def isSpace_def\<close>)
  from leads_Cons [OF this leads_chars [OF t]] show ?thesis
    by (simp add: render_string_def lit_ops_def)
qed

text \<open>Numbers: an integer, a fraction, an exponent.\<close>

record number =
  n_neg :: bool
  n_int :: nat
  n_frac :: string
  n_exp :: "(char \<times> string \<times> string) option"

definition render_number :: "number \<Rightarrow> string" where
  "render_number n =
     (if n_neg n then ''-'' else []) @ dec_nat (n_int n) @
     (if n_frac n = [] then [] else CHR ''.'' # n_frac n) @
     (case n_exp n of None \<Rightarrow> [] | Some (e, sg, ds) \<Rightarrow> e # sg @ ds)"

definition digits :: "string \<Rightarrow> bool" where
  "digits ds \<longleftrightarrow> (\<forall>c \<in> set ds. is_digit c)"

definition number_ok :: "number \<Rightarrow> bool" where
  "number_ok n \<longleftrightarrow>
     digits (n_frac n) \<and>
     (case n_exp n of None \<Rightarrow> True
      | Some (e, sg, ds) \<Rightarrow> e \<in> {CHR ''e'', CHR ''E''} \<and> sg \<in> {[], ''+'', ''-''} \<and> ds \<noteq> [] \<and> digits ds)"

definition number_end :: "step_fn \<Rightarrow> bool" where
  "number_end f \<longleftrightarrow> f = State0 \<or> f = State1 \<or> f = StateDot0 \<or> f = StateE0"

lemma move_number:
  "is_digit c \<Longrightarrow> f = State1 \<or> f = StateDot0 \<or> f = StateE0 \<Longrightarrow> moves f ps c scanContinue f ps"
  "f = State0 \<or> f = State1 \<Longrightarrow> moves f ps (CHR ''.'') scanContinue StateDot ps"
  "is_digit c \<Longrightarrow> moves StateDot ps c scanContinue StateDot0 ps"
  "f = State0 \<or> f = State1 \<or> f = StateDot0 \<Longrightarrow> c = CHR ''e'' \<or> c = CHR ''E'' \<Longrightarrow>
   moves f ps c scanContinue StateE ps"
  "c = CHR ''+'' \<or> c = CHR ''-'' \<Longrightarrow> moves StateE ps c scanContinue StateESign ps"
  "is_digit c \<Longrightarrow> f = StateE \<or> f = StateESign \<Longrightarrow> moves f ps c scanContinue StateE0 ps"
  by (rule movesI; auto simp: at_def scan_step_def state_defs goto_def is_digit_def char_le_iff)+

definition first_op :: "step_fn \<Rightarrow> scan_op" where
  "first_op f = (if f = StateNeg then scanContinue else scanBeginLiteral)"

lemma move_number_begin:
  assumes "f = StateBeginValue \<or> f = StateBeginValueOrEmpty \<or> f = StateNeg"
  shows "moves f ps (CHR ''0'') (first_op f) State0 ps"
    and "is_digit c \<Longrightarrow> c \<noteq> CHR ''0'' \<Longrightarrow> moves f ps c (first_op f) State1 ps"
proof -
  have v: "first_op f \<noteq> scanEnd" "first_op f \<noteq> scanError" by (simp_all add: first_op_def)
  show "moves f ps (CHR ''0'') (first_op f) State0 ps"
    by (rule movesI [OF v])
      (use assms in \<open>auto simp: at_def scan_step_def state_defs goto_def isSpace_def first_op_def\<close>)
  assume c: "is_digit c" "c \<noteq> CHR ''0''"
  then have n: "48 \<le> (of_char c :: nat)" "(of_char c :: nat) \<le> 57" "(of_char c :: nat) \<noteq> 48"
    unfolding is_digit_iff by (auto simp flip: of_char_eq_iff [where 'a = nat])
  show "moves f ps c (first_op f) State1 ps"
  proof (rule movesI [OF v])
    fix s assume "at f ps s"
    moreover have "CHR ''1'' \<le> c" "c \<le> CHR ''9''" "\<not> c \<le> CHR '' ''" using n by (simp_all add: char_le_iff)
    moreover have "c \<notin> {CHR ''{'', CHR ''['', CHR 0x22, CHR ''-'', CHR ''t'', CHR ''f'', CHR ''n'', CHR ''/'', CHR '']''}"
      using n by auto
    ultimately show "\<exists>s'. scan_step s c = Some (first_op f, s') \<and> at State1 ps s'"
      using assms c(2) by (auto simp: at_def scan_step_def state_defs goto_def first_op_def)
  qed
qed

lemma leads_digits:
  "digits ds \<Longrightarrow> f = State1 \<or> f = StateDot0 \<or> f = StateE0 \<Longrightarrow> leads f ps ds (conts ds) f ps"
proof (induction ds)
  case (Cons d ds)
  then have "moves f ps d scanContinue f ps" by (intro move_number(1)) (simp_all add: digits_def)
  then have "leads f ps (d # ds) (scanContinue # conts ds) f ps"
    by (rule leads_Cons) (use Cons in \<open>simp add: digits_def\<close>)
  then show ?case by simp
qed simp

lemma dec_nat_cases:
  obtains "n = 0" "dec_nat n = ''0''" | c cs where "dec_nat n = c # cs" "is_digit c" "c \<noteq> CHR ''0''" "digits cs"
proof (induction n arbitrary: thesis rule: dec_nat.induct)
  case (1 n)
  show ?case
  proof (cases "n < 10")
    case True
    then have d: "dec_nat n = [char_of (n + 48)]" by (subst dec_nat.simps) simp
    show ?thesis
    proof (cases "n = 0")
      case True
      then show ?thesis using "1.prems"(1) d by (simp add: digit_chars)
    next
      case False
      have "char_of (n + 48) \<noteq> CHR ''0''"
        using of_char_char_of_small [OF True] False by (metis add_cancel_left_left digit_chars(1) of_char_char_of_small zero_less_numeral plus_nat.add_0)
      then show ?thesis using "1.prems"(2) d True is_digit_char_of by (simp add: digits_def)
    qed
  next
    case False
    then have d: "dec_nat n = dec_nat (n div 10) @ [char_of (n mod 10 + 48)]"
      by (subst dec_nat.simps) simp
    have last: "is_digit (char_of (n mod 10 + 48))" by (rule is_digit_char_of) simp
    show ?thesis
    proof (rule "1.IH" [OF False])
      assume "n div 10 = 0"
      then show ?thesis using False by simp
    next
      fix c cs assume "dec_nat (n div 10) = c # cs" "is_digit c" "c \<noteq> CHR ''0''" "digits cs"
      then show ?thesis using "1.prems"(2) [of c "cs @ [char_of (n mod 10 + 48)]"] d last
        by (simp add: digits_def)
    qed
  qed
qed

lemma leads_int:
  assumes "f = StateBeginValue \<or> f = StateBeginValueOrEmpty \<or> f = StateNeg"
  obtains g c cs where "g = State0 \<or> g = State1" "dec_nat n = c # cs"
    "leads f ps (dec_nat n) (first_op f # conts cs) g ps"
proof (rule dec_nat_cases [of n])
  assume "dec_nat n = ''0''"
  then show thesis using that [of State0 "CHR ''0''" "[]"] leads_single [OF move_number_begin(1) [OF assms, of ps]] by simp
next
  fix c cs assume d: "dec_nat n = c # cs" "is_digit c" "c \<noteq> CHR ''0''" "digits cs"
  have "leads f ps (c # cs) (first_op f # conts cs) State1 ps"
    by (rule leads_Cons [OF move_number_begin(2) [OF assms d(2,3)] leads_digits]) (use d in auto)
  then show thesis using that [of State1] d by simp
qed

lemma leads_sign_int:
  assumes f: "f = StateBeginValue \<or> f = StateBeginValueOrEmpty"
  obtains g where "g = State0 \<or> g = State1"
    "leads f ps ((if neg then ''-'' else []) @ dec_nat n) (lit_ops ((if neg then ''-'' else []) @ dec_nat n)) g ps"
proof (cases neg)
  case True
  have m: "moves f ps (CHR ''-'') scanBeginLiteral StateNeg ps"
    by (rule movesI) (use f in \<open>auto simp: at_def scan_step_def state_defs goto_def isSpace_def\<close>)
  obtain g c cs where g: "g = State0 \<or> g = State1" "dec_nat n = c # cs"
      "leads StateNeg ps (dec_nat n) (scanContinue # conts cs) g ps"
    using leads_int [of StateNeg n ps] by (auto simp: first_op_def)
  then show ?thesis using that leads_Cons [OF m g(3)] True by (simp add: lit_ops_def)
next
  case False
  obtain g c cs where g: "g = State0 \<or> g = State1" "dec_nat n = c # cs"
      "leads f ps (dec_nat n) (first_op f # conts cs) g ps"
    using leads_int [of f n ps] f by metis
  moreover have "first_op f = scanBeginLiteral" using f by (auto simp: first_op_def)
  ultimately show ?thesis using that False by (simp add: lit_ops_def)
qed

lemma leads_frac:
  assumes "g1 = State0 \<or> g1 = State1" "digits fr"
  defines "txt \<equiv> (if fr = [] then [] else CHR ''.'' # fr)"
  obtains g where "g = State0 \<or> g = State1 \<or> g = StateDot0" "leads g1 ps txt (conts txt) g ps"
proof (cases fr)
  case Nil
  then show ?thesis using that [of g1] assms by auto
next
  case (Cons c cs)
  then have "is_digit c" "digits cs" using assms(2) by (auto simp: digits_def)
  then have "leads g1 ps (CHR ''.'' # c # cs) (scanContinue # scanContinue # conts cs) StateDot0 ps"
    by (intro leads_Cons [OF move_number(2) [OF assms(1)]] leads_Cons [OF move_number(3)] leads_digits)
      simp_all
  then show ?thesis using that [of StateDot0] Cons by (simp add: txt_def)
qed

lemma leads_exp:
  assumes g2: "g2 = State0 \<or> g2 = State1 \<or> g2 = StateDot0" and "number_ok n"
  defines "txt \<equiv> (case n_exp n of None \<Rightarrow> [] | Some (e, sg, ds) \<Rightarrow> e # sg @ ds)"
  obtains g where "number_end g" "leads g2 ps txt (conts txt) g ps"
proof (cases "n_exp n")
  case None
  then show ?thesis using that [of g2] g2 by (auto simp: number_end_def txt_def)
next
  case (Some p)
  obtain e sg ds where p: "p = (e, sg, ds)" by (cases p)
  have ok: "e = CHR ''e'' \<or> e = CHR ''E''" "sg = [] \<or> sg = ''+'' \<or> sg = ''-''" "ds \<noteq> []" "digits ds"
    using assms(2) Some p by (auto simp: number_ok_def)
  obtain d ds' where ds: "ds = d # ds'" "is_digit d" "digits ds'"
    using ok(3,4) by (cases ds) (auto simp: digits_def)
  have tail: "leads h ps ds (conts ds) StateE0 ps" if "h = StateE \<or> h = StateESign" for h
    using leads_Cons [OF move_number(6) [OF ds(2) that] leads_digits [OF ds(3)]] ds(1) by simp
  have "leads StateE ps (sg @ ds) (conts (sg @ ds)) StateE0 ps"
  proof (cases "sg = []")
    case True
    then show ?thesis using tail by simp
  next
    case False
    then obtain c where c: "sg = [c]" "c = CHR ''+'' \<or> c = CHR ''-''" using ok(2) by auto
    then show ?thesis using leads_Cons [OF move_number(5) [OF c(2)] tail] by simp
  qed
  then have "leads g2 ps (e # sg @ ds) (scanContinue # conts (sg @ ds)) StateE0 ps"
    using move_number(4) [OF g2(1) ok(1)] leads_Cons by blast
  then show ?thesis using that [of StateE0] Some p by (simp add: number_end_def txt_def)
qed

lemma lit_ops_append: "xs \<noteq> [] \<Longrightarrow> lit_ops (xs @ ys) = lit_ops xs @ conts ys"
  by (cases xs) (simp_all add: lit_ops_def replicate_add)

lemma dec_nat_ne [simp]: "dec_nat n \<noteq> []"
  by (rule dec_nat_cases [of n]) simp_all

lemma leads_number:
  assumes "number_ok n" and f: "f = StateBeginValue \<or> f = StateBeginValueOrEmpty"
  obtains g where "number_end g" "leads f ps (render_number n) (lit_ops (render_number n)) g ps"
proof -
  let ?int = "(if n_neg n then ''-'' else []) @ dec_nat (n_int n)"
  obtain g1 where g1: "g1 = State0 \<or> g1 = State1" "leads f ps ?int (lit_ops ?int) g1 ps"
    using leads_sign_int [OF f] by blast
  have "digits (n_frac n)" using assms(1) by (simp add: number_ok_def)
  then obtain g2 where g2: "g2 = State0 \<or> g2 = State1 \<or> g2 = StateDot0"
      "leads g1 ps (if n_frac n = [] then [] else CHR ''.'' # n_frac n)
        (conts (if n_frac n = [] then [] else CHR ''.'' # n_frac n)) g2 ps"
    using leads_frac [OF g1(1)] by blast
  obtain g3 where g3: "number_end g3"
      "leads g2 ps (case n_exp n of None \<Rightarrow> [] | Some (e, sg, ds) \<Rightarrow> e # sg @ ds)
        (conts (case n_exp n of None \<Rightarrow> [] | Some (e, sg, ds) \<Rightarrow> e # sg @ ds)) g3 ps"
    using leads_exp [OF g2(1) assms(1)] by blast
  have "leads f ps (render_number n) (lit_ops (render_number n)) g3 ps"
    using leads_append [OF g1(2) leads_append [OF g2(2) g3(2)]]
    unfolding render_number_def by (subst (2) append_assoc [symmetric], subst lit_ops_append)
      (simp_all add: replicate_add del: if_split)
  with g3(1) that show thesis by blast
qed

text \<open>Literals and punctuation.\<close>

definition begins :: "step_fn \<Rightarrow> bool" where
  "begins f \<longleftrightarrow> f = StateBeginValue \<or> f = StateBeginValueOrEmpty"

definition end_fn :: "step_fn \<Rightarrow> bool" where
  "end_fn g \<longleftrightarrow> g = StateEndValue \<or> number_end g"

definition closed_fn :: "parse_state list \<Rightarrow> step_fn" where
  "closed_fn ps = (if ps = [] then StateEndTop else StateEndValue)"

lemma leads_literal:
  assumes "begins f"
  shows "leads f ps ''true'' (lit_ops ''true'') StateEndValue ps"
    "leads f ps ''false'' (lit_ops ''false'') StateEndValue ps"
    "leads f ps ''null'' (lit_ops ''null'') StateEndValue ps"
proof -
  have b: "moves f ps (CHR ''t'') scanBeginLiteral StateT ps" "moves f ps (CHR ''f'') scanBeginLiteral StateF ps"
    "moves f ps (CHR ''n'') scanBeginLiteral StateN ps"
    by (rule movesI; use assms in \<open>auto simp: begins_def at_def scan_step_def state_defs goto_def isSpace_def\<close>)+
  have m: "moves StateT ps (CHR ''r'') scanContinue StateTr ps"
    "moves StateTr ps (CHR ''u'') scanContinue StateTru ps"
    "moves StateTru ps (CHR ''e'') scanContinue StateEndValue ps"
    "moves StateF ps (CHR ''a'') scanContinue StateFa ps"
    "moves StateFa ps (CHR ''l'') scanContinue StateFal ps"
    "moves StateFal ps (CHR ''s'') scanContinue StateFals ps"
    "moves StateFals ps (CHR ''e'') scanContinue StateEndValue ps"
    "moves StateN ps (CHR ''u'') scanContinue StateNu ps"
    "moves StateNu ps (CHR ''l'') scanContinue StateNul ps"
    "moves StateNul ps (CHR ''l'') scanContinue StateEndValue ps"
    by (rule movesI; auto simp: at_def scan_step_def state_defs goto_def)+
  have "leads f ps ''true'' [scanBeginLiteral, scanContinue, scanContinue, scanContinue] StateEndValue ps"
    by (intro leads_Cons [OF b(1)] leads_Cons [OF m(1)] leads_Cons [OF m(2)] leads_single [OF m(3)])
  then show "leads f ps ''true'' (lit_ops ''true'') StateEndValue ps" by (simp add: lit_ops_def eval_nat_numeral)
  have "leads f ps ''false'' [scanBeginLiteral, scanContinue, scanContinue, scanContinue, scanContinue]
      StateEndValue ps"
    by (intro leads_Cons [OF b(2)] leads_Cons [OF m(4)] leads_Cons [OF m(5)] leads_Cons [OF m(6)]
        leads_single [OF m(7)])
  then show "leads f ps ''false'' (lit_ops ''false'') StateEndValue ps" by (simp add: lit_ops_def eval_nat_numeral)
  have "leads f ps ''null'' [scanBeginLiteral, scanContinue, scanContinue, scanContinue] StateEndValue ps"
    by (intro leads_Cons [OF b(3)] leads_Cons [OF m(8)] leads_Cons [OF m(9)] leads_single [OF m(10)])
  then show "leads f ps ''null'' (lit_ops ''null'') StateEndValue ps" by (simp add: lit_ops_def eval_nat_numeral)
qed

lemma move_open:
  assumes "begins f"
  shows "moves f ps (CHR ''{'') scanBeginObject StateBeginStringOrEmpty (ps @ [parseObjectKey])"
    and "moves f ps (CHR ''['') scanBeginArray StateBeginValueOrEmpty (ps @ [parseArrayValue])"
  by (rule movesI; use assms in \<open>auto simp: begins_def at_def scan_step_def state_defs goto_def isSpace_def
      pushParseState_def\<close>)+

text \<open>After a value, in whichever state it ended, punctuation is read by \<open>stateEndValue\<close>.\<close>

lemma end_fn_step:
  assumes "end_fn g" "sc_step s = g" "\<not> is_digit c" "c \<notin> {CHR ''.'', CHR ''e'', CHR ''E''}"
  shows "scan_step s c = stateEndValue s c"
  using assms by (auto simp: end_fn_def number_end_def scan_step_def state_defs is_digit_def)

lemma end_fn_not_top [simp]: "end_fn g \<Longrightarrow> g \<noteq> StateEndTop"
  by (auto simp: end_fn_def number_end_def)

lemma pop_at:
  assumes "sc_parseState s = ps @ [p]" "\<not> sc_endTop s" "sc_err s = None"
  shows "\<exists>s'. popParseState s = Some s' \<and> at (closed_fn ps) ps s'"
  using assms by (auto simp: popParseState_def Let_def at_def closed_fn_def)

lemma move_punct:
  assumes g: "end_fn g"
  shows "moves g (ps @ [parseObjectKey]) (CHR '':'') scanObjectKey StateBeginValue (ps @ [parseObjectValue])"
    and "moves g (ps @ [parseObjectValue]) (CHR '','') scanObjectValue StateBeginString (ps @ [parseObjectKey])"
    and "moves g (ps @ [parseArrayValue]) (CHR '','') scanArrayValue StateBeginValue (ps @ [parseArrayValue])"
    and "moves g (ps @ [parseObjectValue]) (CHR ''}'') scanEndObject (closed_fn ps) ps"
    and "moves g (ps @ [parseArrayValue]) (CHR '']'') scanEndArray (closed_fn ps) ps"
proof -
  have ev: "scan_step s c = stateEndValue s c"
    if "at g qs s" "c \<in> {CHR '':'', CHR '','', CHR ''}'', CHR '']''}" for s c qs
    by (rule end_fn_step [OF g]) (use that in \<open>auto simp: at_def is_digit_iff\<close>)
  have sp: "\<not> isSpace c" if "c \<in> {CHR '':'', CHR '','', CHR ''}'', CHR '']''}" for c
    using that by (auto simp: isSpace_def)
  show "moves g (ps @ [parseObjectKey]) (CHR '':'') scanObjectKey StateBeginValue (ps @ [parseObjectValue])"
    "moves g (ps @ [parseObjectValue]) (CHR '','') scanObjectValue StateBeginString (ps @ [parseObjectKey])"
    "moves g (ps @ [parseArrayValue]) (CHR '','') scanArrayValue StateBeginValue (ps @ [parseArrayValue])"
    by (rule movesI; use g in \<open>simp add: ev sp stateEndValue_def at_def goto_def set_top_def\<close>)+
  show "moves g (ps @ [parseObjectValue]) (CHR ''}'') scanEndObject (closed_fn ps) ps"
    "moves g (ps @ [parseArrayValue]) (CHR '']'') scanEndArray (closed_fn ps) ps"
    by (rule movesI; use g pop_at in \<open>fastforce simp: ev sp stateEndValue_def at_def\<close>)+
qed

lemma move_empty:
  "moves StateBeginStringOrEmpty (ps @ [parseObjectKey]) (CHR ''}'') scanEndObject (closed_fn ps) ps"
  "moves StateBeginValueOrEmpty (ps @ [parseArrayValue]) (CHR '']'') scanEndArray (closed_fn ps) ps"
proof -
  show "moves StateBeginStringOrEmpty (ps @ [parseObjectKey]) (CHR ''}'') scanEndObject (closed_fn ps) ps"
  proof (rule movesI; simp?)
    fix s assume s: "at StateBeginStringOrEmpty (ps @ [parseObjectKey]) s"
    obtain s' where "popParseState (set_top s parseObjectValue) = Some s'" "at (closed_fn ps) ps s'"
      using pop_at [of "set_top s parseObjectValue" ps parseObjectValue] s
      by (auto simp: at_def set_top_def)
    then show "\<exists>s'. scan_step s (CHR ''}'') = Some (scanEndObject, s') \<and> at (closed_fn ps) ps s'"
      using s by (simp add: at_def scan_step_def stateBeginStringOrEmpty_def stateEndValue_def isSpace_def)
  qed
  show "moves StateBeginValueOrEmpty (ps @ [parseArrayValue]) (CHR '']'') scanEndArray (closed_fn ps) ps"
  proof (rule movesI; simp?)
    fix s assume s: "at StateBeginValueOrEmpty (ps @ [parseArrayValue]) s"
    obtain s' where "popParseState s = Some s'" "at (closed_fn ps) ps s'"
      using pop_at [of s ps parseArrayValue] s by (auto simp: at_def)
    then show "\<exists>s'. scan_step s (CHR '']'') = Some (scanEndArray, s') \<and> at (closed_fn ps) ps s'"
      using s by (simp add: at_def scan_step_def stateBeginValueOrEmpty_def stateEndValue_def isSpace_def)
  qed
qed

section \<open>Values and their text\<close>

datatype json =
  JNull | JBool bool | JNum number | JStr string | JArr "json list" | JObj "(string \<times> json) list"

fun seps :: "'a \<Rightarrow> 'a list list \<Rightarrow> 'a list" where
  "seps x [] = []"
| "seps x [ys] = ys"
| "seps x (ys # zs # zss) = ys @ x # seps x (zs # zss)"

abbreviation commas :: "string list \<Rightarrow> string" where
  "commas \<equiv> seps (CHR '','')"

fun render :: "json \<Rightarrow> string" where
  "render JNull = ''null''"
| "render (JBool b) = (if b then ''true'' else ''false'')"
| "render (JNum n) = render_number n"
| "render (JStr t) = render_string t"
| "render (JArr vs) = ''['' @ commas (map render vs) @ '']''"
| "render (JObj kvs) = ''{'' @ commas (map (\<lambda>p. render_string (fst p) @ '':'' @ render (snd p)) kvs) @ ''}''"

fun json_ok :: "json \<Rightarrow> bool" where
  "json_ok (JNum n) = number_ok n"
| "json_ok (JStr b) = string_body b"
| "json_ok (JArr vs) = (\<forall>v \<in> set vs. json_ok v)"
| "json_ok (JObj kvs) = (\<forall>p \<in> set kvs. string_body (fst p) \<and> json_ok (snd p))"
| "json_ok _ = True"

text \<open>The state after a value: a number may go on, an array or an object has been closed.\<close>

definition ends_in :: "json \<Rightarrow> parse_state list \<Rightarrow> step_fn \<Rightarrow> bool" where
  "ends_in v ps g \<longleftrightarrow>
     (case v of JNum _ \<Rightarrow> number_end g | JArr _ \<Rightarrow> g = closed_fn ps | JObj _ \<Rightarrow> g = closed_fn ps
      | _ \<Rightarrow> g = StateEndValue)"

lemma ends_in_nested: "ends_in v ps g \<Longrightarrow> ps \<noteq> [] \<Longrightarrow> end_fn g"
  by (cases v) (simp_all add: ends_in_def closed_fn_def end_fn_def)

section \<open>Gaps: white space and comments\<close>

text \<open>A comment, and the texts that may stand between the tokens: white space and comments.\<close>

definition comment :: "string \<Rightarrow> string" where
  "comment t = ''//'' @ t @ [CHR 0x0A]"

inductive gap :: "string \<Rightarrow> bool" where
  gap_Nil: "gap []"
| gap_space: "isSpace c \<Longrightarrow> gap t \<Longrightarrow> gap (c # t)"
| gap_comment: "CHR 0x0A \<notin> set u \<Longrightarrow> gap t \<Longrightarrow> gap (comment u @ t)"

definition spaces :: "string \<Rightarrow> bool" where
  "spaces t \<longleftrightarrow> (\<forall>c \<in> set t. isSpace c)"

lemma spaces_simps [simp]: "spaces []" "spaces (c # t) \<longleftrightarrow> isSpace c \<and> spaces t"
  "spaces (s @ t) \<longleftrightarrow> spaces s \<and> spaces t"
  by (auto simp: spaces_def)

lemma spaces_gap: "spaces t \<Longrightarrow> gap t"
  by (induction t) (auto intro: gap.intros)

abbreviation skips :: "string \<Rightarrow> scan_op list" where
  "skips cs \<equiv> replicate (length cs) scanSkipSpace"

lemma isSpace_le: "isSpace c \<Longrightarrow> c \<le> CHR '' ''"
  by (auto simp: isSpace_def char_le_iff)

lemma isSpace_not: "isSpace c \<Longrightarrow> \<not> is_digit c \<and> c \<noteq> CHR ''.'' \<and> c \<noteq> CHR ''e'' \<and> c \<noteq> CHR ''E''"
  by (auto simp: isSpace_def is_digit_iff)

text \<open>The states in which a gap is skipped, with the state it leads to, and the same for a comment.\<close>

definition skipping :: "step_fn \<Rightarrow> bool" where
  "skipping f \<longleftrightarrow> begins f \<or> f = StateBeginString \<or> f = StateBeginStringOrEmpty \<or> f = StateEndValue"

lemma move_space:
  assumes "isSpace c" "skipping f" "ps \<noteq> [] \<or> f \<noteq> StateEndValue"
  shows "moves f ps c scanSkipSpace f ps"
  using assms isSpace_le [OF assms(1)]
  by (intro movesI) (auto simp: skipping_def begins_def at_def scan_step_def state_defs goto_def stateEndValue_def)

lemma move_space_number:
  assumes "isSpace c" "end_fn g" "ps \<noteq> []"
  shows "moves g ps c scanSkipSpace StateEndValue ps"
proof -
  have "scan_step s c = stateEndValue s c" if "sc_step s = g" for s
    by (rule end_fn_step [OF assms(2) that]) (use isSpace_not [OF assms(1)] in auto)
  then show ?thesis using assms(1,2) isSpace_le [OF assms(1)] assms(3)
    by (intro movesI) (simp_all add: at_def stateEndValue_def goto_def)
qed

lemma leads_spaces: "spaces t \<Longrightarrow> skipping f \<Longrightarrow> ps \<noteq> [] \<or> f \<noteq> StateEndValue \<Longrightarrow> leads f ps t (skips t) f ps"
proof (induction t)
  case (Cons c t)
  then have "moves f ps c scanSkipSpace f ps" by (intro move_space) simp_all
  from leads_Cons [OF this] Cons show ?case by simp
qed simp

text \<open>One comment: two slashes, the text, the end of the line.\<close>

lemma leads_comment_by:
  assumes "moves f ps (CHR ''/'') scanSkipSpace f1 ps" "moves f1 ps (CHR ''/'') scanSkipSpace f2 ps"
    and "\<And>c. c \<noteq> CHR 0x0A \<Longrightarrow> moves f2 ps c scanSkipSpace f2 ps"
    and "moves f2 ps (CHR 0x0A) scanSkipSpace f3 ps" "CHR 0x0A \<notin> set u"
  shows "leads f ps (comment u) (skips (comment u)) f3 ps"
proof -
  have "leads f2 ps (u @ [CHR 0x0A]) (skips (u @ [CHR 0x0A])) f3 ps" using assms(5)
  proof (induction u)
    case (Cons c u)
    then have "c \<noteq> CHR 0x0A" by auto
    from leads_Cons [OF assms(3) [OF this]] Cons show ?case by simp
  qed (use leads_single [OF assms(4)] in simp)
  then show ?thesis using leads_Cons [OF assms(1) leads_Cons [OF assms(2)]] by (simp add: comment_def)
qed

lemma leads_comment_value:
  assumes "CHR 0x0A \<notin> set u" "begins f"
  shows "leads f ps (comment u) (skips (comment u)) StateBeginValueOrEmpty ps"
  by (rule leads_comment_by [of _ _ StateMaybeCommentAtBeginValue StateInCommentAtBeginValue];
      (rule movesI)?; use assms in \<open>auto simp: begins_def at_def scan_step_def state_defs goto_def isSpace_def\<close>)

lemma leads_comment_key:
  assumes "CHR 0x0A \<notin> set u" "f = StateBeginString \<or> f = StateBeginStringOrEmpty"
  shows "leads f ps (comment u) (skips (comment u)) StateBeginString ps"
  by (rule leads_comment_by [of _ _ StateMaybeCommentAtBeginString StateInCommentAtBeginString];
      (rule movesI)?; use assms in \<open>auto simp: at_def scan_step_def state_defs goto_def isSpace_def\<close>)

lemma end_fn_slash:
  assumes "end_fn g" "at g qs s"
  shows "scan_step s (CHR ''/'') = stateEndValue s (CHR ''/'')"
  by (rule end_fn_step [OF assms(1)]) (use assms(2) in \<open>simp_all add: at_def is_digit_iff\<close>)

lemma leads_comment_end:
  assumes "CHR 0x0A \<notin> set u" "end_fn g" "p = parseArrayValue \<or> p = parseObjectValue"
  shows "leads g (ps @ [p]) (comment u) (skips (comment u)) StateEndValue (ps @ [p])"
proof -
  have g: "g \<noteq> StateEndTop" using assms(2) by simp
  show ?thesis
  proof (cases "p = parseArrayValue")
    case True
    show ?thesis
      by (rule leads_comment_by [of _ _ StateMaybeCommentAtEndArrayValue StateInCommentAtEndArrayValue];
          (rule movesI)?; use assms(1) g True end_fn_slash [OF assms(2)] in
            \<open>auto simp: at_def stateEndValue_def scan_step_def stateMaybeCommentAtEndArrayValue_def
              stateInCommentAtEndArrayValue_def goto_def isSpace_def\<close>)
  next
    case False
    then have p: "p = parseObjectValue" using assms(3) by simp
    show ?thesis
      by (rule leads_comment_by [of _ _ StateMaybeCommentAtEndValue StateInCommentAtEndValue];
          (rule movesI)?; use assms(1) g p end_fn_slash [OF assms(2)] in
            \<open>auto simp: at_def stateEndValue_def scan_step_def stateMaybeCommentAtEndValue_def
              stateInCommentAtEndValue_def goto_def isSpace_def\<close>)
  qed
qed

text \<open>A whole gap.\<close>

lemma skips_append: "skips (s @ t) = skips s @ skips t"
  by (simp add: replicate_add)

lemma leads_gap_value:
  "gap t \<Longrightarrow> begins f \<Longrightarrow> \<exists>g. leads f ps t (skips t) g ps \<and> begins g \<and>
     (f = StateBeginValueOrEmpty \<longrightarrow> g = StateBeginValueOrEmpty)"
proof (induction arbitrary: f rule: gap.induct)
  case (gap_space c t)
  then have "moves f ps c scanSkipSpace f ps" by (intro move_space) (auto simp: skipping_def begins_def)
  then show ?case using gap_space.IH [OF gap_space.prems] leads_Cons by fastforce
next
  case (gap_comment u t)
  obtain g where g: "leads StateBeginValueOrEmpty ps t (skips t) g ps" "g = StateBeginValueOrEmpty"
    using gap_comment.IH [of StateBeginValueOrEmpty] by (auto simp: begins_def)
  show ?case
    using leads_append [OF leads_comment_value [OF gap_comment.hyps(1) gap_comment.prems] g(1)] g(2)
    unfolding skips_append by (auto simp: begins_def)
qed simp

lemma leads_gap_key:
  "gap t \<Longrightarrow> f = StateBeginString \<or> f = StateBeginStringOrEmpty \<Longrightarrow>
   \<exists>g. leads f ps t (skips t) g ps \<and> (g = StateBeginString \<or> g = StateBeginStringOrEmpty)"
proof (induction arbitrary: f rule: gap.induct)
  case (gap_space c t)
  then have "moves f ps c scanSkipSpace f ps" by (intro move_space) (auto simp: skipping_def)
  then show ?case using gap_space.IH [OF gap_space.prems] leads_Cons by fastforce
next
  case (gap_comment u t)
  obtain g where g: "leads StateBeginString ps t (skips t) g ps" "g = StateBeginString \<or> g = StateBeginStringOrEmpty"
    using gap_comment.IH [of StateBeginString] by auto
  show ?case
    using leads_append [OF leads_comment_key [OF gap_comment.hyps(1) gap_comment.prems] g(1)] g(2)
    unfolding skips_append by auto
qed auto

lemma leads_gap_end:
  "gap t \<Longrightarrow> end_fn f \<Longrightarrow> p = parseArrayValue \<or> p = parseObjectValue \<Longrightarrow>
   \<exists>g. leads f (ps @ [p]) t (skips t) g (ps @ [p]) \<and> end_fn g"
proof (induction arbitrary: f rule: gap.induct)
  case (gap_space c t)
  have m: "moves f (ps @ [p]) c scanSkipSpace StateEndValue (ps @ [p])"
    by (rule move_space_number) (use gap_space in auto)
  have "end_fn StateEndValue" by (simp add: end_fn_def)
  then obtain g where "leads StateEndValue (ps @ [p]) t (skips t) g (ps @ [p])" "end_fn g"
    using gap_space.IH gap_space.prems(2) by blast
  then show ?case using leads_Cons [OF m, of t "skips t"] by auto
next
  case (gap_comment u t)
  have "end_fn StateEndValue" by (simp add: end_fn_def)
  then obtain g where g: "leads StateEndValue (ps @ [p]) t (skips t) g (ps @ [p])" "end_fn g"
    using gap_comment.IH gap_comment.prems(2) by blast
  show ?case
    using leads_append [OF leads_comment_end [OF gap_comment.hyps(1) gap_comment.prems] g(1)] g(2)
    unfolding skips_append by auto
qed auto

section \<open>Texts of a value\<close>

text \<open>The texts that write a value, with any gaps between the tokens, and the opcode of every byte. The
  second and third relation are the elements of an array and the members of an object.\<close>

inductive layout :: "json \<Rightarrow> string \<Rightarrow> scan_op list \<Rightarrow> bool"
  and elements :: "json list \<Rightarrow> string \<Rightarrow> scan_op list \<Rightarrow> bool"
  and members :: "(string \<times> json) list \<Rightarrow> string \<Rightarrow> scan_op list \<Rightarrow> bool"
where
  lay_null: "layout JNull ''null'' (lit_ops ''null'')"
| lay_true: "layout (JBool True) ''true'' (lit_ops ''true'')"
| lay_false: "layout (JBool False) ''false'' (lit_ops ''false'')"
| lay_number: "number_ok n \<Longrightarrow> layout (JNum n) (render_number n) (lit_ops (render_number n))"
| lay_string: "string_body t \<Longrightarrow> layout (JStr t) (render_string t) (lit_ops (render_string t))"
| lay_empty_array: "gap w \<Longrightarrow> layout (JArr []) (''['' @ w @ '']'') (scanBeginArray # skips w @ [scanEndArray])"
| lay_array: "elements vs t os \<Longrightarrow> layout (JArr vs) (''['' @ t @ '']'') (scanBeginArray # os @ [scanEndArray])"
| lay_empty_object:
    "spaces w \<Longrightarrow> layout (JObj []) (''{'' @ w @ ''}'') (scanBeginObject # skips w @ [scanEndObject])"
| lay_object: "members kvs t os \<Longrightarrow> layout (JObj kvs) (''{'' @ t @ ''}'') (scanBeginObject # os @ [scanEndObject])"
| el_last: "gap w1 \<Longrightarrow> layout v t os \<Longrightarrow> gap w2 \<Longrightarrow> elements [v] (w1 @ t @ w2) (skips w1 @ os @ skips w2)"
| el_more: "gap w1 \<Longrightarrow> layout v t os \<Longrightarrow> gap w2 \<Longrightarrow> elements vs u qs \<Longrightarrow>
    elements (v # vs) (w1 @ t @ w2 @ '','' @ u) (skips w1 @ os @ skips w2 @ scanArrayValue # qs)"
| mem_last: "gap w1 \<Longrightarrow> spaces w2 \<Longrightarrow> gap w3 \<Longrightarrow> layout v t os \<Longrightarrow> gap w4 \<Longrightarrow> string_body k \<Longrightarrow>
    members [(k, v)] (w1 @ render_string k @ w2 @ '':'' @ w3 @ t @ w4)
      (skips w1 @ lit_ops (render_string k) @ skips w2 @ scanObjectKey # skips w3 @ os @ skips w4)"
| mem_more: "gap w1 \<Longrightarrow> spaces w2 \<Longrightarrow> gap w3 \<Longrightarrow> layout v t os \<Longrightarrow> gap w4 \<Longrightarrow> members kvs u qs \<Longrightarrow>
    string_body k \<Longrightarrow> members ((k, v) # kvs) (w1 @ render_string k @ w2 @ '':'' @ w3 @ t @ w4 @ '','' @ u)
      (skips w1 @ lit_ops (render_string k) @ skips w2 @ scanObjectKey # skips w3 @ os @ skips w4 @
       scanObjectValue # qs)"

text \<open>One element with its gaps, and one member.\<close>

lemma leads_element:
  assumes "gap w1" "gap w2" "begins f"
    and v: "\<And>f. begins f \<Longrightarrow> \<exists>g. leads f (ps @ [parseArrayValue]) t os g (ps @ [parseArrayValue]) \<and> end_fn g"
  shows "\<exists>g. leads f (ps @ [parseArrayValue]) (w1 @ t @ w2) (skips w1 @ os @ skips w2) g (ps @ [parseArrayValue]) \<and> end_fn g"
proof -
  obtain f1 where f1: "leads f (ps @ [parseArrayValue]) w1 (skips w1) f1 (ps @ [parseArrayValue])" "begins f1"
    using leads_gap_value [OF assms(1,3)] by blast
  obtain f2 where f2: "leads f1 (ps @ [parseArrayValue]) t os f2 (ps @ [parseArrayValue])" "end_fn f2"
    using v [OF f1(2)] by blast
  obtain f3 where f3: "leads f2 (ps @ [parseArrayValue]) w2 (skips w2) f3 (ps @ [parseArrayValue])" "end_fn f3"
    using leads_gap_end [OF assms(2) f2(2), of parseArrayValue] by blast
  show ?thesis using leads_append [OF f1(1) leads_append [OF f2(1) f3(1)]] f3(2) by blast
qed

lemma leads_key_colon:
  assumes "gap w1" "spaces w2" "f = StateBeginString \<or> f = StateBeginStringOrEmpty" "string_body k"
  shows "leads f (ps @ [parseObjectKey]) (w1 @ render_string k @ w2 @ '':'')
    (skips w1 @ lit_ops (render_string k) @ skips w2 @ [scanObjectKey]) StateBeginValue (ps @ [parseObjectValue])"
proof -
  obtain f1 where f1: "leads f (ps @ [parseObjectKey]) w1 (skips w1) f1 (ps @ [parseObjectKey])"
      "f1 = StateBeginString \<or> f1 = StateBeginStringOrEmpty"
    using leads_gap_key [OF assms(1,3)] by blast
  have s: "leads f1 (ps @ [parseObjectKey]) (render_string k) (lit_ops (render_string k)) StateEndValue
      (ps @ [parseObjectKey])"
    by (rule leads_string) (use f1(2) assms(4) in blast)+
  have w: "leads StateEndValue (ps @ [parseObjectKey]) w2 (skips w2) StateEndValue (ps @ [parseObjectKey])"
    by (rule leads_spaces) (use assms(2) in \<open>simp_all add: skipping_def\<close>)
  have "end_fn StateEndValue" by (simp add: end_fn_def)
  from leads_append [OF f1(1) leads_append [OF s leads_append [OF w leads_single [OF move_punct(1) [OF this]]]]]
  show ?thesis .
qed

lemma leads_member:
  assumes "gap w1" "spaces w2" "gap w3" "gap w4" "f = StateBeginString \<or> f = StateBeginStringOrEmpty" "string_body k"
    and v: "\<And>f. begins f \<Longrightarrow> \<exists>g. leads f (ps @ [parseObjectValue]) t os g (ps @ [parseObjectValue]) \<and> end_fn g"
  shows "\<exists>g. leads f (ps @ [parseObjectKey]) (w1 @ render_string k @ w2 @ '':'' @ w3 @ t @ w4)
      (skips w1 @ lit_ops (render_string k) @ skips w2 @ scanObjectKey # skips w3 @ os @ skips w4) g
      (ps @ [parseObjectValue]) \<and> end_fn g"
proof -
  obtain f1 where f1: "leads StateBeginValue (ps @ [parseObjectValue]) w3 (skips w3) f1 (ps @ [parseObjectValue])"
      "begins f1"
    using leads_gap_value [OF assms(3), of StateBeginValue] by (auto simp: begins_def)
  obtain f2 where f2: "leads f1 (ps @ [parseObjectValue]) t os f2 (ps @ [parseObjectValue])" "end_fn f2"
    using v [OF f1(2)] by blast
  obtain f3 where f3: "leads f2 (ps @ [parseObjectValue]) w4 (skips w4) f3 (ps @ [parseObjectValue])" "end_fn f3"
    using leads_gap_end [OF assms(4) f2(2), of parseObjectValue] by blast
  show ?thesis
    using leads_append [OF leads_key_colon [OF assms(1,2,5,6)] leads_append [OF f1(1) leads_append [OF f2(1) f3(1)]]] f3(2)
    by auto
qed

lemma leads_layout_parts:
  "layout v t os \<Longrightarrow> begins f \<Longrightarrow> \<exists>g. leads f ps t os g ps \<and> ends_in v ps g"
  "elements vs t os \<Longrightarrow> begins f \<Longrightarrow>
     \<exists>g. leads f (ps @ [parseArrayValue]) t os g (ps @ [parseArrayValue]) \<and> end_fn g"
  "members kvs t os \<Longrightarrow> h = StateBeginString \<or> h = StateBeginStringOrEmpty \<Longrightarrow>
     \<exists>g. leads h (ps @ [parseObjectKey]) t os g (ps @ [parseObjectValue]) \<and> end_fn g"
proof (induction arbitrary: f ps and f ps and h ps rule: layout_elements_members.inducts)
  case lay_null
  then show ?case using leads_literal(3) by (auto simp: ends_in_def)
next
  case lay_true
  then show ?case using leads_literal(1) by (auto simp: ends_in_def)
next
  case lay_false
  then show ?case using leads_literal(2) by (auto simp: ends_in_def)
next
  case (lay_number n)
  then obtain g where "number_end g" "leads f ps (render_number n) (lit_ops (render_number n)) g ps"
    using leads_number [of n f ps] by (auto simp: begins_def)
  then show ?case by (auto simp: ends_in_def)
next
  case (lay_string t)
  then show ?case using leads_string [of f t ps] by (auto simp: begins_def ends_in_def)
next
  case (lay_empty_array w)
  obtain g where "leads StateBeginValueOrEmpty (ps @ [parseArrayValue]) w (skips w) g (ps @ [parseArrayValue])"
      "g = StateBeginValueOrEmpty"
    using leads_gap_value [OF lay_empty_array.hyps(1), of StateBeginValueOrEmpty] by (auto simp: begins_def)
  then show ?case
    using leads_Cons [OF move_open(2) [OF lay_empty_array.prems] leads_append [OF _ leads_single [OF move_empty(2)]]]
    by (auto simp: ends_in_def)
next
  case (lay_array vs t os)
  obtain g where g: "leads StateBeginValueOrEmpty (ps @ [parseArrayValue]) t os g (ps @ [parseArrayValue])" "end_fn g"
    using lay_array.IH [of StateBeginValueOrEmpty ps] by (auto simp: begins_def)
  show ?case
    using leads_Cons [OF move_open(2) [OF lay_array.prems] leads_append [OF g(1) leads_single [OF move_punct(5) [OF g(2)]]]]
    by (auto simp: ends_in_def)
next
  case (lay_empty_object w)
  have "leads StateBeginStringOrEmpty (ps @ [parseObjectKey]) w (skips w) StateBeginStringOrEmpty (ps @ [parseObjectKey])"
    by (rule leads_spaces) (use lay_empty_object.hyps in \<open>simp_all add: skipping_def\<close>)
  then show ?case
    using leads_Cons [OF move_open(1) [OF lay_empty_object.prems] leads_append [OF _ leads_single [OF move_empty(1)]]]
    by (auto simp: ends_in_def)
next
  case (lay_object kvs t os)
  obtain g where g: "leads StateBeginStringOrEmpty (ps @ [parseObjectKey]) t os g (ps @ [parseObjectValue])" "end_fn g"
    using lay_object.IH [of StateBeginStringOrEmpty ps] by auto
  show ?case
    using leads_Cons [OF move_open(1) [OF lay_object.prems] leads_append [OF g(1) leads_single [OF move_punct(4) [OF g(2)]]]]
    by (auto simp: ends_in_def)
next
  case (el_last w1 v t os w2)
  show ?case
    by (rule leads_element [OF el_last.hyps(1,3) el_last.prems]) (use el_last.IH ends_in_nested in blast)
next
  case (el_more w1 v t os w2 vs u qs)
  have v: "\<exists>g. leads f (ps @ [parseArrayValue]) t os g (ps @ [parseArrayValue]) \<and> end_fn g" if "begins f" for f
    using el_more.IH(1) [OF that] ends_in_nested by blast
  obtain g where g: "leads f (ps @ [parseArrayValue]) (w1 @ t @ w2) (skips w1 @ os @ skips w2) g (ps @ [parseArrayValue])"
      "end_fn g"
    using leads_element [OF el_more.hyps(1,3) el_more.prems v] by blast
  obtain h where h: "leads StateBeginValue (ps @ [parseArrayValue]) u qs h (ps @ [parseArrayValue])" "end_fn h"
    using el_more.IH(2) [of StateBeginValue ps] by (auto simp: begins_def)
  show ?case using leads_append [OF g(1) leads_Cons [OF move_punct(3) [OF g(2)] h(1)]] h(2) by auto
next
  case (mem_last w1 w2 w3 v t os w4 k)
  show ?case
    by (rule leads_member [OF mem_last.hyps(1,2,3,5) mem_last.prems mem_last.hyps(6)]) (use mem_last.IH ends_in_nested in blast)
next
  case (mem_more w1 w2 w3 v t os w4 kvs u qs k)
  have v: "\<exists>g. leads f (ps @ [parseObjectValue]) t os g (ps @ [parseObjectValue]) \<and> end_fn g" if "begins f" for f
    using mem_more.IH(1) [OF that] ends_in_nested by blast
  obtain g where g: "leads h (ps @ [parseObjectKey]) (w1 @ render_string k @ w2 @ '':'' @ w3 @ t @ w4)
      (skips w1 @ lit_ops (render_string k) @ skips w2 @ scanObjectKey # skips w3 @ os @ skips w4) g
      (ps @ [parseObjectValue])" "end_fn g"
    using leads_member [OF mem_more.hyps(1,2,3,5) mem_more.prems mem_more.hyps(7) v] by blast
  obtain g2 where g2: "leads StateBeginString (ps @ [parseObjectKey]) u qs g2 (ps @ [parseObjectValue])" "end_fn g2"
    using mem_more.IH(2) [of StateBeginString ps] by auto
  show ?case using leads_append [OF g(1) leads_Cons [OF move_punct(2) [OF g(2)] g2(1)]] g2(2) by auto
qed

lemmas leads_layout = leads_layout_parts(1)

section \<open>Validation and splitting\<close>

lemma at_reset [simp]: "at StateBeginValue [] (scanner_reset s)"
  by (simp add: at_def scanner_reset_def)

lemma moves_step:
  "moves f ps c v g qs \<Longrightarrow> at f ps s \<Longrightarrow> \<exists>s'. scan_step s c = Some (v, s') \<and> at g qs s' \<and> v \<noteq> scanEnd \<and> v \<noteq> scanError"
  by (fastforce simp: moves_def)

lemma leads_checkValid:
  "leads f ps xs vs g qs \<Longrightarrow> at f ps s \<Longrightarrow> \<exists>s'. at g qs s' \<and> checkValid_loop (xs @ ys) s = checkValid_loop ys s'"
proof (induction xs arbitrary: f ps s vs)
  case (Cons c xs)
  obtain v ws h rs where h: "moves f ps c v h rs" "leads h rs xs ws g qs" using Cons.prems(1) by (auto simp: leads.simps(2))
  obtain s1 where "scan_step (s\<lparr>sc_bytes := i64 (sc_bytes s + 1)\<rparr>) c = Some (v, s1)" "at h rs s1" "v \<noteq> scanError"
    using moves_step [OF h(1), of "s\<lparr>sc_bytes := i64 (sc_bytes s + 1)\<rparr>"] Cons.prems(2) by auto
  then show ?case using Cons.IH [OF h(2)] by auto
qed auto

lemma leads_nextValue:
  "leads f ps xs vs g qs \<Longrightarrow> at f ps s \<Longrightarrow>
   \<exists>s'. at g qs s' \<and> nextValue_loop d i (xs @ ys) s = nextValue_loop d (i + length xs) ys s'"
proof (induction xs arbitrary: f ps s i vs)
  case (Cons c xs)
  obtain v ws h rs where h: "moves f ps c v h rs" "leads h rs xs ws g qs" using Cons.prems(1) by (auto simp: leads.simps(2))
  obtain s1 where "scan_step s c = Some (v, s1)" "at h rs s1" "v \<noteq> scanError" "v \<noteq> scanEnd"
    using moves_step [OF h(1) Cons.prems(2)] by auto
  then show ?case using Cons.IH [OF h(2), of s1 "Suc i"] by auto
qed auto

text \<open>What may follow a value directly: anything, but after a number only what does not continue it.\<close>

definition follows :: "json \<Rightarrow> string \<Rightarrow> bool" where
  "follows v rest \<longleftrightarrow>
     (\<forall>n. v = JNum n \<longrightarrow> rest \<noteq> [] \<longrightarrow> \<not> is_digit (hd rest) \<and> hd rest \<notin> {CHR ''.'', CHR ''e'', CHR ''E''})"

lemma top_step:
  assumes "ends_in v [] g" "at g [] s" "follows v (c # cs)"
  shows "\<exists>s'. scan_step s c = Some (scanEnd, s') \<and> sc_endTop s' \<and>
    (if isSpace c then sc_step s' = StateEndTop \<and> sc_err s' = None else sc_step s' = StateError \<and> sc_err s' \<noteq> None)"
proof -
  have top: "\<exists>s'. stateEndTop t c = Some (scanEnd, s') \<and> sc_endTop s' \<and>
      (if isSpace c then sc_step s' = StateEndTop \<and> sc_err s' = None else sc_step s' = StateError \<and> sc_err s' \<noteq> None)"
    if "sc_step t = StateEndTop" "sc_endTop t" "sc_err t = None" for t
    using that by (auto simp: stateEndTop_def isSpace_def scanner_error_def)
  have f: "scan_step s c = stateEndTop (s\<lparr>sc_step := StateEndTop, sc_endTop := True\<rparr>) c"
    if "g \<noteq> StateEndTop"
  proof -
    have "end_fn g" using assms(1) that by (cases v) (auto simp: ends_in_def end_fn_def closed_fn_def)
    moreover have "g = StateEndValue \<or> \<not> is_digit c \<and> c \<notin> {CHR ''.'', CHR ''e'', CHR ''E''}"
      using assms(1,3) that by (cases v) (auto simp: ends_in_def follows_def closed_fn_def)
    ultimately have "scan_step s c = stateEndValue s c"
      using end_fn_step [of g s c] assms(2) by (auto simp: at_def scan_step_def)
    then show ?thesis using assms(2) by (simp add: at_def stateEndValue_def)
  qed
  show ?thesis
  proof (cases "g = StateEndTop")
    case True
    then show ?thesis using top [of s] assms(2) by (simp add: at_def scan_step_def)
  next
    case False
    show ?thesis unfolding f [OF False] by (rule top) (use assms(2) in \<open>simp_all add: at_def\<close>)
  qed
qed

lemma top_eof:
  assumes "ends_in v [] g" "at g [] s"
  shows "\<exists>t. scanner_eof s = Some (scanEnd, t)"
proof -
  have "follows v ('' '')" by (simp add: follows_def is_digit_iff)
  then obtain t where "scan_step s (CHR '' '') = Some (scanEnd, t)" "sc_endTop t"
    using top_step [OF assms, of "CHR '' ''" "[]"] by auto
  then show ?thesis using assms(2) by (auto simp: scanner_eof_def at_def)
qed

lemma error_checkValid:
  "sc_step s = StateError \<Longrightarrow> sc_err s \<noteq> None \<Longrightarrow> \<exists>e s'. checkValid_loop cs s = Some (Some e, s')"
  by (cases cs) (auto simp: scanner_eof_def scan_step_def stateError_def)

lemma top_checkValid:
  "sc_step s = StateEndTop \<Longrightarrow> sc_endTop s \<Longrightarrow> sc_err s = None \<Longrightarrow>
   \<exists>e s'. checkValid_loop cs s = Some (e, s') \<and> (e = None \<longleftrightarrow> (\<forall>c \<in> set cs. isSpace c))"
proof (induction cs arbitrary: s)
  case Nil
  then show ?case by (simp add: scanner_eof_def)
next
  case (Cons c cs)
  show ?case
  proof (cases "isSpace c")
    case True
    then have "scan_step (s\<lparr>sc_bytes := b\<rparr>) c = Some (scanEnd, s\<lparr>sc_bytes := b\<rparr>)" for b
      using Cons.prems(1) by (auto simp: scan_step_def stateEndTop_def isSpace_def)
    then show ?thesis using Cons.IH [of "s\<lparr>sc_bytes := i64 (sc_bytes s + 1)\<rparr>"] Cons.prems True by simp
  next
    case False
    obtain t where t: "scan_step (s\<lparr>sc_bytes := i64 (sc_bytes s + 1)\<rparr>) c = Some (scanEnd, t)"
        "sc_step t = StateError" "sc_err t \<noteq> None"
      using Cons.prems(1) False by (auto simp: scan_step_def stateEndTop_def isSpace_def scanner_error_def)
    show ?thesis using t False error_checkValid [of t cs] by auto
  qed
qed


lemma checkValid_text:
  assumes "gap w" "layout v t os" "follows v rest"
  shows "\<exists>e s. checkValid (w @ t @ rest) scan = Some (e, s) \<and> (e = None \<longleftrightarrow> spaces rest)"
proof -
  obtain f where f: "leads StateBeginValue [] w (skips w) f []" "begins f"
    using leads_gap_value [OF assms(1), of StateBeginValue "[]"] by (auto simp: begins_def)
  obtain g where g: "leads f [] t os g []" "ends_in v [] g"
    using leads_layout [OF assms(2) f(2)] by blast
  obtain s where s: "at g [] s" "checkValid (w @ t @ rest) scan = checkValid_loop rest s"
    using leads_checkValid [OF leads_append [OF f(1) g(1)] at_reset, of rest]
    by (auto simp: checkValid_def)
  show ?thesis
  proof (cases rest)
    case Nil
    obtain t where "scanner_eof s = Some (scanEnd, t)" using top_eof [OF g(2) s(1)] by auto
    then show ?thesis using s(2) Nil by simp
  next
    case (Cons c cs)
    obtain t where t: "scan_step (s\<lparr>sc_bytes := i64 (sc_bytes s + 1)\<rparr>) c = Some (scanEnd, t)" "sc_endTop t"
        "if isSpace c then sc_step t = StateEndTop \<and> sc_err t = None else sc_step t = StateError \<and> sc_err t \<noteq> None"
      using top_step [OF g(2), of "s\<lparr>sc_bytes := i64 (sc_bytes s + 1)\<rparr>" c cs] s(1) assms(3) Cons by auto
    show ?thesis
      using t s(2) Cons top_checkValid [of t cs] error_checkValid [of t cs]
      by (cases "isSpace c") (auto simp: spaces_def)
  qed
qed

text \<open>C18: validation accepts every text of a JSON value, with white space and comments around its tokens,
  and nothing that goes on after a complete value: whatever follows the value, the text is valid exactly
  if the rest is white space.\<close>

theorem checkValid_layout_iff:
  assumes "gap w" "layout v t os" "follows v rest"
  shows "\<exists>e s. checkValid (w @ t @ rest) scan = Some (e, s) \<and> (e = None \<longleftrightarrow> spaces rest)"
  by (rule checkValid_text [OF assms])

definition sample_scanner :: scanner where
  "sample_scanner =
     \<lparr>sc_step = StateError, sc_endTop = True, sc_parseState = [parseArrayValue], sc_err = None, sc_redo = True,
      sc_redoCode = scanEnd, sc_redoState = None, sc_bytes = 0\<rparr>"

text \<open>A layout for the witnesses: white space, a comment, a nested value.\<close>

definition sample_value :: json where
  "sample_value = JArr [JBool True, JObj []]"

definition sample_text :: string where
  "sample_text = ''[ true,'' @ comment ''x'' @ ''{}]''"

lemma sample_layout: "\<exists>os. layout sample_value sample_text os"
proof -
  have s: "gap '' ''" by (intro gap.intros) (simp add: isSpace_def)
  have "elements [JBool True, JObj []] ('' '' @ ''true'' @ [] @ '','' @ comment ''x'' @ (''{'' @ [] @ ''}'') @ [])
      (skips '' '' @ lit_ops ''true'' @ skips [] @ scanArrayValue #
       skips (comment ''x'') @ (scanBeginObject # skips [] @ [scanEndObject]) @ skips [])"
    using gap_comment [of "''x''" "[]"] s
    by (intro el_more el_last lay_true lay_empty_object) (auto intro: gap.intros)
  from lay_array [OF this] show ?thesis by (auto simp: sample_value_def sample_text_def)
qed

theorem checkValid_layout_iff_witness:
  "\<exists>e s. checkValid ('' '' @ sample_text @ ''x'') sample_scanner = Some (e, s) \<and> e \<noteq> None"
proof -
  obtain os where os: "layout sample_value sample_text os" using sample_layout by blast
  have "gap '' ''" by (intro gap.intros) (simp add: isSpace_def)
  from checkValid_layout_iff [OF this os, of "''x''" sample_scanner] show ?thesis
    by (auto simp: follows_def sample_value_def isSpace_def)
qed

lemma nextValue_text:
  assumes "layout v t os" "follows v rest"
  shows "\<exists>s. nextValue (t @ rest) scan = Some (Inr (t, rest), s)"
proof -
  obtain g where g: "leads StateBeginValue [] t os g []" "ends_in v [] g"
    using leads_layout [OF assms(1), of StateBeginValue "[]"] by (auto simp: begins_def)
  obtain s where s: "at g [] s" "nextValue (t @ rest) scan = nextValue_loop (t @ rest) (length t) rest s"
    using leads_nextValue [OF g(1) at_reset, of "t @ rest" 0 rest] by (auto simp: nextValue_def)
  show ?thesis
  proof (cases rest)
    case Nil
    obtain t where "scanner_eof s = Some (scanEnd, t)" using top_eof [OF g(2) s(1)] by auto
    then show ?thesis using s(2) Nil by simp
  next
    case (Cons c cs)
    obtain t where "scan_step s c = Some (scanEnd, t)"
      using top_step [OF g(2) s(1), of c cs] assms(2) Cons by auto
    then show ?thesis using s(2) Cons by simp
  qed
qed

text \<open>C19: splitting gives back the text of the first value and exactly what follows it, without looking
  further than one byte behind the value, so texts of several values are read one by one.\<close>

theorem nextValue_layout:
  assumes "layout v t os" "follows v rest"
  shows "\<exists>s. nextValue (t @ rest) scan = Some (Inr (t, rest), s)"
  by (rule nextValue_text [OF assms])

theorem nextValue_layout_witness:
  "\<exists>s. nextValue (sample_text @ ''[null'') sample_scanner = Some (Inr (sample_text, ''[null''), s)"
proof -
  obtain os where os: "layout sample_value sample_text os" using sample_layout by blast
  show ?thesis by (rule nextValue_layout [OF os]) (simp add: follows_def sample_value_def)
qed

text \<open>the scanner never panics, whatever the bytes and whatever state it is taken over in: validation
  and splitting return, a run gives one opcode per byte, and from the first \<open>scanError\<close> on every opcode
  is \<open>scanError\<close>.\<close>

theorem scanner_total:
  "(\<exists>r. checkValid data scan = Some r) \<and> (\<exists>r. nextValue data scan = Some r) \<and>
   (\<exists>vs s. run_bytes scan_step data (scanner_reset scan) = Some (vs, s) \<and> length vs = length data \<and>
      (\<forall>i j. i \<le> j \<and> j < length vs \<and> vs ! i = scanError \<longrightarrow> vs ! j = scanError))"
proof -
  have p: "scan_plain (scanner_reset scan)" by (simp add: scan_plain_def scan_inv_def scanner_reset_def fn_ok_def)
  then have i: "scan_inv (scanner_reset scan)" by (simp add: scan_plain_def)
  obtain vs s where r: "run_bytes scan_step data (scanner_reset scan) = Some (vs, s)" "length vs = length data"
    using json.run_total [OF i, of data] by auto
  show ?thesis
    using checkValid_loop_total [OF i, of data] nextValue_loop_total [OF i, of data 0 data] r
      json.error_final [OF p r(1)]
    by (auto simp: checkValid_def nextValue_def)
qed

theorem scanner_total_witness:
  "\<exists>vs s. run_bytes scan_step ''}]'' (scanner_reset sample_scanner) = Some (vs, s) \<and> length vs = 2 \<and>
     vs ! 0 = scanError \<and> vs ! 1 = scanError"
proof -
  have v: "run_bytes scan_step ''}]'' (scanner_reset sample_scanner) = Some (vs, s) \<Longrightarrow> vs ! 0 = scanError" for vs s
    by (auto simp: scanner_reset_def scan_step_def state_defs isSpace_def scanner_error_def bind_eq_Some_conv char_le_iff)
  obtain vs s where r: "run_bytes scan_step ''}]'' (scanner_reset sample_scanner) = Some (vs, s)"
      "length vs = length ''}]''"
      "\<forall>i j. i \<le> j \<and> j < length vs \<and> vs ! i = scanError \<longrightarrow> vs ! j = scanError"
    using scanner_total [of "''}]''" sample_scanner] by blast
  have "vs ! 1 = scanError" using r(2) r(3) [rule_format, of 0 1] v [OF r(1)] by simp
  then show ?thesis using v [OF r(1)] r(1,2) by (simp del: run_bytes.simps)
qed

section \<open>A comment hides a dangling comma\<close>

lemma leads_open_array:
  assumes "elements vs t os"
  shows "leads StateBeginValue [] (''['' @ t @ '','') (scanBeginArray # os @ [scanArrayValue]) StateBeginValue
    [parseArrayValue]"
proof -
  obtain g where g: "leads StateBeginValueOrEmpty [parseArrayValue] t os g [parseArrayValue]" "end_fn g"
    using leads_layout_parts(2) [OF assms, of StateBeginValueOrEmpty "[]"] by (auto simp: begins_def)
  show ?thesis
    using leads_Cons [OF move_open(2) [of StateBeginValue "[]", simplified] leads_append [OF g(1) leads_single
        [OF move_punct(3) [OF g(2), of "[]", simplified]]]]
    by (simp add: begins_def)
qed

lemma leads_dangling:
  assumes "elements vs t os" "CHR 0x0A \<notin> set u"
  shows "leads StateBeginValue [] ((''['' @ t @ '','') @ comment u @ '']'')
      ((scanBeginArray # os @ [scanArrayValue]) @ skips (comment u) @ [scanEndArray]) StateEndTop []"
  using leads_append [OF leads_open_array [OF assms(1)] leads_append [OF leads_comment_value [OF assms(2)]
      leads_single [OF move_empty(2) [of "[]", simplified]]]]
  by (simp add: closed_fn_def begins_def)

lemma dangling_valid:
  assumes "elements vs t os" "CHR 0x0A \<notin> set u"
  shows "\<exists>s. checkValid (''['' @ t @ '','' @ comment u @ '']'') scan = Some (None, s)"
proof -
  obtain s where "at StateEndTop [] s"
      "checkValid ((''['' @ t @ '','') @ comment u @ '']'') scan = checkValid_loop [] s"
    using leads_checkValid [OF leads_dangling [OF assms] at_reset, of "[]"] by (auto simp: checkValid_def)
  then show ?thesis by (auto simp: scanner_eof_def at_def)
qed

lemma dangling_invalid:
  assumes "elements vs t os"
  shows "\<exists>e s. checkValid (''['' @ t @ '','' @ '']'') scan = Some (Some e, s)"
proof -
  obtain s where "at StateBeginValue [parseArrayValue] s"
      "checkValid ((''['' @ t @ '','') @ '']'') scan = checkValid_loop '']'' s"
    using leads_checkValid [OF leads_open_array [OF assms] at_reset, of "'']''"] by (auto simp: checkValid_def)
  then show ?thesis
    by (auto simp: at_def scan_step_def stateBeginValue_def isSpace_def scanner_error_def char_le_iff)
qed

text \<open>a comment switches the check for a dangling comma off: an array whose last comma is followed by
  a comment line and the bracket is valid, the same array without the comment is not.\<close>

theorem comment_permits_trailing_comma:
  assumes "elements vs t os" "CHR 0x0A \<notin> set u"
  shows "(\<exists>s. checkValid (''['' @ t @ '','' @ comment u @ '']'') scan = Some (None, s)) \<and>
    (\<exists>e s. checkValid (''['' @ t @ '','' @ '']'') scan = Some (Some e, s))"
  using dangling_valid [OF assms] dangling_invalid [OF assms(1)] by simp

theorem comment_permits_trailing_comma_witness:
  "\<exists>s. checkValid (''[null,'' @ comment ''x'' @ '']'') sample_scanner = Some (None, s)"
proof -
  have "elements [JNull] ([] @ ''null'' @ []) (skips [] @ lit_ops ''null'' @ skips [])"
    by (intro el_last lay_null gap.intros)
  from comment_permits_trailing_comma [OF this, of "''x''" sample_scanner] show ?thesis by simp
qed

section \<open>The canonical text\<close>

text \<open>The text without gaps is one of them.\<close>

lemma elements_commas:
  "(\<And>v. v \<in> set vs \<Longrightarrow> \<exists>os. layout v (render v) os) \<Longrightarrow> vs \<noteq> [] \<Longrightarrow>
   \<exists>os. elements vs (commas (map render vs)) os"
proof (induction vs)
  case (Cons v vs)
  obtain os where os: "layout v (render v) os" using Cons.prems(1) by auto
  show ?case
  proof (cases vs)
    case Nil
    then show ?thesis using el_last [OF gap_Nil os gap_Nil] by auto
  next
    case (Cons w ws)
    obtain qs where "elements vs (commas (map render vs)) qs" using Cons.IH Cons.prems(1) Cons by auto
    then show ?thesis using el_more [OF gap_Nil os gap_Nil, of vs] Cons by auto
  qed
qed simp

abbreviation member :: "string \<times> json \<Rightarrow> string" where
  "member p \<equiv> render_string (fst p) @ '':'' @ render (snd p)"

lemma members_commas:
  "(\<And>p. p \<in> set kvs \<Longrightarrow> string_body (fst p) \<and> (\<exists>os. layout (snd p) (render (snd p)) os)) \<Longrightarrow> kvs \<noteq> [] \<Longrightarrow>
   \<exists>os. members kvs (commas (map member kvs)) os"
proof (induction kvs)
  case (Cons p kvs)
  obtain k v where p: "p = (k, v)" by (cases p)
  obtain os where os: "layout v (render v) os" and k: "string_body k" using Cons.prems(1) [of p] p by auto
  show ?case
  proof (cases kvs)
    case Nil
    then show ?thesis using mem_last [OF gap_Nil _ gap_Nil os gap_Nil k, of "[]"] p by auto
  next
    case (Cons q ps)
    obtain qs where "members kvs (commas (map member kvs)) qs" using Cons.IH Cons.prems(1) Cons by auto
    then show ?thesis using mem_more [OF gap_Nil _ gap_Nil os gap_Nil _ k, of "[]" kvs] p Cons by auto
  qed
qed simp

lemma layout_render: "json_ok v \<Longrightarrow> \<exists>os. layout v (render v) os"
proof (induction v rule: render.induct)
  case (5 vs)
  then show ?case
    using lay_empty_array [OF gap_Nil] elements_commas [of vs] lay_array by (cases "vs = []") fastforce+
next
  case (6 kvs)
  then show ?case
    using lay_empty_object [of "[]"] members_commas [of kvs] lay_object by (cases "kvs = []") fastforce+
qed (auto intro: layout_elements_members.intros)

text \<open>A value that has a text is well-formed.\<close>

lemma layout_ok:
  "layout v t os \<Longrightarrow> json_ok v"
  "elements vs t os \<Longrightarrow> (\<forall>v \<in> set vs. json_ok v)"
  "members kvs t os \<Longrightarrow> (\<forall>p \<in> set kvs. string_body (fst p) \<and> json_ok (snd p))"
  by (induction rule: layout_elements_members.inducts) auto

end
