(* ===== verification/Json_Indent.thy ===== *)
theory Json_Indent
  imports Json_Grammar
begin

text \<open>
  The file \<open>common/json/indent.go\<close> and the function \<open>HTMLEscape\<close> of \<open>encode.go\<close>: the rewriting of a JSON
  text without its white space, with indentation, and with the characters that are special in HTML
  escaped. A buffer is the string written so far; a result of \<^term>\<open>None\<close> would be a panic, the inner
  option is the error.
\<close>

section \<open>Escaping\<close>

definition hex :: string where
  "hex = ''0123456789abcdef''"

text \<open>\<open>if start < i { dst.Write(src[start:i]) }\<close>.\<close>

definition flush :: "string \<Rightarrow> nat \<Rightarrow> nat \<Rightarrow> string \<Rightarrow> string" where
  "flush src start i dst = (if start < i then dst @ take (i - start) (drop start src) else dst)"

text \<open>The two conversions at the byte \<open>c\<close> with index \<open>i\<close>; the pair is the buffer and \<open>start\<close>.\<close>

definition html_char :: "char \<Rightarrow> bool" where
  "html_char c \<longleftrightarrow> c = CHR ''<'' \<or> c = CHR ''>'' \<or> c = CHR ''&''"

definition escape_html :: "string \<Rightarrow> nat \<Rightarrow> char \<Rightarrow> string \<times> nat \<Rightarrow> string \<times> nat" where
  "escape_html src i c = (\<lambda>(dst, start).
     (if html_char c
      then (flush src start i dst @ [CHR 0x5C] @ ''u00'' @ [hex ! (of_char c div 16), hex ! (of_char c mod 16)], Suc i)
      else (dst, start)))"

definition line_sep :: "string \<Rightarrow> nat \<Rightarrow> char \<Rightarrow> bool" where
  "line_sep src i c \<longleftrightarrow>
     c = CHR 0xE2 \<and> i + 2 < length src \<and> src ! (i + 1) = CHR 0x80 \<and>
     (of_char (src ! (i + 2)) - of_char (src ! (i + 2)) mod 2 :: nat) = 0xA8"

definition escape_sep :: "string \<Rightarrow> nat \<Rightarrow> char \<Rightarrow> string \<times> nat \<Rightarrow> string \<times> nat" where
  "escape_sep src i c = (\<lambda>(dst, start).
     (if line_sep src i c
      then (flush src start i dst @ [CHR 0x5C] @ ''u202'' @ [hex ! (of_char (src ! (i + 2)) mod 16)], i + 3)
      else (dst, start)))"

fun html_loop :: "string \<Rightarrow> nat \<Rightarrow> string \<Rightarrow> string \<times> nat \<Rightarrow> string \<times> nat" where
  "html_loop src i [] p = p"
| "html_loop src i (c # cs) p = html_loop src (Suc i) cs (escape_sep src i c (escape_html src i c p))"

definition HTMLEscape :: "string \<Rightarrow> string \<Rightarrow> string" where
  "HTMLEscape dst src =
     (let (dst, start) = html_loop src 0 src (dst, 0)
      in if start < length src then dst @ drop start src else dst)"

section \<open>Compact\<close>

text \<open>\<open>var scan scanner; scan.reset()\<close>.\<close>

definition fresh_scanner :: scanner where
  "fresh_scanner =
     \<lparr>sc_step = StateBeginValue, sc_endTop = False, sc_parseState = [], sc_err = None, sc_redo = False,
      sc_redoCode = scanContinue, sc_redoState = None, sc_bytes = 0\<rparr>"

text \<open>The loop, left with \<open>break\<close> at an error.\<close>

fun compact_loop ::
    "bool \<Rightarrow> string \<Rightarrow> nat \<Rightarrow> string \<Rightarrow> scanner \<Rightarrow> string \<times> nat \<Rightarrow> (scanner \<times> string \<times> nat) option" where
  "compact_loop escape src i [] scan p = Some (scan, p)"
| "compact_loop escape src i (c # cs) scan p =
     (let p = escape_sep src i c (if escape then escape_html src i c p else p)
      in do {
        (v, scan) \<leftarrow> scan_step scan c;
        (if v \<ge> scanSkipSpace
         then (if v = scanError then Some (scan, p)
               else compact_loop escape src (Suc i) cs scan (flush src (snd p) i (fst p), Suc i))
         else compact_loop escape src (Suc i) cs scan p)
      })"

definition compact :: "string \<Rightarrow> string \<Rightarrow> bool \<Rightarrow> (SyntaxError option \<times> string) option" where
  "compact dst src escape = do {
     (scan, buf, start) \<leftarrow> compact_loop escape src 0 src fresh_scanner (dst, 0);
     (v, scan) \<leftarrow> scanner_eof scan;
     (if v = scanError then Some (sc_err scan, take (length dst) buf)
      else Some (None, if start < length src then buf @ drop start src else buf))
   }"

definition Compact :: "string \<Rightarrow> string \<Rightarrow> (SyntaxError option \<times> string) option" where
  "Compact dst src = compact dst src False"

section \<open>Indent\<close>

definition newline :: "string \<Rightarrow> string \<Rightarrow> string \<Rightarrow> int \<Rightarrow> string" where
  "newline dst pre ind depth = dst @ [CHR 0x0A] @ pre @ concat (replicate (nat depth) ind)"

text \<open>What one byte with its opcode, neither skipped nor an error, does to the buffer, the flag
  \<open>needIndent\<close> and the depth.\<close>

definition Indent_byte ::
    "string \<Rightarrow> string \<Rightarrow> char \<Rightarrow> scan_op \<Rightarrow> bool \<times> int \<times> string \<Rightarrow> bool \<times> int \<times> string" where
  "Indent_byte pre ind c v = (\<lambda>(need, depth, dst).
     (let (need, depth, dst) =
        (if need \<and> v \<noteq> scanEndObject \<and> v \<noteq> scanEndArray
         then (False, i64 (depth + 1), newline dst pre ind (i64 (depth + 1))) else (need, depth, dst))
      in if v = scanContinue then (need, depth, dst @ [c])
         else if c = CHR ''{'' \<or> c = CHR ''['' then (True, depth, dst @ [c])
         else if c = CHR '','' then (need, depth, newline (dst @ [c]) pre ind depth)
         else if c = CHR '':'' then (need, depth, dst @ [c] @ '' '')
         else if c = CHR ''}'' \<or> c = CHR '']'' then
           (if need then (False, depth, dst @ [c])
            else (need, i64 (depth - 1), newline dst pre ind (i64 (depth - 1)) @ [c]))
         else (need, depth, dst @ [c])))"

fun Indent_loop ::
    "string \<Rightarrow> string \<Rightarrow> string \<Rightarrow> scanner \<Rightarrow> bool \<times> int \<times> string \<Rightarrow> (scanner \<times> bool \<times> int \<times> string) option" where
  "Indent_loop pre ind [] scan q = Some (scan, q)"
| "Indent_loop pre ind (c # cs) scan q = do {
     (v, scan) \<leftarrow> scan_step (scan\<lparr>sc_bytes := i64 (sc_bytes scan + 1)\<rparr>) c;
     (if v = scanSkipSpace then Indent_loop pre ind cs scan q
      else if v = scanError then Some (scan, q)
      else Indent_loop pre ind cs scan (Indent_byte pre ind c v q))
   }"

definition Indent :: "string \<Rightarrow> string \<Rightarrow> string \<Rightarrow> string \<Rightarrow> (SyntaxError option \<times> string) option" where
  "Indent dst src pre ind = do {
     (scan, need, depth, buf) \<leftarrow> Indent_loop pre ind src fresh_scanner (False, 0, dst);
     (v, scan) \<leftarrow> scanner_eof scan;
     (if v = scanError then Some (sc_err scan, take (length dst) buf) else Some (None, buf))
   }"

section \<open>Every input is handled, an error leaves the buffer as it was\<close>

lemma fresh_plain: "scan_plain fresh_scanner"
  by (simp add: scan_plain_def scan_inv_def fresh_scanner_def fn_ok_def)

lemma fresh_at [simp]: "at StateBeginValue [] fresh_scanner"
  by (simp add: at_def fresh_scanner_def)

lemma flush_prefix: "prefix dst (flush src start i dst)"
  by (simp add: flush_def)

lemma escape_prefix:
  "prefix (fst p) (fst (escape_html src i c p))" "prefix (fst p) (fst (escape_sep src i c p))"
  by (cases p; simp add: escape_html_def escape_sep_def flush_def)+

lemma escapes_prefix: "prefix (fst p) (fst (escape_sep src i c (if esc then escape_html src i c p else p)))"
  using prefix_order.trans [OF escape_prefix(1) escape_prefix(2)] escape_prefix(2) by simp

lemma compact_loop_total:
  "scan_inv s \<Longrightarrow> \<exists>s' p'. compact_loop esc src i cs s p = Some (s', p') \<and> scan_inv s' \<and> prefix (fst p) (fst p')"
proof (induction cs arbitrary: i s p)
  case (Cons c cs)
  define p1 where "p1 = escape_sep src i c (if esc then escape_html src i c p else p)"
  note p1 = escapes_prefix [of p src i c esc, folded p1_def]
  obtain v t where st: "scan_step s c = Some (v, t)" "scan_inv t"
    using json.step_total [OF Cons.prems, of c] by blast
  obtain s1 q1 where 1: "compact_loop esc src (Suc i) cs t p1 = Some (s1, q1)" "scan_inv s1" "prefix (fst p1) (fst q1)"
    using Cons.IH [OF st(2)] by blast
  obtain s2 q2 where 2: "compact_loop esc src (Suc i) cs t (flush src (snd p1) i (fst p1), Suc i) = Some (s2, q2)"
      "scan_inv s2" "prefix (flush src (snd p1) i (fst p1)) (fst q2)"
    using Cons.IH [OF st(2), of "Suc i" "(flush src (snd p1) i (fst p1), Suc i)"] by auto
  have "prefix (fst p) (fst q1)" using p1 1(3) prefix_order.trans by blast
  moreover have "prefix (fst p) (fst q2)" using p1 flush_prefix 2(3) prefix_order.trans by metis
  ultimately show ?case using 1 2 st p1
    by (auto simp: p1_def [symmetric] Let_def simp del: split_paired_Ex)
qed simp

lemma Indent_byte_prefix: "prefix (snd (snd q)) (snd (snd (Indent_byte pre ind c v q)))"
  by (cases q) (auto simp: Indent_byte_def Let_def newline_def)

lemma Indent_loop_total:
  "scan_inv s \<Longrightarrow> \<exists>s' q'. Indent_loop pre ind cs s q = Some (s', q') \<and> scan_inv s' \<and>
     prefix (snd (snd q)) (snd (snd q'))"
proof (induction cs arbitrary: s q)
  case (Cons c cs)
  obtain v t where st: "scan_step (s\<lparr>sc_bytes := i64 (sc_bytes s + 1)\<rparr>) c = Some (v, t)" "scan_inv t"
    using json.step_total [of "s\<lparr>sc_bytes := i64 (sc_bytes s + 1)\<rparr>" c] Cons.prems by auto
  obtain s1 q1 where 1: "Indent_loop pre ind cs t q = Some (s1, q1)" "scan_inv s1" "prefix (snd (snd q)) (snd (snd q1))"
    using Cons.IH [OF st(2)] by blast
  obtain s2 q2 where 2: "Indent_loop pre ind cs t (Indent_byte pre ind c v q) = Some (s2, q2)" "scan_inv s2"
      "prefix (snd (snd (Indent_byte pre ind c v q))) (snd (snd q2))"
    using Cons.IH [OF st(2)] by blast
  have "prefix (snd (snd q)) (snd (snd q2))" using Indent_byte_prefix 2(3) prefix_order.trans by blast
  then show ?case using 1 2 st by (auto simp del: split_paired_Ex)
qed (simp del: split_paired_Ex)

lemma prefix_take: "prefix xs ys \<Longrightarrow> take (length xs) ys = xs"
  by (auto simp: prefix_def)

text \<open>compacting and indenting return on every input; the buffer keeps what it held before, and
  when an error is reported nothing has been added to it.\<close>

theorem rewriting_total:
  "(\<exists>e buf. compact dst src escape = Some (e, buf) \<and> prefix dst buf \<and> (e \<noteq> None \<longrightarrow> buf = dst)) \<and>
   (\<exists>e buf. Indent dst src pre ind = Some (e, buf) \<and> prefix dst buf \<and> (e \<noteq> None \<longrightarrow> buf = dst))"
proof
  have inv: "scan_inv fresh_scanner" using fresh_plain by (simp add: scan_plain_def)
  obtain s p where "compact_loop escape src 0 src fresh_scanner (dst, 0) = Some (s, p)" "scan_inv s" "prefix dst (fst p)"
    using compact_loop_total [OF inv, of escape src 0 src "(dst, 0)"] by auto
  moreover obtain v t where "scanner_eof s = Some (v, t)"
    using eof_ok [OF calculation(2)] by (auto simp: step_ok_def)
  ultimately show "\<exists>e buf. compact dst src escape = Some (e, buf) \<and> prefix dst buf \<and> (e \<noteq> None \<longrightarrow> buf = dst)"
    by (cases p) (auto simp: compact_def prefix_take)
  obtain s q where "Indent_loop pre ind src fresh_scanner (False, 0, dst) = Some (s, q)" "scan_inv s"
      "prefix dst (snd (snd q))"
    using Indent_loop_total [OF inv, of pre ind src "(False, 0, dst)"] by auto
  moreover obtain v t where "scanner_eof s = Some (v, t)"
    using eof_ok [OF calculation(2)] by (auto simp: step_ok_def)
  ultimately show "\<exists>e buf. Indent dst src pre ind = Some (e, buf) \<and> prefix dst buf \<and> (e \<noteq> None \<longrightarrow> buf = dst)"
    by (cases q) (auto simp: Indent_def prefix_take)
qed

theorem rewriting_total_witness:
  "snd (the (compact ''x'' ''}'' False)) = ''x'' \<and> snd (the (Indent ''x'' ''}'' [] [])) = ''x''"
proof -
  have "fst (the (compact ''x'' ''}'' False)) \<noteq> None" "fst (the (Indent ''x'' ''}'' [] [])) \<noteq> None"
    by code_simp+
  then show ?thesis using rewriting_total [of "''x''" "''}''" False "[]" "[]"] by auto
qed

section \<open>Compacting\<close>

text \<open>The bytes that are kept: all but those with the opcode \<open>scanSkipSpace\<close>.\<close>

definition kept :: "string \<Rightarrow> scan_op list \<Rightarrow> string" where
  "kept cs vs = map fst (filter (\<lambda>p. snd p \<noteq> scanSkipSpace) (zip cs vs))"

lemma kept_simps [simp]:
  "kept [] vs = []" "kept cs [] = []"
  "kept (c # cs) (v # vs) = (if v = scanSkipSpace then kept cs vs else c # kept cs vs)"
  by (simp_all add: kept_def)

lemma kept_append: "length vs = length cs \<Longrightarrow> kept (cs @ ds) (vs @ ws) = kept cs vs @ kept ds ws"
  by (simp add: kept_def zip_append)

lemma kept_skips [simp]: "kept w (skips w) = []"
  by (induction w) simp_all

lemma kept_conts: "kept w (conts w) = w"
  by (induction w) simp_all

lemma kept_lit: "t \<noteq> [] \<Longrightarrow> kept t (lit_ops t) = t"
  by (cases t) (simp_all add: lit_ops_def kept_conts)

lemma length_lit: "t \<noteq> [] \<Longrightarrow> length (lit_ops t) = length t"
  by (cases t) (simp_all add: lit_ops_def)

lemma render_ne [simp]: "render_number n \<noteq> []" "render_string t \<noteq> []"
  by (simp_all add: render_number_def render_string_def)

lemma layout_length:
  "layout v t os \<Longrightarrow> length os = length t"
  "elements vs t os \<Longrightarrow> length os = length t"
  "members kvs t os \<Longrightarrow> length os = length t"
  by (induction rule: layout_elements_members.inducts) (simp_all add: length_lit)

lemma kept_layout:
  "layout v t os \<Longrightarrow> kept t os = render v"
  "elements vs t os \<Longrightarrow> kept t os = commas (map render vs) \<and> vs \<noteq> []"
  "members kvs t os \<Longrightarrow> kept t os = commas (map member kvs) \<and> kvs \<noteq> []"
proof (induction rule: layout_elements_members.inducts)
  case (el_more w1 v t os w2 vs u qs)
  then show ?case by (cases vs) (simp_all add: kept_append layout_length)
next
  case (mem_more w1 w2 w3 v t os w4 kvs u qs k)
  then show ?case by (cases kvs) (simp_all add: kept_append layout_length length_lit kept_lit)
qed (simp_all add: kept_append layout_length length_lit kept_lit)

text \<open>No separator of U+2028 or U+2029 is written raw.\<close>

definition no_sep :: "string \<Rightarrow> bool" where
  "no_sep src \<longleftrightarrow> (\<forall>i < length src. \<not> line_sep src i (src ! i))"

text \<open>What the loop has written and will write when it is flushed at \<open>i\<close>.\<close>

lemma flush_alt: "start \<le> i \<Longrightarrow> flush src start i dst = dst @ drop start (take i src)"
  by (cases "start = i") (simp_all add: flush_def drop_take)

lemma flush_step:
  assumes "start \<le> length pre" "src = pre @ c # cs"
  shows "flush src start (Suc (length pre)) dst = flush src start (length pre) dst @ [c]"
  using assms by (simp add: flush_alt)

lemma flush_self [simp]: "flush src i i dst = dst"
  by (simp add: flush_def)

lemma escape_sep_none: "no_sep src \<Longrightarrow> src = pre @ c # cs \<Longrightarrow> escape_sep src (length pre) c p = p"
  using spec [of "\<lambda>i. i < length src \<longrightarrow> \<not> line_sep src i (src ! i)" "length pre"]
  by (cases p) (simp add: escape_sep_def no_sep_def nth_append)

lemma compact_leads:
  assumes "no_sep src"
  shows "leads f ps cs vs g qs \<Longrightarrow> at f ps s \<Longrightarrow> src = pre @ cs @ ys \<Longrightarrow> start \<le> length pre \<Longrightarrow>
    \<exists>s' dst' start'. at g qs s' \<and> start' \<le> length (pre @ cs) \<and>
      flush src start' (length (pre @ cs)) dst' = flush src start (length pre) dst @ kept cs vs \<and>
      compact_loop False src (length pre) (cs @ ys) s (dst, start) =
        compact_loop False src (length (pre @ cs)) ys s' (dst', start')"
proof (induction cs arbitrary: f ps vs s pre dst start)
  case (Cons c cs)
  obtain v ws h rs where v: "vs = v # ws" "moves f ps c v h rs" "leads h rs cs ws g qs"
    using Cons.prems(1) by (auto simp: leads.simps(2))
  obtain s1 where s1: "scan_step s c = Some (v, s1)" "at h rs s1" "v \<noteq> scanEnd" "v \<noteq> scanError"
    using moves_step [OF v(2) Cons.prems(2)] by blast
  have e: "escape_sep src (length pre) c p = p" for p
    using escape_sep_none [OF assms, of pre c "cs @ ys"] Cons.prems(3) by simp
  have ge: "scanSkipSpace \<le> v \<longleftrightarrow> v = scanSkipSpace"
    using s1(3,4) by (cases v) (simp_all add: less_eq_scan_op_def)
  have src: "src = (pre @ [c]) @ cs @ ys" using Cons.prems(3) by simp
  show ?case
  proof (cases "v = scanSkipSpace")
    case True
    show ?thesis
      using Cons.IH [OF v(3) s1(2) src, of "length (pre @ [c])" "flush src start (length pre) dst"] s1 True v(1)
      by (auto simp: e ge)
  next
    case False
    have "flush src start (length (pre @ [c])) dst = flush src start (length pre) dst @ [c]"
      using flush_step [OF Cons.prems(4), of src c "cs @ ys"] Cons.prems(3) by simp
    then show ?thesis
      using Cons.IH [OF v(3) s1(2) src, of start dst] s1 False v(1) Cons.prems(4)
      by (auto simp: e ge)
  qed
qed auto

lemma compact_top_spaces:
  assumes "no_sep src"
  shows "sc_step s = StateEndTop \<Longrightarrow> spaces cs \<Longrightarrow> src = pre @ cs \<Longrightarrow> start \<le> length pre \<Longrightarrow>
    \<exists>dst' start'. compact_loop False src (length pre) cs s (dst, start) = Some (s, dst', start') \<and>
      (if start' < length src then dst' @ drop start' src else dst') = flush src start (length pre) dst"
proof (induction cs arbitrary: pre dst start)
  case Nil
  then show ?case by (simp add: flush_def)
next
  case (Cons c cs)
  have st: "scan_step s c = Some (scanEnd, s)"
    using Cons.prems(1,2) by (simp add: scan_step_def stateEndTop_def isSpace_def) blast
  have e: "escape_sep src (length pre) c p = p" for p
    using escape_sep_none [OF assms, of pre c cs] Cons.prems(3) by simp
  have "scanSkipSpace \<le> scanEnd" by (simp add: less_eq_scan_op_def)
  have src: "src = (pre @ [c]) @ cs" using Cons.prems(3) by simp
  obtain d' b where "compact_loop False src (length (pre @ [c])) cs s
      (flush src start (length pre) dst, length (pre @ [c])) = Some (s, d', b)"
      "(if b < length src then d' @ drop b src else d') = flush src start (length pre) dst"
    using Cons.IH [OF Cons.prems(1) _ src, of "length (pre @ [c])" "flush src start (length pre) dst"]
      Cons.prems(2) by auto
  then show ?case using st \<open>scanSkipSpace \<le> scanEnd\<close> by (auto simp: e)
qed

lemma Compact_leads:
  assumes l: "leads StateBeginValue [] cs vs g []" and e: "ends_in v [] g" and r: "spaces r"
    and sep: "no_sep (cs @ r)"
  shows "Compact dst (cs @ r) = Some (None, dst @ kept cs vs)"
proof -
  let ?src = "cs @ r"
  obtain s b start where 1: "at g [] s" "start \<le> length cs"
      "flush ?src start (length cs) b = dst @ kept cs vs"
      "compact_loop False ?src 0 ?src fresh_scanner (dst, 0) = compact_loop False ?src (length cs) r s (b, start)"
    using compact_leads [OF sep l fresh_at, of "[]" r 0 dst] by auto
  show ?thesis
  proof (cases r)
    case Nil
    obtain u where "scanner_eof s = Some (scanEnd, u)" using top_eof [OF e 1(1)] by auto
    then show ?thesis using 1 Nil by (auto simp: Compact_def compact_def flush_def)
  next
    case (Cons c ds)
    have c: "isSpace c" using r Cons by simp
    have "follows v (c # ds)" using isSpace_not [OF c] by (simp add: follows_def)
    then obtain s' where s': "scan_step s c = Some (scanEnd, s')" "sc_endTop s'" "sc_step s' = StateEndTop" "sc_err s' = None"
      using top_step [OF e 1(1), of c ds] c by auto
    have none: "escape_sep (cs @ c # ds) (length cs) c p = p" for p
      using escape_sep_none [OF sep, of cs c ds] Cons by simp
    have ge: "scanSkipSpace \<le> scanEnd" by (simp add: less_eq_scan_op_def)
    obtain d' st' where d': "compact_loop False ?src (length (cs @ [c])) ds s' (dst @ kept cs vs, length (cs @ [c])) =
        Some (s', d', st')" "(if st' < length ?src then d' @ drop st' ?src else d') = dst @ kept cs vs"
      using compact_top_spaces [OF sep s'(3), of ds "cs @ [c]" "length (cs @ [c])" "dst @ kept cs vs"]
        r Cons by auto
    have "compact_loop False ?src (length cs) r s (b, start) = Some (s', d', st')"
      using d'(1) s'(1) 1(3) by (simp add: Cons none ge)
    then show ?thesis using 1(4) d'(2) s'(2,4) by (simp add: Compact_def compact_def scanner_eof_def)
  qed
qed

lemma compact_layout:
  assumes "gap w" "layout v t os" "spaces r" "no_sep (w @ t @ r)"
  shows "Compact dst (w @ t @ r) = Some (None, dst @ render v)"
proof -
  obtain f where f: "leads StateBeginValue [] w (skips w) f []" "begins f"
    using leads_gap_value [OF assms(1), of StateBeginValue "[]"] by (auto simp: begins_def)
  obtain g where g: "leads f [] t os g []" "ends_in v [] g"
    using leads_layout [OF assms(2) f(2)] by blast
  show ?thesis
    using Compact_leads [OF leads_append [OF f(1) g(1)] g(2) assms(3)] assms(4) kept_layout(1) [OF assms(2)]
    by (simp add: kept_append)
qed



text \<open>compacting can turn a valid text into an invalid one: from an array with a comment behind the
  last comma, which validation accepts, the comma is left in front of the bracket.\<close>

theorem Compact_loses_validity:
  assumes "elements vs t os" "CHR 0x0A \<notin> set u" "no_sep (''['' @ t @ '','' @ comment u @ '']'')"
  shows "\<exists>s1 buf e s2. checkValid (''['' @ t @ '','' @ comment u @ '']'') scan = Some (None, s1) \<and>
    Compact [] (''['' @ t @ '','' @ comment u @ '']'') = Some (None, buf) \<and>
    buf = ''['' @ commas (map render vs) @ '',]'' \<and> checkValid buf scan = Some (Some e, s2)"
proof -
  have ok: "v \<in> set vs \<Longrightarrow> json_ok v" for v using layout_ok(2) [OF assms(1)] by blast
  have "leads StateBeginValue [] ((''['' @ t @ '','') @ comment u @ '']'')
      ((scanBeginArray # os @ [scanArrayValue]) @ skips (comment u) @ [scanEndArray]) StateEndTop []"
    using leads_dangling [OF assms(1,2)] .
  from Compact_leads [OF this, of "JArr []" "[]" "[]"] assms(3)
  have c: "Compact [] (''['' @ t @ '','' @ comment u @ '']'') = Some (None, ''['' @ commas (map render vs) @ '',]'')"
    using kept_layout(2) [OF assms(1)] layout_length(2) [OF assms(1)]
    by (simp add: ends_in_def closed_fn_def kept_append)
  obtain qs where qs: "elements vs (commas (map render vs)) qs"
    using elements_commas [of vs] layout_render ok kept_layout(2) [OF assms(1)] by blast
  show ?thesis
    using c dangling_valid [OF assms(1,2), of scan] dangling_invalid [OF qs, of scan] by auto
qed

theorem Compact_loses_validity_witness:
  "\<exists>buf. Compact [] (''[null,'' @ comment ''x'' @ '']'') = Some (None, buf) \<and> buf = ''[null,]''"
proof -
  have e: "elements [JNull] ([] @ ''null'' @ []) (skips [] @ lit_ops ''null'' @ skips [])"
    by (intro el_last lay_null gap.intros)
  have "no_sep (''['' @ ([] @ ''null'' @ []) @ '','' @ comment ''x'' @ '']'')"
    by (simp add: no_sep_def comment_def line_sep_def All_less_Suc)
  from Compact_loses_validity [OF e _ this, of sample_scanner] show ?thesis by auto
qed

section \<open>Indenting\<close>

fun joins :: "'a list \<Rightarrow> 'a list list \<Rightarrow> 'a list" where
  "joins sep [] = []"
| "joins sep [xs] = xs"
| "joins sep (xs # ys # zs) = xs @ sep @ joins sep (ys # zs)"

text \<open>The indented text of a value at a depth: the specification of \<open>Indent\<close>.\<close>

abbreviation line :: "string \<Rightarrow> string \<Rightarrow> int \<Rightarrow> string" where
  "line pre ind d \<equiv> newline [] pre ind d"

fun pretty :: "string \<Rightarrow> string \<Rightarrow> int \<Rightarrow> json \<Rightarrow> string" where
  "pretty pre ind d (JArr vs) =
     (if vs = [] then ''[]''
      else ''['' @ line pre ind (d + 1) @ joins ('','' @ line pre ind (d + 1)) (map (pretty pre ind (d + 1)) vs) @
        line pre ind d @ '']'')"
| "pretty pre ind d (JObj kvs) =
     (if kvs = [] then ''{}''
      else ''{'' @ line pre ind (d + 1) @
        joins ('','' @ line pre ind (d + 1))
          (map (\<lambda>p. render_string (fst p) @ '': '' @ pretty pre ind (d + 1) (snd p)) kvs) @
        line pre ind d @ ''}'')"
| "pretty pre ind d v = render v"

text \<open>The effect of a text whose opcodes are known.\<close>

definition indent_text ::
    "string \<Rightarrow> string \<Rightarrow> string \<Rightarrow> scan_op list \<Rightarrow> bool \<times> int \<times> string \<Rightarrow> bool \<times> int \<times> string" where
  "indent_text pre ind cs vs q =
     fold (\<lambda>p q. if snd p = scanSkipSpace then q else Indent_byte pre ind (fst p) (snd p) q) (zip cs vs) q"

lemma indent_text_simps [simp]:
  "indent_text pre ind [] vs q = q" "indent_text pre ind cs [] q = q"
  "indent_text pre ind (c # cs) (v # vs) q =
     indent_text pre ind cs vs (if v = scanSkipSpace then q else Indent_byte pre ind c v q)"
  by (simp_all add: indent_text_def)

lemma indent_text_append:
  "length vs = length cs \<Longrightarrow>
   indent_text pre ind (cs @ ds) (vs @ ws) q = indent_text pre ind ds ws (indent_text pre ind cs vs q)"
  by (simp add: indent_text_def zip_append)

lemma indent_text_skips [simp]: "indent_text pre ind w (skips w) q = q"
  by (induction w) simp_all

lemma Indent_leads:
  "leads f ps cs vs g qs \<Longrightarrow> at f ps s \<Longrightarrow>
   \<exists>s'. at g qs s' \<and> Indent_loop pre ind (cs @ ys) s q = Indent_loop pre ind ys s' (indent_text pre ind cs vs q)"
proof (induction cs arbitrary: f ps vs s q)
  case (Cons c cs)
  obtain v ws h rs where v: "vs = v # ws" "moves f ps c v h rs" "leads h rs cs ws g qs"
    using Cons.prems(1) by (auto simp: leads.simps(2))
  obtain s1 where "scan_step (s\<lparr>sc_bytes := i64 (sc_bytes s + 1)\<rparr>) c = Some (v, s1)" "at h rs s1"
      "v \<noteq> scanEnd" "v \<noteq> scanError"
    using moves_step [OF v(2), of "s\<lparr>sc_bytes := i64 (sc_bytes s + 1)\<rparr>"] Cons.prems(2) by auto
  then show ?case using Cons.IH [OF v(3)] v(1) by (auto simp del: split_paired_Ex)
qed auto

text \<open>The pending newline after an opening bracket.\<close>

definition open_line :: "string \<Rightarrow> string \<Rightarrow> bool \<times> int \<times> string \<Rightarrow> int \<times> string" where
  "open_line pre ind = (\<lambda>(need, d, b). if need then (d + 1, b @ line pre ind (d + 1)) else (d, b))"

lemma indent_conts: "indent_text pre ind t (conts t) (False, d, b) = (False, d, b @ t)"
  by (induction t arbitrary: b) (simp_all add: Indent_byte_def)

lemma indent_lit:
  assumes "c \<notin> set ''{[,:}]''" "0 \<le> d" "d < max_int64"
  shows "indent_text pre ind (c # t) (lit_ops (c # t)) (need, d, b) =
    (let (d', b') = open_line pre ind (need, d, b) in (False, d', b' @ c # t))"
  using assms
  by (simp add: lit_ops_def Indent_byte_def open_line_def indent_conts newline_def Let_def max_int64_def)

lemma lit_first:
  "\<exists>c u. render_string s = c # u \<and> c \<notin> set ''{[,:}]''"
  "\<exists>c u. render_number n = c # u \<and> c \<notin> set ''{[,:}]''"
proof -
  show "\<exists>c u. render_string s = c # u \<and> c \<notin> set ''{[,:}]''" by (simp add: render_string_def)
  have d: "is_digit c \<Longrightarrow> c \<notin> set ''{[,:}]''" for c by (auto simp: is_digit_iff)
  show "\<exists>c u. render_number n = c # u \<and> c \<notin> set ''{[,:}]''"
  proof (cases "n_neg n")
    case False
    show ?thesis by (rule dec_nat_cases [of "n_int n"]) (use d False in \<open>auto simp: render_number_def\<close>)
  qed (simp add: render_number_def)
qed

lemma indent_literal:
  assumes "t \<in> range render_string \<union> range render_number \<union> {''true'', ''false'', ''null''}"
    and "0 \<le> d" "d < max_int64"
  shows "indent_text pre ind t (lit_ops t) (need, d, b) =
    (let (d', b') = open_line pre ind (need, d, b) in (False, d', b' @ t))"
proof -
  obtain c u where "t = c # u" "c \<notin> set ''{[,:}]''" using assms(1) lit_first by (auto simp: image_iff) blast+
  then show ?thesis using indent_lit [OF _ assms(2,3)] by simp
qed

text \<open>The bytes that are no part of a literal.\<close>

lemma indent_open:
  assumes "c = CHR ''['' \<and> v = scanBeginArray \<or> c = CHR ''{'' \<and> v = scanBeginObject" "0 \<le> d" "d < max_int64"
  shows "Indent_byte pre ind c v (need, d, b) =
    (let (d', b') = open_line pre ind (need, d, b) in (True, d', b' @ [c]))"
  using assms by (auto simp: Indent_byte_def open_line_def newline_def max_int64_def Let_def)

lemma indent_close:
  assumes "c = CHR '']'' \<and> v = scanEndArray \<or> c = CHR ''}'' \<and> v = scanEndObject"
  shows "Indent_byte pre ind c v (True, d, b) = (False, d, b @ [c])"
    and "0 < d \<Longrightarrow> d < max_int64 \<Longrightarrow>
      Indent_byte pre ind c v (False, d, b) = (False, d - 1, b @ line pre ind (d - 1) @ [c])"
  using assms by (auto simp: Indent_byte_def newline_def Let_def max_int64_def)

lemma indent_punct:
  "Indent_byte pre ind (CHR '','') scanArrayValue (False, d, b) = (False, d, b @ '','' @ line pre ind d)"
  "Indent_byte pre ind (CHR '','') scanObjectValue (False, d, b) = (False, d, b @ '','' @ line pre ind d)"
  "Indent_byte pre ind (CHR '':'') scanObjectKey (False, d, b) = (False, d, b @ '': '')"
  by (simp_all add: Indent_byte_def newline_def Let_def)

lemma open_line_False [simp]: "open_line pre ind (False, d, b) = (d, b)"
  and open_line_True [simp]: "open_line pre ind (True, d, b) = (d + 1, b @ line pre ind (d + 1))"
  by (simp_all add: open_line_def)

abbreviation pretty_member :: "string \<Rightarrow> string \<Rightarrow> int \<Rightarrow> string \<times> json \<Rightarrow> string" where
  "pretty_member pre ind d p \<equiv> render_string (fst p) @ '': '' @ pretty pre ind d (snd p)"

lemma no_elements [simp]: "\<not> elements [] t os" "\<not> members [] t os"
  using kept_layout by blast+

lemma indent_layout:
  "layout v t os \<Longrightarrow> 0 \<le> d \<Longrightarrow> d + int (length t) < max_int64 \<Longrightarrow>
     indent_text pre ind t os (need, d, b) =
       (let (d', b') = open_line pre ind (need, d, b) in (False, d', b' @ pretty pre ind d' v))"
  "elements vs t os \<Longrightarrow> 0 \<le> d \<Longrightarrow> d + int (length t) < max_int64 \<Longrightarrow>
     indent_text pre ind t os (need, d, b) =
       (let (d', b') = open_line pre ind (need, d, b)
        in (False, d', b' @ joins ('','' @ line pre ind d') (map (pretty pre ind d') vs))) \<and> vs \<noteq> []"
  "members kvs t os \<Longrightarrow> 0 \<le> d \<Longrightarrow> d + int (length t) < max_int64 \<Longrightarrow>
     indent_text pre ind t os (need, d, b) =
       (let (d', b') = open_line pre ind (need, d, b)
        in (False, d', b' @ joins ('','' @ line pre ind d') (map (pretty_member pre ind d') kvs))) \<and> kvs \<noteq> []"
proof (induction arbitrary: need d b and need d b and need d b rule: layout_elements_members.inducts)
  case (lay_empty_array w)
  then show ?case
    by (cases need) (simp_all add: indent_text_append indent_open indent_close)
next
  case (lay_array vs t os)
  then show ?case
    by (cases need) (simp_all add: indent_text_append layout_length indent_open indent_close add.commute [of 1])
next
  case (lay_empty_object w)
  then show ?case
    by (cases need) (simp_all add: indent_text_append indent_open indent_close)
next
  case (lay_object kvs t os)
  then show ?case
    by (cases need) (simp_all add: indent_text_append layout_length indent_open indent_close add.commute [of 1])
next
  case (el_last w1 v t os w2)
  then show ?case by (cases need) (simp_all add: indent_text_append layout_length)
next
  case (el_more w1 v t os w2 vs u qs)
  then show ?case by (cases need; cases vs) (simp_all add: indent_text_append layout_length indent_punct)
next
  case (mem_last w1 w2 w3 v t os w4 k)
  then show ?case
    by (cases need) (simp_all add: indent_text_append layout_length length_lit indent_literal indent_punct)
next
  case (mem_more w1 w2 w3 v t os w4 kvs u qs k)
  then show ?case
    by (cases need; cases kvs)
      (simp_all add: indent_text_append layout_length length_lit indent_literal indent_punct)
qed (simp_all add: indent_literal)

lemma indent_end: "isSpace c \<Longrightarrow> Indent_byte pre ind c scanEnd (False, d, b) = (False, d, b @ [c])"
  by (auto simp: Indent_byte_def isSpace_def)

lemma Indent_top_spaces:
  "sc_step s = StateEndTop \<Longrightarrow> spaces cs \<Longrightarrow>
   \<exists>s'. Indent_loop pre ind cs s (False, d, b) = Some (s', False, d, b @ cs) \<and>
     sc_step s' = StateEndTop \<and> sc_err s' = sc_err s \<and> sc_endTop s' = sc_endTop s"
proof (induction cs arbitrary: s b)
  case (Cons c cs)
  let ?s = "s\<lparr>sc_bytes := i64 (sc_bytes s + 1)\<rparr>"
  have "scan_step ?s c = Some (scanEnd, ?s)"
    using Cons.prems by (simp add: scan_step_def stateEndTop_def isSpace_def) blast
  then show ?case using Cons.IH [of ?s "b @ [c]"] Cons.prems by (auto simp: indent_end)
qed simp

lemma Indent_trailing:
  assumes "ends_in v [] g" "at g [] s" "spaces r"
  shows "\<exists>s' s''. Indent_loop pre ind r s (False, d, b) = Some (s', False, d, b @ r) \<and>
    scanner_eof s' = Some (scanEnd, s'')"
proof (cases r)
  case Nil
  then show ?thesis using top_eof [OF assms(1,2)] by auto
next
  case (Cons c cs)
  have c: "isSpace c" using assms(3) Cons by simp
  have "follows v (c # cs)" using isSpace_not [OF c] by (simp add: follows_def)
  moreover have "at g [] (s\<lparr>sc_bytes := i64 (sc_bytes s + 1)\<rparr>)" using assms(2) by simp
  ultimately obtain t where t: "scan_step (s\<lparr>sc_bytes := i64 (sc_bytes s + 1)\<rparr>) c = Some (scanEnd, t)"
      "sc_endTop t" "sc_step t = StateEndTop" "sc_err t = None"
    using top_step [OF assms(1), of "s\<lparr>sc_bytes := i64 (sc_bytes s + 1)\<rparr>" c cs] c by auto
  obtain u where "Indent_loop pre ind cs t (False, d, b @ [c]) = Some (u, False, d, (b @ [c]) @ cs)"
      "sc_step u = StateEndTop" "sc_err u = None" "sc_endTop u"
    using Indent_top_spaces [OF t(3), of cs pre ind d "b @ [c]"] t assms(3) Cons by auto
  then show ?thesis using t(1) Cons by (auto simp: indent_end [OF c] scanner_eof_def)
qed

text \<open>C21: indenting any text of a value gives the value laid out with one element or member on a line,
  indented by its depth, empty arrays and objects on one line, whatever white space and comments the
  text had; but white space behind the value is copied, a trailing newline included.\<close>

theorem Indent_canonical:
  assumes "gap w" "layout v t os" "spaces r" "int (length (w @ t @ r)) < max_int64"
  shows "Indent dst (w @ t @ r) pre ind = Some (None, dst @ pretty pre ind 0 v @ r)"
proof -
  obtain f where f: "leads StateBeginValue [] w (skips w) f []" "begins f"
    using leads_gap_value [OF assms(1), of StateBeginValue "[]"] by (auto simp: begins_def)
  obtain g where g: "leads f [] t os g []" "ends_in v [] g"
    using leads_layout [OF assms(2) f(2)] by blast
  have q: "indent_text pre ind (w @ t) (skips w @ os) (False, 0, dst) = (False, 0, dst @ pretty pre ind 0 v)"
    using indent_layout(1) [OF assms(2), of 0 pre ind False dst] assms(4) by (simp add: indent_text_append)
  obtain s where s: "at g [] s" "Indent_loop pre ind (w @ t @ r) fresh_scanner (False, 0, dst) =
      Indent_loop pre ind r s (False, 0, dst @ pretty pre ind 0 v)"
    using Indent_leads [OF leads_append [OF f(1) g(1)] fresh_at, of pre ind r "(False, 0, dst)"] q
    by auto
  obtain s' v' s'' where "Indent_loop pre ind r s (False, 0, dst @ pretty pre ind 0 v) =
      Some (s', False, 0, dst @ pretty pre ind 0 v @ r)" "scanner_eof s' = Some (scanEnd, s'')"
    using Indent_trailing [OF g(2) s(1) assms(3), of pre ind 0 "dst @ pretty pre ind 0 v"] by auto
  then show ?thesis using s(2) by (simp add: Indent_def)
qed

theorem Indent_canonical_witness:
  "Indent [] ('' '' @ sample_text @ '' '') [] ''  '' =
     Some (None, ''['' @ [CHR 0x0A] @ ''  true,'' @ [CHR 0x0A] @ ''  {}'' @ [CHR 0x0A] @ ''] '')"
proof -
  obtain os where os: "layout sample_value sample_text os" using sample_layout by blast
  have s: "gap '' ''" "spaces '' ''" by (simp_all add: spaces_gap isSpace_def)
  have "int (length ('' '' @ sample_text @ '' '')) < max_int64"
    by (simp add: sample_text_def comment_def max_int64_def)
  from Indent_canonical [OF s(1) os s(2) this, of "[]" "[]" "''  ''"] show ?thesis
    by (simp add: sample_value_def newline_def)
qed

section \<open>Escaping for HTML\<close>

text \<open>The specification of \<open>HTMLEscape\<close>, without the indices.\<close>

fun html_text :: "string \<Rightarrow> string" where
  "html_text [] = []"
| "html_text (c # cs) =
     (if html_char c then [CHR 0x5C] @ ''u00'' @ [hex ! (of_char c div 16), hex ! (of_char c mod 16)] @ html_text cs
      else (case cs of
        x # y # ds \<Rightarrow>
          (if c = CHR 0xE2 \<and> x = CHR 0x80 \<and> (y = CHR 0xA8 \<or> y = CHR 0xA9)
           then [CHR 0x5C] @ ''u202'' @ [hex ! (of_char y mod 16)] @ html_text ds else c # html_text cs)
      | _ \<Rightarrow> c # html_text cs))"

lemma sep_byte: "(of_char y - of_char y mod 2 :: nat) = 0xA8 \<longleftrightarrow> y = CHR 0xA8 \<or> y = CHR 0xA9"
proof -
  have "y = CHR 0xA8 \<or> y = CHR 0xA9 \<longleftrightarrow>
      of_char y = (of_char (CHR 0xA8) :: nat) \<or> of_char y = (of_char (CHR 0xA9) :: nat)"
    by (simp only: of_char_eq_iff)
  also have "\<dots> \<longleftrightarrow> of_char y = (168 :: nat) \<or> of_char y = (169 :: nat)" by simp
  also have "\<dots> \<longleftrightarrow> (of_char y - of_char y mod 2 :: nat) = 0xA8" by presburger
  finally show ?thesis by simp
qed

lemma line_sep_split:
  "line_sep (p @ c # cs) (length p) c \<longleftrightarrow>
     c = CHR 0xE2 \<and> (\<exists>y ds. cs = CHR 0x80 # y # ds \<and> (y = CHR 0xA8 \<or> y = CHR 0xA9))"
proof (cases cs)
  case (Cons x xs)
  then show ?thesis by (cases xs) (simp_all only: line_sep_def sep_byte, simp_all add: nth_append)
qed (simp add: line_sep_def)

definition html_end :: "string \<Rightarrow> string \<times> nat \<Rightarrow> string" where
  "html_end src = (\<lambda>(dst, start). if start < length src then dst @ drop start src else dst)"

lemma html_text_plain:
  "\<not> html_char c \<Longrightarrow> \<not> line_sep (p @ c # cs) (length p) c \<Longrightarrow> html_text (c # cs) = c # html_text cs"
  unfolding line_sep_split by (cases cs; cases "tl cs") auto

lemma html_loop_text:
  "start \<le> length p \<Longrightarrow>
   html_end (p @ cs) (html_loop (p @ cs) (length p) cs (dst, start)) = flush (p @ cs) start (length p) dst @ html_text cs"
proof (induction cs arbitrary: p dst start rule: length_induct)
  case (1 us)
  show ?case
  proof (cases us)
    case Nil
    then show ?thesis using 1(2) by (simp add: html_end_def flush_def)
  next
    case (Cons c cs)
    let ?src = "p @ c # cs"
    have IH: "html_end ?src (html_loop ?src (length q) ds (d, b)) = flush ?src b (length q) d @ html_text ds"
      if "?src = q @ ds" "length ds \<le> length cs" "b \<le> length q" for q ds d b
      using 1(1) [rule_format, of ds b q d] that Cons by simp
    consider (html) "html_char c" | (sep) "line_sep ?src (length p) c" "\<not> html_char c"
      | (plain) "\<not> html_char c" "\<not> line_sep ?src (length p) c" by blast
    then show ?thesis
    proof cases
      case html
      then have "\<not> line_sep ?src (length p) c" by (auto simp: line_sep_def html_char_def)
      then show ?thesis
        using IH [of "p @ [c]" cs "length (p @ [c])"] html Cons
        by (simp add: escape_html_def escape_sep_def)
    next
      case sep
      then obtain y ds where cs: "c = CHR 0xE2" "cs = CHR 0x80 # y # ds" "y = CHR 0xA8 \<or> y = CHR 0xA9"
        by (auto simp: line_sep_split)
      have y: "(?src ! (length p + 2)) = y" using cs(2) by (simp add: nth_append)
      have skip: "escape_sep ?src k x (escape_html ?src k x q) = q" if "x = CHR 0x80 \<or> x = y" for k x q
        using that cs(3) by (cases q) (auto simp: escape_sep_def escape_html_def html_char_def line_sep_def)
      let ?d = "flush ?src start (length p) dst @ [CHR 0x5C] @ ''u202'' @ [hex ! (of_char y mod 16)]"
      have e: "escape_sep ?src (length p) c (escape_html ?src (length p) c (dst, start)) = (?d, length p + 3)"
        using sep y by (simp add: escape_sep_def escape_html_def)
      have "html_loop ?src k (CHR 0x80 # y # ds) q = html_loop ?src (Suc (Suc k)) ds q" for k q
        by (simp only: html_loop.simps skip simp_thms)
      note two = this [folded cs(2)]
      have three: "Suc (Suc (Suc (length p))) = length p + 3" by simp
      have "html_loop ?src (length p) us (dst, start) = html_loop ?src (length p + 3) ds (?d, length p + 3)"
        by (simp only: Cons html_loop.simps e two three)
      moreover have "html_end ?src (html_loop ?src (length (p @ [c, CHR 0x80, y])) ds (?d, length (p @ [c, CHR 0x80, y]))) =
          ?d @ html_text ds"
        using IH [of "p @ [c, CHR 0x80, y]" ds] cs(2) by simp
      moreover have "html_text us = [CHR 0x5C] @ ''u202'' @ [hex ! (of_char y mod 16)] @ html_text ds"
        using cs sep(2) Cons by auto
      ultimately show ?thesis using Cons by (simp add: three del: html_text.simps)
    next
      case plain
      have "flush ?src start (length (p @ [c])) dst = flush ?src start (length p) dst @ [c]"
        using flush_step [OF 1(2), of ?src c cs] by simp
      then show ?thesis
        using IH [of "p @ [c]" cs start] plain 1(2) Cons html_text_plain [OF plain]
        by (simp add: escape_html_def escape_sep_def del: html_text.simps)
    qed
  qed
qed

lemma hex_safe: "n < 16 \<Longrightarrow> \<not> html_char (hex ! n)"
proof -
  assume "n < 16"
  then have "hex ! n \<in> set hex" by (intro nth_mem) (simp add: hex_def)
  then show ?thesis by (auto simp: hex_def html_char_def)
qed

lemma html_text_cases:
  assumes "\<not> html_char b"
  shows "html_text (b # bs) = b # html_text bs \<or>
    (\<exists>x y ds. bs = x # y # ds \<and>
      html_text (b # bs) = [CHR 0x5C] @ ''u202'' @ [hex ! (of_char y mod 16)] @ html_text ds)"
  using assms by (cases bs; cases "tl bs") auto

lemma html_text_safe: "c \<in> set (html_text s) \<Longrightarrow> \<not> html_char c"
proof (induction s arbitrary: c rule: length_induct)
  case (1 s)
  have safe: "\<not> html_char (CHR 0x5C)" "\<forall>c \<in> set ''u0022''. \<not> html_char c" by (simp_all add: html_char_def)
  show ?case
  proof (cases s)
    case Nil
    then show ?thesis using 1(2) by simp
  next
    case (Cons b bs)
    have IH: "\<not> html_char d" if "length ds \<le> length bs" "d \<in> set (html_text ds)" for ds d
      using 1(1) [rule_format, of ds d] that Cons by simp
    have "of_char b div 16 < (16 :: nat)" using nat_of_char_less_256 [of b] by linarith
    then have h: "\<not> html_char (hex ! (of_char b div 16))" "\<not> html_char (hex ! (of_char y mod 16))" for y
      by (simp_all add: hex_safe)
    show ?thesis
    proof (cases "html_char b")
      case True
      then have "html_text s = [CHR 0x5C] @ ''u00'' @ [hex ! (of_char b div 16), hex ! (of_char b mod 16)] @ html_text bs"
        using Cons by simp
      then show ?thesis using 1(2) h safe IH [of bs] by auto
    next
      case False
      from html_text_cases [OF this, of bs] show ?thesis
      proof
        assume "html_text (b # bs) = b # html_text bs"
        then show ?thesis using 1(2) False IH [of bs] Cons by auto
      next
        assume "\<exists>x y ds. bs = x # y # ds \<and>
          html_text (b # bs) = [CHR 0x5C] @ ''u202'' @ [hex ! (of_char y mod 16)] @ html_text ds"
        then obtain x y ds where "bs = x # y # ds"
            "html_text s = [CHR 0x5C] @ ''u202'' @ [hex ! (of_char y mod 16)] @ html_text ds"
          using Cons by auto
        then show ?thesis using 1(2) h(2) safe IH [of ds] by auto
      qed
    qed
  qed
qed

text \<open>escaping for HTML replaces the three special characters and the two separators by their
  escapes and nothing else, so that what is appended holds none of the three characters.\<close>

theorem HTMLEscape_safe:
  "HTMLEscape dst src = dst @ html_text src \<and> (\<forall>c \<in> set (html_text src). \<not> html_char c)"
proof
  have "HTMLEscape dst src = html_end src (html_loop src 0 src (dst, 0))"
    by (simp add: HTMLEscape_def html_end_def Let_def)
  also have "\<dots> = dst @ html_text src" using html_loop_text [of 0 "[]" src dst] by (simp add: flush_def)
  finally show "HTMLEscape dst src = dst @ html_text src" .
qed (use html_text_safe in blast)

theorem HTMLEscape_safe_witness: "HTMLEscape ''x'' ''<'' = ''x'' @ [CHR 0x5C] @ ''u003c''"
  using HTMLEscape_safe [of "''x''" "''<''"] by (simp add: html_char_def hex_def)

end
