(* ===== verification/Go_Utf8.thy ===== *)
theory Go_Utf8
  imports Go_Prelude
begin

text \<open>
  What the JSON package uses of the standard library's \<open>unicode/utf8\<close> and \<open>unicode/utf16\<close>: decoding the
  first rune of a byte sequence, encoding a rune, and surrogate pairs. A rune is a natural number.
\<close>

definition RuneSelf :: nat where "RuneSelf = 0x80"
definition RuneError :: nat where "RuneError = 0xFFFD"
definition UTFMax :: nat where "UTFMax = 4"

abbreviation byte :: "char \<Rightarrow> nat" where
  "byte c \<equiv> of_char c"

definition cont_byte :: "nat \<Rightarrow> bool" where
  "cont_byte b \<longleftrightarrow> 0x80 \<le> b \<and> b \<le> 0xBF"

text \<open>The ranges a second byte may have behind a first one.\<close>

definition accept2 :: "nat \<Rightarrow> nat \<Rightarrow> bool" where
  "accept2 b0 b1 \<longleftrightarrow>
     (if b0 = 0xE0 then 0xA0 \<le> b1 \<and> b1 \<le> 0xBF
      else if b0 = 0xED then 0x80 \<le> b1 \<and> b1 \<le> 0x9F
      else if b0 = 0xF0 then 0x90 \<le> b1 \<and> b1 \<le> 0xBF
      else if b0 = 0xF4 then 0x80 \<le> b1 \<and> b1 \<le> 0x8F
      else cont_byte b1)"

text \<open>The rune and the number of bytes it takes; an invalid sequence is \<^const>\<open>RuneError\<close> of one byte, no
  bytes are \<^const>\<open>RuneError\<close> of none.\<close>

fun DecodeRune :: "string \<Rightarrow> nat \<times> nat" where
  "DecodeRune [] = (RuneError, 0)"
| "DecodeRune (c0 # cs) =
     (let b0 = byte c0 in
      if b0 < 0x80 then (b0, 1)
      else if b0 < 0xC2 \<or> 0xF4 < b0 then (RuneError, 1)
      else (case cs of [] \<Rightarrow> (RuneError, 1) | c1 # ds \<Rightarrow>
        let b1 = byte c1 in
        if \<not> accept2 b0 b1 then (RuneError, 1)
        else if b0 < 0xE0 then ((b0 - 0xC0) * 64 + (b1 - 0x80), 2)
        else (case ds of [] \<Rightarrow> (RuneError, 1) | c2 # es \<Rightarrow>
          let b2 = byte c2 in
          if \<not> cont_byte b2 then (RuneError, 1)
          else if b0 < 0xF0 then ((b0 - 0xE0) * 4096 + (b1 - 0x80) * 64 + (b2 - 0x80), 3)
          else (case es of [] \<Rightarrow> (RuneError, 1) | c3 # _ \<Rightarrow>
            let b3 = byte c3 in
            if \<not> cont_byte b3 then (RuneError, 1)
            else ((b0 - 0xF0) * 262144 + (b1 - 0x80) * 4096 + (b2 - 0x80) * 64 + (b3 - 0x80), 4)))))"

definition surrogate :: "nat \<Rightarrow> bool" where
  "surrogate r \<longleftrightarrow> 0xD800 \<le> r \<and> r \<le> 0xDFFF"

definition valid_rune :: "nat \<Rightarrow> bool" where
  "valid_rune r \<longleftrightarrow> r \<le> 0x10FFFF \<and> \<not> surrogate r"

definition encode_valid :: "nat \<Rightarrow> string" where
  "encode_valid r =
     (if r < 0x80 then [char_of r]
      else if r < 0x800 then [char_of (0xC0 + r div 64), char_of (0x80 + r mod 64)]
      else if r < 0x10000
      then [char_of (0xE0 + r div 4096), char_of (0x80 + r div 64 mod 64), char_of (0x80 + r mod 64)]
      else [char_of (0xF0 + r div 262144), char_of (0x80 + r div 4096 mod 64), char_of (0x80 + r div 64 mod 64),
            char_of (0x80 + r mod 64)])"

definition EncodeRune :: "nat \<Rightarrow> string" where
  "EncodeRune r = encode_valid (if valid_rune r then r else RuneError)"

text \<open>\<open>utf16.DecodeRune\<close>.\<close>

definition pair_rune :: "nat \<Rightarrow> nat \<Rightarrow> nat" where
  "pair_rune r1 r2 =
     (if 0xD800 \<le> r1 \<and> r1 < 0xDC00 \<and> 0xDC00 \<le> r2 \<and> r2 < 0xE000
      then (r1 - 0xD800) * 1024 + (r2 - 0xDC00) + 0x10000 else RuneError)"

lemma DecodeRune_size: "s \<noteq> [] \<Longrightarrow> 1 \<le> snd (DecodeRune s) \<and> snd (DecodeRune s) \<le> length s"
  by (cases s rule: DecodeRune.cases) (auto simp: Let_def split: list.splits)

lemma DecodeRune_ascii [simp]: "byte c < 0x80 \<Longrightarrow> DecodeRune (c # cs) = (byte c, 1)"
  by simp

lemma DecodeRune_high: "\<not> byte c < 0x80 \<Longrightarrow> fst (DecodeRune (c # cs)) \<ge> 0x80"
  by (auto simp: Let_def RuneError_def accept2_def cont_byte_def split: list.splits)

text \<open>A decoded sequence is the encoding of its rune, unless it was invalid.\<close>

lemma enc2:
  assumes "2 \<le> a" "a < 32" "b < 64"
  shows "encode_valid (a * 64 + b) = [char_of (0xC0 + a), char_of (0x80 + b)]"
proof -
  have "(a * 64 + b) div 64 = a" "(a * 64 + b) mod 64 = b" "\<not> a * 64 + b < 0x80" "a * 64 + b < 0x800"
    using assms by simp_all
  then show ?thesis by (simp add: encode_valid_def)
qed

lemma mod64: "c < 64 \<Longrightarrow> (x * 64 + c) mod 64 = (c :: nat)"
  by simp

lemma enc3:
  assumes "a < 16" "b < 64" "c < 64" "0x800 \<le> a * 4096 + b * 64 + c"
  shows "encode_valid (a * 4096 + b * 64 + c) = [char_of (0xE0 + a), char_of (0x80 + b), char_of (0x80 + c)]"
proof -
  let ?r = "a * 4096 + b * 64 + c"
  have d: "?r div 64 = a * 64 + b" using assms(3) by simp
  then have "?r div 64 div 64 = a" using assms(2) by simp
  then have "?r div 4096 = a" by (simp add: div_mult2_eq [symmetric])
  moreover have "?r div 64 mod 64 = b" unfolding d using assms(2) by simp
  moreover have "?r mod 64 = c" using mod64 [OF assms(3), of "a * 64 + b"] by (simp add: algebra_simps)
  moreover have "\<not> ?r < 0x800" "?r < 0x10000" using assms by simp_all
  ultimately show ?thesis unfolding encode_valid_def by simp
qed

lemma enc4:
  assumes "a < 5" "b < 64" "c < 64" "d < 64" "0x10000 \<le> a * 262144 + b * 4096 + c * 64 + d"
  shows "encode_valid (a * 262144 + b * 4096 + c * 64 + d) =
    [char_of (0xF0 + a), char_of (0x80 + b), char_of (0x80 + c), char_of (0x80 + d)]"
proof -
  let ?r = "a * 262144 + b * 4096 + c * 64 + d"
  have 1: "?r div 64 = a * 4096 + b * 64 + c" using assms(4) by simp
  then have "?r div 64 div 64 = (a * 64 + b) * 64 div 64" using assms(3) by simp
  then have 2: "?r div 4096 = a * 64 + b" by (simp add: div_mult2_eq [symmetric])
  then have "?r div 4096 div 64 = a" using assms(2) by simp
  then have "?r div 262144 = a" by (simp add: div_mult2_eq [symmetric])
  moreover have "?r div 4096 mod 64 = b" unfolding 2 using assms(2) by simp
  moreover have "?r div 64 mod 64 = c" unfolding 1 using mod64 [OF assms(3), of "a * 64 + b"] by (simp add: algebra_simps)
  moreover have "?r mod 64 = d" using mod64 [OF assms(4), of "a * 4096 + b * 64 + c"] by (simp add: algebra_simps)
  moreover have "\<not> ?r < 0x10000" using assms(5) by simp
  ultimately show ?thesis unfolding encode_valid_def by simp
qed

text \<open>The four forms a decoding can have.\<close>

lemma DecodeRune_cases:
  assumes "s \<noteq> []"
  obtains (ascii) c cs where "s = c # cs" "byte c < 0x80" "DecodeRune s = (byte c, 1)"
  | (bad) "DecodeRune s = (RuneError, 1)" "0x80 \<le> byte (hd s)"
  | (two) c0 c1 ds a b where "s = c0 # c1 # ds" "byte c0 = 0xC0 + a" "byte c1 = 0x80 + b" "2 \<le> a" "a < 32" "b < 64"
      "accept2 (byte c0) (byte c1)" "DecodeRune s = (a * 64 + b, 2)"
  | (three) c0 c1 c2 es a b c where "s = c0 # c1 # c2 # es" "byte c0 = 0xE0 + a" "byte c1 = 0x80 + b"
      "byte c2 = 0x80 + c" "a < 16" "b < 64" "c < 64" "0x800 \<le> a * 4096 + b * 64 + c"
      "accept2 (byte c0) (byte c1)" "\<not> surrogate (a * 4096 + b * 64 + c)" "DecodeRune s = (a * 4096 + b * 64 + c, 3)"
  | (four) c0 c1 c2 c3 es a b c d where "s = c0 # c1 # c2 # c3 # es" "byte c0 = 0xF0 + a" "byte c1 = 0x80 + b"
      "byte c2 = 0x80 + c" "byte c3 = 0x80 + d" "a < 5" "b < 64" "c < 64" "d < 64"
      "0x10000 \<le> a * 262144 + b * 4096 + c * 64 + d" "a * 262144 + b * 4096 + c * 64 + d \<le> 0x10FFFF"
      "accept2 (byte c0) (byte c1)" "DecodeRune s = (a * 262144 + b * 4096 + c * 64 + d, 4)"
proof (cases "DecodeRune s = (RuneError, 1)")
  case True
  obtain c cs where s: "s = c # cs" using assms by (cases s) auto
  show ?thesis
  proof (cases "byte c < 0x80")
    case True
    then show ?thesis using ascii [of c cs] s by simp
  qed (use bad True s in simp)
next
  case False
  obtain c0 cs where s: "s = c0 # cs" using assms by (cases s) auto
  show ?thesis
  proof (cases "byte c0 < 0x80")
    case True
    then show ?thesis using ascii [of c0 cs] s by simp
  next
    case hi: False
    then have r0: "0xC2 \<le> byte c0" "byte c0 \<le> 0xF4" using False s by (auto simp: Let_def split: if_splits)
    then obtain c1 ds where c1: "cs = c1 # ds" using False s hi by (cases cs) (auto simp: Let_def)
    have a2: "accept2 (byte c0) (byte c1)" using False s hi r0 c1 by (auto simp: Let_def split: if_splits)
    then have r1: "0x80 \<le> byte c1" "byte c1 \<le> 0xBF" by (auto simp: accept2_def cont_byte_def split: if_splits)
    show ?thesis
    proof (cases "byte c0 < 0xE0")
      case True
      then show ?thesis
        using two [of c0 c1 ds "byte c0 - 0xC0" "byte c1 - 0x80"] s c1 hi r0 r1 a2 by (simp add: Let_def)
    next
      case three_up: False
      then obtain c2 es where c2: "ds = c2 # es" using False s hi r0 c1 a2 by (cases ds) (auto simp: Let_def)
      have r2: "cont_byte (byte c2)" using False s hi r0 c1 a2 three_up c2 by (auto simp: Let_def split: if_splits)
      show ?thesis
      proof (cases "byte c0 < 0xF0")
        case True
        define a where "a = byte c0 - 0xE0"
        define b where "b = byte c1 - 0x80"
        define c where "c = byte c2 - 0x80"
        have e: "byte c0 = 0xE0 + a" "byte c1 = 0x80 + b" "byte c2 = 0x80 + c" "a < 16" "b < 64" "c < 64"
          using r1 r2 True three_up unfolding a_def b_def c_def cont_byte_def by linarith+
        have "(a = 0 \<longrightarrow> 32 \<le> b) \<and> (a = 13 \<longrightarrow> b < 32)"
          using a2 unfolding e(1,2) by (auto simp: accept2_def split: if_splits)
        then have lo: "0x800 \<le> a * 4096 + b * 64 + c" and sur: "\<not> surrogate (a * 4096 + b * 64 + c)"
          using e(5,6) by (cases "a < 13"; cases "a = 13"; auto simp: surrogate_def)+
        have "DecodeRune s = (a * 4096 + b * 64 + c, 3)"
          using s c1 c2 hi r0 a2 three_up r2 True by (simp add: Let_def a_def b_def c_def)
        then show ?thesis using three [of c0 c1 c2 es a b c] s c1 c2 e lo sur a2 by simp
      next
        case four_up: False
        then obtain c3 fs where c3: "es = c3 # fs" using False s hi r0 c1 a2 c2 three_up r2 by (cases es) (auto simp: Let_def)
        have r3: "cont_byte (byte c3)"
          using False s hi r0 c1 a2 three_up c2 r2 four_up c3 by (auto simp: Let_def split: if_splits)
        define a where "a = byte c0 - 0xF0"
        define b where "b = byte c1 - 0x80"
        define c where "c = byte c2 - 0x80"
        define d where "d = byte c3 - 0x80"
        have e: "byte c0 = 0xF0 + a" "byte c1 = 0x80 + b" "byte c2 = 0x80 + c" "byte c3 = 0x80 + d"
            "a < 5" "b < 64" "c < 64" "d < 64"
          using r0 r1 r2 r3 four_up unfolding a_def b_def c_def d_def cont_byte_def by linarith+
        have "(a = 0 \<longrightarrow> 16 \<le> b) \<and> (a = 4 \<longrightarrow> b < 16)"
          using a2 unfolding e(1,2) by (auto simp: accept2_def split: if_splits)
        then have lo: "0x10000 \<le> a * 262144 + b * 4096 + c * 64 + d" and hi4: "a * 262144 + b * 4096 + c * 64 + d \<le> 0x10FFFF"
          using e(5-8) by auto
        have "DecodeRune s = (a * 262144 + b * 4096 + c * 64 + d, 4)"
          using s c1 c2 c3 hi r0 a2 three_up r2 r3 four_up by (simp add: Let_def a_def b_def c_def d_def)
        then show ?thesis using four [of c0 c1 c2 c3 fs a b c d] s c1 c2 c3 e lo hi4 a2 by simp
      qed
    qed
  qed
qed

lemma byte_eq: "byte c = n \<Longrightarrow> char_of n = c"
  by auto

lemma DecodeRune_Encode:
  assumes "DecodeRune s = (r, n)" "s \<noteq> []" "\<not> (r = RuneError \<and> n = 1)"
  shows "valid_rune r \<and> EncodeRune r = take n s"
  using assms(2)
proof (cases rule: DecodeRune_cases)
  case (ascii c cs)
  then have "r = byte c" "n = 1" using assms(1) by simp_all
  then show ?thesis using ascii by (simp add: EncodeRune_def encode_valid_def valid_rune_def surrogate_def)
next
  case bad
  then show ?thesis using assms(1,3) by simp
next
  case (two c0 c1 ds a b)
  then have "r = a * 64 + b" "n = 2" using assms(1) by simp_all
  then show ?thesis using two enc2 [of a b] byte_eq [OF two(2)] byte_eq [OF two(3)]
    by (simp add: EncodeRune_def valid_rune_def surrogate_def)
next
  case (three c0 c1 c2 es a b c)
  then have "r = a * 4096 + b * 64 + c" "n = 3" using assms(1) by simp_all
  then show ?thesis using three enc3 [of a b c] byte_eq [OF three(2)] byte_eq [OF three(3)] byte_eq [OF three(4)]
    by (simp add: EncodeRune_def valid_rune_def)
next
  case (four c0 c1 c2 c3 es a b c d)
  then have r: "r = a * 262144 + b * 4096 + c * 64 + d" "n = 4" using assms(1) by simp_all
  then have "valid_rune r" using four by (simp add: valid_rune_def surrogate_def)
  then show ?thesis using r four enc4 [of a b c d] byte_eq [OF four(2)] byte_eq [OF four(3)] byte_eq [OF four(4)]
      byte_eq [OF four(5)]
    by (simp add: EncodeRune_def)
qed

end
