(* ===== verification/Json_Strings.thy ===== *)
theory Json_Strings
  imports Json_Indent Go_Utf8
begin

text \<open>
  Strings in JSON: the writing of a string by \<open>encodeState.string\<close> and \<open>stringBytes\<close> in
  \<open>common/json/encode.go\<close>, and the reading of a literal by \<open>unquoteBytes\<close> and \<open>getu4\<close> in \<open>decode.go\<close>.
\<close>

section \<open>Writing\<close>

text \<open>The escape of an ASCII byte.\<close>

definition escape_byte :: "char \<Rightarrow> string" where
  "escape_byte b =
     (if b = CHR 0x5C \<or> b = CHR 0x22 then [CHR 0x5C, b]
      else if b = CHR 0x0A then [CHR 0x5C, CHR ''n'']
      else if b = CHR 0x0D then [CHR 0x5C, CHR ''r'']
      else [CHR 0x5C] @ ''u00'' @ [hex ! (byte b div 16), hex ! (byte b mod 16)])"

definition safe_byte :: "char \<Rightarrow> bool" where
  "safe_byte b \<longleftrightarrow> 0x20 \<le> byte b \<and> b \<noteq> CHR 0x5C \<and> b \<noteq> CHR 0x22 \<and> b \<noteq> CHR ''<'' \<and> b \<noteq> CHR ''>'' \<and> b \<noteq> CHR ''&''"

lemma DecodeRune_drop:
  assumes "i < length s"
  shows "1 \<le> snd (DecodeRune (drop i s))" "i + snd (DecodeRune (drop i s)) \<le> length s"
  using DecodeRune_size [of "drop i s"] assms unfolding length_drop by (simp_all, linarith)

lemma DecodeRune_less: "i < length s \<Longrightarrow> length s - (i + snd (DecodeRune (drop i s))) < length s - i"
  using DecodeRune_drop [of i s] by linarith

function string_loop :: "string \<Rightarrow> nat \<Rightarrow> nat \<Rightarrow> string \<Rightarrow> string \<times> nat" where
  "string_loop s i start e =
     (if i < length s then
        let b = s ! i in
        if byte b < RuneSelf then
          if safe_byte b then string_loop s (i + 1) start e
          else string_loop s (i + 1) (i + 1) (flush s start i e @ escape_byte b)
        else
          let d = DecodeRune (drop i s); c = fst d; size = snd d in
          if c = RuneError \<and> size = 1
          then string_loop s (i + size) (i + size) (flush s start i e @ [CHR 0x5C] @ ''ufffd'')
          else if c = 0x2028 \<or> c = 0x2029
          then string_loop s (i + size) (i + size) (flush s start i e @ [CHR 0x5C] @ ''u202'' @ [hex ! (c mod 16)])
          else string_loop s (i + size) start e
      else (e, start))"
  by pat_completeness auto

termination
  by (relation "measure (\<lambda>(s, i, _). length s - i)") (auto simp: Let_def DecodeRune_less split: if_splits)

declare string_loop.simps [simp del]

definition encode_string :: "string \<Rightarrow> string \<Rightarrow> string" where
  "encode_string e s =
     (let (e, start) = string_loop s 0 0 (e @ [CHR 0x22]);
          e = (if start < length s then e @ drop start s else e)
      in e @ [CHR 0x22])"

text \<open>\<open>stringBytes\<close> repeats the code for a byte slice.\<close>

function bytes_loop :: "string \<Rightarrow> nat \<Rightarrow> nat \<Rightarrow> string \<Rightarrow> string \<times> nat" where
  "bytes_loop s i start e =
     (if i < length s then
        let b = s ! i in
        if byte b < RuneSelf then
          if safe_byte b then bytes_loop s (i + 1) start e
          else bytes_loop s (i + 1) (i + 1) (flush s start i e @ escape_byte b)
        else
          let d = DecodeRune (drop i s); c = fst d; size = snd d in
          if c = RuneError \<and> size = 1
          then bytes_loop s (i + size) (i + size) (flush s start i e @ [CHR 0x5C] @ ''ufffd'')
          else if c = 0x2028 \<or> c = 0x2029
          then bytes_loop s (i + size) (i + size) (flush s start i e @ [CHR 0x5C] @ ''u202'' @ [hex ! (c mod 16)])
          else bytes_loop s (i + size) start e
      else (e, start))"
  by pat_completeness auto

termination
  by (relation "measure (\<lambda>(s, i, _). length s - i)") (auto simp: Let_def DecodeRune_less split: if_splits)

declare bytes_loop.simps [simp del]

definition stringBytes :: "string \<Rightarrow> string \<Rightarrow> string" where
  "stringBytes e s =
     (let (e, start) = bytes_loop s 0 0 (e @ [CHR 0x22]);
          e = (if start < length s then e @ drop start s else e)
      in e @ [CHR 0x22])"

section \<open>Reading\<close>

definition hex_val :: "char \<Rightarrow> nat option" where
  "hex_val c =
     (if CHR ''0'' \<le> c \<and> c \<le> CHR ''9'' then Some (byte c - 48)
      else if CHR ''a'' \<le> c \<and> c \<le> CHR ''f'' then Some (byte c - 87)
      else if CHR ''A'' \<le> c \<and> c \<le> CHR ''F'' then Some (byte c - 55) else None)"

text \<open>\<open>strconv.ParseUint\<close> of four hexadecimal digits.\<close>

fun ParseHex :: "nat \<Rightarrow> string \<Rightarrow> nat option" where
  "ParseHex acc [] = Some acc"
| "ParseHex acc (c # cs) = (case hex_val c of None \<Rightarrow> None | Some d \<Rightarrow> ParseHex (acc * 16 + d) cs)"

text \<open>\<^term>\<open>None\<close> is the result \<open>-1\<close>.\<close>

definition getu4 :: "string \<Rightarrow> nat option" where
  "getu4 s =
     (if length s < 6 \<or> s ! 0 \<noteq> CHR 0x5C \<or> s ! 1 \<noteq> CHR ''u'' then None
      else ParseHex 0 (take 4 (drop 2 s)))"

text \<open>The scan for unusual characters; the result is the index where it stops.\<close>

function plain_prefix :: "string \<Rightarrow> nat \<Rightarrow> nat" where
  "plain_prefix s r =
     (if r < length s then
        let c = s ! r in
        if c = CHR 0x5C \<or> c = CHR 0x22 \<or> byte c < 0x20 then r
        else if byte c < RuneSelf then plain_prefix s (r + 1)
        else (let d = DecodeRune (drop r s); rr = fst d; size = snd d in
          if rr = RuneError \<and> size = 1 then r else plain_prefix s (r + size))
      else r)"
  by pat_completeness auto

termination
  by (relation "measure (\<lambda>(s, i). length s - i)") (auto simp: Let_def DecodeRune_less split: if_splits)

declare plain_prefix.simps [simp del]

text \<open>A write at the end of what the slice \<open>b\<close> of length \<open>m\<close> holds; \<^term>\<open>None\<close> is an index out of range.\<close>

definition put :: "nat \<Rightarrow> string \<Rightarrow> string \<Rightarrow> string option" where
  "put m b x = (if length b + length x \<le> m then Some (b @ x) else None)"

text \<open>The escape at \<open>s[r]\<close>, the byte behind a backslash at \<open>r - 1\<close>: what is written and the index to go
  on at; \<^term>\<open>None\<close> makes the literal invalid.\<close>

definition unescape :: "string \<Rightarrow> nat \<Rightarrow> (string \<times> nat) option" where
  "unescape s r =
     (let c = s ! r in
      if c = CHR 0x22 \<or> c = CHR 0x5C \<or> c = CHR ''/'' \<or> c = CHR 0x27 then Some ([c], r + 1)
      else if c = CHR ''b'' then Some ([CHR 0x08], r + 1)
      else if c = CHR ''f'' then Some ([CHR 0x0C], r + 1)
      else if c = CHR ''n'' then Some ([CHR 0x0A], r + 1)
      else if c = CHR ''r'' then Some ([CHR 0x0D], r + 1)
      else if c = CHR ''t'' then Some ([CHR 0x09], r + 1)
      else if c = CHR ''u'' then
        (case getu4 (drop (r - 1) s) of None \<Rightarrow> None
         | Some rr \<Rightarrow>
            (let r = r - 1 + 6 in
             if surrogate rr then
               (case getu4 (drop r s) of None \<Rightarrow> Some (EncodeRune RuneError, r)
                | Some rr1 \<Rightarrow>
                    (if pair_rune rr rr1 \<noteq> RuneError then Some (EncodeRune (pair_rune rr rr1), r + 6)
                     else Some (EncodeRune RuneError, r)))
             else Some (EncodeRune rr, r)))
      else None)"

lemma unescape_less: "unescape s r = Some (x, r') \<Longrightarrow> r < r'"
  by (auto simp: unescape_def Let_def split: if_splits option.splits)

text \<open>The outer option is a panic, the inner one the flag \<open>ok\<close>; \<open>b\<close> holds what has been written to the
  slice, \<open>m\<close> is its length.\<close>

function unquote_loop :: "string \<Rightarrow> nat \<Rightarrow> string \<Rightarrow> nat \<Rightarrow> string option option" where
  "unquote_loop s r b m =
     (if r < length s then
        let m = (if int (length b) \<ge> int m - 2 * int UTFMax then (m + UTFMax) * 2 else m);
            c = s ! r in
        if c = CHR 0x5C then
          (let r = r + 1 in
           if r \<ge> length s then Some None
           else (case unescape s r of None \<Rightarrow> Some None
             | Some (x, r') \<Rightarrow> (case put m b x of None \<Rightarrow> None | Some b \<Rightarrow> unquote_loop s r' b m)))
        else if c = CHR 0x22 \<or> byte c < 0x20 then Some None
        else if byte c < RuneSelf then
          (case put m b [c] of None \<Rightarrow> None | Some b \<Rightarrow> unquote_loop s (r + 1) b m)
        else
          (let d = DecodeRune (drop r s); rr = fst d; size = snd d in
           (case put m b (EncodeRune rr) of None \<Rightarrow> None | Some b \<Rightarrow> unquote_loop s (r + size) b m))
      else Some (Some b))"
  by pat_completeness auto

termination
  by (relation "measure (\<lambda>(s, r, _). length s - r)") (auto simp: Let_def DecodeRune_less dest!: unescape_less split: if_splits)

declare unquote_loop.simps [simp del]

definition unquoteBytes :: "string \<Rightarrow> string option option" where
  "unquoteBytes s =
     (if length s < 2 \<or> s ! 0 \<noteq> CHR 0x22 \<or> s ! (length s - 1) \<noteq> CHR 0x22 then Some None
      else
        (let s = take (length s - 2) (drop 1 s);
             r = plain_prefix s 0
         in if r = length s then Some (Some s)
            else unquote_loop s r (take r s) (length s + 2 * UTFMax)))"

definition unquote :: "string \<Rightarrow> string option option" where
  "unquote s = unquoteBytes s"

section \<open>The two writers agree\<close>

lemma bytes_loop_eq: "bytes_loop s i start e = string_loop s i start e"
proof (induction "length s - i" arbitrary: i start e rule: less_induct)
  case less
  show ?case
  proof (cases "i < length s")
    case True
    have IH: "bytes_loop s (i + n) st x = string_loop s (i + n) st x" if "1 \<le> n" for n st x
      by (rule less) (use True that in simp)
    show ?thesis
      using DecodeRune_drop(1) [OF True] IH [of 1]
      by (subst bytes_loop.simps, subst string_loop.simps) (simp add: Let_def IH)
  qed (simp add: bytes_loop.simps string_loop.simps)
qed

lemma stringBytes_eq: "stringBytes e s = encode_string e s"
  by (simp add: stringBytes_def encode_string_def bytes_loop_eq)

text \<open>the copy of the string writer for byte slices has been kept in sync with it: on every input the
  two write the same.\<close>

theorem stringBytes_in_sync: "stringBytes e s = encode_string e s"
  by (rule stringBytes_eq)

section \<open>What is written\<close>

lemma DecodeRune_drop_less: "s \<noteq> [] \<Longrightarrow> length (drop (snd (DecodeRune s)) s) < length s"
  using DecodeRune_size [of s] by simp

text \<open>The writer without its indices.\<close>

function enc_text :: "string \<Rightarrow> string" where
  "enc_text s =
     (if s = [] then []
      else if byte (hd s) < RuneSelf
      then (if safe_byte (hd s) then [hd s] else escape_byte (hd s)) @ enc_text (tl s)
      else let d = DecodeRune s; c = fst d; n = snd d in
        (if c = RuneError \<and> n = 1 then [CHR 0x5C] @ ''ufffd''
         else if c = 0x2028 \<or> c = 0x2029 then [CHR 0x5C] @ ''u202'' @ [hex ! (c mod 16)]
         else take n s) @ enc_text (drop n s))"
  by pat_completeness auto

termination
  by (relation "measure length") (use DecodeRune_drop_less in auto)

declare enc_text.simps [simp del]

lemma enc_text_Nil [simp]: "enc_text [] = []"
  by (simp add: enc_text.simps)

lemma flush_append:
  "start \<le> i \<Longrightarrow> i \<le> length s \<Longrightarrow> flush s start (i + n) e = flush s start i e @ take n (drop i s)"
  by (simp add: flush_alt take_add)

lemma string_loop_text:
  "start \<le> i \<Longrightarrow> i \<le> length s \<Longrightarrow>
   (case string_loop s i start e of (e', start') \<Rightarrow> if start' < length s then e' @ drop start' s else e') =
     flush s start i e @ enc_text (drop i s)"
proof (induction "length s - i" arbitrary: i start e rule: less_induct)
  case less
  show ?case
  proof (cases "i < length s")
    case False
    then show ?thesis using less.prems by (subst string_loop.simps) (simp add: flush_def)
  next
    case True
    let ?b = "s ! i" and ?c = "fst (DecodeRune (drop i s))" and ?n = "snd (DecodeRune (drop i s))"
    have hd: "drop i s \<noteq> []" "hd (drop i s) = ?b" "tl (drop i s) = drop (i + 1) s"
      using True by (simp_all add: hd_drop_conv_nth tl_drop drop_Suc)
    have IH: "(case string_loop s (i + n) st e of (e', start') \<Rightarrow> if start' < length s then e' @ drop start' s else e') =
        flush s st (i + n) e @ enc_text (drop (i + n) s)"
      if "1 \<le> n" "i + n \<le> length s" "st \<le> i + n" for n st e
      by (rule less(1)) (use True that in simp_all)
    have one: "flush s start (i + 1) e = flush s start i e @ [?b]"
      using flush_append [OF less.prems, of 1 e] True by (simp add: take_Suc hd)
    have n: "1 \<le> ?n" "i + ?n \<le> length s" using DecodeRune_drop [OF True] by simp_all
    note more = flush_append [OF less.prems, of ?n e]
    have st: "start \<le> i + k" for k using less.prems(1) by simp
    show ?thesis
    proof (cases "byte ?b < RuneSelf")
      case True
      then show ?thesis
        using IH [of 1 start e] IH [of 1 "i + 1" "flush s start i e @ escape_byte ?b"] st [of 1] one \<open>i < length s\<close>
        by (subst string_loop.simps, subst enc_text.simps) (simp add: hd)
    next
      case False
      have d: "drop ?n (drop i s) = drop (i + ?n) s" by (simp add: add.commute)
      consider "?c = RuneError \<and> ?n = 1" | "\<not> (?c = RuneError \<and> ?n = 1)" "?c = 0x2028 \<or> ?c = 0x2029"
        | "\<not> (?c = RuneError \<and> ?n = 1)" "\<not> (?c = 0x2028 \<or> ?c = 0x2029)" by blast
      then show ?thesis
      proof cases
        case 1
        then show ?thesis
          using IH [OF n order_refl, of "flush s start i e @ [CHR 0x5C] @ ''ufffd''"] False \<open>i < length s\<close>
          by (subst string_loop.simps, subst enc_text.simps) (simp add: hd Let_def)
      next
        case 2
        then show ?thesis
          using IH [OF n order_refl, of "flush s start i e @ [CHR 0x5C] @ ''u202'' @ [hex ! (?c mod 16)]"] False
            \<open>i < length s\<close>
          by (subst string_loop.simps, subst enc_text.simps) (simp only: hd Let_def d if_True if_False simp_thms, simp)
      next
        case 3
        then show ?thesis
          using IH [OF n st, of e] more False \<open>i < length s\<close>
          by (subst string_loop.simps, subst enc_text.simps) (simp only: hd Let_def d if_True if_False simp_thms, simp)
      qed
    qed
  qed
qed

lemma encode_string_text: "encode_string e s = e @ [CHR 0x22] @ enc_text s @ [CHR 0x22]"
  using string_loop_text [of 0 0 s "e @ [CHR 0x22]"]
  by (simp add: encode_string_def Let_def case_prod_unfold)

section \<open>Reading never panics\<close>

text \<open>The reader without the bookkeeping of its buffer.\<close>

function unq_loop :: "string \<Rightarrow> nat \<Rightarrow> string \<Rightarrow> string option" where
  "unq_loop s r b =
     (if r < length s then
        if s ! r = CHR 0x5C then
          (if r + 1 \<ge> length s then None
           else (case unescape s (r + 1) of None \<Rightarrow> None | Some (x, r') \<Rightarrow> unq_loop s r' (b @ x)))
        else if s ! r = CHR 0x22 \<or> byte (s ! r) < 0x20 then None
        else if byte (s ! r) < RuneSelf then unq_loop s (r + 1) (b @ [s ! r])
        else unq_loop s (r + snd (DecodeRune (drop r s))) (b @ EncodeRune (fst (DecodeRune (drop r s))))
      else Some b)"
  by pat_completeness auto

termination
  by (relation "measure (\<lambda>(s, r, _). length s - r)")
    (auto simp: DecodeRune_less dest!: unescape_less split: if_splits)

declare unq_loop.simps [simp del]

lemma length_EncodeRune: "length (EncodeRune r) \<le> 4"
  by (simp add: EncodeRune_def encode_valid_def)

lemma length_unescape: "unescape s r = Some (x, r') \<Longrightarrow> length x \<le> 4"
  using length_EncodeRune by (auto simp: unescape_def Let_def split: if_splits option.splits)

text \<open>A slice that is grown before every write has room for what is written.\<close>

definition room :: "nat \<Rightarrow> string \<Rightarrow> bool" where
  "room m b \<longleftrightarrow> length b \<le> m \<and> 2 * UTFMax \<le> m"

lemma put_room:
  assumes "room m b" "length x \<le> 4"
  defines "m' \<equiv> (if int (length b) \<ge> int m - 2 * int UTFMax then (m + UTFMax) * 2 else m)"
  shows "put m' b x = Some (b @ x)" "room m' (b @ x)"
  using assms(1,2) by (auto simp: put_def m'_def room_def UTFMax_def)

lemma unquote_loop_unq: "room m b \<Longrightarrow> unquote_loop s r b m = Some (unq_loop s r b)"
proof (induction "length s - r" arbitrary: r b m rule: less_induct)
  case less
  show ?case
  proof (cases "r < length s")
    case True
    let ?m = "if int (length b) \<ge> int m - 2 * int UTFMax then (m + UTFMax) * 2 else m"
    have IH: "unquote_loop s r' (b @ x) ?m = Some (unq_loop s r' (b @ x))" if "r < r'" "length x \<le> 4" for r' x
      by (rule less(1)) (use that True put_room(2) [OF less.prems that(2)] in auto)
    note put = put_room(1) [OF less.prems]
    note n = DecodeRune_drop [OF True]
    show ?thesis
    proof (cases "s ! r = CHR 0x5C")
      case True
      show ?thesis
      proof (cases "r + 1 < length s")
        case inside: True
        show ?thesis
        proof (cases "unescape s (r + 1)")
          case None
          then show ?thesis using True inside by (simp add: unquote_loop.simps [of s r] unq_loop.simps [of s r] Let_def)
        next
          case (Some p)
          obtain x r' where p: "p = (x, r')" by (cases p)
          have x: "length x \<le> 4" "r < r'" using length_unescape unescape_less Some p by fastforce+
          then show ?thesis using True inside Some p IH [OF x(2,1)] put [OF x(1)]
            by (simp add: unquote_loop.simps [of s r] unq_loop.simps [of s r] Let_def)
        qed
      qed (use True \<open>r < length s\<close> in \<open>simp add: unquote_loop.simps [of s r] unq_loop.simps [of s r] Let_def\<close>)
    next
      case False
      have "length [s ! r] \<le> 4" by simp
      note c = IH [OF _ this, of "r + 1"] put [OF this]
      have s: "r < r + snd (DecodeRune (drop r s))" using n by linarith
      note d = IH [OF s length_EncodeRune] put [OF length_EncodeRune]
      show ?thesis using False True c d
        by (simp add: unquote_loop.simps [of s r] unq_loop.simps [of s r] Let_def del: append_Cons)
    qed
  qed (simp add: unquote_loop.simps unq_loop.simps)
qed

text \<open>The bytes the fast scan passes are copied as they are.\<close>

lemma plain_prefix_unq:
  "r \<le> length s \<Longrightarrow> r \<le> plain_prefix s r \<and> plain_prefix s r \<le> length s \<and>
     unq_loop s r b = unq_loop s (plain_prefix s r) (b @ take (plain_prefix s r - r) (drop r s))"
proof (induction "length s - r" arbitrary: r b rule: less_induct)
  case less
  let ?c = "s ! r" and ?d = "DecodeRune (drop r s)"
  show ?case
  proof (cases "r < length s \<and> \<not> (?c = CHR 0x5C \<or> ?c = CHR 0x22 \<or> byte ?c < 0x20)")
    case False
    then have "plain_prefix s r = r" by (auto simp: plain_prefix.simps Let_def)
    then show ?thesis using less.prems by simp
  next
    case True
    have IH: "r + n \<le> plain_prefix s (r + n) \<and> plain_prefix s (r + n) \<le> length s \<and>
        unq_loop s (r + n) (b @ take n (drop r s)) =
          unq_loop s (plain_prefix s (r + n)) (b @ take (plain_prefix s (r + n) - r) (drop r s))"
      if n: "1 \<le> n" "r + n \<le> length s" for n
    proof -
      have i: "r + n \<le> plain_prefix s (r + n) \<and> plain_prefix s (r + n) \<le> length s \<and>
          unq_loop s (r + n) (b @ take n (drop r s)) = unq_loop s (plain_prefix s (r + n))
            ((b @ take n (drop r s)) @ take (plain_prefix s (r + n) - (r + n)) (drop (r + n) s))"
        by (rule less(1)) (use True n in auto)
      have "take n (drop r s) @ take (k - (r + n)) (drop (r + n) s) = take (k - r) (drop r s)" if "r + n \<le> k" for k
        using that take_add [of n "k - (r + n)" "drop r s"] by (simp add: add.commute)
      then show ?thesis using i by (simp only: append_assoc)
    qed
    show ?thesis
    proof (cases "byte ?c < RuneSelf")
      case ascii: True
      have p: "plain_prefix s r = plain_prefix s (r + 1)"
        using True ascii by (simp add: plain_prefix.simps [of s r] Let_def)
      have "unq_loop s r b = unq_loop s (r + 1) (b @ take 1 (drop r s))"
        using True ascii by (simp add: unq_loop.simps [of s r] take_Suc hd_drop_conv_nth)
      then show ?thesis using IH [of 1] True p by simp
    next
      case high: False
      show ?thesis
      proof (cases "fst ?d = RuneError \<and> snd ?d = 1")
        case bad: True
        then have "plain_prefix s r = r" using True high by (simp add: plain_prefix.simps [of s r] Let_def)
        then show ?thesis using less.prems by simp
      next
        case good: False
        have n: "1 \<le> snd ?d" "r + snd ?d \<le> length s" using DecodeRune_drop True by simp_all
        have p: "plain_prefix s r = plain_prefix s (r + snd ?d)"
          using True high good by (auto simp: plain_prefix.simps [of s r] Let_def)
        have "EncodeRune (fst ?d) = take (snd ?d) (drop r s)"
          using DecodeRune_Encode [of "drop r s" "fst ?d" "snd ?d"] good True by auto
        then have "unq_loop s r b = unq_loop s (r + snd ?d) (b @ take (snd ?d) (drop r s))"
          using True high by (simp add: unq_loop.simps [of s r])
        then show ?thesis using IH [OF n] p n by simp
      qed
    qed
  qed
qed

lemma unq_end: "unq_loop s (length s) b = Some b"
  by (simp add: unq_loop.simps)

lemma unquoteBytes_quoted: "unquoteBytes (CHR 0x22 # s @ [CHR 0x22]) = Some (unq_loop s 0 [])"
proof -
  let ?r = "plain_prefix s 0"
  have p: "?r \<le> length s" "unq_loop s 0 [] = unq_loop s ?r (take ?r s)"
    using plain_prefix_unq [of 0 s "[]"] by simp_all
  show ?thesis
  proof (cases "?r = length s")
    case True
    then show ?thesis using p(2) by (simp add: unquoteBytes_def nth_append Let_def unq_end)
  next
    case False
    have "room (length s + 2 * UTFMax) (take ?r s)" by (simp add: room_def)
    from unquote_loop_unq [OF this, of s ?r] False p(2) show ?thesis
      by (simp add: unquoteBytes_def nth_append Let_def)
  qed
qed

lemma quoted_shape:
  assumes "\<not> (length s < 2 \<or> s ! 0 \<noteq> CHR 0x22 \<or> s ! (length s - 1) \<noteq> CHR 0x22)"
  obtains t where "s = CHR 0x22 # t @ [CHR 0x22]"
proof -
  obtain c u where "s = c # u" "u \<noteq> []" using assms by (cases s) auto
  then have "s = CHR 0x22 # butlast u @ [CHR 0x22]" using assms by (cases u rule: rev_cases) auto
  then show thesis by (rule that)
qed

text \<open>unquoting never panics: on no literal, well-formed or not, does an index leave the text or the
  buffer, though the buffer starts with room for eight bytes more than the text and a single byte can
  grow to three.\<close>

theorem unquote_total: "\<exists>r. unquoteBytes s = Some r"
proof (cases "length s < 2 \<or> s ! 0 \<noteq> CHR 0x22 \<or> s ! (length s - 1) \<noteq> CHR 0x22")
  case True
  then show ?thesis by (simp add: unquoteBytes_def)
next
  case False
  then obtain t where "s = CHR 0x22 # t @ [CHR 0x22]" by (rule quoted_shape)
  then show ?thesis using unquoteBytes_quoted by simp
qed

section \<open>Round trip\<close>

text \<open>A text with every invalid byte replaced by the replacement character: what the writer means.\<close>

function coerce :: "string \<Rightarrow> string" where
  "coerce s =
     (if s = [] then [] else EncodeRune (fst (DecodeRune s)) @ coerce (drop (snd (DecodeRune s)) s))"
  by pat_completeness auto

termination
  by (relation "measure length") (use DecodeRune_drop_less in auto)

declare coerce.simps [simp del]

lemma hex_val_hex: "n < 16 \<Longrightarrow> hex_val (hex ! n) = Some n"
proof -
  have "\<forall>n < 16. hex_val (hex ! n) = Some n"
    by (simp add: All_less_Suc eval_nat_numeral hex_def hex_val_def char_le_iff)
  then show "n < 16 \<Longrightarrow> hex_val (hex ! n) = Some n" by blast
qed

lemma getu4_hex:
  assumes "a < 16" "b < 16" "c < 16" "d < 16"
  shows "getu4 ([CHR 0x5C, CHR ''u'', hex ! a, hex ! b, hex ! c, hex ! d] @ t) = Some (((a * 16 + b) * 16 + c) * 16 + d)"
  using assms by (simp add: getu4_def hex_val_hex)

text \<open>One step of the reader over a chunk behind \<open>p\<close>.\<close>

lemma unq_plain:
  assumes "safe_byte c" "byte c < RuneSelf"
  shows "unq_loop (p @ c # t) (length p) b = unq_loop (p @ c # t) (length p + 1) (b @ [c])"
  using assms by (simp add: unq_loop.simps [of "p @ c # t" "length p"] nth_append safe_byte_def)

lemma unq_escape:
  assumes "unescape (p @ CHR 0x5C # c # t) (length p + 1) = Some (x, r)"
  shows "unq_loop (p @ CHR 0x5C # c # t) (length p) b = unq_loop (p @ CHR 0x5C # c # t) r (b @ x)"
  using assms by (simp add: unq_loop.simps [of "p @ CHR 0x5C # c # t" "length p"] nth_append)

lemma unescape_at:
  "c = CHR 0x22 \<or> c = CHR 0x5C \<Longrightarrow> unescape (p @ CHR 0x5C # c # t) (length p + 1) = Some ([c], length p + 2)"
  "unescape (p @ CHR 0x5C # CHR ''n'' # t) (length p + 1) = Some ([CHR 0x0A], length p + 2)"
  "unescape (p @ CHR 0x5C # CHR ''r'' # t) (length p + 1) = Some ([CHR 0x0D], length p + 2)"
  by (auto simp: unescape_def nth_append Let_def)

lemma six: "Suc (Suc (Suc (Suc (Suc (Suc n))))) = n + 6"
  by simp

lemma unescape_u:
  assumes "a < 16" "b < 16" "c < 16" "d < 16" "\<not> surrogate (((a * 16 + b) * 16 + c) * 16 + d)"
  defines "e \<equiv> [CHR 0x5C, CHR ''u'', hex ! a, hex ! b, hex ! c, hex ! d]"
  shows "unq_loop (p @ e @ t) (length p) o' = unq_loop (p @ e @ t) (length (p @ e)) (o' @ EncodeRune (((a * 16 + b) * 16 + c) * 16 + d))"
proof -
  have "unescape (p @ e @ t) (length p + 1) = Some (EncodeRune (((a * 16 + b) * 16 + c) * 16 + d), length p + 6)"
    using getu4_hex [OF assms(1-4), of t] assms(5) by (simp add: unescape_def nth_append Let_def e_def)
  then show ?thesis using unq_escape [of p "CHR ''u''" "[hex ! a, hex ! b, hex ! c, hex ! d] @ t"] by (simp add: e_def six)
qed

lemma EncodeRune_ascii: "byte c < 128 \<Longrightarrow> EncodeRune (byte c) = [c]"
  by (simp add: EncodeRune_def encode_valid_def valid_rune_def surrogate_def)

lemma unq_escape_byte:
  assumes "byte c < 128"
  shows "unq_loop (p @ escape_byte c @ t) (length p) b =
    unq_loop (p @ escape_byte c @ t) (length (p @ escape_byte c)) (b @ [c])"
proof -
  have d: "byte c div 16 < 16" "byte c mod 16 < 16" using assms by simp_all
  have v: "((0 * 16 + 0) * 16 + byte c div 16) * 16 + byte c mod 16 = byte c" by simp
  have h: "hex ! 0 = CHR ''0''" by (simp add: hex_def)
  have "\<not> surrogate (byte c)" using assms by (simp add: surrogate_def)
  then have u: "unq_loop (p @ [CHR 0x5C, CHR ''u'', CHR ''0'', CHR ''0'', hex ! (byte c div 16), hex ! (byte c mod 16)] @ t) (length p) b =
      unq_loop (p @ [CHR 0x5C, CHR ''u'', CHR ''0'', CHR ''0'', hex ! (byte c div 16), hex ! (byte c mod 16)] @ t) (length p + 6) (b @ [c])"
    using unescape_u [of 0 0 "byte c div 16" "byte c mod 16" p t b] d EncodeRune_ascii [OF assms]
    unfolding v h by (simp add: six)
  consider "c = CHR 0x22 \<or> c = CHR 0x5C" | "c = CHR 0x0A" | "c = CHR 0x0D"
    | "c \<noteq> CHR 0x5C" "c \<noteq> CHR 0x22" "c \<noteq> CHR 0x0A" "c \<noteq> CHR 0x0D" by blast
  then show ?thesis
  proof cases
    case 1
    then show ?thesis
      using unq_escape [OF unescape_at(1) [OF 1], of p t b] by (auto simp: escape_byte_def)
  next
    case 2
    then show ?thesis
      using unq_escape [OF unescape_at(2), of p t b] by (auto simp: escape_byte_def)
  next
    case 3
    then show ?thesis
      using unq_escape [OF unescape_at(3), of p t b] by (auto simp: escape_byte_def)
  next
    case 4
    then have "escape_byte c = [CHR 0x5C, CHR ''u'', CHR ''0'', CHR ''0'', hex ! (byte c div 16), hex ! (byte c mod 16)]"
      by (simp add: escape_byte_def)
    then show ?thesis using u by (simp add: six)
  qed
qed

lemma DecodeRune_take:
  assumes "s \<noteq> []" "DecodeRune s = (r, n)" "\<not> (r = RuneError \<and> n = 1)"
  shows "DecodeRune (take n s @ t) = (r, n)"
  using assms(1)
proof (cases rule: DecodeRune_cases)
  case (two c0 c1 ds a b)
  then show ?thesis using assms(2) by (simp add: accept2_def cont_byte_def)
next
  case (three c0 c1 c2 es a b c)
  then show ?thesis using assms(2) by (simp add: cont_byte_def Let_def)
next
  case (four c0 c1 c2 c3 es a b c d)
  then show ?thesis using assms(2) by (simp add: cont_byte_def Let_def)
qed (use assms(2,3) in auto)

lemma unq_rune:
  assumes "s \<noteq> []" "\<not> byte (hd s) < RuneSelf" "DecodeRune s = (r, n)" "\<not> (r = RuneError \<and> n = 1)"
  shows "unq_loop (p @ take n s @ t) (length p) b = unq_loop (p @ take n s @ t) (length (p @ take n s)) (b @ EncodeRune r)"
proof -
  have n: "1 \<le> n" "n \<le> length s" using DecodeRune_size [OF assms(1)] assms(3) by simp_all
  then obtain u where u: "take n s = hd s # u" using assms(1) by (cases s; cases n) auto
  have "unq_loop (p @ (hd s # u) @ t) (length p) b = unq_loop (p @ (hd s # u) @ t) (length p + n) (b @ EncodeRune r)"
    using assms(2) DecodeRune_take [OF assms(1,3,4), of t] unfolding u
    by (subst unq_loop.simps) (auto simp: nth_append RuneSelf_def)
  moreover have "length (p @ take n s) = length p + n" using n by simp
  ultimately show ?thesis unfolding u by simp
qed

lemma coerce_Nil [simp]: "coerce [] = []"
  by (simp add: coerce.simps)

lemma surrogate_examples: "\<not> surrogate RuneError" "\<not> surrogate 0x2028" "\<not> surrogate 0x2029"
  by (simp_all add: surrogate_def RuneError_def)

text \<open>A chunk \<open>x\<close> of a literal that is read as \<open>y\<close> wherever it stands.\<close>

definition reads :: "string \<Rightarrow> string \<Rightarrow> bool" where
  "reads x y \<longleftrightarrow> (\<forall>p t b. unq_loop (p @ x @ t) (length p) b = unq_loop (p @ x @ t) (length (p @ x)) (b @ y))"

lemma reads_ascii:
  assumes "byte c < RuneSelf"
  shows "reads (if safe_byte c then [c] else escape_byte c) [c]"
  unfolding reads_def
  using unq_plain [OF _ assms] unq_escape_byte [of c] assms by (simp add: RuneSelf_def)

lemma reads_u:
  assumes "a < 16" "b < 16" "c < 16" "d < 16" "r = ((a * 16 + b) * 16 + c) * 16 + d" "\<not> surrogate r"
  shows "reads [CHR 0x5C, CHR ''u'', hex ! a, hex ! b, hex ! c, hex ! d] (EncodeRune r)"
  unfolding reads_def assms(5) using unescape_u [OF assms(1-4)] assms(5,6) by simp

lemma reads_special:
  "reads ([CHR 0x5C] @ ''ufffd'') (EncodeRune RuneError)"
  "reads ([CHR 0x5C] @ ''u2028'') (EncodeRune 0x2028)"
  "reads ([CHR 0x5C] @ ''u2029'') (EncodeRune 0x2029)"
  using reads_u [of 15 15 15 13 RuneError] reads_u [of 2 0 2 8 "0x2028"] reads_u [of 2 0 2 9 "0x2029"]
  by (simp_all add: surrogate_examples) (simp_all add: RuneError_def hex_def)

lemma hex_line: "hex ! (0x2028 mod 16) = CHR ''8''" "hex ! (0x2029 mod 16) = CHR ''9''"
  by (simp_all add: hex_def)

text \<open>Every text starts with a chunk that is written for its first rune and read as that rune.\<close>

lemma enc_text_chunk:
  assumes "s \<noteq> []" and d: "DecodeRune s = (r, n)"
  obtains x where "enc_text s = x @ enc_text (drop n s)" "reads x (EncodeRune r)"
proof (cases "byte (hd s) < RuneSelf")
  case True
  then have "r = byte (hd s)" "n = 1" "EncodeRune (byte (hd s)) = [hd s]" "enc_text s =
      (if safe_byte (hd s) then [hd s] else escape_byte (hd s)) @ enc_text (drop 1 s)"
    using DecodeRune_ascii [of "hd s" "tl s"] EncodeRune_ascii [of "hd s"] assms
    by (simp_all add: RuneSelf_def enc_text.simps [of s] drop_Suc)
  then show thesis using that reads_ascii [OF True] by simp
next
  case hi: False
  consider (bad) "r = RuneError" "n = 1" | (ls) "\<not> (r = RuneError \<and> n = 1)" "r = 0x2028 \<or> r = 0x2029"
    | (other) "\<not> (r = RuneError \<and> n = 1)" "r \<noteq> 0x2028" "r \<noteq> 0x2029" by blast
  then show thesis
  proof cases
    case bad
    have "enc_text s = ([CHR 0x5C] @ ''ufffd'') @ enc_text (drop n s)"
      using assms hi bad by (subst enc_text.simps) simp
    then show thesis using that reads_special(1) bad by blast
  next
    case ls
    have "enc_text s = ([CHR 0x5C] @ ''u202'' @ [hex ! (r mod 16)]) @ enc_text (drop n s)"
      using assms hi ls by (subst enc_text.simps) auto
    then show thesis using that reads_special(2,3) ls(2) hex_line by auto
  next
    case other
    have "enc_text s = take n s @ enc_text (drop n s)"
      using assms hi other by (subst enc_text.simps) auto
    then show thesis using that unq_rune [OF assms(1) hi d other(1)] by (auto simp: reads_def)
  qed
qed

lemma unq_enc_text: "unq_loop (p @ enc_text s) (length p) b = Some (b @ coerce s)"
proof (induction "length s" arbitrary: s p b rule: less_induct)
  case less
  show ?case
  proof (cases "s = []")
    case True
    then show ?thesis by (simp add: unq_end)
  next
    case False
    obtain r n where d: "DecodeRune s = (r, n)" by fastforce
    then have n: "1 \<le> n" "n \<le> length s" using DecodeRune_size [OF False] by simp_all
    obtain x where x: "enc_text s = x @ enc_text (drop n s)" "reads x (EncodeRune r)"
      using enc_text_chunk [OF False d] .
    have "unq_loop (p @ x @ enc_text (drop n s)) (length (p @ x)) (b @ EncodeRune r) =
        Some (b @ EncodeRune r @ coerce (drop n s))"
      using less [of "drop n s" "p @ x" "b @ EncodeRune r"] n by simp
    moreover have "coerce s = EncodeRune r @ coerce (drop n s)" using False d by (simp add: coerce.simps [of s])
    ultimately show ?thesis using x by (simp add: reads_def)
  qed
qed

text \<open>Texts that are valid UTF-8 come back as they were.\<close>

function utf8_valid :: "string \<Rightarrow> bool" where
  "utf8_valid s =
     (if s = [] then True
      else DecodeRune s \<noteq> (RuneError, 1) \<and> utf8_valid (drop (snd (DecodeRune s)) s))"
  by pat_completeness auto

termination
  by (relation "measure length") (use DecodeRune_drop_less in auto)

declare utf8_valid.simps [simp del]

lemma coerce_valid: "utf8_valid s \<Longrightarrow> coerce s = s"
proof (induction s rule: coerce.induct)
  case (1 s)
  show ?case
  proof (cases "s = []")
    case False
    obtain r n where d: "DecodeRune s = (r, n)" by fastforce
    then have "EncodeRune r = take n s" "coerce (drop n s) = drop n s"
      using 1 False DecodeRune_Encode [OF d False] by (auto simp: utf8_valid.simps [of s])
    then show ?thesis using d False by (simp add: coerce.simps [of s])
  qed simp
qed

text \<open>C22: a string that is written and read back comes back with every byte that is not part of a
  well-formed rune replaced by U+FFFD, and with nothing else changed.\<close>

theorem string_roundtrip: "unquote (encode_string [] s) = Some (Some (coerce s))"
  using unquoteBytes_quoted [of "enc_text s"] unq_enc_text [of "[]" s "[]"]
  by (simp add: unquote_def encode_string_text)

text \<open>a string that is valid UTF-8 is read back exactly as it was written.\<close>

corollary string_roundtrip_valid: "utf8_valid s \<Longrightarrow> unquote (encode_string [] s) = Some (Some s)"
  using unquoteBytes_quoted [of "enc_text s"] unq_enc_text [of "[]" s "[]"]
  by (simp add: unquote_def encode_string_text coerce_valid)

lemma string_roundtrip_valid_witness:
  "unquote (encode_string [] [CHR ''<'', CHR 0xE2, CHR 0x80, CHR 0xA8, CHR 0x5C, CHR 0xC3, CHR 0xA9, CHR 0x0A]) =
     Some (Some [CHR ''<'', CHR 0xE2, CHR 0x80, CHR 0xA8, CHR 0x5C, CHR 0xC3, CHR 0xA9, CHR 0x0A])"
  by (rule string_roundtrip_valid) (simp add: utf8_valid.simps accept2_def cont_byte_def RuneError_def)

section \<open>Reading a literal of the grammar\<close>

abbreviation high :: "char \<Rightarrow> bool" where
  "high c \<equiv> \<not> byte c < 0x80"

lemma cont_byte_high: "cont_byte n \<Longrightarrow> \<not> n < 128" "accept2 m n \<Longrightarrow> \<not> n < 128"
  by (auto simp: cont_byte_def accept2_def split: if_splits)

text \<open>Decoding a rune looks at no byte behind the first ASCII byte.\<close>

lemma DecodeRune_high_prefix:
  assumes "s \<noteq> []" "high (hd s)"
  shows "DecodeRune s = DecodeRune (takeWhile high s)"
proof -
  obtain c0 s1 where s: "s = c0 # s1" "high c0" using assms by (cases s) auto
  show ?thesis
  proof (cases s1)
    case Nil
    then show ?thesis using s by simp
  next
    case (Cons c1 s2)
    note s1 = this
    show ?thesis
    proof (cases s2)
      case Nil
      then show ?thesis using s s1 cont_byte_high by (auto simp: Let_def)
    next
      case (Cons c2 s3)
      note s2 = this
      show ?thesis
      proof (cases s3)
        case Nil
        then show ?thesis using s s1 s2 cont_byte_high by (auto simp: Let_def)
      next
        case (Cons c3 s4)
        then show ?thesis using s s1 s2 cont_byte_high by (auto simp: Let_def)
      qed
    qed
  qed
qed

lemma take_rune_high:
  assumes "s \<noteq> []" "high (hd s)" "DecodeRune s = (r, n)"
  shows "\<forall>c \<in> set (take n s). high c"
proof -
  let ?w = "takeWhile high s"
  have w: "?w \<noteq> []" using assms(1,2) by (cases s) simp_all
  moreover have "DecodeRune ?w = (r, n)" using DecodeRune_high_prefix [OF assms(1,2)] assms(3) by (simp only:)
  ultimately have n: "n \<le> length ?w" using DecodeRune_size [of ?w] by simp
  have "take n s = take n (?w @ dropWhile high s)" by (simp only: takeWhile_dropWhile_id)
  also have "\<dots> = take n ?w" using n by (simp only: take_append) simp
  finally show ?thesis by (metis in_set_takeD set_takeWhileD)
qed

text \<open>What a literal means: its runes, those written \<open>\uXXXX\<close> apart, as two of them may be a surrogate pair.\<close>

datatype unit_rune = Raw nat | Unit nat

definition hex_num :: "string \<Rightarrow> nat" where
  "hex_num s = (case ParseHex 0 s of None \<Rightarrow> 0 | Some n \<Rightarrow> n)"

definition escaped :: "char \<Rightarrow> nat" where
  "escaped e =
     (if e = CHR ''b'' then 0x08 else if e = CHR ''f'' then 0x0C else if e = CHR ''n'' then 0x0A
      else if e = CHR ''r'' then 0x0D else if e = CHR ''t'' then 0x09 else byte e)"

lemma DecodeRune_Cons_less: "Suc (length s) - snd (DecodeRune (c # s)) < Suc (length s)"
  using DecodeRune_drop_less [of "c # s"] by (simp del: DecodeRune.simps)

function str_units :: "string \<Rightarrow> unit_rune list" where
  "str_units [] = []"
| "str_units (c # s) =
     (if c \<noteq> CHR 0x5C then
        Raw (fst (DecodeRune (c # s))) # str_units (drop (snd (DecodeRune (c # s))) (c # s))
      else case s of
        [] \<Rightarrow> []
      | e # u \<Rightarrow>
          (if e = CHR ''u'' then Unit (hex_num (take 4 u)) # str_units (drop 4 u)
           else Raw (escaped e) # str_units u))"
  by pat_completeness auto

termination
  by (relation "measure length") (auto simp: DecodeRune_Cons_less simp del: DecodeRune.simps)

declare str_units.simps(2) [simp del]

fun join_pairs :: "unit_rune list \<Rightarrow> nat list" where
  "join_pairs [] = []"
| "join_pairs (Unit a # Unit b # us) =
     (if pair_rune a b \<noteq> RuneError then pair_rune a b # join_pairs us else a # join_pairs (Unit b # us))"
| "join_pairs (Unit a # us) = a # join_pairs us"
| "join_pairs (Raw a # us) = a # join_pairs us"

definition str_value :: "string \<Rightarrow> string" where
  "str_value b = concat (map EncodeRune (join_pairs (str_units b)))"

lemma str_value_Nil [simp]: "str_value [] = []"
  by (simp add: str_value_def)

lemma string_body_tl:
  assumes "string_body (c # s)" "c \<noteq> CHR 0x5C"
  shows "plain_char c" "string_body s"
  using assms by (auto elim: string_body.cases)

lemma string_body_drop:
  "string_body s \<Longrightarrow> \<forall>c \<in> set (take n s). high c \<Longrightarrow> string_body (drop n s)"
proof (induction n arbitrary: s)
  case (Suc n)
  show ?case
  proof (cases s)
    case (Cons c u)
    then have "c \<noteq> CHR 0x5C" using Suc.prems(2) by auto
    then show ?thesis using Suc.IH [of u] Suc.prems string_body_tl(2) [of c u] Cons by simp
  qed (use Suc in simp)
qed simp

lemma is_hex_val: "is_hex c \<Longrightarrow> \<exists>n < 16. hex_val c = Some n"
  by (auto simp: is_hex_def hex_val_def char_le_iff)

lemma getu4_body:
  assumes "is_hex h1" "is_hex h2" "is_hex h3" "is_hex h4"
  shows "getu4 (CHR 0x5C # CHR ''u'' # h1 # h2 # h3 # h4 # s) = Some (hex_num [h1, h2, h3, h4])"
  using is_hex_val [OF assms(1)] is_hex_val [OF assms(2)] is_hex_val [OF assms(3)] is_hex_val [OF assms(4)]
  by (auto simp: getu4_def hex_num_def)

lemma getu4_units:
  assumes "string_body s"
  shows "getu4 s = (case str_units s of Unit b # _ \<Rightarrow> Some b | _ \<Rightarrow> None)"
  using assms
proof cases
  case (body_plain c u)
  then show ?thesis by (simp add: getu4_def str_units.simps(2) plain_char_def)
next
  case (body_escape e u)
  then show ?thesis by (auto simp: getu4_def str_units.simps(2))
next
  case (body_unicode h1 h2 h3 h4 u)
  then show ?thesis using getu4_body [of h1 h2 h3 h4 u] by (simp add: str_units.simps(2))
qed (simp add: getu4_def)


lemma str_value_plain:
  assumes "c \<noteq> CHR 0x5C"
  shows "str_value (c # s) =
    EncodeRune (fst (DecodeRune (c # s))) @ str_value (drop (snd (DecodeRune (c # s))) (c # s))"
  using assms by (simp add: str_value_def str_units.simps(2) del: DecodeRune.simps)

lemma str_value_escape: "e \<noteq> CHR ''u'' \<Longrightarrow> str_value (CHR 0x5C # e # s) = EncodeRune (escaped e) @ str_value s"
  by (simp add: str_value_def str_units.simps(2))

lemma str_value_unicode:
  "str_value (CHR 0x5C # CHR ''u'' # h1 # h2 # h3 # h4 # s) =
     (let a = hex_num [h1, h2, h3, h4] in
      case str_units s of
        Unit b # us \<Rightarrow>
          if pair_rune a b \<noteq> RuneError then EncodeRune (pair_rune a b) @ concat (map EncodeRune (join_pairs us))
          else EncodeRune a @ str_value s
      | _ \<Rightarrow> EncodeRune a @ str_value s)"
  by (auto simp: str_value_def str_units.simps(2) Let_def split: list.splits unit_rune.splits)

lemma EncodeRune_surrogate: "surrogate r \<Longrightarrow> EncodeRune r = EncodeRune RuneError"
  by (simp add: EncodeRune_def valid_rune_def RuneError_def surrogate_def)

lemma pair_rune_surrogate: "pair_rune a b \<noteq> RuneError \<Longrightarrow> surrogate a"
  by (auto simp: pair_rune_def surrogate_def split: if_splits)

lemma unescape_unicode:
  fixes u p :: string
  assumes "is_hex h1" "is_hex h2" "is_hex h3" "is_hex h4"
  defines "s \<equiv> CHR 0x5C # CHR ''u'' # h1 # h2 # h3 # h4 # u" and "a \<equiv> hex_num [h1, h2, h3, h4]"
  shows "unescape (p @ s) (length p + 1) =
    (case getu4 u of
       Some b \<Rightarrow> if pair_rune a b \<noteq> RuneError then Some (EncodeRune (pair_rune a b), length p + 12)
                 else Some (EncodeRune a, length p + 6)
     | None \<Rightarrow> Some (EncodeRune a, length p + 6))"
proof -
  have d: "drop (length p + 6) (p @ s) = u" "drop (length p) (p @ s) = s" by (simp_all add: s_def)
  show ?thesis
    using getu4_body [OF assms(1-4), of u] d EncodeRune_surrogate [of a] pair_rune_surrogate [of a]
    unfolding unescape_def by (auto simp: nth_append Let_def s_def a_def split: option.splits)
qed


text \<open>A step of the reader over what it reads as \<open>y\<close>.\<close>

lemma unq_body_plain:
  assumes "plain_char c"
  shows "unq_loop (p @ c # s) (length p) b =
    unq_loop (p @ c # s) (length p + snd (DecodeRune (c # s))) (b @ EncodeRune (fst (DecodeRune (c # s))))"
proof (cases "high c")
  case True
  then show ?thesis
    using assms by (simp add: unq_loop.simps [of "p @ c # s" "length p"] nth_append RuneSelf_def plain_char_def del: DecodeRune.simps)
next
  case False
  then show ?thesis
    using assms EncodeRune_ascii [of c] by (simp add: unq_loop.simps [of "p @ c # s" "length p"] nth_append RuneSelf_def plain_char_def)
qed

lemma EncodeRune_escaped:
  "EncodeRune (escaped (CHR 0x22)) = [CHR 0x22]" "EncodeRune (escaped (CHR 0x5C)) = [CHR 0x5C]"
  "EncodeRune (escaped (CHR ''/'')) = ''/''" "EncodeRune (escaped (CHR ''b'')) = [CHR 0x08]"
  "EncodeRune (escaped (CHR ''f'')) = [CHR 0x0C]" "EncodeRune (escaped (CHR ''n'')) = [CHR 0x0A]"
  "EncodeRune (escaped (CHR ''r'')) = [CHR 0x0D]" "EncodeRune (escaped (CHR ''t'')) = [CHR 0x09]"
  by (simp_all add: escaped_def EncodeRune_def encode_valid_def valid_rune_def surrogate_def)
    (simp_all add: char_of_def bit_0)

lemma unescape_body:
  assumes "e \<in> {CHR 0x22, CHR 0x5C, CHR ''/'', CHR ''b'', CHR ''f'', CHR ''n'', CHR ''r'', CHR ''t''}"
  shows "unescape (p @ CHR 0x5C # e # s) (length p + 1) = Some (EncodeRune (escaped e), length p + 2)"
  using assms by (elim insertE emptyE; simp add: unescape_def nth_append Let_def EncodeRune_escaped)

lemma escape_not_u: "e \<in> {CHR 0x22, CHR 0x5C, CHR ''/'', CHR ''b'', CHR ''f'', CHR ''n'', CHR ''r'', CHR ''t''} \<Longrightarrow> e \<noteq> CHR ''u''"
  by auto

text \<open>A unit at the head comes from an escape.\<close>

lemma unit_head:
  assumes "string_body s" "str_units s = Unit b # us"
  obtains h1 h2 h3 h4 u where "s = CHR 0x5C # CHR ''u'' # h1 # h2 # h3 # h4 # u" "string_body u" "us = str_units u"
  using assms
proof (cases rule: string_body.cases)
  case (body_plain c u)
  then show ?thesis using assms by (simp add: str_units.simps(2) plain_char_def)
next
  case (body_escape e u)
  then show ?thesis using assms by (auto simp: str_units.simps(2))
next
  case (body_unicode h1 h2 h3 h4 u)
  then show ?thesis using assms that by (simp add: str_units.simps(2))
qed (use assms in simp)

lemma unq_body: "string_body s \<Longrightarrow> unq_loop (p @ s) (length p) b = Some (b @ str_value s)"
proof (induction "length s" arbitrary: s p b rule: less_induct)
  case less
  have IH: "unq_loop ((p @ x) @ u) (length p + length x) (b @ y) = Some (b @ y @ str_value u)"
    if "s = x @ u" "string_body u" "x \<noteq> []" for x u y
    using less(1) [of u "p @ x" "b @ y"] that by simp
  show ?case using less.prems
  proof (cases rule: string_body.cases)
    case body_Nil
    then show ?thesis by (simp add: unq_end)
  next
    case (body_plain c u)
    define n r where "n = snd (DecodeRune s)" and "r = fst (DecodeRune s)"
    have n: "1 \<le> n" "n \<le> length s" using DecodeRune_size [of s] body_plain(1) by (simp_all add: n_def del: DecodeRune.simps)
    have "string_body (drop n s)"
    proof (cases "high c")
      case True
      then show ?thesis
        using take_rune_high [of s r n] string_body_drop [OF less.prems] body_plain(1) by (simp add: n_def r_def)
    next
      case False
      then show ?thesis using body_plain by (simp add: n_def)
    qed
    then have "unq_loop (p @ s) (length p + n) (b @ EncodeRune r) = Some (b @ EncodeRune r @ str_value (drop n s))"
      using IH [of "take n s" "drop n s" "EncodeRune r"] n body_plain(1) by auto
    moreover have "c \<noteq> CHR 0x5C" using body_plain(2) by (simp add: plain_char_def)
    ultimately show ?thesis
      using unq_body_plain [OF body_plain(2), of p u b] str_value_plain [of c u] body_plain(1)
      by (simp add: n_def r_def del: DecodeRune.simps)
  next
    case (body_escape e u)
    show ?thesis
      using unq_escape [OF unescape_body [OF body_escape(2)], of p u b] str_value_escape [OF escape_not_u [OF body_escape(2)], of u]
        IH [of "[CHR 0x5C, e]" u "EncodeRune (escaped e)"] body_escape by simp
  next
    case (body_unicode h1 h2 h3 h4 u)
    note h = body_unicode(2-5)
    define a where "a = hex_num [h1, h2, h3, h4]"
    let ?e = "[CHR 0x5C, CHR ''u'', h1, h2, h3, h4]"
    have s: "s = ?e @ u" using body_unicode(1) by simp
    note one = IH [OF s body_unicode(6), of "EncodeRune a"]
    note un = unescape_unicode [OF h, of p u] unq_escape [of p "CHR ''u''" "h1 # h2 # h3 # h4 # u" _ _ b]
    show ?thesis
    proof (cases "\<exists>c us. str_units u = Unit c # us \<and> pair_rune a c \<noteq> RuneError")
      case False
      then have "str_value s = EncodeRune a @ str_value u"
        unfolding body_unicode(1) str_value_unicode a_def [symmetric] Let_def
        by (auto split: list.splits unit_rune.splits)
      moreover have "unescape (p @ s) (length p + 1) = Some (EncodeRune a, length p + 6)"
        using False un(1) getu4_units [OF body_unicode(6)] body_unicode(1)
        by (auto simp: a_def split: list.splits unit_rune.splits)
      ultimately show ?thesis using un(2) one s by (simp add: six)
    next
      case True
      then obtain c us where c: "str_units u = Unit c # us" "pair_rune a c \<noteq> RuneError" by blast
      obtain k1 k2 k3 k4 v where v: "u = CHR 0x5C # CHR ''u'' # k1 # k2 # k3 # k4 # v" "string_body v" "us = str_units v"
        by (rule unit_head [OF body_unicode(6) c(1)])
      have "str_value s = EncodeRune (pair_rune a c) @ str_value v"
        unfolding body_unicode(1) str_value_unicode a_def [symmetric] Let_def
        using c v(3) by (simp add: str_value_def)
      moreover have "unescape (p @ s) (length p + 1) = Some (EncodeRune (pair_rune a c), length p + 12)"
        using c un(1) getu4_units [OF body_unicode(6)] body_unicode(1) by (simp add: a_def)
      moreover have "unq_loop (p @ s) (length p + 12) (b @ EncodeRune (pair_rune a c)) =
          Some (b @ EncodeRune (pair_rune a c) @ str_value v)"
        using IH [of "?e @ [CHR 0x5C, CHR ''u'', k1, k2, k3, k4]" v "EncodeRune (pair_rune a c)"] s v(1,2) by (simp add: six)
      ultimately show ?thesis using un(2) s by simp
    qed
  qed
qed

lemma unquote_body: "string_body s \<Longrightarrow> unquote (render_string s) = Some (Some (str_value s))"
  using unquoteBytes_quoted [of s] unq_body [of s "[]" "[]"]
  by (simp add: unquote_def render_string_def)


section \<open>What is written is a literal of the grammar\<close>

lemma is_hex_hex: "n < 16 \<Longrightarrow> is_hex (hex ! n)"
proof -
  have "\<forall>n < 16. is_hex (hex ! n)"
    by (simp add: All_less_Suc eval_nat_numeral hex_def is_hex_def char_le_iff)
  then show "n < 16 \<Longrightarrow> is_hex (hex ! n)" by blast
qed

lemma string_body_high: "\<forall>c \<in> set x. high c \<Longrightarrow> string_body s \<Longrightarrow> string_body (x @ s)"
  by (induction x) (auto simp: plain_char_def intro!: body_plain)

lemma string_body_ascii: "byte c < RuneSelf \<Longrightarrow> string_body (if safe_byte c then [c] else escape_byte c)"
proof (cases "safe_byte c")
  case True
  then show ?thesis using body_plain [OF _ body_Nil, of c] by (simp add: safe_byte_def plain_char_def)
next
  case False
  assume c: "byte c < RuneSelf"
  have z: "is_hex (CHR ''0'')" by (simp add: is_hex_def)
  have h: "is_hex (hex ! (byte c div 16))" "is_hex (hex ! (byte c mod 16))"
    using c by (simp_all add: is_hex_hex RuneSelf_def)
  show ?thesis
    using False body_escape [OF _ body_Nil, of c] body_escape [OF _ body_Nil, of "CHR ''n''"]
      body_escape [OF _ body_Nil, of "CHR ''r''"] body_unicode [OF z z h body_Nil]
    by (auto simp: escape_byte_def)
qed

lemma string_body_special:
  "string_body ([CHR 0x5C] @ ''ufffd'')" "string_body ([CHR 0x5C] @ ''u2028'')" "string_body ([CHR 0x5C] @ ''u2029'')"
  by (simp_all; intro body_unicode body_Nil; simp add: is_hex_def)+

lemma string_body_enc_text: "string_body (enc_text s)"
proof (induction s rule: enc_text.induct)
  case (1 s)
  show ?case
  proof (cases "s = []")
    case False
    obtain r n where d: "DecodeRune s = (r, n)" by fastforce
    show ?thesis
    proof (cases "byte (hd s) < RuneSelf")
      case True
      then show ?thesis
        using 1 False string_body_append [OF string_body_ascii [OF True]] by (subst enc_text.simps) simp
    next
      case hi: False
      then have IH: "string_body (enc_text (drop n s))" using 1 False d by simp
      have "high (hd s)" using hi by (simp add: RuneSelf_def)
      then have raw: "string_body (take n s @ enc_text (drop n s))"
        using take_rune_high [OF False _ d] string_body_high [OF _ IH] by blast
      have sp: "r = 0x2028 \<or> r = 0x2029 \<Longrightarrow> string_body ([CHR 0x5C] @ ''u202'' @ [hex ! (r mod 16)])"
        using string_body_special(2,3) hex_line by auto
      have "string_body ((if r = RuneError \<and> n = 1 then [CHR 0x5C] @ ''ufffd''
         else if r = 0x2028 \<or> r = 0x2029 then [CHR 0x5C] @ ''u202'' @ [hex ! (r mod 16)]
         else take n s) @ enc_text (drop n s))"
        using string_body_append [OF string_body_special(1) IH] string_body_append [OF sp IH] raw
        by (simp only: split: if_splits) blast
      then show ?thesis using False hi d by (subst enc_text.simps) (simp only: Let_def fst_conv snd_conv if_False)
    qed
  qed (simp add: body_Nil)
qed

lemma encode_string_render: "encode_string e s = e @ render_string (enc_text s)"
  by (simp add: encode_string_text render_string_def)

lemma str_value_enc_text: "str_value (enc_text s) = coerce s"
  using unq_enc_text [of "[]" s "[]"] unq_body [OF string_body_enc_text, of "[]" s "[]"] by simp

end
