(* ===== verification/Json_Names.thy ===== *)
theory Json_Names
  imports Go_Utf8
begin

text \<open>
  The files \<open>common/json/tags.go\<close> and \<open>common/json/fold.go\<close>: the tag of a struct field, a name and
  comma-separated options, and the comparison of an object key with a field name up to case, in four
  versions of which the key selects the cheapest that is correct for it.
\<close>

section \<open>Tags\<close>

text \<open>\<^term>\<open>None\<close> would be a slice out of range.\<close>

definition parseTag :: "string \<Rightarrow> (string \<times> string) option" where
  "parseTag tag =
     (let idx = str_Index tag '','' in
      if idx \<noteq> - 1 then do {
        name \<leftarrow> go_slice tag 0 idx;
        rest \<leftarrow> go_from tag (idx + 1);
        Some (name, rest)
      } else Some (tag, []))"

function Contains_loop :: "string \<Rightarrow> string \<Rightarrow> bool option" where
  "Contains_loop s optionName =
     (if s = [] then Some False
      else (let i = str_Index s '','' in
        if i \<ge> 0 then (case (go_slice s 0 i, go_from s (i + 1)) of
            (Some s', Some nxt) \<Rightarrow> if s' = optionName then Some True else Contains_loop nxt optionName
          | _ \<Rightarrow> None)
        else if s = optionName then Some True else Contains_loop [] optionName))"
  by pat_completeness auto
termination
  by (relation "measure (\<lambda>(s, _). length s)")
    (auto simp: go_from_def go_slice_def str_Index_char_less split: if_splits)

declare Contains_loop.simps [simp del]

definition Contains :: "string \<Rightarrow> string \<Rightarrow> bool option" where
  "Contains o' optionName = (if length o' = 0 then Some False else Contains_loop o' optionName)"

text \<open>The parts of a text between its commas.\<close>

fun split_commas :: "string \<Rightarrow> string list" where
  "split_commas [] = [[]]"
| "split_commas (c # cs) =
     (if c = CHR '','' then [] # split_commas cs
      else (case split_commas cs of x # xs \<Rightarrow> (c # x) # xs | [] \<Rightarrow> [[c]]))"

lemma split_commas_ne [simp]: "split_commas s \<noteq> []"
  by (cases s) (auto split: list.splits)

lemma split_commas_append:
  "CHR '','' \<notin> set a \<Longrightarrow> split_commas (a @ CHR '','' # b) = a # split_commas b"
  by (induction a) auto

lemma split_commas_single: "CHR '','' \<notin> set a \<Longrightarrow> split_commas a = [a]"
  by (induction a) auto

lemma comma_split:
  assumes "CHR '','' \<in> set s"
  obtains a b where "s = a @ CHR '','' # b" "CHR '','' \<notin> set a"
  using split_list_first [OF assms] by blast

lemma Contains_loop_split:
  "name \<noteq> [] \<Longrightarrow> Contains_loop s name = Some (name \<in> set (split_commas s))"
proof (induction s rule: length_induct)
  case (1 s)
  show ?case
  proof (cases "CHR '','' \<in> set s")
    case True
    then obtain a b where s: "s = a @ CHR '','' # b" "CHR '','' \<notin> set a" by (rule comma_split)
    have i: "str_Index s '','' = int (length a)" unfolding s(1) by (rule str_Index_char_append [OF s(2)])
    have "go_slice s 0 (int (length a)) = Some a" "go_from s (int (length a) + 1) = Some b"
      unfolding s(1) by (simp_all add: go_slice_0 go_from_Some nat_add_distrib)
    then show ?thesis
      using 1(1) [rule_format, of b] 1(2) s i
      by (subst Contains_loop.simps) (auto simp: split_commas_append)
  next
    case False
    then have "str_Index s '','' < 0" by (simp add: str_Index_char)
    then show ?thesis using 1(2) False
      by (subst Contains_loop.simps) (auto simp: split_commas_single Contains_loop.simps)
  qed
qed

text \<open>a tag is split at its first comma and \<open>Contains\<close> finds an option exactly if it stands whole
  between two commas or ends of the rest, so a tag put together from a name and options gives them back.\<close>

theorem tag_options:
  assumes "opt \<noteq> []"
  shows "\<exists>name rest. parseTag tag = Some (name, rest) \<and> Contains rest opt = Some (opt \<in> set (tl (split_commas tag))) \<and>
    name = hd (split_commas tag)"
proof (cases "CHR '','' \<in> set tag")
  case True
  then obtain a b where s: "tag = a @ CHR '','' # b" "CHR '','' \<notin> set a" by (rule comma_split)
  have "parseTag tag = Some (a, b)"
    unfolding s(1) parseTag_def str_Index_char_append [OF s(2)]
    by (simp add: go_slice_0 go_from_Some nat_add_distrib Let_def)
  then show ?thesis using assms s
    by (auto simp: Contains_def Contains_loop_split split_commas_append)
next
  case False
  then show ?thesis by (simp add: parseTag_def str_Index_char Contains_def split_commas_single)
qed

theorem tag_options_witness:
  "\<exists>name rest. parseTag ''id,omitempty,string'' = Some (name, rest) \<and> Contains rest ''string'' = Some True \<and> name = ''id''"
  using tag_options [of "''string''" "''id,omitempty,string''"] by simp

section \<open>Case folding\<close>

text \<open>\<open>b & caseMask\<close> with \<open>caseMask = ^byte(0x20)\<close>: bit 5 cleared.\<close>

definition case_mask :: "nat \<Rightarrow> nat" where
  "case_mask b = b - 32 * (b div 32 mod 2)"

definition kelvin :: nat where "kelvin = 0x212A"
definition smallLongEss :: nat where "smallLongEss = 0x017F"

fun equalFoldRight :: "string \<Rightarrow> string \<Rightarrow> bool" where
  "equalFoldRight [] t = (length t = 0)"
| "equalFoldRight (sb # s) [] = False"
| "equalFoldRight (sb # s) (tb # t) =
     (if byte tb < RuneSelf
      then (if sb \<noteq> tb
            then (let u = case_mask (byte sb) in
              if byte (CHR ''A'') \<le> u \<and> u \<le> byte (CHR ''Z'')
              then (if u \<noteq> case_mask (byte tb) then False else equalFoldRight s t) else False)
            else equalFoldRight s t)
      else (let (tr, size) = DecodeRune (tb # t) in
        if sb = CHR ''s'' \<or> sb = CHR ''S''
        then (if tr \<noteq> smallLongEss then False else equalFoldRight s (drop size (tb # t)))
        else if sb = CHR ''k'' \<or> sb = CHR ''K''
        then (if tr \<noteq> kelvin then False else equalFoldRight s (drop size (tb # t)))
        else False))"

fun ascii_bytes :: "string \<Rightarrow> string \<Rightarrow> bool" where
  "ascii_bytes (sb # s) (tb # t) =
     (if sb = tb then ascii_bytes s t
      else if (97 \<le> byte sb \<and> byte sb \<le> 122) \<or> (65 \<le> byte sb \<and> byte sb \<le> 90)
      then (if case_mask (byte sb) \<noteq> case_mask (byte tb) then False else ascii_bytes s t)
      else False)"
| "ascii_bytes _ _ = True"

definition asciiEqualFold :: "string \<Rightarrow> string \<Rightarrow> bool" where
  "asciiEqualFold s t = (if length s \<noteq> length t then False else ascii_bytes s t)"

fun letter_bytes :: "string \<Rightarrow> string \<Rightarrow> bool" where
  "letter_bytes (b # s) (c # t) = (if case_mask (byte b) \<noteq> case_mask (byte c) then False else letter_bytes s t)"
| "letter_bytes _ _ = True"

definition simpleLetterEqualFold :: "string \<Rightarrow> string \<Rightarrow> bool" where
  "simpleLetterEqualFold s t = (if length s \<noteq> length t then False else letter_bytes s t)"

text \<open>The choice among the four; the first constructor is \<open>bytes.EqualFold\<close>.\<close>

datatype fold_fn = BytesEqualFold | EqualFoldRight | AsciiEqualFold | SimpleLetterEqualFold

fun fold_scan :: "string \<Rightarrow> bool \<Rightarrow> bool \<Rightarrow> fold_fn" where
  "fold_scan [] nonLetter special =
     (if special then EqualFoldRight else if nonLetter then AsciiEqualFold else SimpleLetterEqualFold)"
| "fold_scan (b # s) nonLetter special =
     (if byte b \<ge> RuneSelf then BytesEqualFold
      else (let upper = case_mask (byte b) in
        if upper < byte (CHR ''A'') \<or> upper > byte (CHR ''Z'') then fold_scan s True special
        else if upper = byte (CHR ''K'') \<or> upper = byte (CHR ''S'') then fold_scan s nonLetter True
        else fold_scan s nonLetter special))"

definition foldFunc :: "string \<Rightarrow> fold_fn" where
  "foldFunc s = fold_scan s False False"

text \<open>The call of the function chosen; \<open>bytes.EqualFold\<close> is the parameter \<open>F\<close>.\<close>

fun call_fold :: "(string \<Rightarrow> string \<Rightarrow> bool) \<Rightarrow> fold_fn \<Rightarrow> string \<Rightarrow> string \<Rightarrow> bool" where
  "call_fold F BytesEqualFold s t = F s t"
| "call_fold F EqualFoldRight s t = equalFoldRight s t"
| "call_fold F AsciiEqualFold s t = asciiEqualFold s t"
| "call_fold F SimpleLetterEqualFold s t = simpleLetterEqualFold s t"

text \<open>The meaning of the comparison for an ASCII key: the runes of the other text correspond to the
  characters of the key, each the same up to case, where the Kelvin sign counts as a K and the long s
  as an s.\<close>

function runes :: "string \<Rightarrow> nat list" where
  "runes t = (if t = [] then [] else (let (r, n) = DecodeRune t in r # runes (drop n t)))"
  by pat_completeness auto
termination
proof (relation "measure length")
  fix t :: string and r n x y
  assume "t \<noteq> []" "x = DecodeRune t" "(r, n) = x"
  then show "(drop n t, t) \<in> measure length" using DecodeRune_size [of t] by (auto dest: sym)
qed simp

declare runes.simps [simp del]

definition letter :: "nat \<Rightarrow> bool" where
  "letter b \<longleftrightarrow> 65 \<le> case_mask b \<and> case_mask b \<le> 90"

definition same_letter :: "nat \<Rightarrow> nat \<Rightarrow> bool" where
  "same_letter c r \<longleftrightarrow>
     r = c \<or> (letter c \<and> r < 128 \<and> case_mask r = case_mask c) \<or> (case_mask c = 75 \<and> r = kelvin) \<or>
     (case_mask c = 83 \<and> r = smallLongEss)"

definition fold_equal :: "string \<Rightarrow> string \<Rightarrow> bool" where
  "fold_equal s t \<longleftrightarrow> list_all2 same_letter (map byte s) (runes t)"

lemma case_mask_letter: "65 \<le> u \<Longrightarrow> u \<le> 90 \<Longrightarrow> case_mask c = u \<longleftrightarrow> c = u \<or> c = u + 32"
proof -
  assume u: "65 \<le> u" "u \<le> 90"
  have d: "u div 32 = 2" "(u + 32) div 32 = 3" using u by (auto intro!: div_nat_eqI)
  consider "c div 32 mod 2 = 0" | "c div 32 mod 2 = 1" by linarith
  then show ?thesis
  proof cases
    case 1
    then have "c \<noteq> u + 32" using d by auto
    then show ?thesis using 1 by (simp add: case_mask_def)
  next
    case 2
    then have "c \<noteq> u" "32 \<le> c" using d by (auto intro: ccontr)
    then show ?thesis using 2 by (auto simp: case_mask_def)
  qed
qed

lemma same_letter_case: "letter c \<Longrightarrow> case_mask c = u \<Longrightarrow> c = u \<or> c = u + 32"
  using case_mask_letter [of u c] by (simp add: letter_def)

lemma letter_iff: "letter b \<longleftrightarrow> (97 \<le> b \<and> b \<le> 122) \<or> (65 \<le> b \<and> b \<le> 90)"
  using case_mask_letter [of "case_mask b" b] case_mask_letter [of b b] case_mask_letter [of "b - 32" b]
  by (auto simp: letter_def)

lemma runes_Nil [simp]: "runes [] = []"
  by (simp add: runes.simps)

lemma runes_Cons: "runes (c # t) = fst (DecodeRune (c # t)) # runes (drop (snd (DecodeRune (c # t))) (c # t))"
  by (subst runes.simps) (simp add: case_prod_unfold Let_def del: DecodeRune.simps)

lemma runes_ascii: "byte c < RuneSelf \<Longrightarrow> runes (c # t) = byte c # runes t"
  by (simp add: runes_Cons RuneSelf_def)

lemma special_char:
  "byte c < 128 \<Longrightarrow> case_mask (byte c) = 75 \<longleftrightarrow> c = CHR ''k'' \<or> c = CHR ''K''"
  "byte c < 128 \<Longrightarrow> case_mask (byte c) = 83 \<longleftrightarrow> c = CHR ''s'' \<or> c = CHR ''S''"
proof -
  have "c = CHR ''k'' \<or> c = CHR ''K'' \<longleftrightarrow> byte c = byte (CHR ''k'') \<or> byte c = byte (CHR ''K'')"
    "c = CHR ''s'' \<or> c = CHR ''S'' \<longleftrightarrow> byte c = byte (CHR ''s'') \<or> byte c = byte (CHR ''S'')"
    by (simp_all only: of_char_eq_iff)
  then show "case_mask (byte c) = 75 \<longleftrightarrow> c = CHR ''k'' \<or> c = CHR ''K''"
    "case_mask (byte c) = 83 \<longleftrightarrow> c = CHR ''s'' \<or> c = CHR ''S''"
    using case_mask_letter [of 75 "byte c"] case_mask_letter [of 83 "byte c"] by auto
qed

lemma equalFoldRight_correct:
  "\<forall>c \<in> set s. byte c < 128 \<Longrightarrow> equalFoldRight s t = fold_equal s t"
proof (induction s t rule: equalFoldRight.induct)
  case (1 t)
  then show ?case by (cases t) (simp_all add: fold_equal_def runes_Cons del: DecodeRune.simps)
next
  case (2 sb s)
  then show ?case by (simp add: fold_equal_def)
next
  case (3 sb s tb t)
  have sb: "byte sb < 128" using 3 by simp
  show ?case
  proof (cases "byte tb < RuneSelf")
    case True
    have r: "runes (tb # t) = byte tb # runes t" by (rule runes_ascii [OF True])
    have tb: "byte tb < 128" "byte tb \<noteq> kelvin" "byte tb \<noteq> smallLongEss"
      using True by (auto simp: RuneSelf_def kelvin_def smallLongEss_def)
    have m: "same_letter (byte sb) (byte tb) \<longleftrightarrow>
        sb = tb \<or> (letter (byte sb) \<and> case_mask (byte sb) = case_mask (byte tb))"
      using tb by (auto simp: same_letter_def)
    have IH: "equalFoldRight s t = fold_equal s t" if "same_letter (byte sb) (byte tb)"
      using that 3 True unfolding m by (cases "sb = tb") (auto simp: letter_def Let_def)
    show ?thesis
      using True IH unfolding fold_equal_def r by (auto simp: m letter_def Let_def)
  next
    case False
    obtain r n where d: "DecodeRune (tb # t) = (r, n)" by (cases "DecodeRune (tb # t)")
    have r: "runes (tb # t) = r # runes (drop n (tb # t))" using d by (simp add: runes_Cons del: DecodeRune.simps)
    have hi: "0x80 \<le> r" using DecodeRune_high [of tb t] False d by (simp add: RuneSelf_def del: DecodeRune.simps)
    have m: "same_letter (byte sb) r \<longleftrightarrow>
        (sb = CHR ''k'' \<or> sb = CHR ''K'') \<and> r = kelvin \<or> (sb = CHR ''s'' \<or> sb = CHR ''S'') \<and> r = smallLongEss"
      using hi sb special_char [OF sb] by (auto simp: same_letter_def)
    have IH: "equalFoldRight s (drop n (tb # t)) = fold_equal s (drop n (tb # t))" if "same_letter (byte sb) r"
      using that 3 False d unfolding m
      by (auto simp del: DecodeRune.simps simp: kelvin_def smallLongEss_def)
    show ?thesis
      using False IH d unfolding fold_equal_def r
      by (auto simp: m kelvin_def smallLongEss_def simp del: DecodeRune.simps)
  qed
qed

text \<open>The cheaper versions agree with it on the keys they are chosen for.\<close>

definition special :: "char \<Rightarrow> bool" where
  "special c \<longleftrightarrow> case_mask (byte c) = 75 \<or> case_mask (byte c) = 83"

lemma ascii_correct:
  "\<forall>c \<in> set s. byte c < 128 \<and> \<not> special c \<Longrightarrow> asciiEqualFold s t = equalFoldRight s t"
proof (induction s arbitrary: t)
  case Nil
  then show ?case by (cases t) (simp_all add: asciiEqualFold_def)
next
  case (Cons b s)
  show ?case
  proof (cases t)
    case Nil
    then show ?thesis by (simp add: asciiEqualFold_def)
  next
    case (Cons c u)
    have IH: "(length s = length u \<and> ascii_bytes s u) = equalFoldRight s u"
      using Cons.IH [of u] Cons.prems by (auto simp: asciiEqualFold_def split: if_splits)
    have b: "byte b < 128" "\<not> special b" using Cons.prems by simp_all
    have sp: "b \<noteq> CHR ''k''" "b \<noteq> CHR ''K''" "b \<noteq> CHR ''s''" "b \<noteq> CHR ''S''"
      using b special_char [OF b(1)] by (auto simp: special_def)
    have high: "letter (byte b) \<Longrightarrow> \<not> byte c < RuneSelf \<Longrightarrow> case_mask (byte b) \<noteq> case_mask (byte c)"
      using same_letter_case [of "byte b" "case_mask (byte c)"] case_mask_letter [of "case_mask (byte b)" "byte c"] b(1)
      by (auto simp: letter_def RuneSelf_def)
    show ?thesis
      using IH sp high b(1) Cons
      by (auto simp: asciiEqualFold_def letter_iff [symmetric] letter_def RuneSelf_def Let_def
          simp del: DecodeRune.simps split: prod.splits)
  qed
qed

lemma letter_bytes_correct:
  "\<forall>c \<in> set s. letter (byte c) \<Longrightarrow> letter_bytes s t = ascii_bytes s t"
  by (induction s t rule: letter_bytes.induct) (auto simp: letter_iff [symmetric])

lemma simple_correct:
  "\<forall>c \<in> set s. letter (byte c) \<Longrightarrow> simpleLetterEqualFold s t = asciiEqualFold s t"
  by (simp add: simpleLetterEqualFold_def asciiEqualFold_def letter_bytes_correct)

lemma fold_scan_result:
  "\<forall>c \<in> set s. byte c < 128 \<Longrightarrow>
   fold_scan s nl sp =
     (if sp \<or> (\<exists>c \<in> set s. special c) then EqualFoldRight
      else if nl \<or> (\<exists>c \<in> set s. \<not> letter (byte c)) then AsciiEqualFold else SimpleLetterEqualFold)"
proof (induction s arbitrary: nl sp)
  case (Cons b s)
  have "letter (byte b) \<longleftrightarrow> \<not> (case_mask (byte b) < 65 \<or> 90 < case_mask (byte b))" by (auto simp: letter_def)
  moreover have "special b \<Longrightarrow> letter (byte b)" by (auto simp: special_def letter_def)
  ultimately show ?case
    using Cons by (auto simp: RuneSelf_def Let_def special_def)
qed simp

text \<open>C23: whichever comparison is chosen for a key, it is right for the key: for an ASCII key it holds
  exactly if the other text has the same letters up to case, the Kelvin sign and the long s included,
  and only a key with other bytes goes to \<open>bytes.EqualFold\<close>.\<close>

theorem foldFunc_correct:
  "call_fold F (foldFunc s) s t = (if \<forall>c \<in> set s. byte c < 128 then fold_equal s t else F s t)"
proof (cases "\<forall>c \<in> set s. byte c < 128")
  case True
  show ?thesis
    using fold_scan_result [OF True, of False False] equalFoldRight_correct [OF True, of t]
      ascii_correct [of s t] simple_correct [of s t] True
    by (auto simp: foldFunc_def split: if_splits)
next
  case False
  have "fold_scan s nl sp = BytesEqualFold" for nl sp
    using False by (induction s arbitrary: nl sp) (auto simp: RuneSelf_def Let_def)
  moreover have "\<not> (\<forall>c \<in> set s. byte c < 128)" using False .
  ultimately show ?thesis unfolding foldFunc_def by (simp only: call_fold.simps if_False)
qed

theorem foldFunc_correct_witness:
  "call_fold (\<lambda>_ _. False) (foldFunc ''Ks'') ''Ks'' ''kS''"
proof -
  have "fold_equal ''Ks'' ''kS''"
    by (simp add: fold_equal_def runes_ascii RuneSelf_def same_letter_def letter_def case_mask_def)
  then show ?thesis by (simp add: foldFunc_correct)
qed

end
