(* ===== verification/Json_Fields.thy ===== *)
theory Json_Fields
  imports Json_Names "HOL-Library.Multiset" "HOL-Library.Product_Lexorder" "HOL-Library.List_Lexorder"
begin

text \<open>
  The fields of a Go struct type as the JSON package sees them: \<open>isValidTag\<close>, \<open>typeByIndex\<close>, \<open>field\<close>,
  \<open>fillField\<close>, the orders \<open>byName\<close> and \<open>byIndex\<close>, \<open>typeFields\<close> and \<open>dominantField\<close> of
  \<open>common/json/encode.go\<close>. A Go type is a term of a data type; the declarations of the named types are an
  environment, and so are the tables of \<open>unicode.IsLetter\<close> and \<open>unicode.IsDigit\<close>.
\<close>

section \<open>Go types\<close>

text \<open>A field has its name, its package path (empty when it is exported), what \<open>Tag.Get("json")\<close> gives,
  whether it is embedded, and its type. \<open>TOther\<close> stands for the kinds that cannot be encoded.\<close>

datatype gtype =
  TBool | TInt nat | TUint nat | TUintptr | TFloat nat | TString | TInterface | TOther
| TStruct "gfield list" | TMap gtype gtype | TSlice gtype | TArray nat gtype | TPtr gtype | TNamed string
and gfield =
  GField (gf_name: string) (gf_pkgPath: string) (gf_json: string) (gf_anonymous: bool) (gf_type: gtype)

text \<open>What a named type is declared as (never a name again), which runes are letters or digits, and all the
  types there are in the program.\<close>

record type_env =
  te_under :: "string \<Rightarrow> gtype"
  te_letter :: "nat \<Rightarrow> bool"
  te_types :: "gtype list"

text \<open>\<open>Kind\<close>, with the constituents of the type.\<close>

definition kind_of :: "type_env \<Rightarrow> gtype \<Rightarrow> gtype" where
  "kind_of E t = (case t of TNamed n \<Rightarrow> te_under E n | _ \<Rightarrow> t)"

definition is_struct :: "type_env \<Rightarrow> gtype \<Rightarrow> bool" where
  "is_struct E t = (case kind_of E t of TStruct _ \<Rightarrow> True | _ \<Rightarrow> False)"

text \<open>A panic of \<open>reflect\<close> is \<^term>\<open>None\<close>.\<close>

definition struct_fields :: "type_env \<Rightarrow> gtype \<Rightarrow> gfield list option" where
  "struct_fields E t = (case kind_of E t of TStruct fs \<Rightarrow> Some fs | _ \<Rightarrow> None)"

definition type_name :: "gtype \<Rightarrow> string" where
  "type_name t = (case t of TNamed n \<Rightarrow> n | _ \<Rightarrow> [])"

definition tag_punctuation :: string where
  "tag_punctuation = ''!#$%&()*+-./:<=>?@[]^_{|}~ ''"

definition isValidTag :: "type_env \<Rightarrow> string \<Rightarrow> bool" where
  "isValidTag E s =
     (if s = [] then False
      else list_all (\<lambda>c. c \<in> set (map byte tag_punctuation) \<or> te_letter E c) (runes s))"

fun typeByIndex :: "type_env \<Rightarrow> gtype \<Rightarrow> nat list \<Rightarrow> gtype option" where
  "typeByIndex E t [] = Some t"
| "typeByIndex E t (i # is) =
     (let t = (case kind_of E t of TPtr t' \<Rightarrow> t' | _ \<Rightarrow> t) in
      case struct_fields E t of None \<Rightarrow> None
      | Some fs \<Rightarrow> if i < length fs then typeByIndex E (gf_type (fs ! i)) is else None)"

section \<open>Fields and their orders\<close>

record jfield =
  f_name :: string
  f_nameBytes :: string
  f_equalFold :: fold_fn
  f_tag :: bool
  f_index :: "nat list"
  f_typ :: gtype
  f_omitEmpty :: bool
  f_quoted :: bool

definition fillField :: "jfield \<Rightarrow> jfield" where
  "fillField f = f\<lparr>f_nameBytes := f_name f, f_equalFold := foldFunc (f_name f)\<rparr>"

text \<open>The loop of \<open>byIndex.Less\<close> over the rest of both index sequences.\<close>

fun index_less :: "nat list \<Rightarrow> nat list \<Rightarrow> bool" where
  "index_less [] ys = (0 < length ys)"
| "index_less (x # xs) [] = False"
| "index_less (x # xs) (y # ys) = (if x \<noteq> y then x < y else index_less xs ys)"

definition byIndex_Less :: "jfield \<Rightarrow> jfield \<Rightarrow> bool" where
  "byIndex_Less f g = index_less (f_index f) (f_index g)"

definition byName_Less :: "jfield \<Rightarrow> jfield \<Rightarrow> bool" where
  "byName_Less f g =
     (if f_name f \<noteq> f_name g then f_name f < f_name g
      else if length (f_index f) \<noteq> length (f_index g) then length (f_index f) < length (f_index g)
      else if f_tag f \<noteq> f_tag g then f_tag f
      else byIndex_Less f g)"

text \<open>\<open>sort.Sort\<close> with the order of its argument.\<close>

fun sort_insert :: "('a \<Rightarrow> 'a \<Rightarrow> bool) \<Rightarrow> 'a \<Rightarrow> 'a list \<Rightarrow> 'a list" where
  "sort_insert lt x [] = [x]"
| "sort_insert lt x (y # ys) = (if lt y x then y # sort_insert lt x ys else x # y # ys)"

definition sort_Sort :: "('a \<Rightarrow> 'a \<Rightarrow> bool) \<Rightarrow> 'a list \<Rightarrow> 'a list" where
  "sort_Sort lt xs = foldr (sort_insert lt) xs []"

section \<open>Finding the fields\<close>

text \<open>An unnamed pointer is followed.\<close>

definition strip :: "gtype \<Rightarrow> gtype" where
  "strip t = (case t of TPtr t' \<Rightarrow> t' | _ \<Rightarrow> t)"

type_synonym scan_state = "jfield list \<times> jfield list \<times> (gtype \<Rightarrow> nat)"

text \<open>One field \<open>sf\<close>, the \<open>i\<close>-th of the struct \<open>f\<close> that is explored: the fields found so far, the structs
  queued for the next level, and how often each of their types has been met.\<close>

definition scan_field ::
    "type_env \<Rightarrow> (gtype \<Rightarrow> nat) \<Rightarrow> jfield \<Rightarrow> nat \<Rightarrow> gfield \<Rightarrow> scan_state \<Rightarrow> scan_state option" where
  "scan_field E cnt f i sf = (\<lambda>(found, nxt, nextCount).
     if gf_pkgPath sf \<noteq> [] then Some (found, nxt, nextCount)
     else if gf_json sf = ''-'' then Some (found, nxt, nextCount)
     else Option.bind (parseTag (gf_json sf)) (\<lambda>(name, opts).
       let name = (if \<not> isValidTag E name then [] else name);
           index = f_index f @ [i];
           ft = strip (gf_type sf)
       in if name \<noteq> [] \<or> \<not> gf_anonymous sf \<or> \<not> is_struct E ft then
            Option.bind (Contains opts ''omitempty'') (\<lambda>omit.
            Option.bind (Contains opts ''string'') (\<lambda>quoted.
              let g = fillField \<lparr>f_name = (if name = [] then gf_name sf else name), f_nameBytes = [],
                        f_equalFold = BytesEqualFold, f_tag = (name \<noteq> []), f_index = index, f_typ = ft,
                        f_omitEmpty = omit, f_quoted = quoted\<rparr>
              in Some (found @ [g] @ (if cnt (f_typ f) > 1 then [g] else []), nxt, nextCount)))
          else
            (let nextCount = nextCount(ft := nextCount ft + 1);
                 g = fillField \<lparr>f_name = type_name ft, f_nameBytes = [], f_equalFold = BytesEqualFold,
                       f_tag = False, f_index = index, f_typ = ft, f_omitEmpty = False, f_quoted = False\<rparr>
             in Some (found, (if nextCount ft = 1 then nxt @ [g] else nxt), nextCount))))"

fun scan_struct ::
    "type_env \<Rightarrow> (gtype \<Rightarrow> nat) \<Rightarrow> jfield \<Rightarrow> nat \<Rightarrow> gfield list \<Rightarrow> scan_state \<Rightarrow> scan_state option" where
  "scan_struct E cnt f i [] st = Some st"
| "scan_struct E cnt f i (sf # sfs) st =
     Option.bind (scan_field E cnt f i sf st) (scan_struct E cnt f (Suc i) sfs)"

text \<open>One level of the search: the structs of \<open>current\<close> whose type has not been visited.\<close>

fun scan_level ::
    "type_env \<Rightarrow> (gtype \<Rightarrow> nat) \<Rightarrow> jfield list \<Rightarrow> gtype list \<Rightarrow> scan_state \<Rightarrow> (gtype list \<times> scan_state) option" where
  "scan_level E cnt [] visited st = Some (visited, st)"
| "scan_level E cnt (f # current) visited st =
     (if f_typ f \<in> set visited then scan_level E cnt current visited st
      else (case struct_fields E (f_typ f) of None \<Rightarrow> None
        | Some sfs \<Rightarrow>
            Option.bind (scan_struct E cnt f 0 sfs st) (scan_level E cnt current (f_typ f # visited))))"

text \<open>The levels; the recursion is bounded by fuel, one unit for a level.\<close>

fun find_fields ::
    "type_env \<Rightarrow> nat \<Rightarrow> jfield list \<Rightarrow> (gtype \<Rightarrow> nat) \<Rightarrow> gtype list \<Rightarrow> jfield list \<Rightarrow> jfield list option" where
  "find_fields E n nxt nextCount visited found =
     (if nxt = [] then Some found
      else (case n of 0 \<Rightarrow> None
        | Suc n \<Rightarrow>
           Option.bind (scan_level E nextCount nxt visited (found, [], \<lambda>_. 0)) (\<lambda>(visited, found, nxt, nextCount).
             find_fields E n nxt nextCount visited found)))"

declare find_fields.simps [simp del]

definition root_field :: "gtype \<Rightarrow> jfield" where
  "root_field t =
     \<lparr>f_name = [], f_nameBytes = [], f_equalFold = BytesEqualFold, f_tag = False, f_index = [], f_typ = t,
      f_omitEmpty = False, f_quoted = False\<rparr>"

section \<open>Choosing among fields of one name\<close>

text \<open>The loop of \<open>dominantField\<close>: \<open>i\<close> is the index of the field at hand, \<open>pre\<close> the fields before it;
  the result is the truncated slice and the index of the tagged field, \<^term>\<open>None\<close> a conflict.\<close>

fun dominant_loop ::
    "nat \<Rightarrow> nat \<Rightarrow> jfield list \<Rightarrow> jfield list \<Rightarrow> nat option \<Rightarrow> (jfield list \<times> nat option) option" where
  "dominant_loop len i pre [] tagged = Some (pre, tagged)"
| "dominant_loop len i pre (f # fs) tagged =
     (if length (f_index f) > len then Some (pre, tagged)
      else if f_tag f then
        (if tagged \<noteq> None then None else dominant_loop len (Suc i) (pre @ [f]) fs (Some i))
      else dominant_loop len (Suc i) (pre @ [f]) fs tagged)"

definition dominantField :: "jfield list \<Rightarrow> jfield option" where
  "dominantField same =
     (case dominant_loop (length (f_index (same ! 0))) 0 [] same None of
        None \<Rightarrow> None
      | Some (fs, Some i) \<Rightarrow> Some (fs ! i)
      | Some (fs, None) \<Rightarrow> if length fs > 1 then None else Some (fs ! 0))"

text \<open>The loop over the names of the sorted fields.\<close>

function pick_names :: "jfield list \<Rightarrow> jfield list" where
  "pick_names [] = []"
| "pick_names (f # fs) =
     (let same = takeWhile (\<lambda>g. f_name g = f_name f) fs; rest = dropWhile (\<lambda>g. f_name g = f_name f) fs in
      (if same = [] then [f] else (case dominantField (f # same) of Some g \<Rightarrow> [g] | None \<Rightarrow> [])) @ pick_names rest)"
  by pat_completeness auto

termination
  by (relation "measure length") (auto simp: less_Suc_eq_le length_dropWhile_le)

declare pick_names.simps(2) [simp del]

definition typeFields :: "type_env \<Rightarrow> nat \<Rightarrow> gtype \<Rightarrow> jfield list option" where
  "typeFields E n t =
     map_option (\<lambda>found. sort_Sort byIndex_Less (pick_names (sort_Sort byName_Less found)))
       (find_fields E n [root_field t] (\<lambda>_. 0) [] [])"

section \<open>The orders\<close>

lemma index_less_eq: "index_less xs ys \<longleftrightarrow> xs < ys"
proof (induction xs ys rule: index_less.induct)
  case (1 ys)
  then show ?case by (cases ys) simp_all
qed auto

text \<open>The key by which \<open>byName\<close> sorts: the name, the depth, tagged before untagged, the index sequence.\<close>

definition name_key :: "jfield \<Rightarrow> string \<times> nat \<times> bool \<times> nat list" where
  "name_key f = (f_name f, length (f_index f), \<not> f_tag f, f_index f)"

lemma byName_Less_key: "byName_Less f g \<longleftrightarrow> name_key f < name_key g"
  by (auto simp: byName_Less_def name_key_def less_prod_def' byIndex_Less_def index_less_eq)

lemma byIndex_Less_key: "byIndex_Less f g \<longleftrightarrow> f_index f < f_index g"
  by (simp add: byIndex_Less_def index_less_eq)

lemma sort_insert_key: "(\<And>x y. lt x y \<longleftrightarrow> key x < key y) \<Longrightarrow> sort_insert lt x ys = insort_key key x ys"
  by (induction ys) (auto simp: not_le)

lemma sort_Sort_key: "(\<And>x y. lt x y \<longleftrightarrow> key x < key y) \<Longrightarrow> sort_Sort lt xs = sort_key key xs"
  unfolding sort_Sort_def sort_key_def by (induction xs) (simp_all add: sort_insert_key)

lemma sorts_by_key: "sort_Sort byName_Less = sort_key name_key" "sort_Sort byIndex_Less = sort_key f_index"
  using sort_Sort_key [of byName_Less name_key] sort_Sort_key [of byIndex_Less f_index] byName_Less_key byIndex_Less_key
  by auto

section \<open>The dominant field\<close>

text \<open>Go's rule for embedded fields, changed by tags: of the fields of one name those of the least depth
  count; of these the tagged one, if there is just one, or the only one, if none is tagged.\<close>

definition rivals :: "jfield multiset \<Rightarrow> jfield \<Rightarrow> jfield multiset" where
  "rivals F g = {#f \<in># F. f_name f = f_name g#}"

definition shallowest :: "jfield multiset \<Rightarrow> jfield multiset" where
  "shallowest F = {#f \<in># F. \<forall>h \<in># F. length (f_index f) \<le> length (f_index h)#}"

definition prevails :: "jfield multiset \<Rightarrow> jfield \<Rightarrow> bool" where
  "prevails F g \<longleftrightarrow>
     (let S = shallowest F; T = {#f \<in># S. f_tag f#} in T = {#g#} \<or> (T = {#} \<and> S = {#g#}))"

definition dominates :: "jfield multiset \<Rightarrow> jfield \<Rightarrow> bool" where
  "dominates F g \<longleftrightarrow> prevails (rivals F g) g"

abbreviation within :: "nat \<Rightarrow> jfield list \<Rightarrow> jfield list" where
  "within len fs \<equiv> takeWhile (\<lambda>f. length (f_index f) \<le> len) fs"

lemma dominant_loop_tagged:
  "dominant_loop len i pre fs (Some k) =
     (if filter f_tag (within len fs) = [] then Some (pre @ within len fs, Some k) else None)"
  by (induction fs arbitrary: i pre) (simp_all add: not_less)

lemma dominant_loop_untagged:
  "filter f_tag (within len fs) = [] \<Longrightarrow> dominant_loop len i pre fs None = Some (pre @ within len fs, None)"
  by (induction fs arbitrary: i pre) (auto simp: not_less split: if_splits)

lemma dominant_loop_one:
  "filter f_tag (within len fs) = [g] \<Longrightarrow> i = length pre \<Longrightarrow>
     \<exists>k. dominant_loop len i pre fs None = Some (pre @ within len fs, Some k) \<and> (pre @ within len fs) ! k = g"
proof (induction fs arbitrary: i pre)
  case (Cons f fs)
  show ?case
  proof (cases "f_tag f")
    case True
    then have "length (f_index f) \<le> len" "f = g" "filter f_tag (within len fs) = []"
      using Cons.prems(1) by (auto split: if_splits)
    then show ?thesis using Cons.prems(2) True by (simp add: dominant_loop_tagged nth_append)
  next
    case False
    then have "length (f_index f) \<le> len" "filter f_tag (within len fs) = [g]"
      using Cons.prems(1) by (auto split: if_splits)
    then show ?thesis using Cons.IH [of "Suc i" "pre @ [f]"] Cons.prems(2) False by (simp add: not_less)
  qed
qed simp

lemma dominant_loop_conflict:
  "length (filter f_tag (within len fs)) > 1 \<Longrightarrow> dominant_loop len i pre fs None = None"
  by (induction fs arbitrary: i pre) (auto simp: not_less dominant_loop_tagged split: if_splits)

text \<open>What \<open>dominantField\<close> returns.\<close>

lemma dominantField_eq:
  assumes "fs \<noteq> []"
  defines "q \<equiv> within (length (f_index (hd fs))) fs"
  shows "dominantField fs = Some g \<longleftrightarrow> filter f_tag q = [g] \<or> (filter f_tag q = [] \<and> q = [g])"
proof -
  have q: "q \<noteq> []" using assms by (cases fs) auto
  have h: "fs ! 0 = hd fs" using assms(1) by (simp add: hd_conv_nth)
  consider "filter f_tag q = []" | h where "filter f_tag q = [h]" | "length (filter f_tag q) > 1"
    by (cases "filter f_tag q" rule: list.exhaust; cases "tl (filter f_tag q)") auto
  then show ?thesis
  proof cases
    case 1
    obtain a as where "q = a # as" using q by (cases q) auto
    then show ?thesis
      using dominant_loop_untagged [OF 1 [unfolded q_def], of 0 "[]"] 1
      unfolding dominantField_def h q_def [symmetric] by simp
  next
    case (2 h)
    then show ?thesis
      using dominant_loop_one [OF 2 [unfolded q_def], of 0 "[]"]
      unfolding dominantField_def \<open>fs ! 0 = hd fs\<close> q_def [symmetric] by auto
  next
    case 3
    then show ?thesis
      using dominant_loop_conflict [of "length (f_index (hd fs))" fs 0 "[]"]
      unfolding dominantField_def h q_def [symmetric] by auto
  qed
qed

text \<open>On a list that starts with its shallowest field the two notions of depth agree.\<close>

lemma takeWhile_sorted:
  assumes "sorted (map d fs)"
  shows "takeWhile (\<lambda>f. d f \<le> (k :: nat)) fs = filter (\<lambda>f. d f \<le> k) fs"
  using assms
proof (induction fs)
  case (Cons f fs)
  have "filter (\<lambda>f. d f \<le> k) fs = []" if "\<not> d f \<le> k"
    using that Cons.prems by (force simp: filter_empty_conv)
  then show ?case using Cons by simp
qed simp

lemma dominantField_prevails:
  assumes "fs \<noteq> []" "sorted (map (\<lambda>f. length (f_index f)) fs)"
  shows "dominantField fs = Some g \<longleftrightarrow> prevails (mset fs) g"
proof -
  let ?d = "\<lambda>f. length (f_index f)"
  define q where "q = takeWhile (\<lambda>f. ?d f \<le> ?d (hd fs)) fs"
  obtain f gs where fs: "fs = f # gs" using assms(1) by (cases fs) auto
  have "q = filter (\<lambda>f. ?d f \<le> ?d (hd fs)) fs" unfolding q_def by (rule takeWhile_sorted [OF assms(2)])
  also have "\<dots> = filter (\<lambda>f. \<forall>h \<in> set fs. ?d f \<le> ?d h) fs"
    by (rule filter_cong) (use assms(2) fs in force)+
  finally have S: "mset q = shallowest (mset fs)" by (simp add: shallowest_def)
  have single: "mset xs = {#g#} \<longleftrightarrow> xs = [g]" "mset xs = {#} \<longleftrightarrow> xs = []" for xs by simp_all
  show ?thesis
    unfolding dominantField_eq [OF assms(1)] q_def [symmetric] prevails_def S [symmetric] Let_def mset_filter [symmetric] single ..
qed

lemma prevails_single: "prevails {#f#} g \<longleftrightarrow> g = f"
  by (auto simp: prevails_def shallowest_def Let_def)

lemma prevails_member:
  assumes "prevails F g"
  shows "g \<in># F"
proof -
  have "g \<in># shallowest F"
    using assms unfolding prevails_def Let_def
    by (metis (no_types, lifting) filter_mset_eq_conv mem_Collect_eq set_mset_filter union_single_eq_member)
  then show ?thesis by (simp add: shallowest_def)
qed

text \<open>The fields of one name stand together in the sorted list.\<close>

lemma sorted_name_key:
  assumes "sorted (map name_key fs)"
  shows "sorted (map f_name fs)"
    and "\<forall>f \<in> set fs. \<forall>g \<in> set fs. f_name f = f_name g \<longrightarrow> name_key f \<le> name_key g \<longrightarrow>
      length (f_index f) \<le> length (f_index g)"
proof -
  have "sorted_wrt (\<lambda>f g. f_name f \<le> f_name g) fs"
    using assms unfolding sorted_map
    by (rule sorted_wrt_mono_rel [rotated]) (auto simp: name_key_def less_eq_prod_simp split: if_splits)
  then show "sorted (map f_name fs)" by (simp add: sorted_map)
qed (auto simp: name_key_def less_eq_prod_simp)

lemma sorted_depths:
  assumes "sorted (map name_key fs)" "\<forall>f \<in> set fs. f_name f = n"
  shows "sorted (map (\<lambda>f. length (f_index f)) fs)"
  using assms(1) unfolding sorted_map
  by (rule sorted_wrt_mono_rel [rotated]) (use assms(2) in \<open>auto simp: name_key_def less_eq_prod_simp\<close>)

lemma name_run:
  assumes "sorted (map f_name (f # fs))"
  shows "takeWhile (\<lambda>g. f_name g = f_name f) fs = filter (\<lambda>g. f_name g = f_name f) fs"
    and "dropWhile (\<lambda>g. f_name g = f_name f) fs = filter (\<lambda>g. f_name g \<noteq> f_name f) fs"
  using assms
proof (induction fs)
  case (Cons g fs)
  case 1
  then have s: "sorted (map f_name (f # fs))" by simp
  have "f_name h \<noteq> f_name f" if "f_name g \<noteq> f_name f" "h \<in> set fs" for h
    using that 1 by force
  then show ?case using Cons.IH(1) [OF s] by (auto simp: filter_empty_conv)
next
  case (Cons g fs)
  case 2
  then have s: "sorted (map f_name (f # fs))" by simp
  have "f_name h \<noteq> f_name f" if "f_name g \<noteq> f_name f" "h \<in> set fs" for h
    using that 2 by force
  then show ?case using Cons.IH(2) [OF s] by (auto simp: filter_id_conv)
qed simp_all

lemma rivals_filter: "rivals (mset fs) g = mset (filter (\<lambda>f. f_name f = f_name g) fs)"
  by (simp add: rivals_def)

lemma pick_names_spec:
  assumes "sorted (map name_key fs)"
  shows "set (pick_names fs) = {g. dominates (mset fs) g} \<and> sorted (map f_name (pick_names fs)) \<and>
    distinct (map f_name (pick_names fs))"
  using assms
proof (induction fs rule: pick_names.induct)
  case (2 f fs)
  let ?same = "filter (\<lambda>g. f_name g = f_name f) fs" and ?rest = "filter (\<lambda>g. f_name g \<noteq> f_name f) fs"
  have sn: "sorted (map f_name (f # fs))" using sorted_name_key(1) [OF 2(2)] .
  note run = name_run [OF sn]
  have sr: "sorted (map name_key ?rest)" "sorted (map name_key (f # ?same))"
    using 2(2) by (auto simp: sorted_wrt_filter sorted_map)
  have IH: "set (pick_names ?rest) = {g. dominates (mset ?rest) g}" "sorted (map f_name (pick_names ?rest))"
      "distinct (map f_name (pick_names ?rest))"
    using 2(1) [OF refl refl] sr(1) unfolding run by auto
  have dom: "dominates (mset (f # fs)) g \<longleftrightarrow>
      (if f_name g = f_name f then prevails (mset (f # ?same)) g else dominates (mset ?rest) g)" for g
  proof (cases "f_name g = f_name f")
    case True
    then show ?thesis by (simp add: dominates_def rivals_def)
  next
    case False
    then have "filter (\<lambda>h. f_name h = f_name g) (f # fs) = filter (\<lambda>h. f_name h = f_name g) ?rest"
      by (auto intro: filter_cong)
    then show ?thesis using False by (simp only: dominates_def rivals_filter if_False)
  qed
  define head where "head = (if ?same = [] then [f] else (case dominantField (f # ?same) of Some g \<Rightarrow> [g] | None \<Rightarrow> []))"
  have dm: "dominantField (f # ?same) = Some g \<longleftrightarrow> prevails (mset (f # ?same)) g" for g
    by (rule dominantField_prevails) (use sorted_depths [OF sr(2), of "f_name f"] in auto)
  have head: "set head = {g. prevails (mset (f # ?same)) g}" "length head \<le> 1"
  proof -
    have "set head = {g. prevails (mset (f # ?same)) g} \<and> length head \<le> 1"
    proof (cases "?same = []")
      case True
      then show ?thesis unfolding head_def by (simp add: prevails_single)
    next
      case False
      then show ?thesis unfolding head_def dm [symmetric] by (cases "dominantField (f # ?same)") simp_all
    qed
    then show "set head = {g. prevails (mset (f # ?same)) g}" "length head \<le> 1" by simp_all
  qed
  have hn: "f_name g = f_name f" if "prevails (mset (f # ?same)) g" for g
    using prevails_member [OF that] by auto
  have rn: "f_name f < f_name g" if "dominates (mset ?rest) g" for g
    using prevails_member [OF that [unfolded dominates_def]] sn by (auto simp: rivals_def order_less_le)
  have p: "pick_names (f # fs) = head @ pick_names ?rest"
    unfolding pick_names.simps(2) run head_def by (simp add: Let_def)
  have "g \<in> set (pick_names (f # fs)) \<longleftrightarrow> dominates (mset (f # fs)) g" for g
  proof (cases "f_name g = f_name f")
    case True
    have "g \<notin> set (pick_names ?rest)"
    proof
      assume "g \<in> set (pick_names ?rest)"
      then have "f_name f < f_name g" using rn IH(1) by simp
      then show False using True by simp
    qed
    then show ?thesis unfolding p dom using True head(1) by simp
  next
    case False
    then have "g \<notin> set head" using hn head(1) by blast
    then show ?thesis unfolding p dom using False IH(1) by simp
  qed
  then have "set (pick_names (f # fs)) = {g. dominates (mset (f # fs)) g}" by blast
  moreover have "sorted (map f_name head)" "distinct (map f_name head)"
    using head(2) by (cases head; simp)+
  moreover have lt: "f_name x < f_name y" if "x \<in> set head" "y \<in> set (pick_names ?rest)" for x y
  proof -
    have "f_name x = f_name f" using that(1) hn head(1) by blast
    then show ?thesis using rn [of y] that(2) IH(1) by simp
  qed
  then have "\<forall>x \<in> f_name ` set head. \<forall>y \<in> f_name ` set (pick_names ?rest). x \<le> y"
    "f_name ` set head \<inter> f_name ` set (pick_names ?rest) = {}"
    by (fastforce intro: less_imp_le)+
  ultimately show ?case
    using IH(2,3) by (simp add: p sorted_append)
qed (simp add: dominates_def prevails_def rivals_def shallowest_def)

section \<open>The search ends and finds paths\<close>

text \<open>The types are closed under the parts of a type; the structs among them.\<close>

fun components :: "gtype \<Rightarrow> gtype set" where
  "components (TStruct fs) = gf_type ` set fs"
| "components (TMap k e) = {e}"
| "components (TSlice e) = {e}"
| "components (TArray n e) = {e}"
| "components (TPtr e) = {e}"
| "components _ = {}"

definition types_closed :: "type_env \<Rightarrow> bool" where
  "types_closed E \<longleftrightarrow> (\<forall>t \<in> set (te_types E). components (kind_of E t) \<subseteq> set (te_types E))"

definition structs :: "type_env \<Rightarrow> gtype set" where
  "structs E = {t \<in> set (te_types E). is_struct E t}"

text \<open>A field or a queued struct lies at the end of its index sequence.\<close>

definition at_path :: "type_env \<Rightarrow> gtype \<Rightarrow> jfield \<Rightarrow> bool" where
  "at_path E t f \<longleftrightarrow> (\<exists>t'. typeByIndex E t (f_index f) = Some t' \<and> f_typ f = strip t')"

definition queue_ok :: "type_env \<Rightarrow> gtype \<Rightarrow> jfield \<Rightarrow> bool" where
  "queue_ok E t f \<longleftrightarrow> f_typ f \<in> structs E \<and> at_path E t f"

definition found_ok :: "type_env \<Rightarrow> gtype \<Rightarrow> jfield \<Rightarrow> bool" where
  "found_ok E t f \<longleftrightarrow> at_path E t f \<and> f_index f \<noteq> []"

fun state_ok :: "type_env \<Rightarrow> gtype \<Rightarrow> scan_state \<Rightarrow> bool" where
  "state_ok E t (found, nxt, nc) \<longleftrightarrow> (\<forall>f \<in> set found. found_ok E t f) \<and> (\<forall>f \<in> set nxt. queue_ok E t f)"

lemma struct_fields_kind: "struct_fields E t = Some fs \<longleftrightarrow> kind_of E t = TStruct fs"
  by (simp add: struct_fields_def split: gtype.splits)

lemma is_struct_fields: "is_struct E t \<longleftrightarrow> (\<exists>fs. struct_fields E t = Some fs)"
  by (simp add: struct_fields_def is_struct_def split: gtype.splits)

lemma typeByIndex_append:
  "typeByIndex E t (xs @ ys) = Option.bind (typeByIndex E t xs) (\<lambda>t'. typeByIndex E t' ys)"
  by (induction xs arbitrary: t) (auto simp: Let_def split: option.splits)

lemma typeByIndex_field:
  assumes "struct_fields E (strip t) = Some fs" "i < length fs"
  shows "typeByIndex E t [i] = Some (gf_type (fs ! i))"
proof -
  have "(case kind_of E t of TPtr t' \<Rightarrow> t' | _ \<Rightarrow> t) = strip t"
    using assms(1) by (cases t) (auto simp: strip_def kind_of_def struct_fields_def split: gtype.splits)
  then show ?thesis using assms by simp
qed

lemma at_path_field:
  assumes "at_path E t f" "struct_fields E (f_typ f) = Some fs" "i < length fs"
    and "f_index g = f_index f @ [i]" "f_typ g = strip (gf_type (fs ! i))"
  shows "at_path E t g"
proof -
  obtain t' where "typeByIndex E t (f_index f) = Some t'" "f_typ f = strip t'"
    using assms(1) by (auto simp: at_path_def)
  then show ?thesis using assms typeByIndex_field [of E t' fs i]
    by (simp add: at_path_def typeByIndex_append)
qed

lemma fillField_simps [simp]:
  "f_name (fillField f) = f_name f" "f_tag (fillField f) = f_tag f" "f_index (fillField f) = f_index f"
  "f_typ (fillField f) = f_typ f" "f_omitEmpty (fillField f) = f_omitEmpty f" "f_quoted (fillField f) = f_quoted f"
  by (simp_all add: fillField_def)

lemma tag_total: "\<exists>name opts. parseTag tag = Some (name, opts)" "opt \<noteq> [] \<Longrightarrow> \<exists>b. Contains opts opt = Some b"
  using tag_options [of "''x''" tag] by (auto simp: Contains_def Contains_loop_split)

lemma strip_member:
  assumes "types_closed E" "t \<in> set (te_types E)"
  shows "strip t \<in> set (te_types E)"
proof (cases t)
  case (TPtr u)
  then show ?thesis using assms bspec [OF assms(1) [unfolded types_closed_def] assms(2)]
    by (simp add: strip_def kind_of_def)
qed (use assms in \<open>simp_all add: strip_def\<close>)

lemma struct_closed:
  assumes "types_closed E" "f_typ f \<in> structs E" "struct_fields E (f_typ f) = Some fs" "i < length fs"
    and "is_struct E (strip (gf_type (fs ! i)))"
  shows "strip (gf_type (fs ! i)) \<in> structs E"
proof -
  have "gf_type (fs ! i) \<in> set (te_types E)"
    using assms(1-4) unfolding types_closed_def structs_def struct_fields_kind by force
  then have "strip (gf_type (fs ! i)) \<in> set (te_types E)"
    by (rule strip_member [OF assms(1)])
  then show ?thesis using assms(5) by (simp add: structs_def)
qed

lemma scan_field_ok:
  assumes f: "queue_ok E t f" and fs: "struct_fields E (f_typ f) = Some fs" "i < length fs"
    and U: "types_closed E" and st: "state_ok E t st"
  shows "\<exists>st'. scan_field E cnt f i (fs ! i) st = Some st' \<and> state_ok E t st'"
proof -
  obtain found nxt nc where s: "st = (found, nxt, nc)" by (cases st)
  obtain name opts where tag: "parseTag (gf_json (fs ! i)) = Some (name, opts)" using tag_total(1) by blast
  obtain om q where opts: "Contains opts ''omitempty'' = Some om" "Contains opts ''string'' = Some q"
    using tag_total(2) [of "''omitempty''" opts] tag_total(2) [of "''string''" opts] by auto
  have p: "found_ok E t g" if "f_index g = f_index f @ [i]" "f_typ g = strip (gf_type (fs ! i))" for g
    using at_path_field [OF _ fs that] f that(1) by (simp add: queue_ok_def found_ok_def)
  have u: "is_struct E (strip (gf_type (fs ! i))) \<Longrightarrow> strip (gf_type (fs ! i)) \<in> structs E"
    using struct_closed [OF U _ fs] f by (simp add: queue_ok_def)
  show ?thesis
    using st s tag opts p u unfolding scan_field_def by (auto simp: Let_def queue_ok_def found_ok_def)
qed

lemma scan_struct_ok:
  assumes f: "queue_ok E t f" and fs: "struct_fields E (f_typ f) = Some fs" and U: "types_closed E"
  shows "i \<le> length fs \<Longrightarrow> state_ok E t st \<Longrightarrow>
    \<exists>st'. scan_struct E cnt f i (drop i fs) st = Some st' \<and> state_ok E t st'"
proof (induction "length fs - i" arbitrary: i st)
  case (Suc k)
  then have i: "i < length fs" by simp
  obtain st' where st': "scan_field E cnt f i (fs ! i) st = Some st'" "state_ok E t st'"
    using scan_field_ok [OF f fs i U Suc.prems(2)] by blast
  obtain st'' where "scan_struct E cnt f (Suc i) (drop (Suc i) fs) st' = Some st''" "state_ok E t st''"
    using Suc.hyps(1) [OF _ _ st'(2)] Suc.hyps(2) i by (metis Suc_diff_Suc Suc_inject Suc_leI)
  then show ?case using st'(1) i by (simp add: Cons_nth_drop_Suc [symmetric])
qed simp

text \<open>A level either visits a new type or queues nothing.\<close>

lemma scan_level_ok:
  assumes U: "types_closed E"
  shows "\<forall>f \<in> set current. queue_ok E t f \<Longrightarrow> state_ok E t st \<Longrightarrow> set visited \<subseteq> structs E \<Longrightarrow>
    \<exists>visited' st'. scan_level E cnt current visited st = Some (visited', st') \<and> state_ok E t st' \<and>
      set visited \<subseteq> set visited' \<and> set visited' \<subseteq> structs E \<and> (set visited' = set visited \<longrightarrow> st' = st)"
proof (induction current arbitrary: visited st)
  case (Cons f current)
  show ?case
  proof (cases "f_typ f \<in> set visited")
    case True
    then show ?thesis using Cons by simp
  next
    case False
    have f: "queue_ok E t f" "f_typ f \<in> structs E" using Cons.prems(1) by (auto simp: queue_ok_def)
    then obtain fs where fs: "struct_fields E (f_typ f) = Some fs" by (auto simp: structs_def is_struct_fields)
    obtain st1 where st1: "scan_struct E cnt f 0 fs st = Some st1" "state_ok E t st1"
      using scan_struct_ok [OF f(1) fs U le0 Cons.prems(2)] drop0 by metis
    obtain visited' st' where "scan_level E cnt current (f_typ f # visited) st1 = Some (visited', st')"
        "state_ok E t st'" "set (f_typ f # visited) \<subseteq> set visited'" "set visited' \<subseteq> structs E"
      using Cons.IH [of st1 "f_typ f # visited"] Cons.prems st1(2) f(2) by auto
    then show ?thesis using False fs st1(1) by auto
  qed
qed simp

lemma find_fields_ok:
  assumes U: "types_closed E"
  shows "\<forall>f \<in> set nxt. queue_ok E t f \<Longrightarrow> \<forall>f \<in> set found. found_ok E t f \<Longrightarrow> set visited \<subseteq> structs E \<Longrightarrow>
    nxt = [] \<or> card (structs E - set visited) < n \<Longrightarrow>
    \<exists>found'. find_fields E n nxt nc visited found = Some found' \<and> (\<forall>f \<in> set found'. found_ok E t f)"
proof (induction n arbitrary: nxt nc visited found)
  case 0
  then show ?case by (simp add: find_fields.simps)
next
  case (Suc n)
  show ?case
  proof (cases "nxt = []")
    case True
    then show ?thesis using Suc.prems(2) by (simp add: find_fields.simps)
  next
    case False
    obtain visited' found' nxt' nc' where l: "scan_level E nc nxt visited (found, [], \<lambda>_. 0) = Some (visited', found', nxt', nc')"
        "state_ok E t (found', nxt', nc')" "set visited \<subseteq> set visited'" "set visited' \<subseteq> structs E"
        "set visited' = set visited \<longrightarrow> (found', nxt', nc') = (found, [], \<lambda>_. 0)"
    proof -
      have "state_ok E t (found, [], \<lambda>_. 0)" using Suc.prems(2) by simp
      then obtain v st where "scan_level E nc nxt visited (found, [], \<lambda>_. 0) = Some (v, st)" "state_ok E t st"
          "set visited \<subseteq> set v" "set v \<subseteq> structs E" "set v = set visited \<longrightarrow> st = (found, [], \<lambda>_. 0)"
        using scan_level_ok [OF U Suc.prems(1) _ Suc.prems(3)] by metis
      then show thesis using that by (cases st) simp
    qed
    have "nxt' = [] \<or> card (structs E - set visited') < n"
    proof (cases "set visited' = set visited")
      case False
      then have "structs E - set visited' \<subset> structs E - set visited" using l(3,4) by blast
      then have "card (structs E - set visited') < card (structs E - set visited)" by (intro psubset_card_mono) (auto simp: structs_def)
      then show ?thesis using Suc.prems(4) \<open>nxt \<noteq> []\<close> by simp
    qed (use l(5) in simp)
    then obtain r where "find_fields E n nxt' nc' visited' found' = Some r" "\<forall>f \<in> set r. found_ok E t f"
      using Suc.IH [of nxt' found' visited' nc'] l(2,4) by auto
    then show ?thesis using l(1) False by (subst find_fields.simps) simp
  qed
qed

lemma find_fields_ends:
  assumes "types_closed E" "t \<in> structs E"
  obtains found where "find_fields E (Suc (length (te_types E))) [root_field t] (\<lambda>_. 0) [] [] = Some found"
    "\<forall>f \<in> set found. found_ok E t f"
proof -
  obtain fs where "struct_fields E t = Some fs" using assms(2) by (auto simp: structs_def is_struct_fields)
  then have "strip t = t" by (cases t) (auto simp: strip_def kind_of_def struct_fields_def)
  then have q: "queue_ok E t (root_field t)" using assms(2) by (simp add: queue_ok_def at_path_def root_field_def)
  have "card (structs E) \<le> card (set (te_types E))" by (rule card_mono) (auto simp: structs_def)
  then have "card (structs E) < Suc (length (te_types E))" using card_length [of "te_types E"] by simp
  then show thesis
    using find_fields_ok [OF assms(1), of "[root_field t]" t "[]" "[]" "Suc (length (te_types E))" "\<lambda>_. 0"] q that by auto
qed

text \<open>The fields that are kept.\<close>

lemma typeFields_kept:
  assumes "types_closed E" "t \<in> structs E"
  obtains found out where "find_fields E (Suc (length (te_types E))) [root_field t] (\<lambda>_. 0) [] [] = Some found"
    "typeFields E (Suc (length (te_types E))) t = Some out" "\<forall>f \<in> set out. found_ok E t f"
    "set out = {g. dominates (mset found) g}" "distinct (map f_name out)" "sorted (map f_index out)"
proof -
  obtain found where found: "find_fields E (Suc (length (te_types E))) [root_field t] (\<lambda>_. 0) [] [] = Some found"
      "\<forall>f \<in> set found. found_ok E t f"
    by (rule find_fields_ends [OF assms])
  let ?out = "pick_names (sort_key name_key found)"
  have out: "set ?out = {g. dominates (mset found) g}" "distinct (map f_name ?out)"
    using pick_names_spec [of "sort_key name_key found"] by simp_all
  have "f \<in># mset found" if "dominates (mset found) f" for f
    using prevails_member [OF that [unfolded dominates_def]] by (simp add: rivals_def)
  then have "\<forall>f \<in> set ?out. found_ok E t f" using out(1) found(2) by auto
  moreover have "typeFields E (Suc (length (te_types E))) t = Some (sort_key f_index ?out)"
    using found(1) by (simp add: typeFields_def sorts_by_key)
  ultimately show thesis using that [OF found(1)] out by (simp add: distinct_map)
qed

text \<open>C31: for all types that embed each other however they like, the search of a struct ends after at most one
  level more than there are types. Of the fields it finds exactly those are kept that dominate the others of
  their name; each lies where its index sequence says, no two have the same name, and they stand in the order
  of their declaration.\<close>

theorem typeFields_dominant:
  assumes "types_closed E" "t \<in> structs E"
  shows "\<exists>found out. find_fields E (Suc (length (te_types E))) [root_field t] (\<lambda>_. 0) [] [] = Some found \<and>
    typeFields E (Suc (length (te_types E))) t = Some out \<and> (\<forall>f \<in> set out. found_ok E t f) \<and>
    set out = {g. dominates (mset found) g} \<and> distinct (map f_name out) \<and> sorted (map f_index out)"
  by (rule typeFields_kept [OF assms]) blast

text \<open>A struct that embeds another, with a name in both.\<close>

definition sample_types :: type_env where
  "sample_types =
     \<lparr>te_under = (\<lambda>n.
        if n = ''Base'' then TStruct [GField ''Name'' [] [] False TString, GField ''ID'' [] ''id'' False (TInt 64)]
        else if n = ''Point''
        then TStruct [GField ''X'' [] ''x,omitempty'' False (TInt 64), GField ''ID'' [] ''id'' False (TUint 8),
                      GField ''Base'' [] [] True (TPtr (TNamed ''Base''))]
        else TOther),
      te_letter = (\<lambda>_. True),
      te_types = [TNamed ''Point'', TNamed ''Base'', TPtr (TNamed ''Base''), TInt 64, TUint 8, TString]\<rparr>"

lemma sample_types_closed: "types_closed sample_types" "TNamed ''Point'' \<in> structs sample_types"
  by (simp_all add: types_closed_def structs_def sample_types_def kind_of_def is_struct_def)

theorem typeFields_dominant_witness:
  "\<exists>found out. find_fields sample_types 7 [root_field (TNamed ''Point'')] (\<lambda>_. 0) [] [] = Some found \<and>
    typeFields sample_types 7 (TNamed ''Point'') = Some out \<and>
    (\<forall>f \<in> set out. found_ok sample_types (TNamed ''Point'') f) \<and>
    set out = {g. dominates (mset found) g} \<and> distinct (map f_name out) \<and> sorted (map f_index out)"
proof -
  have "Suc (length (te_types sample_types)) = 7" by (simp add: sample_types_def)
  from typeFields_dominant [OF sample_types_closed, unfolded this] show ?thesis .
qed

lemma sample_fields:
  "map_option (map (\<lambda>f. (f_name f, f_index f))) (typeFields sample_types 7 (TNamed ''Point'')) =
     Some [(''x'', [0]), (''id'', [1]), (''Name'', [2, 0])]"
  by code_simp

end
