(* ===== verification/Json_Decode.thy ===== *)
theory Json_Decode
  imports Json_Strings Json_Fields "HOL-Library.AList"
begin

text \<open>
  Decoding into an empty interface: \<open>scanWhile\<close>, \<open>next\<close>, the skipping of a value, and the routines
  \<open>valueInterface\<close>, \<open>arrayInterface\<close>, \<open>objectInterface\<close> and \<open>literalInterface\<close> of \<open>common/json/decode.go\<close>,
  with \<open>Unmarshal\<close> on a pointer to a nil \<open>interface{}\<close>. A \<open>float64\<close> is a parameter, given by
  \<open>strconv.ParseFloat\<close>.
\<close>

section \<open>State and results\<close>

text \<open>\<open>ErrNumber\<close> and \<open>ErrType\<close> are an \<open>UnmarshalTypeError\<close>, for \<open>float64\<close> and for any type; \<open>ErrUsage\<close> is the
  complaint about the option \<open>,string\<close>, \<open>ErrMethod\<close> an error of an \<open>Unmarshaler\<close>.\<close>

datatype decode_error =
  ErrSyntax "SyntaxError option" | ErrPhase | ErrUsage | ErrNumber string | ErrType string gtype
| ErrMethod string | ErrBase64 | ErrInvalid "gtype option"

text \<open>The offset is never decremented at zero: \<open>off--\<close> undoes an increment of \<open>scanWhile\<close>.\<close>

record decodeState =
  d_data :: string
  d_off :: nat
  d_scan :: scanner
  d_nextscan :: scanner
  d_savedError :: "decode_error option"
  d_useNumber :: bool

datatype 'f goval =
  VNil | VBool bool | VNumber string | VFloat 'f | VString string | VArray "'f goval list"
| VObject "(string \<times> 'f goval) list"

text \<open>A result: \<^term>\<open>None\<close> is a run-time panic, or a computation that does not end; \<^term>\<open>Inl e\<close> is
  the panic \<open>d.error(e)\<close> that \<open>unmarshal\<close> recovers.\<close>

type_synonym 'a res = "(decode_error + 'a) option"

definition and_then :: "'a res \<Rightarrow> ('a \<Rightarrow> 'b res) \<Rightarrow> 'b res" where
  "and_then m f = (case m of None \<Rightarrow> None | Some (Inl e) \<Rightarrow> Some (Inl e) | Some (Inr x) \<Rightarrow> f x)"

definition ok :: "'a \<Rightarrow> 'a res" where "ok x = Some (Inr x)"
definition fail_with :: "decode_error \<Rightarrow> 'a res" where "fail_with e = Some (Inl e)"
definition run :: "'a option \<Rightarrow> 'a res" where "run m = map_option Inr m"

lemma and_then_simps [simp]:
  "and_then (ok x) f = f x" "and_then (fail_with e) f = fail_with e" "and_then None f = None"
  "and_then (run (Some x)) f = f x" "ok x = ok y \<longleftrightarrow> x = y"
  by (simp_all add: and_then_def ok_def fail_with_def run_def)

definition saveError :: "decode_error \<Rightarrow> decodeState \<Rightarrow> decodeState" where
  "saveError e d = (if d_savedError d = None then d\<lparr>d_savedError := Some e\<rparr> else d)"

definition decode_init :: "string \<Rightarrow> decodeState \<Rightarrow> decodeState" where
  "decode_init data d = d\<lparr>d_data := data, d_off := 0, d_savedError := None\<rparr>"

section \<open>Reading bytes\<close>

text \<open>The body of the loop of \<open>scanWhile\<close>.\<close>

definition scan_next :: "decodeState \<Rightarrow> (scan_op \<times> decodeState) option" where
  "scan_next d =
     (if d_off d \<ge> length (d_data d)
      then do {
        (newOp, s) \<leftarrow> scanner_eof (d_scan d);
        Some (newOp, d\<lparr>d_scan := s, d_off := length (d_data d) + 1\<rparr>)
      }
      else do {
        (newOp, s) \<leftarrow> scan_step (d_scan d) (d_data d ! d_off d);
        Some (newOp, d\<lparr>d_scan := s, d_off := d_off d + 1\<rparr>)
      })"

partial_function (option) scanWhile :: "scan_op \<Rightarrow> decodeState \<Rightarrow> (scan_op \<times> decodeState) option" where
  "scanWhile op d =
     Option.bind (scan_next d) (\<lambda>(newOp, d). if newOp \<noteq> op then Some (newOp, d) else scanWhile op d)"

text \<open>\<open>d.off--; d.scan.undo(op)\<close>.\<close>

definition back_up :: "scan_op \<Rightarrow> decodeState \<Rightarrow> decodeState option" where
  "back_up op d = map_option (\<lambda>s. d\<lparr>d_off := d_off d - 1, d_scan := s\<rparr>) (undo (d_scan d) op)"

text \<open>\<open>next\<close>: the array or object at the offset, cut off unread; the scanner, which has seen its opening
  bracket, is fed an invented closing one.\<close>

definition next_value :: "decodeState \<Rightarrow> (string \<times> decodeState) res" where
  "next_value d =
     (if d_off d \<ge> length (d_data d) then None
      else and_then (run (nextValue (drop (d_off d) (d_data d)) (d_nextscan d))) (\<lambda>(r, ns).
        (case r of
           Inl e \<Rightarrow> fail_with (ErrSyntax e)
         | Inr (item, rest) \<Rightarrow>
             and_then (run (scan_step (d_scan d)
                (if d_data d ! d_off d = CHR ''{'' then CHR ''}'' else CHR '']''))) (\<lambda>(_, s).
               ok (item, d\<lparr>d_off := length (d_data d) - length rest, d_scan := s, d_nextscan := ns\<rparr>)))))"

fun feed :: "string \<Rightarrow> scanner \<Rightarrow> scanner option" where
  "feed [] s = Some s"
| "feed (c # cs) s = Option.bind (scan_step s c) (\<lambda>(_, s). feed cs s)"

text \<open>\<open>value\<close> of an invalid \<open>reflect.Value\<close>: the next value is skipped, and the scanner is fed an empty
  string in its place.\<close>

definition skip_value :: "decodeState \<Rightarrow> decodeState res" where
  "skip_value d =
     and_then (run (nextValue (drop (d_off d) (d_data d)) (d_nextscan d))) (\<lambda>(r, ns).
       (case r of
          Inl e \<Rightarrow> fail_with (ErrSyntax e)
        | Inr (_, rest) \<Rightarrow>
            (let d = d\<lparr>d_off := length (d_data d) - length rest, d_nextscan := ns\<rparr>;
                 s = d_scan d;
                 s = (if sc_redo s then s\<lparr>sc_redo := False, sc_step := StateBeginValue\<rparr> else s)
             in and_then (run (feed [CHR 0x22, CHR 0x22] s)) (\<lambda>s.
               and_then
                 (if sc_parseState s \<noteq> [] \<and> last (sc_parseState s) = parseObjectKey
                  then run (feed ('':'' @ [CHR 0x22, CHR 0x22] @ ''}'') s) else ok s)
                 (\<lambda>s. ok (d\<lparr>d_scan := s\<rparr>))))))"

section \<open>Decoding\<close>

definition convertNumber :: "(string \<Rightarrow> 'f option) \<Rightarrow> bool \<Rightarrow> string \<Rightarrow> decode_error + 'f goval" where
  "convertNumber parseFloat useNumber s =
     (if useNumber then Inr (VNumber s)
      else case parseFloat s of None \<Rightarrow> Inl (ErrNumber s) | Some f \<Rightarrow> Inr (VFloat f))"

definition is_number_start :: "char \<Rightarrow> bool" where
  "is_number_start c \<longleftrightarrow> \<not> (c \<noteq> CHR ''-'' \<and> (c < CHR ''0'' \<or> c > CHR ''9''))"

text \<open>The bytes of a literal from \<open>off - 1\<close> on, with the scanner backed up behind it.\<close>

definition literal_item :: "decodeState \<Rightarrow> (string \<times> decodeState) res" where
  "literal_item d =
     (let start = d_off d - 1 in
      and_then (run (scanWhile scanContinue d)) (\<lambda>(op, d).
        and_then (run (back_up op d)) (\<lambda>d.
          and_then (run (go_slice (d_data d) (int start) (int (d_off d)))) (\<lambda>item. ok (item, d)))))"

text \<open>The value of a literal, for \<open>literalInterface\<close>.\<close>

definition literal_value :: "(string \<Rightarrow> 'f option) \<Rightarrow> string \<Rightarrow> decodeState \<Rightarrow> ('f goval \<times> decodeState) res" where
  "literal_value pf item d =
     (case item of
        [] \<Rightarrow> None
      | c # _ \<Rightarrow>
          (if c = CHR ''n'' then ok (VNil, d)
           else if c = CHR ''t'' \<or> c = CHR ''f'' then ok (VBool (c = CHR ''t''), d)
           else if c = CHR 0x22 then
             and_then (run (unquote item)) (\<lambda>s.
               (case s of None \<Rightarrow> fail_with ErrPhase | Some s \<Rightarrow> ok (VString s, d)))
           else if \<not> is_number_start c then fail_with ErrPhase
           else (case convertNumber pf (d_useNumber d) item of
                   Inl e \<Rightarrow> ok (VNil, saveError e d) | Inr n \<Rightarrow> ok (n, d))))"

definition literalInterface :: "(string \<Rightarrow> 'f option) \<Rightarrow> decodeState \<Rightarrow> ('f goval \<times> decodeState) res" where
  "literalInterface pf d = and_then (literal_item d) (\<lambda>(item, d). literal_value pf item d)"

text \<open>The literal of a key, and the opcode behind it; the colon, which may have been read already.\<close>

definition key_item :: "decodeState \<Rightarrow> ((string \<times> scan_op) \<times> decodeState) res" where
  "key_item d =
     (let start = d_off d - 1 in
      and_then (run (scanWhile scanContinue d)) (\<lambda>(op, d).
        and_then (run (go_slice (d_data d) (int start) (int (d_off d) - 1))) (\<lambda>item.
          and_then (run (unquote item)) (\<lambda>key.
            (case key of None \<Rightarrow> fail_with ErrPhase | Some k \<Rightarrow> ok ((k, op), d))))))"

definition colon :: "scan_op \<Rightarrow> decodeState \<Rightarrow> decodeState res" where
  "colon op d =
     and_then (if op = scanSkipSpace then run (scanWhile scanSkipSpace d) else ok (op, d)) (\<lambda>(op, d).
       if op \<noteq> scanObjectKey then fail_with ErrPhase else ok d)"

text \<open>The recursion is bounded by fuel: one unit for a value, an element and a member.\<close>

fun valueInterface :: "(string \<Rightarrow> 'f option) \<Rightarrow> nat \<Rightarrow> decodeState \<Rightarrow> ('f goval \<times> decodeState) res"
  and arrayInterface :: "(string \<Rightarrow> 'f option) \<Rightarrow> nat \<Rightarrow> 'f goval list \<Rightarrow> decodeState \<Rightarrow> ('f goval \<times> decodeState) res"
  and objectInterface ::
    "(string \<Rightarrow> 'f option) \<Rightarrow> nat \<Rightarrow> (string \<times> 'f goval) list \<Rightarrow> decodeState \<Rightarrow> ('f goval \<times> decodeState) res"
where
  "valueInterface pf 0 d = None"
| "valueInterface pf (Suc n) d =
     and_then (run (scanWhile scanSkipSpace d)) (\<lambda>(op, d).
       if op = scanBeginArray then arrayInterface pf n [] d
       else if op = scanBeginObject then objectInterface pf n [] d
       else if op = scanBeginLiteral then literalInterface pf d
       else fail_with ErrPhase)"
| "arrayInterface pf 0 v d = None"
| "arrayInterface pf (Suc n) v d =
     and_then (run (scanWhile scanSkipSpace d)) (\<lambda>(op, d).
       if op = scanEndArray then ok (VArray v, d)
       else and_then (run (back_up op d)) (\<lambda>d.
         and_then (valueInterface pf n d) (\<lambda>(x, d).
           and_then (run (scanWhile scanSkipSpace d)) (\<lambda>(op, d).
             if op = scanEndArray then ok (VArray (v @ [x]), d)
             else if op \<noteq> scanArrayValue then fail_with ErrPhase
             else arrayInterface pf n (v @ [x]) d))))"
| "objectInterface pf 0 m d = None"
| "objectInterface pf (Suc n) m d =
     and_then (run (scanWhile scanSkipSpace d)) (\<lambda>(op, d).
       if op = scanEndObject then ok (VObject m, d)
       else if op \<noteq> scanBeginLiteral then fail_with ErrPhase
       else and_then (key_item d) (\<lambda>((key, op), d).
         and_then (colon op d) (\<lambda>d.
           and_then (valueInterface pf n d) (\<lambda>(x, d).
             and_then (run (scanWhile scanSkipSpace d)) (\<lambda>(op, d).
               if op = scanEndObject then ok (VObject (AList.update key x m), d)
               else if op \<noteq> scanObjectValue then fail_with ErrPhase
               else objectInterface pf n (AList.update key x m) d)))))"

text \<open>\<open>literalStore\<close> into an empty interface that holds \<open>v\<close>: the same, with the old value kept where the
  number does not fit.\<close>

definition literalStore_iface ::
    "(string \<Rightarrow> 'f option) \<Rightarrow> string \<Rightarrow> 'f goval \<Rightarrow> decodeState \<Rightarrow> ('f goval \<times> decodeState) res" where
  "literalStore_iface pf item v d =
     (case item of
        [] \<Rightarrow> ok (v, saveError ErrUsage d)
      | c # _ \<Rightarrow>
          (if c = CHR ''n'' then ok (VNil, d)
           else if c = CHR ''t'' \<or> c = CHR ''f'' then ok (VBool (c = CHR ''t''), d)
           else if c = CHR 0x22 then
             and_then (run (unquoteBytes item)) (\<lambda>s.
               (case s of None \<Rightarrow> fail_with ErrPhase | Some s \<Rightarrow> ok (VString s, d)))
           else if \<not> is_number_start c then fail_with ErrPhase
           else (case convertNumber pf (d_useNumber d) item of
                   Inl e \<Rightarrow> ok (v, saveError e d) | Inr n \<Rightarrow> ok (n, d))))"

text \<open>\<open>value\<close>, \<open>array\<close>, \<open>object\<close> and \<open>literal\<close> on a pointer to an empty interface that is nil.\<close>

definition value_iface :: "(string \<Rightarrow> 'f option) \<Rightarrow> nat \<Rightarrow> decodeState \<Rightarrow> ('f goval \<times> decodeState) res" where
  "value_iface pf n d =
     and_then (run (scanWhile scanSkipSpace d)) (\<lambda>(op, d).
       if op = scanBeginArray then arrayInterface pf n [] d
       else if op = scanBeginObject then objectInterface pf n [] d
       else if op = scanBeginLiteral
       then and_then (literal_item d) (\<lambda>(item, d). literalStore_iface pf item VNil d)
       else fail_with ErrPhase)"

definition new_decodeState :: decodeState where
  "new_decodeState =
     \<lparr>d_data = [], d_off = 0, d_scan = fresh_scanner, d_nextscan = fresh_scanner, d_savedError = None,
      d_useNumber = False\<rparr>"

text \<open>\<open>unmarshal\<close>: the error it returns and the value of the interface. A value that was under
  construction when \<open>d.error\<close> is called is lost.\<close>

definition unmarshal_iface ::
    "(string \<Rightarrow> 'f option) \<Rightarrow> nat \<Rightarrow> decodeState \<Rightarrow> (decode_error option \<times> 'f goval) option" where
  "unmarshal_iface pf n d =
     map_option (\<lambda>r. case r of Inl e \<Rightarrow> (Some e, VNil) | Inr (v, d) \<Rightarrow> (d_savedError d, v))
       (value_iface pf n (d\<lparr>d_scan := scanner_reset (d_scan d)\<rparr>))"

definition Unmarshal_iface ::
    "(string \<Rightarrow> 'f option) \<Rightarrow> nat \<Rightarrow> string \<Rightarrow> (decode_error option \<times> 'f goval) option" where
  "Unmarshal_iface pf n data =
     Option.bind (checkValid data (d_scan new_decodeState)) (\<lambda>(err, s).
       if err \<noteq> None then Some (Some (ErrSyntax err), VNil)
       else unmarshal_iface pf n (decode_init data (new_decodeState\<lparr>d_scan := s\<rparr>)))"

section \<open>What is meant\<close>

text \<open>The Go value of a JSON value, and the errors its numbers give rise to, in their order.\<close>

fun go_value :: "(string \<Rightarrow> 'f option) \<Rightarrow> bool \<Rightarrow> json \<Rightarrow> 'f goval" where
  "go_value pf un JNull = VNil"
| "go_value pf un (JBool b) = VBool b"
| "go_value pf un (JNum n) = (case convertNumber pf un (render_number n) of Inl _ \<Rightarrow> VNil | Inr x \<Rightarrow> x)"
| "go_value pf un (JStr t) = VString (str_value t)"
| "go_value pf un (JArr vs) = VArray (map (go_value pf un) vs)"
| "go_value pf un (JObj kvs) =
     VObject (fold (\<lambda>p. AList.update (fst p) (snd p)) (map (\<lambda>p. (str_value (fst p), go_value pf un (snd p))) kvs) [])"

fun num_errors :: "(string \<Rightarrow> 'f option) \<Rightarrow> bool \<Rightarrow> json \<Rightarrow> decode_error list" where
  "num_errors pf un (JNum n) = (case convertNumber pf un (render_number n) of Inl e \<Rightarrow> [e] | Inr _ \<Rightarrow> [])"
| "num_errors pf un (JArr vs) = concat (map (num_errors pf un) vs)"
| "num_errors pf un (JObj kvs) = concat (map (\<lambda>p. num_errors pf un (snd p)) kvs)"
| "num_errors pf un _ = []"

definition first_error :: "decode_error option \<Rightarrow> decode_error list \<Rightarrow> decode_error option" where
  "first_error e es = (if e \<noteq> None then e else case es of [] \<Rightarrow> None | x # _ \<Rightarrow> Some x)"

text \<open>\<open>advance k es d\<close> are the states that are \<open>k\<close> bytes further and have noted the errors \<open>es\<close>; the scanner
  is left open.\<close>

definition advances :: "decodeState \<Rightarrow> nat \<Rightarrow> decode_error list \<Rightarrow> decodeState \<Rightarrow> bool" where
  "advances d k es d' \<longleftrightarrow>
     d_data d' = d_data d \<and> d_off d' = d_off d + k \<and> d_nextscan d' = d_nextscan d \<and>
     d_useNumber d' = d_useNumber d \<and> d_savedError d' = first_error (d_savedError d) es"

lemma advances_0: "advances d 0 [] d"
  by (simp add: advances_def first_error_def)

lemma first_error_append [simp]: "first_error (first_error e xs) ys = first_error e (xs @ ys)"
  by (auto simp: first_error_def split: list.splits)

lemma advances_trans:
  "advances d k es d1 \<Longrightarrow> advances d1 l fs d2 \<Longrightarrow> advances d (k + l) (es @ fs) d2"
  by (simp add: advances_def)

lemma advances_fields:
  assumes "advances d k es d'"
  shows "d_data d' = d_data d" "d_off d' = d_off d + k" "d_useNumber d' = d_useNumber d"
  using assms by (simp_all add: advances_def)

section \<open>Where the scanner stands\<close>

text \<open>The next byte is read as from the control state \<open>f\<close>, \<open>ps\<close>: the scanner is there, or has read the
  byte already and has been backed up.\<close>

definition ready :: "step_fn \<Rightarrow> parse_state list \<Rightarrow> decodeState \<Rightarrow> bool" where
  "ready f ps d \<longleftrightarrow>
     (\<forall>v g qs. d_off d < length (d_data d) \<and> moves f ps (d_data d ! d_off d) v g qs \<longrightarrow>
        (\<exists>s. scan_step (d_scan d) (d_data d ! d_off d) = Some (v, s) \<and> at g qs s))"

lemma at_ready: "at f ps (d_scan d) \<Longrightarrow> ready f ps d"
  by (auto simp: ready_def moves_def)

lemma drop_nth: "drop n xs = c # ys \<Longrightarrow> n < length xs \<and> xs ! n = c \<and> drop (Suc n) xs = ys"
  by (metis Cons_nth_drop_Suc drop_all list.discI list.inject not_le)

lemma readyD:
  assumes "ready f ps d" "drop (d_off d) (d_data d) = c # rest" "moves f ps c v g qs"
  shows "\<exists>s. scan_step (d_scan d) c = Some (v, s) \<and> at g qs s"
  using assms(1,3) drop_nth [OF assms(2)] unfolding ready_def by blast

lemma scan_next_moves:
  assumes "ready f ps d" "drop (d_off d) (d_data d) = c # rest" "moves f ps c v g qs"
  obtains d' where "scan_next d = Some (v, d')" "at g qs (d_scan d')" "advances d 1 [] d'"
proof -
  note n = drop_nth [OF assms(2)]
  obtain s where "scan_step (d_scan d) c = Some (v, s)" "at g qs s" using readyD [OF assms] by blast
  then show thesis
    using that [of "d\<lparr>d_scan := s, d_off := d_off d + 1\<rparr>"] n
    by (simp add: scan_next_def advances_def first_error_def)
qed

text \<open>Reading a byte and backing up leaves the decoder where it was.\<close>

lemma back_up_ready:
  assumes r: "ready f ps d" and c: "drop (d_off d) (d_data d) = c # rest" and m: "moves f ps c v g qs"
    and d': "scan_next d = Some (v, d')"
  obtains d'' where "back_up v d' = Some d''" "ready f ps d''" "advances d 0 [] d''"
proof -
  note n = drop_nth [OF c]
  obtain s where s: "scan_step (d_scan d) c = Some (v, s)" "at g qs s" using readyD [OF r c m] by blast
  then have d1: "d' = d\<lparr>d_scan := s, d_off := d_off d + 1\<rparr>" using d' n by (simp add: scan_next_def)
  let ?s = "s\<lparr>sc_redoCode := v, sc_redoState := Some (sc_step s), sc_step := StateRedo, sc_redo := True\<rparr>"
  have b: "back_up v d' = Some (d\<lparr>d_scan := ?s\<rparr>)" using s(2) by (simp add: back_up_def undo_def at_def d1)
  have "ready f ps (d\<lparr>d_scan := ?s\<rparr>)"
    unfolding ready_def
  proof (intro allI impI)
    fix v' g' qs'
    assume "d_off (d\<lparr>d_scan := ?s\<rparr>) < length (d_data (d\<lparr>d_scan := ?s\<rparr>)) \<and>
      moves f ps (d_data (d\<lparr>d_scan := ?s\<rparr>) ! d_off (d\<lparr>d_scan := ?s\<rparr>)) v' g' qs'"
    then have "moves f ps c v' g' qs'" using n by simp
    then obtain s' where "scan_step (d_scan d) c = Some (v', s')" "at g' qs' s'" using readyD [OF r c] by blast
    then have "v' = v" "at g' qs' s" using s by simp_all
    then show "\<exists>t. scan_step (d_scan (d\<lparr>d_scan := ?s\<rparr>)) (d_data (d\<lparr>d_scan := ?s\<rparr>) ! d_off (d\<lparr>d_scan := ?s\<rparr>)) = Some (v', t) \<and> at g' qs' t"
      by (simp add: scan_step_def stateRedo_def at_def)
  qed
  then show thesis using that b by (simp add: advances_def first_error_def)
qed

text \<open>Bytes with the opcode that \<open>scanWhile\<close> waits out, and the one behind them.\<close>

lemma scanWhile_leads:
  assumes "leads f ps w (replicate (length w) op) g qs" "ready f ps d" "drop (d_off d) (d_data d) = w @ u"
  obtains d' where "scanWhile op d = scanWhile op d'" "ready g qs d'" "advances d (length w) [] d'"
    "at f ps (d_scan d) \<Longrightarrow> at g qs (d_scan d')"
  using assms
proof (induction w arbitrary: f ps d thesis)
  case Nil
  then show ?case using Nil.prems(1) [of d] by (simp add: advances_0)
next
  case (Cons c w)
  obtain f1 ps1 where m: "moves f ps c op f1 ps1" "leads f1 ps1 w (replicate (length w) op) g qs"
    using Cons.prems(2) by (auto simp: leads.simps(2))
  obtain d1 where d1: "scan_next d = Some (op, d1)" "at f1 ps1 (d_scan d1)" "advances d 1 [] d1"
    using scan_next_moves [OF Cons.prems(3) _ m(1)] Cons.prems(4) by (metis append_Cons)
  have "drop (d_off d1) (d_data d1) = w @ u"
    using d1(3) drop_nth [of "d_off d" "d_data d" c "w @ u"] Cons.prems(4) by (simp add: advances_def)
  then obtain d2 where d2: "scanWhile op d1 = scanWhile op d2" "ready g qs d2" "advances d1 (length w) [] d2"
      "at f1 ps1 (d_scan d1) \<Longrightarrow> at g qs (d_scan d2)"
    using Cons.IH [OF _ m(2) at_ready [OF d1(2)]] by blast
  have "scanWhile op d = scanWhile op d2"
    using d1(1) d2(1) by (subst scanWhile.simps) simp
  then show ?case using Cons.prems(1) d2(2,4) advances_trans [OF d1(3) d2(3)] d1(2) by simp
qed

lemma scanWhile_stop:
  "scan_next d = Some (v, d') \<Longrightarrow> v \<noteq> op \<Longrightarrow> scanWhile op d = Some (v, d')"
  by (subst scanWhile.simps) simp

lemma advances_drop:
  "advances d (length w) es d' \<Longrightarrow> drop (d_off d) (d_data d) = w @ u \<Longrightarrow> drop (d_off d') (d_data d') = u"
  by (simp add: advances_def) (metis add.commute append_eq_conv_conj drop_drop)

lemma token:
  assumes l: "leads f ps w (replicate (length w) op) g qs" and r: "ready f ps d"
    and u: "drop (d_off d) (d_data d) = w @ c # rest" and m: "moves g qs c v h rs" "v \<noteq> op"
  obtains d' d'' where "scanWhile op d = Some (v, d')" "at h rs (d_scan d')" "advances d (length w + 1) [] d'"
    "back_up v d' = Some d''" "ready g qs d''" "advances d (length w) [] d''"
proof -
  obtain d1 where d1: "scanWhile op d = scanWhile op d1" "ready g qs d1" "advances d (length w) [] d1"
    by (rule scanWhile_leads [OF l r u])
  note u1 = advances_drop [OF d1(3) u]
  obtain d' where d': "scan_next d1 = Some (v, d')" "at h rs (d_scan d')" "advances d1 1 [] d'"
    by (rule scan_next_moves [OF d1(2) u1 m(1)])
  obtain d'' where d'': "back_up v d' = Some d''" "ready g qs d''" "advances d1 0 [] d''"
    by (rule back_up_ready [OF d1(2) u1 m(1) d'(1)])
  show thesis
    using that [of d' d''] scanWhile_stop [OF d'(1) m(2)] d1(1) d' d'' advances_trans [OF d1(3) d'(3)]
      advances_trans [OF d1(3) d''(3)] by simp
qed

section \<open>Literals\<close>

text \<open>A byte that ends a literal: after it, nothing is read as a part of the literal.\<close>

definition stops :: "parse_state list \<Rightarrow> char \<Rightarrow> bool" where
  "stops ps c \<longleftrightarrow> (\<forall>g. end_fn g \<longrightarrow> (\<exists>v h rs. moves g ps c v h rs \<and> v \<noteq> scanContinue))"

lemma stops_gap:
  assumes "gap w" "p = parseArrayValue \<or> p = parseObjectValue" "c = hd (w @ x # u)"
    and "stops (ps @ [p]) x"
  shows "stops (ps @ [p]) c"
  using assms(1)
proof cases
  case gap_Nil
  then show ?thesis using assms by simp
next
  case (gap_space b t)
  then have "moves g (ps @ [p]) c scanSkipSpace StateEndValue (ps @ [p])" if "end_fn g" for g
    using move_space_number [of b g "ps @ [p]"] that assms(3) by simp
  then show ?thesis unfolding stops_def by blast
next
  case (gap_comment b t)
  have "\<exists>h rs. moves g (ps @ [p]) c scanSkipSpace h rs" if "end_fn g" for g
    using leads_comment_end [OF gap_comment(2) that assms(2), of ps] gap_comment(1) assms(3)
    by (auto simp: comment_def leads.simps(2))
  then show ?thesis unfolding stops_def by blast
qed

lemma stops_punct:
  "stops (ps @ [parseObjectValue]) (CHR '','')" "stops (ps @ [parseArrayValue]) (CHR '','')"
  "stops (ps @ [parseObjectValue]) (CHR ''}'')" "stops (ps @ [parseArrayValue]) (CHR '']'')"
  unfolding stops_def using move_punct(2-5) by blast+

lemma stops_key: "spaces w \<Longrightarrow> c = hd (w @ '':'') \<Longrightarrow> stops (ps @ [parseObjectKey]) c"
  unfolding stops_def
  using move_punct(1) move_space_number [of c _ "ps @ [parseObjectKey]"] by (cases w) fastforce+

lemma literal_item_ready:
  assumes "leads f qs cs (conts cs) g ps" "ready f qs d" "1 \<le> d_off d"
    and u: "drop (d_off d - 1) (d_data d) = (c0 # cs) @ c # rest" and g: "end_fn g" "stops ps c"
  obtains d' where "literal_item d = ok (c0 # cs, d')" "ready g ps d'" "advances d (length cs) [] d'"
proof -
  obtain v h rs where m: "moves g ps c v h rs" "v \<noteq> scanContinue" using g by (auto simp: stops_def)
  have off: "Suc (d_off d - 1) = d_off d" using assms(3) by simp
  have u1: "drop (d_off d) (d_data d) = cs @ c # rest" "d_off d - 1 < length (d_data d)"
    using drop_nth [of "d_off d - 1" "d_data d" c0 "cs @ c # rest"] u off by simp_all
  obtain d1 d' where d: "scanWhile scanContinue d = Some (v, d1)" "advances d (length cs + 1) [] d1"
      "back_up v d1 = Some d'" "ready g ps d'" "advances d (length cs) [] d'"
    by (rule token [OF assms(1,2) u1(1) m])
  have "length (drop (d_off d - 1) (d_data d)) = length cs + 2 + length rest" unfolding u by simp
  then have len: "d_off d + length cs \<le> length (d_data d)" using assms(3) by simp
  have "go_slice (d_data d') (int (d_off d - 1)) (int (d_off d')) = Some (c0 # cs)"
    using d(5) len u assms(3) by (simp add: go_slice_def advances_def nat_diff_distrib' of_nat_diff nat_add_distrib)
  then show thesis using that d by (simp add: literal_item_def Let_def)
qed

abbreviation is_literal :: "json \<Rightarrow> bool" where
  "is_literal v \<equiv> (case v of JArr _ \<Rightarrow> False | JObj _ \<Rightarrow> False | _ \<Rightarrow> True)"

lemma render_number_first:
  obtains c u where "render_number n = c # u" "is_number_start c" "c \<notin> {CHR ''n'', CHR ''t'', CHR ''f'', CHR 0x22}"
proof (cases "n_neg n")
  case True
  then show thesis using that by (simp add: render_number_def is_number_start_def)
next
  case False
  have d: "is_digit c \<Longrightarrow> is_number_start c \<and> c \<notin> {CHR ''n'', CHR ''t'', CHR ''f'', CHR 0x22}" for c
    by (auto simp: is_digit_iff is_number_start_def simp flip: not_le)
       (auto simp: char_le_iff)
  have "is_digit (CHR ''0'')" by (simp add: is_digit_iff)
  note d0 = d [OF this]
  show thesis by (rule dec_nat_cases [of "n_int n"]) (use d d0 that False in \<open>auto simp: render_number_def\<close>)
qed

lemma literal_value_render:
  assumes "is_literal v" "json_ok v"
  obtains d' where "literal_value pf (render v) d = ok (go_value pf (d_useNumber d) v, d')" "d_scan d' = d_scan d"
    "advances d 0 (num_errors pf (d_useNumber d) v) d'"
proof (cases v)
  case (JNum n)
  obtain c u where c: "render_number n = c # u" "is_number_start c" "c \<notin> {CHR ''n'', CHR ''t'', CHR ''f'', CHR 0x22}"
    by (rule render_number_first)
  show thesis
  proof (cases "convertNumber pf (d_useNumber d) (render_number n)")
    case (Inl e)
    then show thesis using that [of "saveError e d"] c JNum
      by (auto simp: literal_value_def saveError_def advances_def first_error_def)
  next
    case (Inr x)
    then show thesis using that [of d] c JNum by (simp add: literal_value_def advances_0)
  qed
next
  case (JStr t)
  have "\<exists>u. render_string t = CHR 0x22 # u" by (simp add: render_string_def)
  then show thesis using that [of d] unquote_body [of t] JStr assms(2) by (auto simp: literal_value_def advances_0)
next
  case (JBool b)
  then show thesis using that [of d] by (cases b) (simp_all add: literal_value_def advances_0)
qed (use that [of d] assms in \<open>auto simp: literal_value_def advances_0\<close>)


text \<open>One literal of a text: behind its first byte, up to a byte that stops it.\<close>

lemma literal_read:
  assumes "is_literal v" and v: "json_ok v" and t: "render v = c0 # cs" and l: "leads f1 qs cs (conts cs) g ps" "end_fn g"
    and d: "ready f1 qs d" "1 \<le> d_off d" "drop (d_off d - 1) (d_data d) = render v @ c # rest" "stops ps c"
  obtains d' where "literalInterface pf d = ok (go_value pf (d_useNumber d) v, d')" "ready g ps d'"
    "advances d (length cs) (num_errors pf (d_useNumber d) v) d'"
proof -
  obtain d1 where d1: "literal_item d = ok (render v, d1)" "ready g ps d1" "advances d (length cs) [] d1"
    using literal_item_ready [OF l(1) d(1,2) _ l(2) d(4), of c0 rest] d(3) unfolding t by auto
  obtain d2 where d2: "literal_value pf (render v) d1 = ok (go_value pf (d_useNumber d1) v, d2)"
      "d_scan d2 = d_scan d1" "advances d1 0 (num_errors pf (d_useNumber d1) v) d2"
    by (rule literal_value_render [OF assms(1) v])
  have n: "d_useNumber d1 = d_useNumber d" using d1(3) by (simp add: advances_def)
  have "ready g ps d2" using d1(2) d2(2,3) by (simp add: ready_def advances_def)
  then show thesis using that d1 d2 advances_trans [OF d1(3) d2(3)]
    by (simp add: literalInterface_def n)
qed

lemma leads_lit_split:
  assumes "leads f ps t (lit_ops t) g ps" "t \<noteq> []"
  obtains c0 cs f1 qs where "t = c0 # cs" "moves f ps c0 scanBeginLiteral f1 qs" "leads f1 qs cs (conts cs) g ps"
proof -
  obtain c0 cs where t: "t = c0 # cs" using assms(2) by (cases t) auto
  then obtain f1 qs where "moves f ps c0 scanBeginLiteral f1 qs" "leads f1 qs cs (conts cs) g ps"
    using assms(1) by (auto simp: lit_ops_def leads.simps(2))
  then show thesis using that t by blast
qed

lemma literal_leads:
  assumes "is_literal v" "layout v t os" "begins f"
  obtains g where "t = render v" "os = lit_ops t" "leads f ps t (lit_ops t) g ps" "ends_in v ps g"
    "end_fn g" "t \<noteq> []"
proof -
  have t: "t = render v" "os = lit_ops t" "t \<noteq> []" using assms(2,1) by (cases; simp)+
  obtain g where "leads f ps t os g ps" "ends_in v ps g" using leads_layout [OF assms(2,3)] by blast
  moreover have "end_fn g" using calculation(2) assms(1) by (cases v) (auto simp: ends_in_def end_fn_def)
  ultimately show thesis using that t by simp
qed

section \<open>Values\<close>

text \<open>A text is decoded to \<open>v\<close> by a reader: whatever gap is in front of it and whatever stops it behind it.\<close>

definition decodes :: "(string \<Rightarrow> 'f option) \<Rightarrow> json \<Rightarrow> string \<Rightarrow> bool" where
  "decodes pf v t \<longleftrightarrow>
     (\<forall>w f ps p d c rest n. gap w \<and> begins f \<and> (p = parseArrayValue \<or> p = parseObjectValue) \<and>
        ready f (ps @ [p]) d \<and> drop (d_off d) (d_data d) = w @ t @ c # rest \<and> stops (ps @ [p]) c \<and> length t < n \<longrightarrow>
        (\<exists>d' g. valueInterface pf n d = ok (go_value pf (d_useNumber d) v, d') \<and> end_fn g \<and>
           ready g (ps @ [p]) d' \<and> advances d (length w + length t) (num_errors pf (d_useNumber d) v) d'))"

text \<open>The elements of an array and the members of an object, up to the bracket that closes them.\<close>

definition decodes_elements :: "(string \<Rightarrow> 'f option) \<Rightarrow> json list \<Rightarrow> string \<Rightarrow> bool" where
  "decodes_elements pf vs t \<longleftrightarrow>
     (\<forall>f ps d acc rest n. begins f \<and> ready f (ps @ [parseArrayValue]) d \<and>
        drop (d_off d) (d_data d) = t @ CHR '']'' # rest \<and> length t + 1 < n \<longrightarrow>
        (\<exists>d'. arrayInterface pf n acc d = ok (VArray (acc @ map (go_value pf (d_useNumber d)) vs), d') \<and>
           at (closed_fn ps) ps (d_scan d') \<and>
           advances d (length t + 1) (concat (map (num_errors pf (d_useNumber d)) vs)) d'))"

definition put_members ::
    "(string \<Rightarrow> 'f option) \<Rightarrow> bool \<Rightarrow> (string \<times> json) list \<Rightarrow> (string \<times> 'f goval) list \<Rightarrow> (string \<times> 'f goval) list" where
  "put_members pf un kvs =
     fold (\<lambda>p. AList.update (fst p) (snd p)) (map (\<lambda>p. (str_value (fst p), go_value pf un (snd p))) kvs)"

definition decodes_members :: "(string \<Rightarrow> 'f option) \<Rightarrow> (string \<times> json) list \<Rightarrow> string \<Rightarrow> bool" where
  "decodes_members pf kvs t \<longleftrightarrow>
     (\<forall>f ps d acc rest n. (f = StateBeginString \<or> f = StateBeginStringOrEmpty) \<and>
        ready f (ps @ [parseObjectKey]) d \<and>
        drop (d_off d) (d_data d) = t @ CHR ''}'' # rest \<and> length t + 1 < n \<longrightarrow>
        (\<exists>d'. objectInterface pf n acc d = ok (VObject (put_members pf (d_useNumber d) kvs acc), d') \<and>
           at (closed_fn ps) ps (d_scan d') \<and>
           advances d (length t + 1) (concat (map (\<lambda>p. num_errors pf (d_useNumber d) (snd p)) kvs)) d'))"

lemma decodes_literal:
  assumes "is_literal v" "layout v t os"
  shows "decodes pf v t"
  unfolding decodes_def
proof (intro allI impI, elim conjE)
  fix w f ps p d c rest n
  assume a: "gap w" "begins f" "ready f (ps @ [p]) d" "drop (d_off d) (d_data d) = w @ t @ c # rest"
    "stops (ps @ [p]) c" "length t < n"
  obtain f1 where f1: "leads f (ps @ [p]) w (skips w) f1 (ps @ [p])" "begins f1"
    using leads_gap_value [OF a(1,2)] by blast
  obtain g where g: "t = render v" "leads f1 (ps @ [p]) t (lit_ops t) g (ps @ [p])" "end_fn g" "t \<noteq> []"
    by (rule literal_leads [OF assms f1(2), of "ps @ [p]"])
  obtain c0 cs f2 qs where c: "t = c0 # cs" "moves f1 (ps @ [p]) c0 scanBeginLiteral f2 qs"
      "leads f2 qs cs (conts cs) g (ps @ [p])"
    by (rule leads_lit_split [OF g(2,4)])
  have u: "drop (d_off d) (d_data d) = w @ c0 # (cs @ c # rest)" using a(4) c(1) by simp
  obtain d1 where d1: "scanWhile scanSkipSpace d = Some (scanBeginLiteral, d1)" "at f2 qs (d_scan d1)"
      "advances d (length w + 1) [] d1"
    by (rule token [OF f1(1) a(3) u c(2)]) (simp, blast)
  have rv: "render v = c0 # cs" using g(1) c(1) by simp
  have "drop (d_off d + length w) (d_data d) = t @ c # rest"
    using a(4) by (metis append_eq_conv_conj drop_drop add.commute)
  then have off: "1 \<le> d_off d1" "drop (d_off d1 - 1) (d_data d1) = render v @ c # rest"
    using d1(3) g(1) by (simp_all add: advances_def)
  obtain d2 where d2: "literalInterface pf d1 = ok (go_value pf (d_useNumber d1) v, d2)" "ready g (ps @ [p]) d2"
      "advances d1 (length cs) (num_errors pf (d_useNumber d1) v) d2"
    by (rule literal_read [OF assms(1) layout_ok(1) [OF assms(2)] rv c(3) g(3) at_ready [OF d1(2)] off a(5)])
  have un: "d_useNumber d1 = d_useNumber d" using d1(3) by (simp add: advances_def)
  obtain m where n: "n = Suc m" using a(6) by (cases n) auto
  have "valueInterface pf n d = ok (go_value pf (d_useNumber d) v, d2)"
    using d1(1) d2(1) by (simp add: n un)
  then show "\<exists>d' g. valueInterface pf n d = ok (go_value pf (d_useNumber d) v, d') \<and> end_fn g \<and>
      ready g (ps @ [p]) d' \<and> advances d (length w + length t) (num_errors pf (d_useNumber d) v) d'"
    using d2 g(3) advances_trans [OF d1(3) d2(3)] c(1) un by auto
qed

lemma decodesD:
  assumes "decodes pf v t" "gap w" "begins f" "p = parseArrayValue \<or> p = parseObjectValue" "ready f (ps @ [p]) d"
    "drop (d_off d) (d_data d) = w @ t @ c # rest" "stops (ps @ [p]) c" "length t < n"
  obtains d' g where "valueInterface pf n d = ok (go_value pf (d_useNumber d) v, d')" "end_fn g"
    "ready g (ps @ [p]) d'" "advances d (length w + length t) (num_errors pf (d_useNumber d) v) d'"
  using assms(1) [unfolded decodes_def, rule_format, of w f p ps d c rest n] assms(2-) by blast

text \<open>An element with its gaps, up to the comma or the bracket behind it.\<close>

lemma read_element:
  assumes v: "decodes pf v t" and w: "gap w1" "gap w2" "begins f" and p: "p = parseArrayValue \<or> p = parseObjectValue"
    and d: "ready f (ps @ [p]) d" "drop (d_off d) (d_data d) = w1 @ t @ w2 @ x # u" "length t < n"
    and x: "stops (ps @ [p]) x" "\<And>g. end_fn g \<Longrightarrow> moves g (ps @ [p]) x op h rs" "op \<noteq> scanSkipSpace"
  obtains d1 d2 where "valueInterface pf n d = ok (go_value pf (d_useNumber d) v, d1)"
    "scanWhile scanSkipSpace d1 = Some (op, d2)" "at h rs (d_scan d2)"
    "advances d (length w1 + length t + length w2 + 1) (num_errors pf (d_useNumber d) v) d2"
    "drop (d_off d2) (d_data d2) = u" "d_useNumber d2 = d_useNumber d"
proof -
  obtain c us where us: "w2 @ x # u = c # us" by (cases w2) auto
  then have "c = hd (w2 @ x # u)" by simp
  then have st: "stops (ps @ [p]) c" by (rule stops_gap [OF w(2) p _ x(1)])
  have du: "drop (d_off d) (d_data d) = w1 @ t @ c # us" using d(2) by (simp only: us)
  obtain d1 g where d1: "valueInterface pf n d = ok (go_value pf (d_useNumber d) v, d1)" "end_fn g"
      "ready g (ps @ [p]) d1" "advances d (length w1 + length t) (num_errors pf (d_useNumber d) v) d1"
    by (rule decodesD [OF v w(1,3) p d(1) du st d(3)])
  have u1: "drop (d_off d1) (d_data d1) = w2 @ x # u"
    by (rule advances_drop [of d "w1 @ t"]) (use d1(4) d(2) in simp_all)
  obtain g2 where g2: "leads g (ps @ [p]) w2 (skips w2) g2 (ps @ [p])" "end_fn g2"
    using leads_gap_end [OF w(2) d1(2) p] by blast
  obtain d2 where d2: "scanWhile scanSkipSpace d1 = Some (op, d2)" "at h rs (d_scan d2)"
      "advances d1 (length w2 + 1) [] d2"
    by (rule token [OF g2(1) d1(3) u1 x(2) [OF g2(2)] x(3)])
  have "advances d (length w1 + length t + length w2 + 1) (num_errors pf (d_useNumber d) v) d2"
    using advances_trans [OF d1(4) d2(3)] by (simp add: add.assoc)
  moreover have "drop (d_off d2) (d_data d2) = u"
    by (rule advances_drop [of d1 "w2 @ [x]"]) (use d2(3) u1 in simp_all)
  moreover have "d_useNumber d2 = d_useNumber d" using d1(4) d2(3) by (simp add: advances_def)
  ultimately show thesis using that d1(1) d2 by blast
qed

text \<open>A value does not start with white space, a slash or a closing bracket: an element is not taken for
  the end of the array, and backing up leaves the decoder in front of it.\<close>

lemma layout_first:
  assumes "layout v t os" "begins f"
  obtains c u op h qs where "t = c # u" "moves f ps c op h qs" "op \<noteq> scanSkipSpace" "op \<noteq> scanEndArray"
proof -
  obtain g where g: "leads f ps t os g ps" using leads_layout [OF assms] by blast
  have "t \<noteq> []" "os \<noteq> []" "hd os \<in> {scanBeginLiteral, scanBeginArray, scanBeginObject}"
    using assms(1) by (cases; simp add: lit_ops_def)+
  then obtain c u op ops where t: "t = c # u" "os = op # ops"
      "op \<in> {scanBeginLiteral, scanBeginArray, scanBeginObject}"
    by (cases t; cases os) auto
  then obtain h qs where "moves f ps c op h qs" using g by (auto simp: leads.simps(2))
  then show thesis using that t by auto
qed

lemma array_first:
  assumes l: "layout v t os" and w: "gap w" "begins f" and r: "ready f (ps @ [parseArrayValue]) d"
    and u: "drop (d_off d) (d_data d) = w @ t @ u"
  obtains op d1 d2 f2 where "scanWhile scanSkipSpace d = Some (op, d1)" "op \<noteq> scanEndArray" "back_up op d1 = Some d2"
    "ready f2 (ps @ [parseArrayValue]) d2" "begins f2" "drop (d_off d2) (d_data d2) = t @ u"
    "advances d (length w) [] d2"
proof -
  obtain f2 where f2: "leads f (ps @ [parseArrayValue]) w (skips w) f2 (ps @ [parseArrayValue])" "begins f2"
    using leads_gap_value [OF w] by blast
  obtain c t' op h qs where c: "t = c # t'" "moves f2 (ps @ [parseArrayValue]) c op h qs" "op \<noteq> scanSkipSpace" "op \<noteq> scanEndArray"
    by (rule layout_first [OF l f2(2)])
  have u': "drop (d_off d) (d_data d) = w @ c # (t' @ u)" using u c(1) by simp
  obtain d1 d2 where "scanWhile scanSkipSpace d = Some (op, d1)" "back_up op d1 = Some d2"
      "ready f2 (ps @ [parseArrayValue]) d2" "advances d (length w) [] d2"
    by (rule token [OF f2(1) r u' c(2,3)])
  moreover have "drop (d_off d2) (d_data d2) = t @ u"
    by (rule advances_drop [OF calculation(4) u])
  ultimately show thesis using that c(4) f2(2) by blast
qed

text \<open>A key with its colon.\<close>

lemma key_item_ready:
  assumes "leads f qs cs (conts cs) g ps" "ready f qs d" "1 \<le> d_off d"
    and u: "drop (d_off d - 1) (d_data d) = (c0 # cs) @ c # rest"
    and k: "unquote (c0 # cs) = Some (Some k)" and m: "moves g ps c v h rs" "v \<noteq> scanContinue"
  obtains d' where "key_item d = ok ((k, v), d')" "at h rs (d_scan d')" "advances d (length cs + 1) [] d'"
proof -
  have off: "Suc (d_off d - 1) = d_off d" using assms(3) by simp
  have u1: "drop (d_off d) (d_data d) = cs @ c # rest"
    using drop_nth [of "d_off d - 1" "d_data d" c0 "cs @ c # rest"] u off by simp
  obtain d1 where d: "scanWhile scanContinue d = Some (v, d1)" "at h rs (d_scan d1)" "advances d (length cs + 1) [] d1"
    by (rule token [OF assms(1,2) u1 m])
  have "length (drop (d_off d - 1) (d_data d)) = length cs + 2 + length rest" unfolding u by simp
  then have len: "d_off d + length cs \<le> length (d_data d)" using assms(3) by simp
  have "go_slice (d_data d1) (int (d_off d - 1)) (int (d_off d1) - 1) = Some (c0 # cs)"
    using d(3) len u assms(3) by (simp add: go_slice_def advances_def nat_diff_distrib' of_nat_diff nat_add_distrib)
  then show thesis using that d k by (simp add: key_item_def Let_def)
qed

lemma key_colon_ready:
  assumes "leads f qs cs (conts cs) StateEndValue (ps @ [parseObjectKey])" "ready f qs d" "1 \<le> d_off d"
    and u: "drop (d_off d - 1) (d_data d) = (c0 # cs) @ w @ CHR '':'' # rest" and w: "spaces w"
    and k: "unquote (c0 # cs) = Some (Some k)"
  obtains op d1 d2 where "key_item d = ok ((k, op), d1)" "colon op d1 = ok d2"
    "at StateBeginValue (ps @ [parseObjectValue]) (d_scan d2)" "advances d (length cs + length w + 1) [] d2"
proof -
  have en: "end_fn StateEndValue" by (simp add: end_fn_def)
  note mc = move_punct(1) [OF en, of ps]
  show thesis
  proof (cases w)
    case Nil
    obtain d1 where "key_item d = ok ((k, scanObjectKey), d1)" "at StateBeginValue (ps @ [parseObjectValue]) (d_scan d1)"
        "advances d (length cs + 1) [] d1"
      by (rule key_item_ready [OF assms(1-3) _ k mc]) (use u Nil in simp_all)
    then show thesis using that [of scanObjectKey d1 d1] Nil by (simp add: colon_def)
  next
    case (Cons s t)
    have ms: "moves StateEndValue (ps @ [parseObjectKey]) s scanSkipSpace StateEndValue (ps @ [parseObjectKey])"
      by (rule move_space) (use w Cons in \<open>simp_all add: skipping_def\<close>)
    obtain d1 where d1: "key_item d = ok ((k, scanSkipSpace), d1)" "at StateEndValue (ps @ [parseObjectKey]) (d_scan d1)"
        "advances d (length cs + 1) [] d1"
      by (rule key_item_ready [OF assms(1-3) _ k ms]) (use u Cons in simp_all)
    have lt: "leads StateEndValue (ps @ [parseObjectKey]) t (skips t) StateEndValue (ps @ [parseObjectKey])"
      by (rule leads_spaces) (use w Cons in \<open>simp_all add: skipping_def\<close>)
    have "drop (Suc (d_off d - 1)) (d_data d) = cs @ s # t @ CHR '':'' # rest"
      using drop_nth [of "d_off d - 1" "d_data d" c0] u Cons by simp
    then have "drop (d_off d1) (d_data d1) = t @ CHR '':'' # rest"
      using advances_drop [of d "cs @ [s]" "[]" d1 "t @ CHR '':'' # rest"] d1(3) assms(3) by simp
    then obtain d2 where "scanWhile scanSkipSpace d1 = Some (scanObjectKey, d2)"
        "at StateBeginValue (ps @ [parseObjectValue]) (d_scan d2)" "advances d1 (length t + 1) [] d2"
      using token [OF lt at_ready [OF d1(2)] _ mc] by blast
    then show thesis using that [of scanSkipSpace d1 d2] d1 advances_trans [OF d1(3)] Cons
      by (fastforce simp: colon_def)
  qed
qed

lemma read_key:
  assumes f: "f = StateBeginString \<or> f = StateBeginStringOrEmpty" and w: "gap w1" "spaces w2" "string_body k"
    and d: "ready f (ps @ [parseObjectKey]) d"
      "drop (d_off d) (d_data d) = w1 @ render_string k @ w2 @ CHR '':'' # u"
  obtains op d1 d2 d3 where "scanWhile scanSkipSpace d = Some (scanBeginLiteral, d1)"
    "key_item d1 = ok ((str_value k, op), d2)" "colon op d2 = ok d3"
    "at StateBeginValue (ps @ [parseObjectValue]) (d_scan d3)"
    "advances d (length w1 + length (render_string k) + length w2 + 1) [] d3" "drop (d_off d3) (d_data d3) = u"
proof -
  obtain f1 where f1: "leads f (ps @ [parseObjectKey]) w1 (skips w1) f1 (ps @ [parseObjectKey])"
      "f1 = StateBeginString \<or> f1 = StateBeginStringOrEmpty"
    using leads_gap_key [OF w(1) f] by blast
  have l: "leads f1 (ps @ [parseObjectKey]) (render_string k) (lit_ops (render_string k)) StateEndValue (ps @ [parseObjectKey])"
    by (rule leads_string [OF _ w(3)]) (use f1(2) in blast)
  obtain c0 cs f2 qs where c: "render_string k = c0 # cs" "moves f1 (ps @ [parseObjectKey]) c0 scanBeginLiteral f2 qs"
      "leads f2 qs cs (conts cs) StateEndValue (ps @ [parseObjectKey])"
    by (rule leads_lit_split [OF l]) simp
  have u1: "drop (d_off d) (d_data d) = w1 @ c0 # (cs @ w2 @ CHR '':'' # u)" using d(2) c(1) by simp
  obtain d1 where d1: "scanWhile scanSkipSpace d = Some (scanBeginLiteral, d1)" "at f2 qs (d_scan d1)"
      "advances d (length w1 + 1) [] d1"
    by (rule token [OF f1(1) d(1) u1 c(2)]) (simp, blast)
  have "drop (d_off d + length w1) (d_data d) = c0 # cs @ w2 @ CHR '':'' # u"
    using u1 by (metis append_eq_conv_conj drop_drop add.commute)
  then have off: "1 \<le> d_off d1" "drop (d_off d1 - 1) (d_data d1) = (c0 # cs) @ w2 @ CHR '':'' # u"
    using d1(3) by (simp_all add: advances_def)
  have k: "unquote (c0 # cs) = Some (Some (str_value k))" using unquote_body [OF w(3)] c(1) by simp
  obtain op d2 d3 where d3: "key_item d1 = ok ((str_value k, op), d2)" "colon op d2 = ok d3"
      "at StateBeginValue (ps @ [parseObjectValue]) (d_scan d3)" "advances d1 (length cs + length w2 + 1) [] d3"
    by (rule key_colon_ready [OF c(3) at_ready [OF d1(2)] off w(2) k])
  have "advances d (length w1 + length (render_string k) + length w2 + 1) [] d3"
    using advances_trans [OF d1(3) d3(4)] c(1) by (simp add: add.commute add.left_commute)
  moreover have "drop (d_off d3) (d_data d3) = u"
    by (rule advances_drop [of d "w1 @ render_string k @ w2 @ '':''" "[]"]) (use calculation d(2) in \<open>simp_all add: add.assoc\<close>)
  ultimately show thesis using that d1(1) d3 by blast
qed

section \<open>Arrays and objects\<close>

definition array_body :: "(string \<Rightarrow> 'f option) \<Rightarrow> json list \<Rightarrow> string \<Rightarrow> bool" where
  "array_body pf vs t \<longleftrightarrow>
     (\<forall>ps d rest n. ready StateBeginValueOrEmpty (ps @ [parseArrayValue]) d \<and>
        drop (d_off d) (d_data d) = t @ CHR '']'' # rest \<and> length t + 1 < n \<longrightarrow>
        (\<exists>d'. arrayInterface pf n [] d = ok (go_value pf (d_useNumber d) (JArr vs), d') \<and>
           at (closed_fn ps) ps (d_scan d') \<and>
           advances d (length t + 1) (num_errors pf (d_useNumber d) (JArr vs)) d'))"

definition object_body :: "(string \<Rightarrow> 'f option) \<Rightarrow> (string \<times> json) list \<Rightarrow> string \<Rightarrow> bool" where
  "object_body pf kvs t \<longleftrightarrow>
     (\<forall>ps d rest n. ready StateBeginStringOrEmpty (ps @ [parseObjectKey]) d \<and>
        drop (d_off d) (d_data d) = t @ CHR ''}'' # rest \<and> length t + 1 < n \<longrightarrow>
        (\<exists>d'. objectInterface pf n [] d = ok (go_value pf (d_useNumber d) (JObj kvs), d') \<and>
           at (closed_fn ps) ps (d_scan d') \<and>
           advances d (length t + 1) (num_errors pf (d_useNumber d) (JObj kvs)) d'))"

lemma array_body_elements:
  assumes "decodes_elements pf vs t"
  shows "array_body pf vs t"
  unfolding array_body_def
  using assms [unfolded decodes_elements_def, rule_format, of StateBeginValueOrEmpty _ _ _ _ "[]"]
  by (simp add: begins_def)

lemma object_body_members:
  assumes "decodes_members pf kvs t"
  shows "object_body pf kvs t"
  unfolding object_body_def
  using assms [unfolded decodes_members_def, rule_format, of StateBeginStringOrEmpty _ _ _ _ "[]"]
  by (simp add: put_members_def)

lemma array_body_empty:
  assumes "gap w"
  shows "array_body pf [] w"
  unfolding array_body_def
proof (intro allI impI, elim conjE)
  fix ps d rest n
  assume a: "ready StateBeginValueOrEmpty (ps @ [parseArrayValue]) d"
    "drop (d_off d) (d_data d) = w @ CHR '']'' # rest" "length w + 1 < n"
  obtain g where "leads StateBeginValueOrEmpty (ps @ [parseArrayValue]) w (skips w) g (ps @ [parseArrayValue])"
      "g = StateBeginValueOrEmpty"
    using leads_gap_value [OF assms, of StateBeginValueOrEmpty] by (auto simp: begins_def)
  then obtain d' where "scanWhile scanSkipSpace d = Some (scanEndArray, d')" "at (closed_fn ps) ps (d_scan d')"
      "advances d (length w + 1) [] d'"
    using token [OF _ a(1,2) move_empty(2)] by blast
  moreover obtain m where "n = Suc m" using a(3) by (cases n) auto
  ultimately show "\<exists>d'. arrayInterface pf n [] d = ok (go_value pf (d_useNumber d) (JArr []), d') \<and>
      at (closed_fn ps) ps (d_scan d') \<and> advances d (length w + 1) (num_errors pf (d_useNumber d) (JArr [])) d'"
    by simp
qed

lemma object_body_empty:
  assumes "spaces w"
  shows "object_body pf [] w"
  unfolding object_body_def
proof (intro allI impI, elim conjE)
  fix ps d rest n
  assume a: "ready StateBeginStringOrEmpty (ps @ [parseObjectKey]) d"
    "drop (d_off d) (d_data d) = w @ CHR ''}'' # rest" "length w + 1 < n"
  have "leads StateBeginStringOrEmpty (ps @ [parseObjectKey]) w (skips w) StateBeginStringOrEmpty (ps @ [parseObjectKey])"
    by (rule leads_spaces) (use assms in \<open>simp_all add: skipping_def\<close>)
  then obtain d' where "scanWhile scanSkipSpace d = Some (scanEndObject, d')" "at (closed_fn ps) ps (d_scan d')"
      "advances d (length w + 1) [] d'"
    using token [OF _ a(1,2) move_empty(1)] by blast
  moreover obtain m where "n = Suc m" using a(3) by (cases n) auto
  ultimately show "\<exists>d'. objectInterface pf n [] d = ok (go_value pf (d_useNumber d) (JObj []), d') \<and>
      at (closed_fn ps) ps (d_scan d') \<and> advances d (length w + 1) (num_errors pf (d_useNumber d) (JObj [])) d'"
    by simp
qed

lemma array_bodyD:
  assumes "array_body pf vs t" "at StateBeginValueOrEmpty (ps @ [parseArrayValue]) (d_scan d)"
    "drop (d_off d) (d_data d) = t @ CHR '']'' # rest" "length t + 1 < n"
  obtains d' where "arrayInterface pf n [] d = ok (go_value pf (d_useNumber d) (JArr vs), d')"
    "at (closed_fn ps) ps (d_scan d')" "advances d (length t + 1) (num_errors pf (d_useNumber d) (JArr vs)) d'"
  using assms(1) [unfolded array_body_def, rule_format, of ps d rest n] at_ready [OF assms(2)] assms(3,4) by blast

lemma object_bodyD:
  assumes "object_body pf kvs t" "at StateBeginStringOrEmpty (ps @ [parseObjectKey]) (d_scan d)"
    "drop (d_off d) (d_data d) = t @ CHR ''}'' # rest" "length t + 1 < n"
  obtains d' where "objectInterface pf n [] d = ok (go_value pf (d_useNumber d) (JObj kvs), d')"
    "at (closed_fn ps) ps (d_scan d')" "advances d (length t + 1) (num_errors pf (d_useNumber d) (JObj kvs)) d'"
  using assms(1) [unfolded object_body_def, rule_format, of ps d rest n] at_ready [OF assms(2)] assms(3,4) by blast

text \<open>A bracket opens an array or an object wherever a value is read.\<close>

lemma open_array:
  assumes b: "array_body pf vs t" and f: "leads f ps w (skips w) f1 ps" "begins f1"
    and d: "ready f ps d" "drop (d_off d) (d_data d) = w @ (''['' @ t @ '']'') @ rest" "length t + 1 < n"
  obtains d1 d2 where "scanWhile scanSkipSpace d = Some (scanBeginArray, d1)"
    "arrayInterface pf n [] d1 = ok (go_value pf (d_useNumber d) (JArr vs), d2)" "at (closed_fn ps) ps (d_scan d2)"
    "advances d (length w + length (''['' @ t @ '']'')) (num_errors pf (d_useNumber d) (JArr vs)) d2"
proof -
  have u: "drop (d_off d) (d_data d) = w @ CHR ''['' # (t @ CHR '']'' # rest)" using d(2) by simp
  obtain d1 where d1: "scanWhile scanSkipSpace d = Some (scanBeginArray, d1)"
      "at StateBeginValueOrEmpty (ps @ [parseArrayValue]) (d_scan d1)" "advances d (length w + 1) [] d1"
    by (rule token [OF f(1) d(1) u move_open(2) [OF f(2)]]) (simp, blast)
  have u1: "drop (d_off d1) (d_data d1) = t @ CHR '']'' # rest"
    by (rule advances_drop [of d "w @ ''[''" "[]"]) (use d1(3) u in simp_all)
  obtain d2 where d2: "arrayInterface pf n [] d1 = ok (go_value pf (d_useNumber d1) (JArr vs), d2)"
      "at (closed_fn ps) ps (d_scan d2)" "advances d1 (length t + 1) (num_errors pf (d_useNumber d1) (JArr vs)) d2"
    by (rule array_bodyD [OF b d1(2) u1 d(3)])
  have "d_useNumber d1 = d_useNumber d" using d1(3) by (simp add: advances_def)
  then show thesis using that d1(1) d2 advances_trans [OF d1(3) d2(3)] by simp
qed

lemma open_object:
  assumes b: "object_body pf kvs t" and f: "leads f ps w (skips w) f1 ps" "begins f1"
    and d: "ready f ps d" "drop (d_off d) (d_data d) = w @ (''{'' @ t @ ''}'') @ rest" "length t + 1 < n"
  obtains d1 d2 where "scanWhile scanSkipSpace d = Some (scanBeginObject, d1)"
    "objectInterface pf n [] d1 = ok (go_value pf (d_useNumber d) (JObj kvs), d2)" "at (closed_fn ps) ps (d_scan d2)"
    "advances d (length w + length (''{'' @ t @ ''}'')) (num_errors pf (d_useNumber d) (JObj kvs)) d2"
proof -
  have u: "drop (d_off d) (d_data d) = w @ CHR ''{'' # (t @ CHR ''}'' # rest)" using d(2) by simp
  obtain d1 where d1: "scanWhile scanSkipSpace d = Some (scanBeginObject, d1)"
      "at StateBeginStringOrEmpty (ps @ [parseObjectKey]) (d_scan d1)" "advances d (length w + 1) [] d1"
    by (rule token [OF f(1) d(1) u move_open(1) [OF f(2)]]) (simp, blast)
  have u1: "drop (d_off d1) (d_data d1) = t @ CHR ''}'' # rest"
    by (rule advances_drop [of d "w @ ''{''" "[]"]) (use d1(3) u in simp_all)
  obtain d2 where d2: "objectInterface pf n [] d1 = ok (go_value pf (d_useNumber d1) (JObj kvs), d2)"
      "at (closed_fn ps) ps (d_scan d2)" "advances d1 (length t + 1) (num_errors pf (d_useNumber d1) (JObj kvs)) d2"
    by (rule object_bodyD [OF b d1(2) u1 d(3)])
  have "d_useNumber d1 = d_useNumber d" using d1(3) by (simp add: advances_def)
  then show thesis using that d1(1) d2 advances_trans [OF d1(3) d2(3)] by simp
qed

lemma closed_ready:
  "at (closed_fn (ps @ [p])) (ps @ [p]) (d_scan d) \<Longrightarrow> end_fn StateEndValue \<and> ready StateEndValue (ps @ [p]) d"
  by (auto simp: closed_fn_def end_fn_def intro: at_ready)

lemma decodes_array:
  assumes "array_body pf vs t"
  shows "decodes pf (JArr vs) (''['' @ t @ '']'')"
  unfolding decodes_def
proof (intro allI impI, elim conjE)
  fix w f ps p d c rest n
  assume a: "gap w" "begins f" "ready f (ps @ [p]) d"
    "drop (d_off d) (d_data d) = w @ (''['' @ t @ '']'') @ c # rest" "length (''['' @ t @ '']'') < n"
  obtain f1 where f1: "leads f (ps @ [p]) w (skips w) f1 (ps @ [p])" "begins f1"
    using leads_gap_value [OF a(1,2)] by blast
  obtain m where m: "n = Suc m" "length t + 1 < m" using a(5) by (cases n) auto
  obtain d1 d2 where d: "scanWhile scanSkipSpace d = Some (scanBeginArray, d1)"
      "arrayInterface pf m [] d1 = ok (go_value pf (d_useNumber d) (JArr vs), d2)"
      "at (closed_fn (ps @ [p])) (ps @ [p]) (d_scan d2)"
      "advances d (length w + length (''['' @ t @ '']'')) (num_errors pf (d_useNumber d) (JArr vs)) d2"
    by (rule open_array [OF assms f1 a(3,4) m(2)])
  then show "\<exists>d' g. valueInterface pf n d = ok (go_value pf (d_useNumber d) (JArr vs), d') \<and> end_fn g \<and>
      ready g (ps @ [p]) d' \<and>
      advances d (length w + length (''['' @ t @ '']'')) (num_errors pf (d_useNumber d) (JArr vs)) d'"
    using closed_ready [OF d(3)] m(1) by (intro exI [of _ d2] exI [of _ StateEndValue]) simp
qed

lemma decodes_object:
  assumes "object_body pf kvs t"
  shows "decodes pf (JObj kvs) (''{'' @ t @ ''}'')"
  unfolding decodes_def
proof (intro allI impI, elim conjE)
  fix w f ps p d c rest n
  assume a: "gap w" "begins f" "ready f (ps @ [p]) d"
    "drop (d_off d) (d_data d) = w @ (''{'' @ t @ ''}'') @ c # rest" "length (''{'' @ t @ ''}'') < n"
  obtain f1 where f1: "leads f (ps @ [p]) w (skips w) f1 (ps @ [p])" "begins f1"
    using leads_gap_value [OF a(1,2)] by blast
  obtain m where m: "n = Suc m" "length t + 1 < m" using a(5) by (cases n) auto
  obtain d1 d2 where d: "scanWhile scanSkipSpace d = Some (scanBeginObject, d1)"
      "objectInterface pf m [] d1 = ok (go_value pf (d_useNumber d) (JObj kvs), d2)"
      "at (closed_fn (ps @ [p])) (ps @ [p]) (d_scan d2)"
      "advances d (length w + length (''{'' @ t @ ''}'')) (num_errors pf (d_useNumber d) (JObj kvs)) d2"
    by (rule open_object [OF assms f1 a(3,4) m(2)])
  then show "\<exists>d' g. valueInterface pf n d = ok (go_value pf (d_useNumber d) (JObj kvs), d') \<and> end_fn g \<and>
      ready g (ps @ [p]) d' \<and>
      advances d (length w + length (''{'' @ t @ ''}'')) (num_errors pf (d_useNumber d) (JObj kvs)) d'"
    using closed_ready [OF d(3)] m(1) by (intro exI [of _ d2] exI [of _ StateEndValue]) simp
qed

lemma put_members_Cons:
  "put_members pf un ((k, v) # kvs) acc = put_members pf un kvs (AList.update (str_value k) (go_value pf un v) acc)"
  "put_members pf un [] acc = acc"
  by (simp_all add: put_members_def)

text \<open>One round of the loop of \<open>arrayInterface\<close>, and of \<open>objectInterface\<close>.\<close>

lemma array_round:
  assumes l: "layout v t os" "decodes pf v t" and w: "gap w1" "gap w2" "begins f"
    and d: "ready f (ps @ [parseArrayValue]) d" "drop (d_off d) (d_data d) = w1 @ t @ w2 @ x # u" "length t < n"
    and x: "stops (ps @ [parseArrayValue]) x" "\<And>g. end_fn g \<Longrightarrow> moves g (ps @ [parseArrayValue]) x op h rs"
      "op \<noteq> scanSkipSpace"
  obtains d' where "arrayInterface pf (Suc n) acc d =
      (if op = scanEndArray then ok (VArray (acc @ [go_value pf (d_useNumber d) v]), d')
       else if op \<noteq> scanArrayValue then fail_with ErrPhase
       else arrayInterface pf n (acc @ [go_value pf (d_useNumber d) v]) d')"
    "at h rs (d_scan d')" "drop (d_off d') (d_data d') = u" "d_useNumber d' = d_useNumber d"
    "advances d (length (w1 @ t @ w2) + 1) (num_errors pf (d_useNumber d) v) d'"
proof -
  obtain op1 d1 d2 f2 where h: "scanWhile scanSkipSpace d = Some (op1, d1)" "op1 \<noteq> scanEndArray"
      "back_up op1 d1 = Some d2" "ready f2 (ps @ [parseArrayValue]) d2" "begins f2"
      "drop (d_off d2) (d_data d2) = t @ w2 @ x # u" "advances d (length w1) [] d2"
    by (rule array_first [OF l(1) w(1,3) d(1,2)])
  have un: "d_useNumber d2 = d_useNumber d" using h(7) by (simp add: advances_def)
  have u2: "drop (d_off d2) (d_data d2) = [] @ t @ w2 @ x # u" using h(6) by simp
  obtain d3 d' where e: "valueInterface pf n d2 = ok (go_value pf (d_useNumber d2) v, d3)"
      "scanWhile scanSkipSpace d3 = Some (op, d')" "at h rs (d_scan d')"
      "advances d2 (length ([] :: string) + length t + length w2 + 1) (num_errors pf (d_useNumber d2) v) d'"
      "drop (d_off d') (d_data d') = u" "d_useNumber d' = d_useNumber d2"
    by (rule read_element [OF l(2) gap_Nil w(2) h(5) disjI1 [OF refl] h(4) u2 d(3) x])
  show thesis
    using that [of d'] e h(1-3) un advances_trans [OF h(7) e(4)] by (simp add: add.assoc)
qed

lemma object_round:
  assumes l: "decodes pf v t" and f: "f = StateBeginString \<or> f = StateBeginStringOrEmpty"
    and w: "gap w1" "spaces w2" "gap w3" "gap w4" "string_body k"
    and d: "ready f (ps @ [parseObjectKey]) d"
      "drop (d_off d) (d_data d) = w1 @ render_string k @ w2 @ CHR '':'' # w3 @ t @ w4 @ x # u" "length t < n"
    and x: "stops (ps @ [parseObjectValue]) x" "\<And>g. end_fn g \<Longrightarrow> moves g (ps @ [parseObjectValue]) x op h rs"
      "op \<noteq> scanSkipSpace"
  obtains d' where "objectInterface pf (Suc n) acc d =
      (if op = scanEndObject then ok (VObject (put_members pf (d_useNumber d) [(k, v)] acc), d')
       else if op \<noteq> scanObjectValue then fail_with ErrPhase
       else objectInterface pf n (put_members pf (d_useNumber d) [(k, v)] acc) d')"
    "at h rs (d_scan d')" "drop (d_off d') (d_data d') = u" "d_useNumber d' = d_useNumber d"
    "advances d (length (w1 @ render_string k @ w2 @ '':'' @ w3 @ t @ w4) + 1) (num_errors pf (d_useNumber d) v) d'"
proof -
  obtain op1 d1 d2 d3 where k: "scanWhile scanSkipSpace d = Some (scanBeginLiteral, d1)"
      "key_item d1 = ok ((str_value k, op1), d2)" "colon op1 d2 = ok d3"
      "at StateBeginValue (ps @ [parseObjectValue]) (d_scan d3)"
      "advances d (length w1 + length (render_string k) + length w2 + 1) [] d3"
      "drop (d_off d3) (d_data d3) = w3 @ t @ w4 @ x # u"
    by (rule read_key [OF f w(1,2,5) d(1,2)])
  have b: "begins StateBeginValue" by (simp add: begins_def)
  have un: "d_useNumber d3 = d_useNumber d" using k(5) by (simp add: advances_def)
  obtain d4 d' where e: "valueInterface pf n d3 = ok (go_value pf (d_useNumber d3) v, d4)"
      "scanWhile scanSkipSpace d4 = Some (op, d')" "at h rs (d_scan d')"
      "advances d3 (length w3 + length t + length w4 + 1) (num_errors pf (d_useNumber d3) v) d'"
      "drop (d_off d') (d_data d') = u" "d_useNumber d' = d_useNumber d3"
    by (rule read_element [OF l w(3,4) b disjI2 [OF refl] at_ready [OF k(4)] k(6) d(3) x])
  show thesis
    using that [of d'] e k(1-3) un advances_trans [OF k(5) e(4)]
    by (simp add: put_members_Cons add.assoc add.left_commute)
qed

lemma decodes_layout:
  "layout v t os \<Longrightarrow> decodes pf v t"
  "elements vs t os \<Longrightarrow> decodes_elements pf vs t"
  "members kvs t os \<Longrightarrow> decodes_members pf kvs t"
proof (induction rule: layout_elements_members.inducts)
  case (lay_empty_array w)
  then show ?case by (rule decodes_array [OF array_body_empty])
next
  case (lay_array vs t os)
  then show ?case by (intro decodes_array array_body_elements)
next
  case (lay_empty_object w)
  then show ?case by (rule decodes_object [OF object_body_empty])
next
  case (lay_object kvs t os)
  then show ?case by (intro decodes_object object_body_members)
next
  case (el_last w1 v t os w2)
  show ?case
    unfolding decodes_elements_def
  proof (intro allI impI, elim conjE)
    fix f ps d acc rest n
    assume a: "begins f" "ready f (ps @ [parseArrayValue]) d"
      "drop (d_off d) (d_data d) = (w1 @ t @ w2) @ CHR '']'' # rest" "length (w1 @ t @ w2) + 1 < n"
    then obtain m where m: "n = Suc m" "length t < m" by (cases n) auto
    have u: "drop (d_off d) (d_data d) = w1 @ t @ w2 @ CHR '']'' # rest" using a(3) by simp
    show "\<exists>d'. arrayInterface pf n acc d = ok (VArray (acc @ map (go_value pf (d_useNumber d)) [v]), d') \<and>
        at (closed_fn ps) ps (d_scan d') \<and>
        advances d (length (w1 @ t @ w2) + 1) (concat (map (num_errors pf (d_useNumber d)) [v])) d'"
      by (rule array_round [OF el_last.hyps(2) el_last.IH el_last.hyps(1,3) a(1,2) u m(2) stops_punct(4) move_punct(5), of acc])
        (auto simp: m(1))
  qed
next
  case (el_more w1 v t os w2 vs u qs)
  show ?case
    unfolding decodes_elements_def
  proof (intro allI impI, elim conjE)
    fix f ps d acc rest n
    assume a: "begins f" "ready f (ps @ [parseArrayValue]) d"
      "drop (d_off d) (d_data d) = (w1 @ t @ w2 @ '','' @ u) @ CHR '']'' # rest" "length (w1 @ t @ w2 @ '','' @ u) + 1 < n"
    then obtain m where m: "n = Suc m" "length t < m" "length u + 1 < m" by (cases n) auto
    have ud: "drop (d_off d) (d_data d) = w1 @ t @ w2 @ CHR '','' # (u @ CHR '']'' # rest)" using a(3) by simp
    obtain d1 where d1: "arrayInterface pf n acc d = arrayInterface pf m (acc @ [go_value pf (d_useNumber d) v]) d1"
        "at StateBeginValue (ps @ [parseArrayValue]) (d_scan d1)" "drop (d_off d1) (d_data d1) = u @ CHR '']'' # rest"
        "d_useNumber d1 = d_useNumber d" "advances d (length (w1 @ t @ w2) + 1) (num_errors pf (d_useNumber d) v) d1"
      by (rule array_round [OF el_more.hyps(2) el_more.IH(1) el_more.hyps(1,3) a(1,2) ud m(2) stops_punct(2) move_punct(3), of acc])
        (auto simp: m(1))
    obtain d2 where d2: "arrayInterface pf m (acc @ [go_value pf (d_useNumber d) v]) d1 =
          ok (VArray ((acc @ [go_value pf (d_useNumber d) v]) @ map (go_value pf (d_useNumber d1)) vs), d2)"
        "at (closed_fn ps) ps (d_scan d2)" "advances d1 (length u + 1) (concat (map (num_errors pf (d_useNumber d1)) vs)) d2"
      using el_more.IH(2) [unfolded decodes_elements_def, rule_format, of StateBeginValue ps d1 rest m
          "acc @ [go_value pf (d_useNumber d) v]"]
        at_ready [OF d1(2)] d1(3) m(3) by (auto simp: begins_def)
    show "\<exists>d'. arrayInterface pf n acc d = ok (VArray (acc @ map (go_value pf (d_useNumber d)) (v # vs)), d') \<and>
        at (closed_fn ps) ps (d_scan d') \<and>
        advances d (length (w1 @ t @ w2 @ '','' @ u) + 1) (concat (map (num_errors pf (d_useNumber d)) (v # vs))) d'"
      using d1(1) d2 advances_trans [OF d1(5) d2(3)] d1(4) by (intro exI [of _ d2]) (simp add: add.assoc)
  qed
next
  case (mem_last w1 w2 w3 v t os w4 k)
  show ?case
    unfolding decodes_members_def
  proof (intro allI impI, elim conjE)
    fix f ps d acc rest n
    assume a: "f = StateBeginString \<or> f = StateBeginStringOrEmpty" "ready f (ps @ [parseObjectKey]) d"
      "drop (d_off d) (d_data d) = (w1 @ render_string k @ w2 @ '':'' @ w3 @ t @ w4) @ CHR ''}'' # rest"
      "length (w1 @ render_string k @ w2 @ '':'' @ w3 @ t @ w4) + 1 < n"
    then obtain m where m: "n = Suc m" "length t < m" by (cases n) auto
    have u: "drop (d_off d) (d_data d) = w1 @ render_string k @ w2 @ CHR '':'' # w3 @ t @ w4 @ CHR ''}'' # rest"
      using a(3) by simp
    show "\<exists>d'. objectInterface pf n acc d = ok (VObject (put_members pf (d_useNumber d) [(k, v)] acc), d') \<and>
        at (closed_fn ps) ps (d_scan d') \<and>
        advances d (length (w1 @ render_string k @ w2 @ '':'' @ w3 @ t @ w4) + 1)
          (concat (map (\<lambda>p. num_errors pf (d_useNumber d) (snd p)) [(k, v)])) d'"
      by (rule object_round [OF mem_last.IH a(1) mem_last.hyps(1,2,3,5,6) a(2) u m(2) stops_punct(3) move_punct(4), of acc])
        (auto simp: m(1))
  qed
next
  case (mem_more w1 w2 w3 v t os w4 kvs u qs k)
  show ?case
    unfolding decodes_members_def
  proof (intro allI impI, elim conjE)
    fix f ps d acc rest n
    let ?t = "w1 @ render_string k @ w2 @ '':'' @ w3 @ t @ w4"
    assume a: "f = StateBeginString \<or> f = StateBeginStringOrEmpty" "ready f (ps @ [parseObjectKey]) d"
      "drop (d_off d) (d_data d) = (w1 @ render_string k @ w2 @ '':'' @ w3 @ t @ w4 @ '','' @ u) @ CHR ''}'' # rest"
      "length (w1 @ render_string k @ w2 @ '':'' @ w3 @ t @ w4 @ '','' @ u) + 1 < n"
    then obtain m where m: "n = Suc m" "length t < m" "length u + 1 < m" by (cases n) auto
    have ud: "drop (d_off d) (d_data d) =
        w1 @ render_string k @ w2 @ CHR '':'' # w3 @ t @ w4 @ CHR '','' # (u @ CHR ''}'' # rest)"
      using a(3) by simp
    let ?acc = "put_members pf (d_useNumber d) [(k, v)] acc"
    obtain d1 where d1: "objectInterface pf n acc d = objectInterface pf m ?acc d1"
        "at StateBeginString (ps @ [parseObjectKey]) (d_scan d1)" "drop (d_off d1) (d_data d1) = u @ CHR ''}'' # rest"
        "d_useNumber d1 = d_useNumber d" "advances d (length ?t + 1) (num_errors pf (d_useNumber d) v) d1"
      by (rule object_round [OF mem_more.IH(1) a(1) mem_more.hyps(1,2,3,5,7) a(2) ud m(2) stops_punct(1) move_punct(2), of acc])
        (auto simp: m(1))
    obtain d2 where d2: "objectInterface pf m ?acc d1 = ok (VObject (put_members pf (d_useNumber d1) kvs ?acc), d2)"
        "at (closed_fn ps) ps (d_scan d2)"
        "advances d1 (length u + 1) (concat (map (\<lambda>p. num_errors pf (d_useNumber d1) (snd p)) kvs)) d2"
      using mem_more.IH(2) [unfolded decodes_members_def, rule_format, of StateBeginString ps d1 rest m ?acc]
        at_ready [OF d1(2)] d1(3) m(3) by auto
    show "\<exists>d'. objectInterface pf n acc d = ok (VObject (put_members pf (d_useNumber d) ((k, v) # kvs) acc), d') \<and>
        at (closed_fn ps) ps (d_scan d') \<and>
        advances d (length (w1 @ render_string k @ w2 @ '':'' @ w3 @ t @ w4 @ '','' @ u) + 1)
          (concat (map (\<lambda>p. num_errors pf (d_useNumber d) (snd p)) ((k, v) # kvs))) d'"
      using d1(1) d2 advances_trans [OF d1(5) d2(3)] d1(4)
      by (intro exI [of _ d2]) (simp add: put_members_Cons add.assoc)
  qed
qed (auto intro: decodes_literal [OF _ lay_null] decodes_literal [OF _ lay_true] decodes_literal [OF _ lay_false]
    decodes_literal [OF _ lay_number] decodes_literal [OF _ lay_string])

section \<open>Unmarshalling a whole text\<close>

text \<open>At the top level, a literal is ended by white space or by the end of the text.\<close>

lemma top_space:
  assumes "ends_in v [] g" "at g [] s" "isSpace c"
  shows "\<exists>t. scan_step s c = Some (scanEnd, t) \<and> sc_endTop t \<and> \<not> sc_redo t"
proof (cases "g = StateEndTop")
  case True
  then show ?thesis using assms(2,3) by (auto simp: at_def scan_step_def stateEndTop_def isSpace_def)
next
  case False
  then have "end_fn g" using assms(1) by (cases v) (auto simp: ends_in_def end_fn_def closed_fn_def)
  then have "scan_step s c = stateEndValue s c"
    by (rule end_fn_step) (use assms(2) isSpace_not [OF assms(3)] in \<open>auto simp: at_def\<close>)
  then show ?thesis using assms(2,3) by (auto simp: at_def stateEndValue_def stateEndTop_def isSpace_def)
qed

lemma top_scan_next:
  assumes "ends_in v [] g" "at g [] (d_scan d)" "drop (d_off d) (d_data d) = rest" "spaces rest"
    and "d_off d \<le> length (d_data d)"
  obtains d' where "scan_next d = Some (scanEnd, d')" "\<not> sc_redo (d_scan d')" "advances d 1 [] d'"
proof (cases rest)
  case Nil
  have "isSpace (CHR '' '')" by (simp add: isSpace_def)
  then obtain t where "scan_step (d_scan d) (CHR '' '') = Some (scanEnd, t)" "sc_endTop t" "\<not> sc_redo t"
    using top_space [OF assms(1,2)] by blast
  then have "\<exists>t. scanner_eof (d_scan d) = Some (scanEnd, t) \<and> \<not> sc_redo t"
    using assms(2) by (auto simp: scanner_eof_def at_def)
  moreover have "d_off d = length (d_data d)" using Nil assms(3,5) by simp
  ultimately show thesis using that by (auto simp: scan_next_def advances_def first_error_def)
next
  case (Cons c cs)
  note n = drop_nth [OF assms(3) [unfolded Cons]]
  obtain t where "scan_step (d_scan d) c = Some (scanEnd, t)" "\<not> sc_redo t"
    using top_space [OF assms(1,2), of c] assms(4) Cons by auto
  then show thesis using that [of "d\<lparr>d_scan := t, d_off := d_off d + 1\<rparr>"] n
    by (simp add: scan_next_def advances_def first_error_def)
qed

lemma literal_item_top:
  assumes l: "leads f qs cs (conts cs) g []" "at f qs (d_scan d)" "1 \<le> d_off d"
    and u: "drop (d_off d - 1) (d_data d) = (c0 # cs) @ rest" and g: "ends_in v [] g" "spaces rest"
  obtains d' where "literal_item d = ok (c0 # cs, d')" "advances d (length cs) [] d'"
proof -
  have "drop (Suc (d_off d - 1)) (d_data d) = cs @ rest"
    using drop_nth [of "d_off d - 1" "d_data d" c0 "cs @ rest"] u by simp
  then have u1: "drop (d_off d) (d_data d) = cs @ rest" using l(3) by simp
  obtain d1 where d1: "scanWhile scanContinue d = scanWhile scanContinue d1" "advances d (length cs) [] d1"
      "at f qs (d_scan d) \<Longrightarrow> at g [] (d_scan d1)"
    by (rule scanWhile_leads [OF l(1) at_ready [OF l(2)] u1]) blast
  have "length (drop (d_off d - 1) (d_data d)) = length cs + 1 + length rest" unfolding u by simp
  then have len: "d_off d + length cs \<le> length (d_data d)" using l(3) by simp
  obtain d2 where d2: "scan_next d1 = Some (scanEnd, d2)" "\<not> sc_redo (d_scan d2)" "advances d1 1 [] d2"
    by (rule top_scan_next [OF g(1) d1(3) [OF l(2)] advances_drop [OF d1(2) u1] g(2)])
      (use len d1(2) in \<open>simp_all add: advances_def\<close>)
  obtain d3 where d3: "back_up scanEnd d2 = Some d3" "advances d (length cs) [] d3"
    using d2(2,3) d1(2) by (simp add: back_up_def undo_def advances_def first_error_def)
  have "scanWhile scanContinue d = Some (scanEnd, d2)" unfolding d1(1) by (rule scanWhile_stop [OF d2(1)]) simp
  moreover have "go_slice (d_data d3) (int (d_off d - 1)) (int (d_off d3)) = Some (c0 # cs)"
    using d3(2) len u l(3) by (simp add: go_slice_def advances_def nat_diff_distrib' of_nat_diff nat_add_distrib)
  ultimately show thesis using that d3 by (simp add: literal_item_def Let_def)
qed

text \<open>The literal of an interface is stored as it is read.\<close>

lemma literalStore_render:
  assumes "is_literal v" "json_ok v"
  obtains d' where "literalStore_iface pf (render v) VNil d = ok (go_value pf (d_useNumber d) v, d')"
    "advances d 0 (num_errors pf (d_useNumber d) v) d'"
proof -
  obtain d' where d': "literal_value pf (render v) d = ok (go_value pf (d_useNumber d) v, d')"
      "advances d 0 (num_errors pf (d_useNumber d) v) d'"
    by (rule literal_value_render [OF assms])
  have "literalStore_iface pf item VNil d = literal_value pf item d" if "item \<noteq> []" for item
    using that by (auto simp: literalStore_iface_def literal_value_def unquote_def split: list.splits)
  moreover have "render v \<noteq> []" using assms by (cases v) auto
  ultimately show thesis using that d' by simp
qed

lemma value_iface_layout:
  assumes l: "layout v t os" and w: "gap w" and s: "spaces rest"
    and d: "at StateBeginValue [] (d_scan d)" "drop (d_off d) (d_data d) = w @ t @ rest" "length t < n"
  obtains d' where "value_iface pf n d = ok (go_value pf (d_useNumber d) v, d')"
    "advances d (length w + length t) (num_errors pf (d_useNumber d) v) d'"
proof -
  obtain f1 where f1: "leads StateBeginValue [] w (skips w) f1 []" "begins f1"
    using leads_gap_value [OF w, of StateBeginValue] by (auto simp: begins_def)
  note r = at_ready [OF d(1)]
  consider (arr) vs u where "v = JArr vs" "t = ''['' @ u @ '']''" "array_body pf vs u"
    | (obj) kvs u where "v = JObj kvs" "t = ''{'' @ u @ ''}''" "object_body pf kvs u"
    | (lit) "is_literal v"
    using l by cases (auto intro: array_body_empty object_body_empty array_body_elements object_body_members decodes_layout(2,3))
  then show thesis
  proof cases
    case arr
    have n: "length u + 1 < n" using d(3) arr(2) by simp
    obtain d1 d2 where "scanWhile scanSkipSpace d = Some (scanBeginArray, d1)"
        "arrayInterface pf n [] d1 = ok (go_value pf (d_useNumber d) (JArr vs), d2)"
        "advances d (length w + length (''['' @ u @ '']'')) (num_errors pf (d_useNumber d) (JArr vs)) d2"
      by (rule open_array [OF arr(3) f1 r d(2) [unfolded arr(2)] n])
    then show thesis using that [of d2] arr(1,2) by (simp add: value_iface_def)
  next
    case obj
    have n: "length u + 1 < n" using d(3) obj(2) by simp
    obtain d1 d2 where "scanWhile scanSkipSpace d = Some (scanBeginObject, d1)"
        "objectInterface pf n [] d1 = ok (go_value pf (d_useNumber d) (JObj kvs), d2)"
        "advances d (length w + length (''{'' @ u @ ''}'')) (num_errors pf (d_useNumber d) (JObj kvs)) d2"
      by (rule open_object [OF obj(3) f1 r d(2) [unfolded obj(2)] n])
    then show thesis using that [of d2] obj(1,2) by (simp add: value_iface_def)
  next
    case lit
    obtain g where g: "t = render v" "leads f1 [] t (lit_ops t) g []" "ends_in v [] g" "t \<noteq> []"
      by (rule literal_leads [OF lit l f1(2), of "[]"])
    obtain c0 cs f2 qs where c: "t = c0 # cs" "moves f1 [] c0 scanBeginLiteral f2 qs" "leads f2 qs cs (conts cs) g []"
      by (rule leads_lit_split [OF g(2,4)])
    have u: "drop (d_off d) (d_data d) = w @ c0 # (cs @ rest)" using d(2) c(1) by simp
    obtain d1 where d1: "scanWhile scanSkipSpace d = Some (scanBeginLiteral, d1)" "at f2 qs (d_scan d1)"
        "advances d (length w + 1) [] d1"
      by (rule token [OF f1(1) r u c(2)]) (simp, blast)
    have "drop (d_off d + length w) (d_data d) = t @ rest"
      using d(2) by (metis append_eq_conv_conj drop_drop add.commute)
    then have off: "1 \<le> d_off d1" "drop (d_off d1 - 1) (d_data d1) = (c0 # cs) @ rest"
      using d1(3) c(1) by (simp_all add: advances_def)
    obtain d2 where d2: "literal_item d1 = ok (c0 # cs, d2)" "advances d1 (length cs) [] d2"
      by (rule literal_item_top [OF c(3) d1(2) off g(3) s])
    obtain d3 where d3: "literalStore_iface pf (render v) VNil d2 = ok (go_value pf (d_useNumber d2) v, d3)"
        "advances d2 0 (num_errors pf (d_useNumber d2) v) d3"
      by (rule literalStore_render [OF lit layout_ok(1) [OF l]])
    have un: "d_useNumber d2 = d_useNumber d" using d1(3) d2(2) by (simp add: advances_def)
    have "render v = c0 # cs" using g(1) c(1) by simp
    then have "value_iface pf n d = ok (go_value pf (d_useNumber d) v, d3)"
      using d1(1) d2(1) d3(1) un by (simp add: value_iface_def)
    moreover have "advances d (length w + length t) (num_errors pf (d_useNumber d) v) d3"
      using advances_trans [OF advances_trans [OF d1(3) d2(2)] d3(2)] un c(1) by simp
    ultimately show thesis using that by blast
  qed
qed

lemma Unmarshal_text:
  assumes "gap w" "layout v t os" "spaces rest" "length t < n"
  shows "Unmarshal_iface pf n (w @ t @ rest) =
    Some (first_error None (num_errors pf False v), go_value pf False v)"
proof -
  have f: "follows v rest"
  proof (cases rest)
    case (Cons c cs)
    then show ?thesis using isSpace_not [of c] assms(3) by (auto simp: follows_def)
  qed (simp add: follows_def)
  obtain s where s: "checkValid (w @ t @ rest) (d_scan new_decodeState) = Some (None, s)"
    using checkValid_text [OF assms(1,2) f, of "d_scan new_decodeState"] assms(3) by auto
  let ?d = "decode_init (w @ t @ rest) (new_decodeState\<lparr>d_scan := s\<rparr>)"
  have d: "at StateBeginValue [] (d_scan (?d\<lparr>d_scan := scanner_reset (d_scan ?d)\<rparr>))"
    "drop (d_off (?d\<lparr>d_scan := scanner_reset (d_scan ?d)\<rparr>)) (d_data (?d\<lparr>d_scan := scanner_reset (d_scan ?d)\<rparr>)) = w @ t @ rest"
    by (simp_all add: decode_init_def)
  obtain d' where "value_iface pf n (?d\<lparr>d_scan := scanner_reset (d_scan ?d)\<rparr>) = ok (go_value pf False v, d')"
      "d_savedError d' = first_error None (num_errors pf False v)"
    by (rule value_iface_layout [OF assms(2,1,3) d assms(4), of pf])
      (simp add: decode_init_def new_decodeState_def advances_def)
  then show ?thesis using s by (simp add: Unmarshal_iface_def unmarshal_iface_def ok_def)
qed

text \<open>C24: whatever white space and comments stand between the tokens, a JSON text is unmarshalled into an
  empty interface as the value it writes: strings with their escapes undone, surrogate pairs joined and
  what is not valid UTF-8 replaced,
  objects with the last of several equal keys; the error is the first number that does not fit. Fuel of
  one more than the length of the value is enough.\<close>

theorem Unmarshal_layout:
  assumes "gap w" "layout v t os" "spaces rest" "length t < n"
  shows "Unmarshal_iface pf n (w @ t @ rest) =
    Some (first_error None (num_errors pf False v), go_value pf False v)"
  by (rule Unmarshal_text [OF assms])

theorem Unmarshal_layout_witness:
  "Unmarshal_iface Some 100 (comment ''x'' @ sample_text @ '' '') = Some (None, go_value Some False sample_value)"
proof -
  obtain os where os: "layout sample_value sample_text os" using sample_layout by blast
  have g: "gap (comment ''x'')" using gap_comment [of "''x''" "[]"] gap_Nil by simp
  have "Unmarshal_iface Some 100 (comment ''x'' @ sample_text @ '' '') =
      Some (first_error None (num_errors Some False sample_value), go_value Some False sample_value)"
    by (rule Unmarshal_layout [OF g os]) (simp_all add: isSpace_def sample_text_def comment_def)
  then show ?thesis by (simp add: sample_value_def first_error_def convertNumber_def)
qed

section \<open>Skipping a value\<close>

text \<open>The first byte of a value: what is read, and what it pushes.\<close>

definition opened :: "json \<Rightarrow> parse_state list" where
  "opened v = (case v of JArr _ \<Rightarrow> [parseArrayValue] | JObj _ \<Rightarrow> [parseObjectKey] | _ \<Rightarrow> [])"

lemma begin_literal_stack:
  assumes "begins f" "at f ps s" "scan_step s c = Some (scanBeginLiteral, s')"
  shows "sc_parseState s' = ps" "sc_endTop s' = sc_endTop s"
proof -
  have "sc_parseState s' = sc_parseState s \<and> sc_endTop s' = sc_endTop s"
    if "stateBeginValue s c = Some (scanBeginLiteral, s')"
    using that by (auto simp: stateBeginValue_def goto_def scanner_error_def split: if_splits)
  moreover have "stateEndValue s c \<noteq> Some (scanBeginLiteral, s')"
    by (auto simp: stateEndValue_def stateEndTop_def goto_def scanner_error_def split: if_splits parse_state.splits)
  ultimately show "sc_parseState s' = ps" "sc_endTop s' = sc_endTop s"
    using assms by (auto simp: begins_def at_def scan_step_def stateBeginValueOrEmpty_def goto_def split: if_splits)
qed

lemma open_step:
  assumes l: "layout v t os" and f: "begins f" and s: "at f ps s"
  obtains c u op s' where "t = c # u" "op \<noteq> scanSkipSpace" "op < scanEnd" "scan_step s c = Some (op, s')"
    "sc_parseState s' = ps @ opened v" "\<not> sc_endTop s'" "sc_err s' = None" "\<not> sc_redo s'"
proof -
  have top: "\<not> sc_endTop s" using f s by (auto simp: begins_def at_def)
  consider (arr) u where "t = CHR ''['' # u" "opened v = [parseArrayValue]"
    | (obj) u where "t = CHR ''{'' # u" "opened v = [parseObjectKey]" | (lit) "is_literal v" "opened v = []"
    using l by cases (auto simp: opened_def)
  then show thesis
  proof cases
    case arr
    then show thesis using moves_step [OF move_open(2) [OF f] s] that [of _ _ scanBeginArray]
      by (auto simp: at_def)
  next
    case obj
    then show thesis using moves_step [OF move_open(1) [OF f] s] that [of _ _ scanBeginObject]
      by (auto simp: at_def)
  next
    case lit
    obtain g where g: "leads f ps t (lit_ops t) g ps" "t \<noteq> []" by (rule literal_leads [OF lit(1) l f, of ps])
    obtain c u h qs where c: "t = c # u" "moves f ps c scanBeginLiteral h qs" "leads h qs u (conts u) g ps"
      by (rule leads_lit_split [OF g])
    obtain s' where s': "scan_step s c = Some (scanBeginLiteral, s')" "at h qs s'"
      using moves_step [OF c(2) s] by blast
    then show thesis
      using that [OF c(1) _ _ s'(1)] begin_literal_stack [OF f s s'(1)] s'(2) lit(2) top by (simp add: at_def)
  qed
qed

lemma feed_leads: "leads f ps w os g qs \<Longrightarrow> at f ps s \<Longrightarrow> \<exists>s'. feed w s = Some s' \<and> at g qs s'"
proof (induction w arbitrary: f ps s os)
  case (Cons c w)
  obtain v ws f1 ps1 where l: "moves f ps c v f1 ps1" "leads f1 ps1 w ws g qs"
    using Cons.prems(1) by (auto simp: leads.simps(2))
  obtain s1 where "scan_step s c = Some (v, s1)" "at f1 ps1 s1" using moves_step [OF l(1) Cons.prems(2)] by blast
  then show ?case using Cons.IH [OF l(2)] by simp
qed simp

text \<open>The empty string that is fed for the skipped value.\<close>

lemma feed_string:
  assumes "at StateBeginValue qs s"
  shows "\<exists>s'. feed [CHR 0x22, CHR 0x22] s = Some s' \<and> at StateEndValue qs s'"
  using feed_leads [OF leads_string [of StateBeginValue "[]" qs] assms] body_Nil by (simp add: render_string_def)

lemma feed_append: "feed (xs @ ys) s = Option.bind (feed xs s) (feed ys)"
  by (induction xs arbitrary: s) (auto simp: case_prod_unfold split: bind_splits)

lemma feed_member:
  assumes "at StateEndValue (ps @ [parseObjectKey]) s"
  shows "\<exists>s'. feed ('':'' @ [CHR 0x22, CHR 0x22] @ ''}'') s = Some s' \<and> at (closed_fn ps) ps s'"
proof -
  have e: "end_fn StateEndValue" by (simp add: end_fn_def)
  obtain s1 where s1: "feed '':'' s = Some s1" "at StateBeginValue (ps @ [parseObjectValue]) s1"
    using feed_leads [OF leads_single [OF move_punct(1) [OF e]] assms] by blast
  obtain s2 where s2: "feed [CHR 0x22, CHR 0x22] s1 = Some s2" "at StateEndValue (ps @ [parseObjectValue]) s2"
    using feed_string [OF s1(2)] by blast
  obtain s3 where s3: "feed ''}'' s2 = Some s3" "at (closed_fn ps) ps s3"
    using feed_leads [OF leads_single [OF move_punct(4) [OF e]] s2(2)] by blast
  show ?thesis unfolding feed_append using s1(1) s2(1) s3 by (simp del: feed.simps)
qed

lemma skip_element_read:
  assumes l: "layout v t os" "follows v rest" and w: "gap w" "begins f"
    and d: "at f (ps @ [parseArrayValue]) (d_scan d)" "drop (d_off d) (d_data d) = w @ t @ rest"
  shows "\<exists>op d1 d2 d3. scanWhile scanSkipSpace d = Some (op, d1) \<and> back_up op d1 = Some d2 \<and>
    skip_value d2 = ok d3 \<and> d_off d3 = d_off d + length w + length t \<and>
    at StateEndValue (ps @ [parseArrayValue] @ (case v of JArr _ \<Rightarrow> [parseArrayValue] | _ \<Rightarrow> [])) (d_scan d3)"
proof -
  let ?ps = "ps @ [parseArrayValue]"
  obtain f2 where f2: "leads f ?ps w (skips w) f2 ?ps" "begins f2" using leads_gap_value [OF w] by blast
  obtain d1 where d1: "scanWhile scanSkipSpace d = scanWhile scanSkipSpace d1" "advances d (length w) [] d1"
      "at f ?ps (d_scan d) \<Longrightarrow> at f2 ?ps (d_scan d1)"
    by (rule scanWhile_leads [OF f2(1) at_ready [OF d(1)] d(2)]) blast
  note a1 = d1(3) [OF d(1)] and u1 = advances_drop [OF d1(2) d(2)]
  obtain c u op s where c: "t = c # u" "op \<noteq> scanSkipSpace" "op < scanEnd" "scan_step (d_scan d1) c = Some (op, s)"
      "sc_parseState s = ?ps @ opened v" "\<not> sc_endTop s" "sc_err s = None" "\<not> sc_redo s"
    by (rule open_step [OF l(1) f2(2) a1])
  let ?d' = "d1\<lparr>d_scan := s, d_off := d_off d1 + 1\<rparr>"
  let ?s = "s\<lparr>sc_redoCode := op, sc_redoState := Some (sc_step s), sc_step := StateRedo, sc_redo := True\<rparr>"
  let ?d2 = "d1\<lparr>d_scan := ?s\<rparr>"
  have "drop (d_off d1) (d_data d1) = c # (u @ rest)" using u1 c(1) by simp
  note n = drop_nth [OF this]
  have "scan_next d1 = Some (op, ?d')" using c(4) n by (simp add: scan_next_def)
  then have sw: "scanWhile scanSkipSpace d = Some (op, ?d')" using d1(1) scanWhile_stop c(2) by simp
  have bu: "back_up op ?d' = Some ?d2" using c(8) by (simp add: back_up_def undo_def)
  obtain ns where nv: "nextValue (t @ rest) (d_nextscan d1) = Some (Inr (t, rest), ns)"
    using nextValue_text [OF l] by blast
  let ?r = "?s\<lparr>sc_redo := False, sc_step := StateBeginValue\<rparr>"
  have "at StateBeginValue (?ps @ opened v) ?r" using c(5-7) by (simp add: at_def)
  then obtain s1 where s1: "feed [CHR 0x22, CHR 0x22] ?r = Some s1" "at StateEndValue (?ps @ opened v) s1"
    using feed_string by blast
  define qs where "qs = ?ps @ (case v of JArr _ \<Rightarrow> [parseArrayValue] | _ \<Rightarrow> [])"
  have "\<exists>s2. (if sc_parseState s1 \<noteq> [] \<and> last (sc_parseState s1) = parseObjectKey
      then run (feed ('':'' @ [CHR 0x22, CHR 0x22] @ ''}'') s1) else ok s1) = ok s2 \<and> at StateEndValue qs s2"
  proof (cases "\<exists>kvs. v = JObj kvs")
    case True
    then have o: "opened v = [parseObjectKey]" "qs = ?ps" by (auto simp: opened_def qs_def)
    obtain s2 where "feed ('':'' @ [CHR 0x22, CHR 0x22] @ ''}'') s1 = Some s2" "at (closed_fn ?ps) ?ps s2"
      using feed_member [of ?ps s1] s1(2) o(1) by auto
    then show ?thesis using s1(2) o by (auto simp: at_def closed_fn_def run_def ok_def)
  next
    case False
    then have o: "qs = ?ps @ opened v" "last (?ps @ opened v) \<noteq> parseObjectKey"
      by (cases v; simp add: opened_def qs_def)+
    then show ?thesis using s1(2) by (auto simp: at_def)
  qed
  then obtain s2 where s2: "(if sc_parseState s1 \<noteq> [] \<and> last (sc_parseState s1) = parseObjectKey
      then run (feed ('':'' @ [CHR 0x22, CHR 0x22] @ ''}'') s1) else ok s1) = ok s2" "at StateEndValue qs s2" by blast
  let ?d3 = "d1\<lparr>d_off := length (d_data d1) - length rest, d_nextscan := ns, d_scan := s2\<rparr>"
  have "skip_value ?d2 = ok ?d3"
    using nv s1(1) s2(1) u1 by (simp add: skip_value_def Let_def)
  moreover have "length (drop (d_off d1) (d_data d1)) = length t + length rest" unfolding u1 by simp
  then have "d_off ?d3 = d_off d + length w + length t" using d1(2) n
    by (simp add: advances_def) linarith
  ultimately show ?thesis using sw bu s2(2) qs_def by (intro exI [of _ op] exI [of _ ?d'] exI [of _ ?d2] exI [of _ ?d3]) simp
qed

text \<open>C25: an element of an array that is skipped (because the target is a fixed array that is full) is
  skipped whole. The scanner is then behind an element, but if the element is itself an array the scanner
  stands one array too deep: the bracket that was read before the rewind stays on its stack, and the next
  comma of an enclosing object is taken for one of an array.\<close>

theorem skip_element:
  assumes l: "layout v t os" "follows v rest" and w: "gap w" "begins f"
    and d: "at f (ps @ [parseArrayValue]) (d_scan d)" "drop (d_off d) (d_data d) = w @ t @ rest"
  shows "\<exists>op d1 d2 d3. scanWhile scanSkipSpace d = Some (op, d1) \<and> back_up op d1 = Some d2 \<and>
    skip_value d2 = ok d3 \<and> d_off d3 = d_off d + length w + length t \<and>
    at StateEndValue (ps @ [parseArrayValue] @ (case v of JArr _ \<Rightarrow> [parseArrayValue] | _ \<Rightarrow> [])) (d_scan d3)"
  by (rule skip_element_read [OF assms])

theorem skip_element_witness:
  "\<exists>op d1 d2 d3.
     scanWhile scanSkipSpace (new_decodeState\<lparr>d_data := ''[],'', d_scan := fresh_scanner\<lparr>sc_parseState := [parseArrayValue]\<rparr>\<rparr>) =
       Some (op, d1) \<and>
     back_up op d1 = Some d2 \<and> skip_value d2 = ok d3 \<and> d_off d3 = 2 \<and>
     at StateEndValue [parseArrayValue, parseArrayValue] (d_scan d3)"
proof -
  let ?d = "new_decodeState\<lparr>d_data := ''[],'', d_scan := fresh_scanner\<lparr>sc_parseState := [parseArrayValue]\<rparr>\<rparr>"
  have l: "layout (JArr []) (''['' @ [] @ '']'') (scanBeginArray # skips [] @ [scanEndArray])"
    by (rule lay_empty_array) (rule gap_Nil)
  have d: "at StateBeginValue ([] @ [parseArrayValue]) (d_scan ?d)"
    "drop (d_off ?d) (d_data ?d) = [] @ (''['' @ [] @ '']'') @ '',''"
    by (simp_all add: at_def fresh_scanner_def new_decodeState_def)
  show ?thesis
    using skip_element [OF l _ gap_Nil _ d] by (simp add: follows_def begins_def new_decodeState_def numeral_2_eq_2)
qed

end
