(* ===== verification/Json_Stream.thy ===== *)
theory Json_Stream
  imports Json_Decode
begin

text \<open>
  Values in a stream: the \<open>Decoder\<close> and the \<open>Encoder\<close> of \<open>common/json/stream.go\<close>, and \<open>RawMessage\<close>. The
  reader and the writer are parameters, as is the marshalling of a value.
\<close>

section \<open>State\<close>

datatype io_error = EOF | ErrUnexpectedEOF | ErrIO string | ErrScan "SyntaxError option"

text \<open>A reader maps the room it is given and its state to what it reads, its error, and its new state.
  \<open>dec_cap\<close> is the capacity of the buffer.\<close>

type_synonym 'r reader = "nat \<Rightarrow> 'r \<Rightarrow> (string \<times> io_error option) \<times> 'r"

text \<open>What \<open>io.Reader\<close> promises: not more bytes than there is room for.\<close>

definition reader_law :: "'r reader \<Rightarrow> bool" where
  "reader_law rd \<longleftrightarrow> (\<forall>room r. length (fst (fst (rd room r))) \<le> room)"

record 'r json_Decoder =
  dec_r :: 'r
  dec_buf :: string
  dec_cap :: nat
  dec_d :: decodeState
  dec_scan :: scanner
  dec_err :: "io_error option"

definition NewDecoder :: "'r \<Rightarrow> 'r json_Decoder" where
  "NewDecoder r =
     \<lparr>dec_r = r, dec_buf = [], dec_cap = 0, dec_d = new_decodeState, dec_scan = fresh_scanner, dec_err = None\<rparr>"

definition UseNumber :: "'r json_Decoder \<Rightarrow> 'r json_Decoder" where
  "UseNumber dec = dec\<lparr>dec_d := (dec_d dec)\<lparr>d_useNumber := True\<rparr>\<rparr>"

definition Buffered :: "'r json_Decoder \<Rightarrow> string" where
  "Buffered dec = dec_buf dec"

section \<open>Reading a value\<close>

text \<open>The scan of the buffered bytes: \<open>Found i\<close> when the value ends behind \<open>i\<close> of them, \<open>More\<close> when it
  does not end in them.\<close>

datatype scan_result = Found nat | Bad | More

fun scan_buffer :: "string \<Rightarrow> nat \<Rightarrow> scanner \<Rightarrow> (scan_result \<times> scanner) option" where
  "scan_buffer [] i s = Some (More, s)"
| "scan_buffer (c # cs) i s =
     Option.bind (scan_step (s\<lparr>sc_bytes := i64 (sc_bytes s + 1)\<rparr>) c) (\<lambda>(v, s).
       if v = scanEnd then Some (Found i, s)
       else if v = scanEndObject \<or> v = scanEndArray then
         Option.bind (scan_step s (CHR '' '')) (\<lambda>(v', s).
           if v' = scanEnd then Some (Found (i + 1), s) else scan_buffer cs (i + 1) s)
       else if v = scanError then Some (Bad, s)
       else scan_buffer cs (i + 1) s)"

definition nonSpace :: "string \<Rightarrow> bool" where
  "nonSpace b \<longleftrightarrow> (\<exists>c \<in> set b. \<not> isSpace c)"

definition minRead :: nat where "minRead = 512"

text \<open>The loop of \<open>readValue\<close>: \<open>err\<close> is the error of the last read, and \<open>Inr\<close> the length of the value. A
  reader that goes on to return nothing and no error makes it run for ever: \<^term>\<open>None\<close>.\<close>

partial_function (option) read_loop ::
    "'r reader \<Rightarrow> nat \<Rightarrow> io_error option \<Rightarrow> 'r json_Decoder \<Rightarrow> ((io_error + nat) \<times> 'r json_Decoder) option" where
  "read_loop rd scanp err dec =
     Option.bind (scan_buffer (drop scanp (dec_buf dec)) 0 (dec_scan dec)) (\<lambda>(res, s).
       let dec = dec\<lparr>dec_scan := s\<rparr> in
       case res of
         Found i \<Rightarrow> Some (Inr (scanp + i), dec)
       | Bad \<Rightarrow> Some (Inl (ErrScan (sc_err s)), dec\<lparr>dec_err := Some (ErrScan (sc_err s))\<rparr>)
       | More \<Rightarrow>
           (let scanp = length (dec_buf dec) in
            case err of
              Some e \<Rightarrow>
                (if e = EOF then
                   Option.bind (scan_step (dec_scan dec) (CHR '' '')) (\<lambda>(v, s).
                     let dec = dec\<lparr>dec_scan := s\<rparr> in
                     if v = scanEnd then Some (Inr scanp, dec)
                     else (let e = (if nonSpace (dec_buf dec) then ErrUnexpectedEOF else EOF)
                           in Some (Inl e, dec\<lparr>dec_err := Some e\<rparr>)))
                 else Some (Inl e, dec\<lparr>dec_err := Some e\<rparr>))
            | None \<Rightarrow>
                (let dec = (if dec_cap dec - length (dec_buf dec) < minRead
                            then dec\<lparr>dec_cap := 2 * dec_cap dec + minRead\<rparr> else dec);
                     r = rd (dec_cap dec - length (dec_buf dec)) (dec_r dec)
                 in read_loop rd scanp (snd (fst r))
                      (dec\<lparr>dec_buf := dec_buf dec @ fst (fst r), dec_r := snd r\<rparr>))))"

definition readValue :: "'r reader \<Rightarrow> 'r json_Decoder \<Rightarrow> ((io_error + nat) \<times> 'r json_Decoder) option" where
  "readValue rd dec = read_loop rd 0 None (dec\<lparr>dec_scan := scanner_reset (dec_scan dec)\<rparr>)"

text \<open>\<open>Decode\<close> into an empty interface: the error of the stream, or that of the decoding, and the value.\<close>

definition Decode ::
    "'r reader \<Rightarrow> (string \<Rightarrow> 'f option) \<Rightarrow> nat \<Rightarrow> 'r json_Decoder \<Rightarrow>
     ((io_error + decode_error option \<times> 'f goval) \<times> 'r json_Decoder) option" where
  "Decode rd pf fuel dec =
     (case dec_err dec of
        Some e \<Rightarrow> Some (Inl e, dec)
      | None \<Rightarrow>
          Option.bind (readValue rd dec) (\<lambda>(r, dec).
            (case r of
               Inl e \<Rightarrow> Some (Inl e, dec)
             | Inr n \<Rightarrow>
                 Option.bind (go_slice (dec_buf dec) 0 (int n)) (\<lambda>item.
                   (let d = decode_init item (dec_d dec) in
                    Option.bind (unmarshal_iface pf fuel d) (\<lambda>(err, v).
                      Some (Inr (err, v), dec\<lparr>dec_buf := drop n (dec_buf dec)\<rparr>)))))))"

text \<open>\<open>Encode\<close>: marshalling and writing are parameters; the writer maps bytes and its state to an error and
  its new state.\<close>

record 'w Encoder =
  enc_w :: 'w
  enc_err :: "string option"

definition NewEncoder :: "'w \<Rightarrow> 'w Encoder" where
  "NewEncoder w = \<lparr>enc_w = w, enc_err = None\<rparr>"

definition Encode ::
    "('v \<Rightarrow> string + string) \<Rightarrow> (string \<Rightarrow> 'w \<Rightarrow> string option \<times> 'w) \<Rightarrow> 'v \<Rightarrow> 'w Encoder \<Rightarrow> string option \<times> 'w Encoder" where
  "Encode marshal write v enc =
     (case enc_err enc of
        Some e \<Rightarrow> (Some e, enc)
      | None \<Rightarrow>
          (case marshal v of
             Inl e \<Rightarrow> (Some e, enc)
           | Inr b \<Rightarrow>
               (let (err, w) = write (b @ [CHR 0x0A]) (enc_w enc);
                    enc = enc\<lparr>enc_w := w\<rparr>
                in if err \<noteq> None then (err, enc\<lparr>enc_err := err\<rparr>) else (None, enc))))"

text \<open>\<open>RawMessage\<close>; \<^term>\<open>None\<close> is the nil pointer.\<close>

definition MarshalJSON :: "string \<Rightarrow> string" where
  "MarshalJSON m = m"

definition UnmarshalJSON :: "string option \<Rightarrow> string \<Rightarrow> string option \<times> string option" where
  "UnmarshalJSON m data =
     (case m of
        None \<Rightarrow> (Some ''json.RawMessage: UnmarshalJSON on nil pointer'', m)
      | Some _ \<Rightarrow> (None, Some data))"

section \<open>Scanning a buffer\<close>

lemma closing_op:
  assumes "at f ps s" "scan_step s c = Some (v, s')" "v = scanEndObject \<or> v = scanEndArray" "sc_err s' = None" "f \<noteq> StateRedo"
  shows "sc_step s' = closed_fn (sc_parseState s')"
proof -
  have pop: "popParseState u = Some s' \<Longrightarrow> sc_step s' = closed_fn (sc_parseState s')" for u
    by (auto simp: popParseState_def Let_def closed_fn_def split: if_splits)
  have ev: "stateEndValue u c = Some (v, s') \<Longrightarrow> sc_step s' = closed_fn (sc_parseState s')" for u
    using assms(3) pop by (auto simp: stateEndValue_def stateEndTop_def goto_def scanner_error_def split: if_splits parse_state.splits)
  show ?thesis
    using assms(1-3,5) ev
    by (cases "sc_step s")
      (auto simp: at_def scan_step_def state_defs stateEndTop_def goto_def scanner_error_def split: if_splits)
qed

lemma moves_from:
  assumes "moves f ps c v g qs"
  shows "f \<noteq> StateRedo" "f \<noteq> StateEndTop"
proof -
  let ?s = "fresh_scanner\<lparr>sc_step := f, sc_parseState := ps, sc_endTop := (f = StateEndTop), sc_redo := False,
    sc_redoState := None, sc_err := None\<rparr>"
  have "at f ps ?s" by (simp add: at_def)
  then obtain s' where s': "scan_step ?s c = Some (v, s')" "v \<noteq> scanEnd" using moves_step [OF assms] by blast
  show "f \<noteq> StateRedo" using s' by (auto simp: scan_step_def stateRedo_def)
  show "f \<noteq> StateEndTop" using s' by (auto simp: scan_step_def stateEndTop_def scanner_error_def split: if_splits)
qed

lemma leads_from: "leads f ps xs os g qs \<Longrightarrow> xs \<noteq> [] \<Longrightarrow> f \<noteq> StateEndTop"
  by (cases xs) (auto simp: leads.simps(2) dest: moves_from(2))

lemma leads_split:
  "leads f ps (xs @ ys) os g qs \<Longrightarrow> \<exists>h rs vs ws. leads f ps xs vs h rs \<and> leads h rs ys ws g qs"
proof (induction xs arbitrary: f ps os)
  case Nil
  then show ?case by (intro exI [of _ f] exI [of _ ps] exI [of _ "[]"] exI [of _ os]) simp
next
  case (Cons c xs)
  then obtain v os1 f1 ps1 where m: "moves f ps c v f1 ps1" "leads f1 ps1 (xs @ ys) os1 g qs"
    by (auto simp: leads.simps(2))
  obtain h rs vs ws where "leads f1 ps1 xs vs h rs" "leads h rs ys ws g qs" using Cons.IH [OF m(2)] by blast
  then show ?case using leads_Cons [OF m(1)] by blast
qed

text \<open>One byte of the scan: the invented space behind a closing bracket is skipped inside a value, and ends
  a value at the top.\<close>

lemma scan_buffer_step:
  assumes m: "moves f ps c v g qs" and s: "at f ps s"
  obtains s' where "at g qs s'" "g \<noteq> StateEndTop \<Longrightarrow> scan_buffer (c # cs) i s = scan_buffer cs (i + 1) s'"
    "g = StateEndTop \<Longrightarrow> v = scanEndObject \<or> v = scanEndArray \<Longrightarrow> scan_buffer (c # cs) i s = Some (Found (i + 1), s')"
proof -
  let ?s = "s\<lparr>sc_bytes := i64 (sc_bytes s + 1)\<rparr>"
  obtain s1 where s1: "scan_step ?s c = Some (v, s1)" "at g qs s1" "v \<noteq> scanEnd" "v \<noteq> scanError"
    using moves_step [OF m, of ?s] s by auto
  have sp: "isSpace (CHR '' '')" by (simp add: isSpace_def)
  show thesis
  proof (cases "v = scanEndObject \<or> v = scanEndArray")
    case False
    then show thesis using that [OF s1(2)] s1 by simp
  next
    case True
    have "at f ps ?s" using s by simp
    then have g: "g = closed_fn qs"
      using closing_op [OF _ s1(1) True _ moves_from(1) [OF m]] s1(2) by (auto simp: at_def)
    show thesis
    proof (cases "g = StateEndTop")
      case top: True
      then have "scan_step s1 (CHR '' '') = Some (scanEnd, s1)"
        using s1(2) by (simp add: at_def scan_step_def stateEndTop_def)
      then show thesis using that [OF s1(2)] s1 True top by auto
    next
      case False
      then have "moves g qs (CHR '' '') scanSkipSpace g qs"
        using g by (intro move_space sp) (auto simp: closed_fn_def skipping_def split: if_splits)
      then obtain s2 where "scan_step s1 (CHR '' '') = Some (scanSkipSpace, s2)" "at g qs s2"
        using moves_step s1(2) by blast
      then show thesis using that [of s2] s1 True False by auto
    qed
  qed
qed

lemma scan_buffer_inside:
  "leads f ps xs os h rs \<Longrightarrow> at f ps s \<Longrightarrow> h \<noteq> StateEndTop \<Longrightarrow>
   \<exists>s'. at h rs s' \<and> scan_buffer (xs @ ys) i s = scan_buffer ys (i + length xs) s'"
proof (induction xs arbitrary: f ps s os i)
  case (Cons c xs)
  obtain v ws f1 ps1 where m: "moves f ps c v f1 ps1" "leads f1 ps1 xs ws h rs"
    using Cons.prems(1) by (auto simp: leads.simps(2))
  have "f1 \<noteq> StateEndTop" using leads_from [OF m(2)] m(2) Cons.prems(3) by (cases "xs = []") auto
  then obtain s1 where "at f1 ps1 s1" "scan_buffer (c # xs @ ys) i s = scan_buffer (xs @ ys) (i + 1) s1"
    using scan_buffer_step [OF m(1) Cons.prems(2), of "xs @ ys" i] by blast
  then show ?case using Cons.IH [OF m(2) _ Cons.prems(3), of s1 "i + 1"] by auto
qed auto

text \<open>Only a closing bracket leads to the state behind a complete value.\<close>

lemma top_closed:
  assumes "moves f ps c v StateEndTop qs"
  shows "v = scanEndObject \<or> v = scanEndArray"
proof -
  let ?s = "fresh_scanner\<lparr>sc_step := f, sc_parseState := ps, sc_endTop := False, sc_redo := False, sc_err := None\<rparr>"
  have f: "f \<noteq> StateRedo" "f \<noteq> StateEndTop" using moves_from [OF assms] by auto
  then have "at f ps ?s" by (simp add: at_def)
  then obtain s' where s': "scan_step ?s c = Some (v, s')" "at StateEndTop qs s'" "v \<noteq> scanEnd" "v \<noteq> scanError"
    using moves_step [OF assms] by blast
  have ev: "stateEndValue u c = Some (v, s') \<Longrightarrow> v = scanEndObject \<or> v = scanEndArray" for u
    using s'(2-4) by (auto simp: stateEndValue_def stateEndTop_def goto_def scanner_error_def at_def
        split: if_splits parse_state.splits)
  show ?thesis
    using s' f ev by (cases f) (auto simp: at_def scan_step_def state_defs goto_def scanner_error_def split: if_splits)
qed

text \<open>The scan of a buffer \<open>u\<close> that starts with the rest \<open>t\<close> of a value or is the start of it: the end of the
  value is found, or the scanner waits inside the value or directly behind it.\<close>

definition waits :: "string \<Rightarrow> scanner \<Rightarrow> step_fn \<Rightarrow> bool" where
  "waits t s g \<longleftrightarrow> (\<exists>f ps os. leads f ps t os g [] \<and> at f ps s \<and> f \<noteq> StateEndTop)"

lemma scan_whole:
  assumes w: "waits t s g" and g: "ends_in v [] g" "follows v (u @ d)"
  shows "(\<exists>s'. scan_buffer (t @ u) 0 s = Some (Found (length t), s')) \<or>
    (u = [] \<and> (\<exists>s'. scan_buffer (t @ u) 0 s = Some (More, s') \<and> waits [] s' g))"
proof -
  obtain f ps os where l: "leads f ps t os g []" "at f ps s" "f \<noteq> StateEndTop" using w by (auto simp: waits_def)
  show ?thesis
  proof (cases "g = StateEndTop")
    case False
    obtain s1 where s1: "at g [] s1" "scan_buffer (t @ u) 0 s = scan_buffer u (0 + length t) s1"
      using scan_buffer_inside [OF l(1,2) False, of u 0] by blast
    show ?thesis
    proof (cases u)
      case Nil
      then show ?thesis using s1 False by (auto simp: waits_def intro!: exI [of _ g])
    next
      case (Cons c cs)
      obtain s2 where "scan_step (s1\<lparr>sc_bytes := i64 (sc_bytes s1 + 1)\<rparr>) c = Some (scanEnd, s2)"
        using top_step [OF g(1), of "s1\<lparr>sc_bytes := i64 (sc_bytes s1 + 1)\<rparr>" c "cs @ d"] s1(1) g(2) Cons by auto
      then show ?thesis using s1(2) Cons by simp
    qed
  next
    case True
    then have "t \<noteq> []" using l by (cases t) auto
    then obtain t' c where t: "t = t' @ [c]" by (cases t rule: rev_cases) auto
    obtain h rs vs ws where h: "leads f ps t' vs h rs" "leads h rs [c] ws g []"
      using leads_split l(1) unfolding t by blast
    then obtain v' where m: "moves h rs c v' StateEndTop []" using True by (auto simp: leads.simps(2))
    obtain s1 where s1: "at h rs s1" "scan_buffer (t' @ c # u) 0 s = scan_buffer (c # u) (0 + length t') s1"
      using scan_buffer_inside [OF h(1) l(2) moves_from(2) [OF m], of "c # u" 0] by blast
    obtain s2 where "scan_buffer (c # u) (length t') s1 = Some (Found (length t' + 1), s2)"
      using scan_buffer_step [OF m s1(1), of u "length t'"] top_closed [OF m] by blast
    then show ?thesis using s1(2) t by simp
  qed
qed

lemma scan_part:
  assumes w: "waits (u @ t) s g" "t \<noteq> []"
  shows "\<exists>s'. scan_buffer u 0 s = Some (More, s') \<and> waits t s' g"
proof -
  obtain f ps os where l: "leads f ps (u @ t) os g []" "at f ps s" using w by (auto simp: waits_def)
  obtain h rs vs ws where h: "leads f ps u vs h rs" "leads h rs t ws g []" using leads_split [OF l(1)] by blast
  note n = leads_from [OF h(2) w(2)]
  obtain s1 where "at h rs s1" "scan_buffer (u @ []) 0 s = scan_buffer [] (0 + length u) s1"
    using scan_buffer_inside [OF h(1) l(2) n, of "[]" 0] by blast
  then show ?thesis using h(2) n by (auto simp: waits_def)
qed

lemma scan_buffer_cases:
  assumes w: "waits t s g" and g: "ends_in v [] g" "follows v rest" and eq: "u @ d = t @ rest"
  obtains (found) s' where "scan_buffer u 0 s = Some (Found (length t), s')" "length t \<le> length u"
  | (more) s' t' where "scan_buffer u 0 s = Some (More, s')" "t = u @ t'" "d = t' @ rest" "waits t' s' g"
proof -
  consider (long) us where "u = t @ us" "us @ d = rest" | (short) us where "t = u @ us" "d = us @ rest" "us \<noteq> []"
    using eq unfolding append_eq_append_conv2 by (metis append_Nil append_Nil2)
  then show thesis
  proof cases
    case long
    have f: "follows v (us @ d)" using g(2) long(2) by (simp only:)
    from scan_whole [OF w g(1) f] show thesis
    proof
      assume "\<exists>s'. scan_buffer (t @ us) 0 s = Some (Found (length t), s')"
      then show thesis using found long(1) by auto
    next
      assume a: "us = [] \<and> (\<exists>s'. scan_buffer (t @ us) 0 s = Some (More, s') \<and> waits [] s' g)"
      then obtain s' where s': "scan_buffer u 0 s = Some (More, s')" "waits [] s' g" unfolding long(1) by blast
      have "t = u @ []" "d = [] @ rest" using a long by simp_all
      then show thesis by (rule more [OF s'(1) _ _ s'(2)])
    qed
  next
    case short
    obtain s' where "scan_buffer u 0 s = Some (More, s')" "waits us s' g"
      using scan_part [of u us s g] w short(1,3) by blast
    then show thesis using more short(1,2) by blast
  qed
qed

section \<open>Reading from a stream\<close>

text \<open>A reader that delivers the bytes \<open>d\<close> and then the end of the file, in pieces of any size, the last of
  them with or without the error, whatever room it is given.\<close>

definition at_end :: "'r reader \<Rightarrow> 'r \<Rightarrow> bool" where
  "at_end rd r \<longleftrightarrow> (\<forall>room \<ge> minRead. rd room r = (([], Some EOF), r))"

inductive delivers :: "'r reader \<Rightarrow> 'r \<Rightarrow> string \<Rightarrow> bool" for rd where
  deliversI: "(\<And>room. minRead \<le> room \<Longrightarrow>
      (snd (fst (rd room r)) = Some EOF \<and> fst (fst (rd room r)) = d \<and> at_end rd (snd (rd room r))) \<or>
      (snd (fst (rd room r)) = None \<and>
         (\<exists>d'. d = fst (fst (rd room r)) @ d' \<and> delivers rd (snd (rd room r)) d'))) \<Longrightarrow> delivers rd r d"

lemma at_end_delivers: "at_end rd r \<Longrightarrow> delivers rd r []"
  by (rule delivers.deliversI) (simp add: at_end_def)

lemma read_loop_eof:
  assumes w: "waits t (dec_scan dec) g" and g: "ends_in v [] g" "follows v rest"
    and u: "drop k (dec_buf dec) = t @ rest" "k \<le> length (dec_buf dec)"
  shows "\<exists>s. read_loop rd k (Some EOF) dec = Some (Inr (k + length t), dec\<lparr>dec_scan := s\<rparr>)"
proof -
  have eq: "drop k (dec_buf dec) @ [] = t @ rest" using u(1) by simp
  show ?thesis
  proof (rule scan_buffer_cases [OF w g eq])
    fix s' assume "scan_buffer (drop k (dec_buf dec)) 0 (dec_scan dec) = Some (Found (length t), s')"
    then show ?thesis by (subst read_loop.simps) (simp, blast)
  next
    fix s' t' assume m: "scan_buffer (drop k (dec_buf dec)) 0 (dec_scan dec) = Some (More, s')"
      "t = drop k (dec_buf dec) @ t'" "[] = t' @ rest" "waits t' s' g"
    then have at: "at g [] s'" "length (dec_buf dec) = k + length t" using u(2) by (auto simp: waits_def)
    have "isSpace (CHR '' '')" by (simp add: isSpace_def)
    then obtain s2 where "scan_step s' (CHR '' '') = Some (scanEnd, s2)"
      using top_space [OF g(1) at(1)] by blast
    then show ?thesis using m(1) at(2) by (subst read_loop.simps) (simp, blast)
  qed
qed

lemma read_loop_delivers:
  "delivers rd r d \<Longrightarrow> reader_law rd \<Longrightarrow> dec_r dec = r \<Longrightarrow> waits t (dec_scan dec) g \<Longrightarrow> ends_in v [] g \<Longrightarrow>
   follows v rest \<Longrightarrow> drop k (dec_buf dec) @ d = t @ rest \<Longrightarrow> k \<le> length (dec_buf dec) \<Longrightarrow>
   length (dec_buf dec) \<le> dec_cap dec \<Longrightarrow>
   \<exists>dec' more d'. read_loop rd k None dec = Some (Inr (k + length t), dec') \<and> dec_buf dec' = dec_buf dec @ more \<and>
     d = more @ d' \<and> dec_err dec' = dec_err dec \<and> dec_d dec' = dec_d dec \<and> delivers rd (dec_r dec') d' \<and>
     k + length t \<le> length (dec_buf dec') \<and> length (dec_buf dec') \<le> dec_cap dec'"
proof (induction arbitrary: dec k t rule: delivers.induct)
  case (deliversI r d)
  note g = deliversI.prems(4,5) and u = deliversI.prems(6,7) and cap = deliversI.prems(8)
  have self: "delivers rd r d" by (rule delivers.deliversI) (use deliversI(1) in blast)
  show ?case
  proof (rule scan_buffer_cases [OF deliversI.prems(3) g u(1)])
    fix s' assume "scan_buffer (drop k (dec_buf dec)) 0 (dec_scan dec) = Some (Found (length t), s')"
      "length t \<le> length (drop k (dec_buf dec))"
    then show ?thesis using u(2) cap self deliversI.prems(2)
      by (subst read_loop.simps)
        (intro exI [of _ "dec\<lparr>dec_scan := s'\<rparr>"] exI [of _ "[]"] exI [of _ d], simp)
  next
    fix s' t' assume m: "scan_buffer (drop k (dec_buf dec)) 0 (dec_scan dec) = Some (More, s')"
      "t = drop k (dec_buf dec) @ t'" "d = t' @ rest" "waits t' s' g"
    have len: "length (dec_buf dec) + length t' = k + length t" using m(2) u(2) by simp
    define cap' where "cap' = (if dec_cap dec - length (dec_buf dec) < minRead then 2 * dec_cap dec + minRead else dec_cap dec)"
    have room: "minRead \<le> cap' - length (dec_buf dec)" "length (dec_buf dec) \<le> cap'" using cap by (auto simp: cap'_def)
    obtain x e r' where x: "rd (cap' - length (dec_buf dec)) r = ((x, e), r')" by (metis prod.collapse)
    have lx: "length (dec_buf dec @ x) \<le> cap'"
      using deliversI.prems(1) x room(2) unfolding reader_law_def by (metis fst_conv length_append le_diff_conv2 add.commute)
    define dec2 where "dec2 = dec\<lparr>dec_scan := s', dec_cap := cap', dec_buf := dec_buf dec @ x, dec_r := r'\<rparr>"
    have go: "read_loop rd k None dec = read_loop rd (length (dec_buf dec)) e dec2"
      using m(1) x deliversI.prems(2)
      by (subst read_loop.simps) (auto simp: Let_def cap'_def dec2_def)
    have w2: "waits t' (dec_scan dec2) g" using m(4) by (simp add: dec2_def)
    have H: "(e = Some EOF \<and> x = d \<and> at_end rd r') \<or> (e = None \<and> (\<exists>d'. d = x @ d' \<and>
       (reader_law rd \<longrightarrow> dec_r dec2 = r' \<longrightarrow> waits t' (dec_scan dec2) g \<longrightarrow> ends_in v [] g \<longrightarrow> follows v rest \<longrightarrow>
        drop (length (dec_buf dec)) (dec_buf dec2) @ d' = t' @ rest \<longrightarrow> length (dec_buf dec) \<le> length (dec_buf dec2) \<longrightarrow>
        length (dec_buf dec2) \<le> dec_cap dec2 \<longrightarrow>
        (\<exists>dec' more d''. read_loop rd (length (dec_buf dec)) None dec2 = Some (Inr (length (dec_buf dec) + length t'), dec') \<and>
          dec_buf dec' = dec_buf dec2 @ more \<and> d' = more @ d'' \<and> dec_err dec' = dec_err dec2 \<and> dec_d dec' = dec_d dec2 \<and>
          delivers rd (dec_r dec') d'' \<and> length (dec_buf dec) + length t' \<le> length (dec_buf dec') \<and>
          length (dec_buf dec') \<le> dec_cap dec'))))"
      using deliversI(1) [OF room(1)] unfolding x fst_conv snd_conv by blast
    have dr: "drop (length (dec_buf dec)) (dec_buf dec2) @ d' = t' @ rest" if "d = x @ d'" for d'
      using that m(3) by (simp add: dec2_def)
    have lens: "length (dec_buf dec) \<le> length (dec_buf dec2)" "length (dec_buf dec2) \<le> dec_cap dec2" "dec_r dec2 = r'"
      using lx by (simp_all add: dec2_def)
    show ?thesis
    proof (cases "e = Some EOF \<and> x = d \<and> at_end rd r'")
      case e: True
      have "drop (length (dec_buf dec)) (dec_buf dec2) = t' @ rest" using e dr [of "[]"] by simp
      then obtain s where "read_loop rd (length (dec_buf dec)) (Some EOF) dec2 =
          Some (Inr (length (dec_buf dec) + length t'), dec2\<lparr>dec_scan := s\<rparr>)"
        using read_loop_eof [OF w2 g _ lens(1)] by blast
      then show ?thesis using go e len lx m(3)
        by (intro exI [of _ "dec2\<lparr>dec_scan := s\<rparr>"] exI [of _ d] exI [of _ "[]"])
          (simp add: dec2_def at_end_delivers)
    next
      case False
      then obtain d' dec' more d'' where "e = None" "d = x @ d'" "read_loop rd (length (dec_buf dec)) None dec2 =
            Some (Inr (length (dec_buf dec) + length t'), dec')"
          "dec_buf dec' = dec_buf dec2 @ more" "d' = more @ d''" "dec_err dec' = dec_err dec2" "dec_d dec' = dec_d dec2"
          "delivers rd (dec_r dec') d''" "length (dec_buf dec) + length t' \<le> length (dec_buf dec')"
          "length (dec_buf dec') \<le> dec_cap dec'"
        using H deliversI.prems(1) lens w2 g dr by blast
      then show ?thesis using go len
        by (intro exI [of _ dec'] exI [of _ "x @ more"] exI [of _ d'']) (simp add: dec2_def)
    qed
  qed
qed

text \<open>C28: reading from a stream does not depend on how its bytes arrive: whatever pieces the reader hands
  out, \<open>Decode\<close> returns the next value of the concatenated bytes, with its gap in front, and what it leaves
  in the buffer and in the reader are the bytes behind the value, so that the next call goes on there. It
  returns, although the reader may give nothing for a while.\<close>

theorem Decode_layout:
  assumes rd: "reader_law rd" "delivers rd (dec_r dec) d" "length (dec_buf dec) \<le> dec_cap dec" "dec_err dec = None"
    and l: "gap w" "layout v t os" "follows v rest" "dec_buf dec @ d = w @ t @ rest" "length t < n"
  shows "\<exists>dec' d'.
    Decode rd pf n dec = Some (Inr (first_error None (num_errors pf (d_useNumber (dec_d dec)) v),
      go_value pf (d_useNumber (dec_d dec)) v), dec') \<and>
    dec_buf dec' @ d' = rest \<and> delivers rd (dec_r dec') d' \<and> length (dec_buf dec') \<le> dec_cap dec' \<and> dec_err dec' = None"
proof -
  let ?dec = "dec\<lparr>dec_scan := scanner_reset (dec_scan dec)\<rparr>"
  obtain f where f: "leads StateBeginValue [] w (skips w) f []" "begins f"
    using leads_gap_value [OF l(1), of StateBeginValue "[]"] by (auto simp: begins_def)
  obtain g where g: "leads f [] t os g []" "ends_in v [] g" using leads_layout [OF l(2) f(2)] by blast
  have w: "waits (w @ t) (dec_scan ?dec) g"
    unfolding waits_def using leads_append [OF f(1) g(1)]
    by (intro exI [of _ StateBeginValue] exI [of _ "[]"] exI [of _ "skips w @ os"]) simp
  have eq: "drop 0 (dec_buf ?dec) @ d = (w @ t) @ rest" using l(4) by simp
  obtain dec1 more d' where r: "read_loop rd 0 None ?dec = Some (Inr (0 + length (w @ t)), dec1)"
      "dec_buf dec1 = dec_buf ?dec @ more" "d = more @ d'" "dec_err dec1 = dec_err ?dec" "dec_d dec1 = dec_d ?dec"
      "delivers rd (dec_r dec1) d'" "0 + length (w @ t) \<le> length (dec_buf dec1)" "length (dec_buf dec1) \<le> dec_cap dec1"
    using read_loop_delivers [OF rd(2,1) _ w g(2) l(3) eq] rd(3) by auto
  have buf: "dec_buf dec1 @ d' = (w @ t) @ rest" using r(2,3) l(4) by simp
  have "take (length (w @ t)) (dec_buf dec1) = take (length (w @ t)) (dec_buf dec1 @ d')"
    "drop (length (w @ t)) (dec_buf dec1) @ d' = drop (length (w @ t)) (dec_buf dec1 @ d')" using r(7) by simp_all
  then have td: "take (length (w @ t)) (dec_buf dec1) = w @ t" "drop (length (w @ t)) (dec_buf dec1) @ d' = rest"
    unfolding buf by simp_all
  have sl: "go_slice (dec_buf dec1) 0 (int (length (w @ t))) = Some (w @ t)"
    using go_slice_0 [of "int (length (w @ t))" "dec_buf dec1"] r(7) td(1) by (simp add: nat_int_add)
  let ?d = "decode_init (w @ t) (dec_d dec1)"
  let ?d' = "?d\<lparr>d_scan := scanner_reset (d_scan ?d)\<rparr>"
  have un: "d_useNumber ?d' = d_useNumber (dec_d dec)" using r(5) by (simp add: decode_init_def)
  obtain d2 where d2: "value_iface pf n ?d' = ok (go_value pf (d_useNumber ?d') v, d2)"
      "advances ?d' (length w + length t) (num_errors pf (d_useNumber ?d') v) d2"
    by (rule value_iface_layout [OF l(2,1), of "[]" ?d' n pf]) (use l(5) in \<open>simp_all add: decode_init_def\<close>)
  have "unmarshal_iface pf n ?d = Some (first_error None (num_errors pf (d_useNumber (dec_d dec)) v),
      go_value pf (d_useNumber (dec_d dec)) v)"
    using d2 by (simp add: unmarshal_iface_def un ok_def advances_def) (simp add: decode_init_def)
  then show ?thesis
    using r rd(4) sl td(2)
    by (intro exI [of _ "dec1\<lparr>dec_buf := drop (length (w @ t)) (dec_buf dec1)\<rparr>"] exI [of _ d'])
      (simp add: Decode_def readValue_def)
qed

text \<open>A reader that hands out a list of pieces, and cuts one that does not fit.\<close>

fun piece_reader :: "string list reader" where
  "piece_reader k [] = (([], Some EOF), [])"
| "piece_reader k (c # cs) =
     (if length c \<le> k then ((c, None), cs) else ((take k c, None), drop k c # cs))"

lemma piece_reader_law: "reader_law piece_reader"
proof -
  have "length (fst (fst (piece_reader k cs))) \<le> k" for k cs by (cases cs) auto
  then show ?thesis by (simp add: reader_law_def)
qed

lemma piece_reader_delivers: "delivers piece_reader cs (concat cs)"
proof (induction "length (concat cs) + length cs" arbitrary: cs rule: less_induct)
  case less
  show ?case
  proof (cases cs)
    case Nil
    then show ?thesis using at_end_delivers [of piece_reader "[]"] by (simp add: at_end_def)
  next
    case (Cons c cs')
    show ?thesis
    proof (rule delivers.deliversI, intro disjI2 conjI exI)
      fix room :: nat assume room: "minRead \<le> room"
      show "snd (fst (piece_reader room cs)) = None" using Cons by simp
      show "concat cs = fst (fst (piece_reader room cs)) @ concat (snd (piece_reader room cs))" using Cons by simp
      show "delivers piece_reader (snd (piece_reader room cs)) (concat (snd (piece_reader room cs)))"
        by (rule less) (use Cons room in \<open>auto simp: minRead_def\<close>)
    qed
  qed
qed

theorem Decode_layout_witness:
  "\<exists>dec'. Decode piece_reader Some 100 (NewDecoder [''[tr'', [], ''ue] nu'', ''ll'']) =
     Some (Inr (None, VArray [VBool True]), dec')"
proof -
  have l: "layout (JArr [JBool True]) (''['' @ ([] @ ''true'' @ []) @ '']'')
      (scanBeginArray # (skips [] @ lit_ops ''true'' @ skips []) @ [scanEndArray])"
    by (intro lay_array el_last lay_true gap_Nil)
  have d: "delivers piece_reader (dec_r (NewDecoder [''[tr'', [], ''ue] nu'', ''ll''])) ''[true] null''"
    using piece_reader_delivers [of "[''[tr'', [], ''ue] nu'', ''ll'']"] by (simp add: NewDecoder_def)
  show ?thesis
    using Decode_layout [OF piece_reader_law d _ _ gap_Nil l, of "'' null''" 100 Some]
    by (simp add: NewDecoder_def follows_def first_error_def) blast
qed

end
