(* ===== verification/Json_Encode.thy ===== *)
theory Json_Encode
  imports Json_Strings Json_Fields
begin

text \<open>
  Encoding by reflection: the encoders of \<open>common/json/encode.go\<close> and their choice by \<open>newTypeEncoder\<close>,
  \<open>Marshal\<close> and \<open>MarshalIndent\<close>. A reflected value is a tree, so cyclic data is not modelled. The methods of
  \<open>Marshaler\<close> and \<open>TextMarshaler\<close> types and the formatting of floating-point numbers are parameters.
\<close>

section \<open>Reflected values\<close>

text \<open>A nil map, slice, pointer or interface is \<^term>\<open>None\<close>; behind the elements of a slice stand those of its
  array from its length up to its capacity; the entries of a map stand in the order in which
  \<open>MapKeys\<close> lists them; a value of the type \<open>Number\<close> is apart from the other strings.\<close>

datatype 'f rval =
  RBool bool | RInt int | RUint nat | RFloat 'f | RString string | RNumber string
| RIface "(gtype \<times> 'f rval) option" | RStruct "'f rval list" | RMap "(string \<times> 'f rval) list option"
| RSlice "'f rval list option" "'f rval list" | RArray "'f rval list" | RPtr "'f rval option" | ROther

record 'f enc_env =
  ee_types :: type_env
  ee_marshaler :: "gtype \<Rightarrow> bool"
  ee_textMarshaler :: "gtype \<Rightarrow> bool"
  ee_MarshalJSON :: "gtype \<Rightarrow> 'f rval \<Rightarrow> string + string"
  ee_MarshalText :: "gtype \<Rightarrow> 'f rval \<Rightarrow> string + string"
  ee_finite :: "'f \<Rightarrow> bool"
  ee_zero :: "'f \<Rightarrow> bool"
  ee_formatFloat :: "nat \<Rightarrow> 'f \<Rightarrow> string"

text \<open>The errors; a \<open>MarshalerError\<close> holds what the method returned, or what \<open>compact\<close> says of its text.\<close>

datatype enc_error =
  UnsupportedTypeError gtype | UnsupportedValueError string | MarshalerError gtype "string + SyntaxError"

text \<open>A result: \<^term>\<open>None\<close> is a run-time panic or a want of fuel, an error is what \<open>e.error\<close> panics with and
  \<open>marshal\<close> recovers, a text is what the buffer holds.\<close>

type_synonym enc_res = "(enc_error + string) option"

definition e_then :: "enc_res \<Rightarrow> (string \<Rightarrow> enc_res) \<Rightarrow> enc_res" where
  "e_then m k = (case m of None \<Rightarrow> None | Some (Inl err) \<Rightarrow> Some (Inl err) | Some (Inr e) \<Rightarrow> k e)"

definition wrote :: "string \<Rightarrow> enc_res" where "wrote e = Some (Inr e)"
definition e_error :: "enc_error \<Rightarrow> enc_res" where "e_error err = Some (Inl err)"

section \<open>Parts of a value\<close>

fun isEmptyValue :: "'f enc_env \<Rightarrow> 'f rval \<Rightarrow> bool" where
  "isEmptyValue E (RArray vs) = (length vs = 0)"
| "isEmptyValue E (RMap m) = (case m of None \<Rightarrow> True | Some kvs \<Rightarrow> length kvs = 0)"
| "isEmptyValue E (RSlice s _) = (case s of None \<Rightarrow> True | Some vs \<Rightarrow> length vs = 0)"
| "isEmptyValue E (RString s) = (length s = 0)"
| "isEmptyValue E (RNumber s) = (length s = 0)"
| "isEmptyValue E (RBool b) = (\<not> b)"
| "isEmptyValue E (RInt i) = (i = 0)"
| "isEmptyValue E (RUint i) = (i = 0)"
| "isEmptyValue E (RFloat f) = ee_zero E f"
| "isEmptyValue E (RIface i) = (i = None)"
| "isEmptyValue E (RPtr p) = (p = None)"
| "isEmptyValue E _ = False"

text \<open>\<open>fieldByIndex\<close>, with whether the field can be addressed: \<^term>\<open>None\<close> is a panic, \<^term>\<open>Some None\<close> the
  invalid value.\<close>

fun fieldByIndex :: "'f rval \<Rightarrow> bool \<Rightarrow> nat list \<Rightarrow> ('f rval \<times> bool) option option" where
  "fieldByIndex v a [] = Some (Some (v, a))"
| "fieldByIndex v a (i # is) =
     (let field = (\<lambda>v a. case v of
          RStruct fs \<Rightarrow> if i < length fs then fieldByIndex (fs ! i) a is else None
        | _ \<Rightarrow> None)
      in case v of
        RPtr None \<Rightarrow> Some None
      | RPtr (Some w) \<Rightarrow> field w True
      | _ \<Rightarrow> field v a)"

text \<open>The order of \<open>stringValues\<close>, by which the keys of a map are sorted.\<close>

definition stringValues_Less :: "string \<times> 'f rval \<Rightarrow> string \<times> 'f rval \<Rightarrow> bool" where
  "stringValues_Less p q \<longleftrightarrow> fst p < fst q"

text \<open>\<open>base64.StdEncoding\<close>.\<close>

definition base64_alphabet :: string where
  "base64_alphabet = ''ABCDEFGHIJKLMNOPQRSTUVWXYZabcdefghijklmnopqrstuvwxyz0123456789+/''"

fun base64 :: "nat list \<Rightarrow> string" where
  "base64 [] = []"
| "base64 [a] = [base64_alphabet ! (a div 4), base64_alphabet ! (a mod 4 * 16)] @ ''==''"
| "base64 [a, b] =
     [base64_alphabet ! (a div 4), base64_alphabet ! (a mod 4 * 16 + b div 16), base64_alphabet ! (b mod 16 * 4)] @ ''=''"
| "base64 (a # b # c # bs) =
     [base64_alphabet ! (a div 4), base64_alphabet ! (a mod 4 * 16 + b div 16),
      base64_alphabet ! (b mod 16 * 4 + c div 64), base64_alphabet ! (c mod 64)] @ base64 bs"

text \<open>\<open>Bytes\<close> of a byte slice.\<close>

fun bytes_of :: "'f rval list \<Rightarrow> nat list option" where
  "bytes_of [] = Some []"
| "bytes_of (RUint n # vs) = map_option ((#) n) (bytes_of vs)"
| "bytes_of (_ # vs) = None"

section \<open>The encoder of a type\<close>

text \<open>An encoder as data: the function and what it closes over. Encoders of parts are found by type when they
  are called, as \<open>typeEncoder\<close> finds them in its cache.\<close>

datatype encoder =
  marshalerEncoder | addrMarshalerEncoder | textMarshalerEncoder | addrTextMarshalerEncoder
| boolEncoder | intEncoder | uintEncoder | floatEncoder nat | stringEncoder | interfaceEncoder
| structEncoder "(jfield \<times> gtype) list" | mapEncoder gtype | encodeByteSlice | sliceEncoder gtype
| arrayEncoder gtype | ptrEncoder gtype | unsupportedTypeEncoder | condAddrEncoder encoder encoder

text \<open>\<open>newStructEncoder\<close>: the fields with their types.\<close>

definition newStructEncoder :: "'f enc_env \<Rightarrow> gtype \<Rightarrow> encoder option" where
  "newStructEncoder E t =
     Option.bind (typeFields (ee_types E) (Suc (length (te_types (ee_types E)))) t) (\<lambda>fs.
       if \<exists>f \<in> set fs. typeByIndex (ee_types E) t (f_index f) = None then None
       else Some (structEncoder (map (\<lambda>f. (f, the (typeByIndex (ee_types E) t (f_index f)))) fs)))"

definition newMapEncoder :: "'f enc_env \<Rightarrow> gtype \<Rightarrow> gtype \<Rightarrow> encoder" where
  "newMapEncoder E key elem =
     (if kind_of (ee_types E) key \<noteq> TString then unsupportedTypeEncoder else mapEncoder elem)"

definition newSliceEncoder :: "'f enc_env \<Rightarrow> gtype \<Rightarrow> encoder" where
  "newSliceEncoder E elem =
     (if kind_of (ee_types E) elem = TUint 8 then encodeByteSlice else sliceEncoder elem)"

text \<open>The last switch of \<open>newTypeEncoder\<close>, by kind.\<close>

definition kindEncoder :: "'f enc_env \<Rightarrow> gtype \<Rightarrow> encoder option" where
  "kindEncoder E t =
     (case kind_of (ee_types E) t of
        TBool \<Rightarrow> Some boolEncoder
      | TInt _ \<Rightarrow> Some intEncoder
      | TUint _ \<Rightarrow> Some uintEncoder
      | TUintptr \<Rightarrow> Some uintEncoder
      | TFloat bits \<Rightarrow> Some (floatEncoder bits)
      | TString \<Rightarrow> Some stringEncoder
      | TInterface \<Rightarrow> Some interfaceEncoder
      | TStruct _ \<Rightarrow> newStructEncoder E t
      | TMap k e \<Rightarrow> Some (newMapEncoder E k e)
      | TSlice e \<Rightarrow> Some (newSliceEncoder E e)
      | TArray _ e \<Rightarrow> Some (arrayEncoder e)
      | TPtr e \<Rightarrow> Some (ptrEncoder e)
      | _ \<Rightarrow> Some unsupportedTypeEncoder)"

definition is_ptr :: "'f enc_env \<Rightarrow> gtype \<Rightarrow> bool" where
  "is_ptr E t = (case kind_of (ee_types E) t of TPtr _ \<Rightarrow> True | _ \<Rightarrow> False)"

function newTypeEncoder :: "'f enc_env \<Rightarrow> gtype \<Rightarrow> bool \<Rightarrow> encoder option" where
  "newTypeEncoder E t allowAddr =
     (if ee_marshaler E t then Some marshalerEncoder
      else if \<not> is_ptr E t \<and> allowAddr \<and> ee_marshaler E (TPtr t)
      then map_option (condAddrEncoder addrMarshalerEncoder) (newTypeEncoder E t False)
      else if ee_textMarshaler E t then Some textMarshalerEncoder
      else if \<not> is_ptr E t \<and> allowAddr \<and> ee_textMarshaler E (TPtr t)
      then map_option (condAddrEncoder addrTextMarshalerEncoder) (newTypeEncoder E t False)
      else kindEncoder E t)"
  by pat_completeness auto
termination by (relation "measure (\<lambda>(_, _, a). if a then 1 else 0)") auto

declare newTypeEncoder.simps [simp del]

section \<open>Running an encoder\<close>

text \<open>The quotes around a quoted scalar.\<close>

definition with_quotes :: "bool \<Rightarrow> string \<Rightarrow> string" where
  "with_quotes quoted s = (if quoted then [CHR 0x22] @ s @ [CHR 0x22] else s)"

text \<open>The value a method is called on: an interface hands over what it holds, nil has no methods.\<close>

definition receiver :: "gtype \<Rightarrow> 'f rval \<Rightarrow> (gtype \<times> 'f rval) option" where
  "receiver t v = (case v of RIface r \<Rightarrow> r | _ \<Rightarrow> Some (t, v))"

definition call_MarshalJSON :: "'f enc_env \<Rightarrow> gtype \<Rightarrow> (gtype \<times> 'f rval) option \<Rightarrow> string \<Rightarrow> enc_res" where
  "call_MarshalJSON E t r e =
     (case r of None \<Rightarrow> None
      | Some (t', v) \<Rightarrow>
         (case ee_MarshalJSON E t' v of
            Inl err \<Rightarrow> e_error (MarshalerError t (Inl err))
          | Inr b \<Rightarrow>
             (case compact e b True of None \<Rightarrow> None
              | Some (Some err, _) \<Rightarrow> e_error (MarshalerError t (Inr err))
              | Some (None, e) \<Rightarrow> wrote e)))"

definition call_MarshalText :: "'f enc_env \<Rightarrow> gtype \<Rightarrow> (gtype \<times> 'f rval) option \<Rightarrow> string \<Rightarrow> enc_res" where
  "call_MarshalText E t r e =
     (case r of None \<Rightarrow> None
      | Some (t', v) \<Rightarrow>
         (case ee_MarshalText E t' v of
            Inl err \<Rightarrow> e_error (MarshalerError t (Inl err))
          | Inr b \<Rightarrow> wrote (stringBytes e b)))"

text \<open>The encoders that call no other one.\<close>

fun run_scalar :: "'f enc_env \<Rightarrow> encoder \<Rightarrow> gtype \<Rightarrow> 'f rval \<Rightarrow> bool \<Rightarrow> string \<Rightarrow> enc_res" where
  "run_scalar E marshalerEncoder t v quoted e =
     (if v = RPtr None then wrote (e @ ''null'') else call_MarshalJSON E t (receiver t v) e)"
| "run_scalar E addrMarshalerEncoder t v quoted e = call_MarshalJSON E t (Some (TPtr t, RPtr (Some v))) e"
| "run_scalar E textMarshalerEncoder t v quoted e =
     (if v = RPtr None then wrote (e @ ''null'') else call_MarshalText E t (receiver t v) e)"
| "run_scalar E addrTextMarshalerEncoder t v quoted e = call_MarshalText E t (Some (TPtr t, RPtr (Some v))) e"
| "run_scalar E boolEncoder t v quoted e =
     (case v of RBool b \<Rightarrow> wrote (e @ with_quotes quoted (if b then ''true'' else ''false'')) | _ \<Rightarrow> None)"
| "run_scalar E intEncoder t v quoted e =
     (case v of RInt i \<Rightarrow> wrote (e @ with_quotes quoted (dec_int i)) | _ \<Rightarrow> None)"
| "run_scalar E uintEncoder t v quoted e =
     (case v of RUint n \<Rightarrow> wrote (e @ with_quotes quoted (dec_nat n)) | _ \<Rightarrow> None)"
| "run_scalar E (floatEncoder bits) t v quoted e =
     (case v of
        RFloat f \<Rightarrow>
          if \<not> ee_finite E f then e_error (UnsupportedValueError (ee_formatFloat E bits f))
          else wrote (e @ with_quotes quoted (ee_formatFloat E bits f))
      | _ \<Rightarrow> None)"
| "run_scalar E stringEncoder t v quoted e =
     (case v of
        RNumber s \<Rightarrow> wrote (e @ (if s = [] then ''0'' else s))
      | RString s \<Rightarrow> wrote (if quoted then encode_string e (encode_string [] s) else encode_string e s)
      | _ \<Rightarrow> None)"
| "run_scalar E encodeByteSlice t v quoted e =
     (case v of
        RSlice None _ \<Rightarrow> wrote (e @ ''null'')
      | RSlice (Some vs) _ \<Rightarrow>
          (case bytes_of vs of None \<Rightarrow> None | Some bs \<Rightarrow> wrote (e @ [CHR 0x22] @ base64 bs @ [CHR 0x22]))
      | _ \<Rightarrow> None)"
| "run_scalar E unsupportedTypeEncoder t v quoted e = e_error (UnsupportedTypeError t)"
| "run_scalar E _ t v quoted e = None"

definition put_comma :: "bool \<Rightarrow> string \<Rightarrow> string" where
  "put_comma first e = (if first then e else e @ '','')"

text \<open>The loops over the fields of a struct, the sorted entries of a map and the elements of an array, with the
  encoder of a part as an argument.\<close>

fun struct_loop ::
    "'f enc_env \<Rightarrow> (gtype \<Rightarrow> bool \<Rightarrow> 'f rval \<Rightarrow> bool \<Rightarrow> string \<Rightarrow> enc_res) \<Rightarrow> 'f rval \<Rightarrow> bool \<Rightarrow>
     (jfield \<times> gtype) list \<Rightarrow> bool \<Rightarrow> string \<Rightarrow> enc_res" where
  "struct_loop E enc v a [] first e = wrote e"
| "struct_loop E enc v a ((f, ft) # fs) first e =
     (case fieldByIndex v a (f_index f) of
        None \<Rightarrow> None
      | Some None \<Rightarrow> struct_loop E enc v a fs first e
      | Some (Some (fv, fa)) \<Rightarrow>
          if f_omitEmpty f \<and> isEmptyValue E fv then struct_loop E enc v a fs first e
          else e_then (enc ft fa fv (f_quoted f) (encode_string (put_comma first e) (f_name f) @ '':''))
                 (struct_loop E enc v a fs False))"

fun map_loop :: "('f rval \<Rightarrow> string \<Rightarrow> enc_res) \<Rightarrow> (string \<times> 'f rval) list \<Rightarrow> bool \<Rightarrow> string \<Rightarrow> enc_res" where
  "map_loop enc [] first e = wrote e"
| "map_loop enc ((k, v) # kvs) first e =
     e_then (enc v (encode_string (put_comma first e) k @ '':'')) (map_loop enc kvs False)"

fun array_loop :: "('f rval \<Rightarrow> string \<Rightarrow> enc_res) \<Rightarrow> 'f rval list \<Rightarrow> bool \<Rightarrow> string \<Rightarrow> enc_res" where
  "array_loop enc [] first e = wrote e"
| "array_loop enc (v # vs) first e = e_then (enc v (put_comma first e)) (array_loop enc vs False)"

text \<open>The call of an encoder on a value of type \<open>t\<close>, which can be addressed if \<open>a\<close> holds. The recursion is
  bounded by fuel, one unit for a call.\<close>

fun run_encoder ::
    "'f enc_env \<Rightarrow> nat \<Rightarrow> encoder \<Rightarrow> gtype \<Rightarrow> bool \<Rightarrow> 'f rval \<Rightarrow> bool \<Rightarrow> string \<Rightarrow> enc_res"
  and encode_typed :: "'f enc_env \<Rightarrow> nat \<Rightarrow> gtype \<Rightarrow> bool \<Rightarrow> 'f rval \<Rightarrow> bool \<Rightarrow> string \<Rightarrow> enc_res"
where
  "run_encoder E 0 f t a v quoted e = None"
| "run_encoder E (Suc n) f t a v quoted e =
     (case f of
        condAddrEncoder canAddrEnc elseEnc \<Rightarrow>
          run_encoder E n (if a then canAddrEnc else elseEnc) t a v quoted e
      | interfaceEncoder \<Rightarrow>
          (case v of
             RIface None \<Rightarrow> wrote (e @ ''null'')
           | RIface (Some (t', v')) \<Rightarrow> encode_typed E n t' False v' False e
           | _ \<Rightarrow> None)
      | structEncoder fs \<Rightarrow>
          e_then (struct_loop E (encode_typed E n) v a fs True (e @ ''{'')) (\<lambda>e. wrote (e @ ''}''))
      | mapEncoder elem \<Rightarrow>
          (case v of
             RMap None \<Rightarrow> wrote (e @ ''null'')
           | RMap (Some kvs) \<Rightarrow>
               e_then (map_loop (\<lambda>v. encode_typed E n elem False v False) (sort_Sort stringValues_Less kvs) True (e @ ''{''))
                 (\<lambda>e. wrote (e @ ''}''))
           | _ \<Rightarrow> None)
      | sliceEncoder elem \<Rightarrow>
          (case v of
             RSlice None _ \<Rightarrow> wrote (e @ ''null'')
           | RSlice (Some vs) _ \<Rightarrow>
               e_then (array_loop (\<lambda>v. encode_typed E n elem True v False) vs True (e @ ''['')) (\<lambda>e. wrote (e @ '']''))
           | _ \<Rightarrow> None)
      | arrayEncoder elem \<Rightarrow>
          (case v of
             RArray vs \<Rightarrow>
               e_then (array_loop (\<lambda>v. encode_typed E n elem a v False) vs True (e @ ''['')) (\<lambda>e. wrote (e @ '']''))
           | _ \<Rightarrow> None)
      | ptrEncoder elem \<Rightarrow>
          (case v of
             RPtr None \<Rightarrow> wrote (e @ ''null'')
           | RPtr (Some w) \<Rightarrow> encode_typed E n elem True w False e
           | _ \<Rightarrow> None)
      | _ \<Rightarrow> run_scalar E f t v quoted e)"
| "encode_typed E 0 t a v quoted e = None"
| "encode_typed E (Suc n) t a v quoted e =
     (case newTypeEncoder E t True of None \<Rightarrow> None | Some f \<Rightarrow> run_encoder E n f t a v quoted e)"

text \<open>The top: a value in an interface, or nil.\<close>

definition reflectValue :: "'f enc_env \<Rightarrow> nat \<Rightarrow> (gtype \<times> 'f rval) option \<Rightarrow> string \<Rightarrow> enc_res" where
  "reflectValue E n x e =
     (case x of None \<Rightarrow> wrote (e @ ''null'') | Some (t, v) \<Rightarrow> encode_typed E n t False v False e)"

definition Marshal :: "'f enc_env \<Rightarrow> nat \<Rightarrow> (gtype \<times> 'f rval) option \<Rightarrow> enc_res" where
  "Marshal E n x = reflectValue E n x []"

text \<open>The inner sum tells an error of \<open>Marshal\<close> from one of \<open>Indent\<close>.\<close>

definition MarshalIndent ::
    "'f enc_env \<Rightarrow> nat \<Rightarrow> (gtype \<times> 'f rval) option \<Rightarrow> string \<Rightarrow> string \<Rightarrow> ((enc_error + SyntaxError) + string) option" where
  "MarshalIndent E n x pre ind =
     (case Marshal E n x of None \<Rightarrow> None
      | Some (Inl err) \<Rightarrow> Some (Inl (Inl err))
      | Some (Inr b) \<Rightarrow>
          (case Indent [] b pre ind of None \<Rightarrow> None
           | Some (Some err, _) \<Rightarrow> Some (Inl (Inr err))
           | Some (None, buf) \<Rightarrow> Some (Inr buf)))"

section \<open>Values of a type\<close>

definition numberType :: gtype where "numberType = TNamed ''json.Number''"

lemma size_member: "x \<in> set vs \<Longrightarrow> size x \<le> size_list size vs"
  by (rule size_list_estimation' [of x]) simp_all

lemma size_entry: "(k, v) \<in> set kvs \<Longrightarrow> size v \<le> size_list (size_prod (\<lambda>_. 0) size) kvs"
  by (rule size_list_estimation' [of "(k, v)"]) simp_all

function (sequential) has_type :: "type_env \<Rightarrow> gtype \<Rightarrow> 'f rval \<Rightarrow> bool" where
  "has_type E t (RBool b) \<longleftrightarrow> kind_of E t = TBool"
| "has_type E t (RInt i) \<longleftrightarrow> (case kind_of E t of TInt w \<Rightarrow> - (2 ^ (w - 1)) \<le> i \<and> i < 2 ^ (w - 1) | _ \<Rightarrow> False)"
| "has_type E t (RUint n) \<longleftrightarrow> (case kind_of E t of TUint w \<Rightarrow> n < 2 ^ w | TUintptr \<Rightarrow> n < 2 ^ 64 | _ \<Rightarrow> False)"
| "has_type E t (RFloat f) \<longleftrightarrow> (case kind_of E t of TFloat _ \<Rightarrow> True | _ \<Rightarrow> False)"
| "has_type E t (RString s) \<longleftrightarrow> kind_of E t = TString \<and> t \<noteq> numberType"
| "has_type E t (RNumber s) \<longleftrightarrow> kind_of E t = TString \<and> t = numberType"
| "has_type E t (RIface None) \<longleftrightarrow> kind_of E t = TInterface"
| "has_type E t (RIface (Some (t', v))) \<longleftrightarrow>
     kind_of E t = TInterface \<and> kind_of E t' \<noteq> TInterface \<and> t' \<in> set (te_types E) \<and> has_type E t' v"
| "has_type E t (RStruct vs) \<longleftrightarrow>
     (case kind_of E t of
        TStruct fs \<Rightarrow> length fs = length vs \<and> (\<forall>p \<in> set (zip fs vs). has_type E (gf_type (fst p)) (snd p))
      | _ \<Rightarrow> False)"
| "has_type E t (RMap None) \<longleftrightarrow> (case kind_of E t of TMap _ _ \<Rightarrow> True | _ \<Rightarrow> False)"
| "has_type E t (RMap (Some kvs)) \<longleftrightarrow>
     (case kind_of E t of
        TMap _ e \<Rightarrow> distinct (map fst kvs) \<and> (\<forall>p \<in> set kvs. has_type E e (snd p))
      | _ \<Rightarrow> False)"
| "has_type E t (RSlice None sp) \<longleftrightarrow> (case kind_of E t of TSlice _ \<Rightarrow> sp = [] | _ \<Rightarrow> False)"
| "has_type E t (RSlice (Some vs) sp) \<longleftrightarrow>
     (case kind_of E t of TSlice e \<Rightarrow> (\<forall>v \<in> set vs. has_type E e v) \<and> (\<forall>v \<in> set sp. has_type E e v) | _ \<Rightarrow> False)"
| "has_type E t (RArray vs) \<longleftrightarrow>
     (case kind_of E t of TArray n e \<Rightarrow> length vs = n \<and> (\<forall>v \<in> set vs. has_type E e v) | _ \<Rightarrow> False)"
| "has_type E t (RPtr None) \<longleftrightarrow> (case kind_of E t of TPtr _ \<Rightarrow> True | _ \<Rightarrow> False)"
| "has_type E t (RPtr (Some v)) \<longleftrightarrow> (case kind_of E t of TPtr e \<Rightarrow> has_type E e v | _ \<Rightarrow> False)"
| "has_type E t ROther \<longleftrightarrow> kind_of E t = TOther"
  by pat_completeness auto
termination
  by (relation "measure (\<lambda>(_, _, v). size v)")
    (auto dest!: set_zip_rightD simp: less_Suc_eq_le intro: size_list_estimation' le_SucI dest: size_entry size_member)


declare has_type.simps [simp del]

lemma has_type_parts:
  "kind_of E t = TStruct fs \<Longrightarrow> has_type E t v \<longleftrightarrow>
     (\<exists>vs. v = RStruct vs \<and> length fs = length vs \<and> (\<forall>i < length fs. has_type E (gf_type (fs ! i)) (vs ! i)))"
  "kind_of E t = TMap k e \<Longrightarrow> has_type E t v \<longleftrightarrow>
     v = RMap None \<or> (\<exists>kvs. v = RMap (Some kvs) \<and> distinct (map fst kvs) \<and> (\<forall>p \<in> set kvs. has_type E e (snd p)))"
  "kind_of E t = TSlice e \<Longrightarrow> has_type E t v \<longleftrightarrow>
     v = RSlice None [] \<or>
     (\<exists>vs sp. v = RSlice (Some vs) sp \<and> (\<forall>v \<in> set vs. has_type E e v) \<and> (\<forall>v \<in> set sp. has_type E e v))"
  "kind_of E t = TArray n e \<Longrightarrow> has_type E t v \<longleftrightarrow>
     (\<exists>vs. v = RArray vs \<and> length vs = n \<and> (\<forall>v \<in> set vs. has_type E e v))"
  "kind_of E t = TPtr e \<Longrightarrow> has_type E t v \<longleftrightarrow> v = RPtr None \<or> (\<exists>w. v = RPtr (Some w) \<and> has_type E e w)"
  "kind_of E t = TInterface \<Longrightarrow> has_type E t v \<longleftrightarrow>
     v = RIface None \<or> (\<exists>t' w. v = RIface (Some (t', w)) \<and> kind_of E t' \<noteq> TInterface \<and> t' \<in> set (te_types E) \<and>
       has_type E t' w)"
  by (cases "(E, t, v)" rule: has_type.cases; force simp: has_type.simps set_zip)+

lemma has_type_scalars:
  "kind_of E t = TBool \<Longrightarrow> has_type E t v \<longleftrightarrow> (\<exists>b. v = RBool b)"
  "kind_of E t = TInt w \<Longrightarrow> has_type E t v \<longleftrightarrow> (\<exists>i. v = RInt i \<and> - (2 ^ (w - 1)) \<le> i \<and> i < 2 ^ (w - 1))"
  "kind_of E t = TUint w \<Longrightarrow> has_type E t v \<longleftrightarrow> (\<exists>n. v = RUint n \<and> n < 2 ^ w)"
  "kind_of E t = TUintptr \<Longrightarrow> has_type E t v \<longleftrightarrow> (\<exists>n. v = RUint n \<and> n < 2 ^ 64)"
  "kind_of E t = TFloat w \<Longrightarrow> has_type E t v \<longleftrightarrow> (\<exists>f. v = RFloat f)"
  "kind_of E t = TString \<Longrightarrow> has_type E t v \<longleftrightarrow> (if t = numberType then \<exists>s. v = RNumber s else \<exists>s. v = RString s)"
  by (cases "(E, t, v)" rule: has_type.cases; simp add: has_type.simps)+

text \<open>The values of \<open>Number\<close> hold what JSON takes for a number.\<close>

function (sequential) numbers_ok :: "'f rval \<Rightarrow> bool" where
  "numbers_ok (RNumber s) \<longleftrightarrow> s = [] \<or> (\<exists>n. number_ok n \<and> s = render_number n)"
| "numbers_ok (RIface (Some (t', v))) \<longleftrightarrow> numbers_ok v"
| "numbers_ok (RStruct vs) \<longleftrightarrow> (\<forall>v \<in> set vs. numbers_ok v)"
| "numbers_ok (RMap (Some kvs)) \<longleftrightarrow> (\<forall>p \<in> set kvs. numbers_ok (snd p))"
| "numbers_ok (RSlice (Some vs) sp) \<longleftrightarrow> (\<forall>v \<in> set vs. numbers_ok v)"
| "numbers_ok (RArray vs) \<longleftrightarrow> (\<forall>v \<in> set vs. numbers_ok v)"
| "numbers_ok (RPtr (Some v)) \<longleftrightarrow> numbers_ok v"
| "numbers_ok _ \<longleftrightarrow> True"
  by pat_completeness auto
termination
  by (relation "measure size") (auto simp: less_Suc_eq_le intro: size_list_estimation' le_SucI dest: size_entry size_member)

text \<open>A field that is found in the type is found in a value of the type, unless a nil pointer is in the way.\<close>

lemma fieldByIndex_typed:
  fixes v :: "'f rval"
  shows "has_type E t v \<Longrightarrow> typeByIndex E t is = Some ft \<Longrightarrow>
   \<exists>r. fieldByIndex v a is = Some r \<and>
     (\<forall>fv fa. r = Some (fv, fa) \<longrightarrow> has_type E ft fv \<and> size fv + length is \<le> size v \<and> (numbers_ok v \<longrightarrow> numbers_ok fv))"
proof (induction "is" arbitrary: t v a)
  case (Cons i "is")
  define u where "u = (case kind_of E t of TPtr t' \<Rightarrow> t' | _ \<Rightarrow> t)"
  obtain fs where fs: "kind_of E u = TStruct fs" "i < length fs" "typeByIndex E (gf_type (fs ! i)) is = Some ft"
    using Cons.prems(2) by (auto simp: u_def [symmetric] struct_fields_kind split: option.splits if_splits)
  have field: "\<exists>r. fieldByIndex (vs ! i) b is = Some r \<and> i < length vs \<and>
      (\<forall>fv fa. r = Some (fv, fa) \<longrightarrow> has_type E ft fv \<and> size fv + length (i # is) \<le> size w \<and>
         (numbers_ok w \<longrightarrow> numbers_ok fv))"
    if "has_type E u w" "w = RStruct vs" for w :: "'f rval" and vs b
  proof -
    have vs: "length fs = length vs" "has_type E (gf_type (fs ! i)) (vs ! i)"
      using that fs(2) by (auto simp: has_type_parts(1) [OF fs(1)])
    then have m: "vs ! i \<in> set vs" using fs(2) by simp
    then have "size (vs ! i) < size w" using that(2) by (simp add: less_Suc_eq_le size_list_estimation')
    moreover have "numbers_ok w \<Longrightarrow> numbers_ok (vs ! i)" using m that(2) by simp
    ultimately show ?thesis using Cons.IH [OF vs(2) fs(3), of b] vs(1) fs(2) by fastforce
  qed
  show ?case
  proof (cases "\<exists>t'. kind_of E t = TPtr t'")
    case True
    then obtain t' where k: "kind_of E t = TPtr t'" by blast
    then have u: "u = t'" by (simp add: u_def)
    show ?thesis
    proof (cases "v = RPtr None")
      case False
      then obtain w where w: "v = RPtr (Some w)" "has_type E u w" using Cons.prems(1) has_type_parts(5) [OF k] u by auto
      then obtain vs where vs: "w = RStruct vs" using has_type_parts(1) [OF fs(1)] by auto
      show ?thesis using field [OF w(2) vs, of True] w(1) vs by (auto simp: Let_def)
    qed simp
  next
    case False
    then have u: "u = t" by (auto simp: u_def split: gtype.splits)
    then obtain vs where vs: "v = RStruct vs" using Cons.prems(1) has_type_parts(1) [OF fs(1)] by auto
    show ?thesis using field [OF Cons.prems(1) [folded u] vs, of a] vs by (auto simp: Let_def)
  qed
qed simp

section \<open>What is written is JSON\<close>

text \<open>What the encoder asks of the methods and of the formatting of numbers. The texts a \<open>Marshaler\<close> returns
  are JSON in which the characters HTML gives a meaning to are escaped; an interface type has none of the
  methods, as a nil value of it would be called.\<close>

definition marshal_laws :: "'f enc_env \<Rightarrow> bool" where
  "marshal_laws E \<longleftrightarrow>
     (\<forall>t v b. ee_MarshalJSON E t v = Inr b \<longrightarrow>
        (\<exists>w j u os r. b = w @ u @ r \<and> gap w \<and> layout j u os \<and> spaces r \<and> no_sep b \<and> (\<forall>c \<in> set b. \<not> html_char c))) \<and>
     (\<forall>bits f. ee_finite E f \<longrightarrow> (\<exists>n. number_ok n \<and> ee_formatFloat E bits f = render_number n)) \<and>
     (\<forall>t. kind_of (ee_types E) t = TInterface \<longrightarrow> \<not> ee_marshaler E t \<and> \<not> ee_textMarshaler E t) \<and>
     types_closed (ee_types E)"

text \<open>A result is good for a value if it is no panic and, where it is a text, a JSON value has been appended.\<close>

definition appends :: "string \<Rightarrow> string \<Rightarrow> bool" where
  "appends e e' \<longleftrightarrow> (\<exists>j. json_ok j \<and> e' = e @ render j)"

definition good :: "'f rval \<Rightarrow> string \<Rightarrow> enc_res \<Rightarrow> bool" where
  "good v e m \<longleftrightarrow> (\<exists>r. m = Some r \<and> (\<forall>e'. r = Inr e' \<longrightarrow> numbers_ok v \<longrightarrow> appends e e'))"

lemma good_simps [simp]:
  "good v e (wrote e') \<longleftrightarrow> (numbers_ok v \<longrightarrow> appends e e')" "good v e (e_error err)" "\<not> good v e None"
  by (auto simp: good_def wrote_def e_error_def)

lemma appendsI: "json_ok j \<Longrightarrow> e' = e @ render j \<Longrightarrow> appends e e'"
  by (auto simp: appends_def)

lemma appends_null: "appends e (e @ ''null'')"
  by (rule appendsI [of JNull]) simp_all

lemma string_body_plain: "\<forall>c \<in> set s. plain_char c \<Longrightarrow> string_body s"
  by (induction s) (auto intro: body_Nil body_plain)

lemma appends_quotes: "\<forall>c \<in> set s. plain_char c \<Longrightarrow> appends e (e @ [CHR 0x22] @ s @ [CHR 0x22])"
  by (rule appendsI [of "JStr s"]) (simp_all add: string_body_plain render_string_def)

lemma appends_string: "appends e (encode_string e s)"
  by (rule appendsI [of "JStr (enc_text s)"]) (simp_all add: string_body_enc_text encode_string_render)

lemma plain_digit: "is_digit c \<Longrightarrow> plain_char c"
  by (auto simp: plain_char_def is_digit_iff)

lemma dec_nat_plain: "\<forall>c \<in> set (dec_nat n). plain_char c"
proof (rule dec_nat_cases [of n])
  show "dec_nat n = ''0'' \<Longrightarrow> ?thesis" by (simp add: plain_char_def)
next
  fix c cs assume "dec_nat n = c # cs" "is_digit c" "digits cs"
  then show ?thesis by (auto simp: digits_def plain_digit)
qed

lemma number_plain: "number_ok n \<Longrightarrow> \<forall>c \<in> set (render_number n). plain_char c"
proof -
  assume n: "number_ok n"
  have sg: "\<forall>c \<in> set sg. plain_char c" if "sg \<in> {[], ''+'', ''-''}" for sg
    using that by (auto simp: plain_char_def)
  have d: "\<forall>c \<in> set ds. plain_char c" if "digits ds" for ds
    using that by (auto simp: digits_def plain_digit)
  have e: "plain_char e" if "e \<in> {CHR ''e'', CHR ''E''}" for e
    using that by (auto simp: plain_char_def)
  have "plain_char (CHR ''-'')" "plain_char (CHR ''.'')" by (simp_all add: plain_char_def)
  then show ?thesis
    using n dec_nat_plain [of "n_int n"] d [of "n_frac n"] sg d e
    by (fastforce simp: render_number_def number_ok_def split: option.splits if_splits)
qed

text \<open>Numbers, with or without quotes.\<close>

lemma appends_number: "number_ok n \<Longrightarrow> appends e (e @ with_quotes q (render_number n))"
proof (cases q)
  case True
  assume "number_ok n"
  then show ?thesis using appends_quotes [OF number_plain] True by (simp add: with_quotes_def)
next
  case False
  assume "number_ok n"
  then show ?thesis using appendsI [of "JNum n"] False by (simp add: with_quotes_def)
qed

definition int_number :: "int \<Rightarrow> number" where
  "int_number i = \<lparr>n_neg = (i < 0), n_int = nat \<bar>i\<bar>, n_frac = [], n_exp = None\<rparr>"

lemma int_number: "number_ok (int_number i)" "render_number (int_number i) = dec_int i"
  by (simp_all add: number_ok_def int_number_def digits_def render_number_def dec_int_def)

lemma appends_int: "appends e (e @ with_quotes q (dec_int i))"
  using appends_number [OF int_number(1), of e q i] by (simp add: int_number(2))

lemma appends_nat: "appends e (e @ with_quotes q (dec_nat n))"
  using appends_int [of e q "int n"] by (simp add: dec_int_def)

lemma appends_bool: "appends e (e @ with_quotes q (if b then ''true'' else ''false''))"
proof (cases q)
  case True
  have "appends e (e @ [CHR 0x22] @ (if b then ''true'' else ''false'') @ [CHR 0x22])"
    by (rule appends_quotes) (simp add: plain_char_def)
  then show ?thesis using True by (simp add: with_quotes_def)
next
  case False
  then show ?thesis using appendsI [of "JBool b"] by (simp add: with_quotes_def)
qed

lemma base64_plain:
  assumes "\<forall>b \<in> set bs. b < 256"
  shows "\<forall>c \<in> set (base64 bs). plain_char c"
proof -
  have a: "plain_char (base64_alphabet ! k)" if "k < 64" for k
  proof -
    have "\<forall>c \<in> set base64_alphabet. plain_char c" by (simp add: base64_alphabet_def plain_char_def)
    moreover have "length base64_alphabet = 64" by (simp add: base64_alphabet_def)
    ultimately show ?thesis using that nth_mem by metis
  qed
  have x: "x mod 4 * 16 + y div 16 < 64" "x mod 16 * 4 + y div 64 < 64" "x mod 4 * 16 < 64" "x mod 16 * 4 < 64" "y div 4 < 64"
    if "y < 256" for x y :: nat
  proof -
    have "x mod 4 \<le> 3" "x mod 16 \<le> 15" "y div 16 \<le> 15" "y div 64 \<le> 3" "y div 4 \<le> 63" using that by auto
    then show "x mod 4 * 16 + y div 16 < 64" "x mod 16 * 4 + y div 64 < 64" "x mod 4 * 16 < 64" "x mod 16 * 4 < 64" "y div 4 < 64"
      by simp_all
  qed
  have eq: "plain_char (CHR ''='')" by (simp add: plain_char_def)
  show ?thesis using assms
    by (induction bs rule: base64.induct) (auto simp: a x eq)
qed

lemma escape_html_none: "\<not> html_char c \<Longrightarrow> escape_html src i c p = p"
  by (cases p) (simp add: escape_html_def)

lemma compact_loop_no_html:
  "\<forall>c \<in> set cs. \<not> html_char c \<Longrightarrow> compact_loop True src i cs s p = compact_loop False src i cs s p"
  by (induction cs arbitrary: i s p) (simp_all add: escape_html_none Let_def split: bind_splits)

lemma compact_no_html: "\<forall>c \<in> set b. \<not> html_char c \<Longrightarrow> compact e b True = compact e b False"
  by (simp add: compact_def compact_loop_no_html)

lemma good_MarshalJSON:
  assumes "marshal_laws E" "r \<noteq> None"
  shows "good v e (call_MarshalJSON E t r e)"
proof -
  obtain t' w where r: "r = Some (t', w)" using assms(2) by auto
  show ?thesis
  proof (cases "ee_MarshalJSON E t' w")
    case (Inl err)
    then show ?thesis using r by (simp add: call_MarshalJSON_def)
  next
    case (Inr b)
    then obtain x j u os y where b: "b = x @ u @ y" "gap x" "layout j u os" "spaces y" "no_sep b" "\<forall>c \<in> set b. \<not> html_char c"
      using assms(1) unfolding marshal_laws_def by blast
    have "Compact e b = Some (None, e @ render j)"
      using compact_layout [OF b(2-4)] b(1,5) by simp
    then have "compact e b True = Some (None, e @ render j)"
      using compact_no_html [OF b(6), of e] by (simp add: Compact_def)
    moreover have "appends e (e @ render j)" by (rule appendsI [OF layout_ok(1) [OF b(3)] refl])
    ultimately show ?thesis using r Inr by (simp add: call_MarshalJSON_def)
  qed
qed

lemma good_MarshalText: "r \<noteq> None \<Longrightarrow> good v e (call_MarshalText E t r e)"
  by (auto simp: call_MarshalText_def appends_string stringBytes_eq split: sum.splits)

text \<open>The parts of an array or an object, with the commas between them.\<close>

definition lead :: "bool \<Rightarrow> string list \<Rightarrow> string" where
  "lead first cs = (if first then commas cs else concat (map ((#) (CHR '','')) cs))"

lemma commas_Cons: "commas (c # cs) = c @ concat (map ((#) (CHR '','')) cs)"
  by (induction cs arbitrary: c) auto

lemma lead_simps: "lead first [] = []" "put_comma first e @ c @ lead False cs = e @ lead first (c # cs)"
  by (simp_all add: lead_def put_comma_def commas_Cons del: seps.simps(2,3))

definition member_text :: "string \<times> json \<Rightarrow> string" where
  "member_text p = render_string (fst p) @ '':'' @ render (snd p)"

lemma render_members: "render (JObj kvs) = ''{'' @ commas (map member_text kvs) @ ''}''"
  by (simp add: member_text_def [abs_def])

definition good_loop :: "bool \<Rightarrow> bool \<Rightarrow> string \<Rightarrow> ('a \<Rightarrow> bool) \<Rightarrow> ('a \<Rightarrow> string) \<Rightarrow> enc_res \<Rightarrow> bool" where
  "good_loop first nums e ok txt m \<longleftrightarrow>
     (\<exists>r. m = Some r \<and> (\<forall>e'. r = Inr e' \<longrightarrow> nums \<longrightarrow>
        (\<exists>xs. (\<forall>x \<in> set xs. ok x) \<and> e' = e @ lead first (map txt xs))))"

lemma good_loop_Nil: "good_loop first nums e ok txt (wrote e)"
  by (auto simp: good_loop_def wrote_def lead_simps intro: exI [of _ "[]"])

lemma good_loop_Cons:
  assumes "good v (put_comma first e @ pre) m"
    and "\<And>j. json_ok j \<Longrightarrow> \<exists>x. ok x \<and> txt x = pre @ render j"
    and "\<And>e. good_loop False nums e ok txt (k e)" "nums \<Longrightarrow> numbers_ok v"
  shows "good_loop first nums e ok txt (e_then m k)"
proof -
  obtain r where r: "m = Some r" "\<forall>e'. r = Inr e' \<longrightarrow> numbers_ok v \<longrightarrow> appends (put_comma first e @ pre) e'"
    using assms(1) by (auto simp: good_def)
  show ?thesis
  proof (cases r)
    case (Inr e1)
    obtain r' where r': "k e1 = Some r'" "\<forall>e'. r' = Inr e' \<longrightarrow> nums \<longrightarrow>
        (\<exists>xs. (\<forall>x \<in> set xs. ok x) \<and> e' = e1 @ lead False (map txt xs))"
      using assms(3) [of e1] by (auto simp: good_loop_def)
    have "\<exists>xs. (\<forall>x \<in> set xs. ok x) \<and> e' = e @ lead first (map txt xs)" if a: "r' = Inr e'" "nums" for e'
    proof -
      obtain j where j: "json_ok j" "e1 = (put_comma first e @ pre) @ render j"
        using r(2) Inr assms(4) a(2) by (auto simp: appends_def)
      obtain x where x: "ok x" "txt x = pre @ render j" using assms(2) [OF j(1)] by blast
      obtain xs where "\<forall>x \<in> set xs. ok x" "e' = e1 @ lead False (map txt xs)" using r'(2) a by blast
      then show ?thesis
        using j(2) x lead_simps(2) [of first e "txt x" "map txt xs"] by (intro exI [of _ "x # xs"]) simp
    qed
    then show ?thesis using r(1) Inr r'(1) by (simp add: e_then_def good_loop_def)
  qed (use r in \<open>simp add: e_then_def good_loop_def\<close>)
qed

lemma good_array_loop:
  "\<forall>v \<in> set vs. \<forall>e. good v e (enc v e) \<Longrightarrow>
     good_loop first (\<forall>v \<in> set vs. numbers_ok v) e json_ok render (array_loop enc vs first e)"
proof (induction vs arbitrary: first e)
  case (Cons v vs)
  have "good_loop first (\<forall>v \<in> set (v # vs). numbers_ok v) e json_ok render
      (e_then (enc v (put_comma first e)) (array_loop enc vs False))"
  proof (rule good_loop_Cons [of v _ _ "[]"])
    fix e
    show "good_loop False (\<forall>v \<in> set (v # vs). numbers_ok v) e json_ok render (array_loop enc vs False e)"
      using Cons.IH [of False e] Cons.prems by (auto simp: good_loop_def)
  qed (use Cons.prems in auto)
  then show ?case by simp
qed (simp add: good_loop_Nil)

definition member_ok :: "string \<times> json \<Rightarrow> bool" where
  "member_ok p \<longleftrightarrow> string_body (fst p) \<and> json_ok (snd p)"

lemma member_of:
  "json_ok j \<Longrightarrow> \<exists>p. member_ok p \<and> member_text p = (render_string (enc_text k) @ '':'') @ render j"
  by (rule exI [of _ "(enc_text k, j)"]) (simp add: member_ok_def member_text_def string_body_enc_text)

lemma good_map_loop:
  "\<forall>p \<in> set kvs. \<forall>e. good (snd p) e (enc (snd p) e) \<Longrightarrow>
     good_loop first (\<forall>p \<in> set kvs. numbers_ok (snd p)) e member_ok member_text (map_loop enc kvs first e)"
proof (induction kvs arbitrary: first e)
  case (Cons p kvs)
  obtain k v where p: "p = (k, v)" by (cases p)
  have "good_loop first (\<forall>p \<in> set (p # kvs). numbers_ok (snd p)) e member_ok member_text
      (e_then (enc v (encode_string (put_comma first e) k @ '':'')) (map_loop enc kvs False))"
  proof (rule good_loop_Cons [of v _ _ "render_string (enc_text k) @ '':''"])
    fix e
    show "good_loop False (\<forall>p \<in> set (p # kvs). numbers_ok (snd p)) e member_ok member_text (map_loop enc kvs False e)"
      using Cons.IH [of False e] Cons.prems by (auto simp: good_loop_def)
  qed (use Cons.prems p member_of in \<open>auto simp: encode_string_render\<close>)
  then show ?case by (simp add: p)
qed (simp add: good_loop_Nil)

lemma good_struct_loop:
  assumes "\<forall>(f, ft) \<in> set fs. \<exists>r. fieldByIndex v a (f_index f) = Some r \<and>
    (\<forall>fv fa. r = Some (fv, fa) \<longrightarrow> (\<forall>q e. good fv e (enc ft fa fv q e)) \<and> (numbers_ok v \<longrightarrow> numbers_ok fv))"
  shows "good_loop first (numbers_ok v) e member_ok member_text (struct_loop E enc v a fs first e)"
  using assms
proof (induction fs arbitrary: first e)
  case (Cons p fs)
  obtain f ft where p: "p = (f, ft)" by (cases p)
  have IH: "good_loop first (numbers_ok v) e member_ok member_text (struct_loop E enc v a fs first e)" for first e
    by (rule Cons.IH) (use Cons.prems in auto)
  obtain r where r: "fieldByIndex v a (f_index f) = Some r"
      "\<forall>fv fa. r = Some (fv, fa) \<longrightarrow> (\<forall>q e. good fv e (enc ft fa fv q e)) \<and> (numbers_ok v \<longrightarrow> numbers_ok fv)"
    using Cons.prems p by auto
  show ?case
  proof (cases "\<exists>fv fa. r = Some (fv, fa) \<and> \<not> (f_omitEmpty f \<and> isEmptyValue E fv)")
    case True
    then obtain fv fa where fv: "r = Some (fv, fa)" "\<not> (f_omitEmpty f \<and> isEmptyValue E fv)" by blast
    have "good_loop first (numbers_ok v) e member_ok member_text
        (e_then (enc ft fa fv (f_quoted f) (encode_string (put_comma first e) (f_name f) @ '':'')) (struct_loop E enc v a fs False))"
      by (rule good_loop_Cons [of fv _ _ "render_string (enc_text (f_name f)) @ '':''"])
        (use r(2) fv(1) IH member_of in \<open>auto simp: encode_string_render\<close>)
    then show ?thesis using p r(1) fv by (cases "f_omitEmpty f") simp_all
  next
    case False
    then have "struct_loop E enc v a (p # fs) first e = struct_loop E enc v a fs first e"
      using p r(1) by (auto split: option.splits)
    then show ?thesis using IH by simp
  qed
qed (simp add: good_loop_Nil)

text \<open>A loop between brackets.\<close>

lemma good_array:
  assumes "good_loop True nums (e @ ''['') json_ok render m" "numbers_ok v \<Longrightarrow> nums"
  shows "good v e (e_then m (\<lambda>e. wrote (e @ '']'')))"
proof -
  obtain r where r: "m = Some r" "\<forall>e'. r = Inr e' \<longrightarrow> nums \<longrightarrow>
      (\<exists>xs. (\<forall>x \<in> set xs. json_ok x) \<and> e' = (e @ ''['') @ lead True (map render xs))"
    using assms(1) by (auto simp: good_loop_def)
  show ?thesis
  proof (cases r)
    case (Inr e')
    have ap: "appends e (e' @ '']'')" if v: "numbers_ok v"
    proof -
      obtain js where js: "\<forall>x \<in> set js. json_ok x" "e' = (e @ ''['') @ lead True (map render js)"
        using r(2) [rule_format, OF Inr assms(2) [OF v]] by blast
      have "json_ok (JArr js)" using js(1) by simp
      moreover have "e' @ '']'' = e @ render (JArr js)" unfolding js(2) by (simp add: lead_def)
      ultimately show ?thesis by (rule appendsI)
    qed
    have "e_then m (\<lambda>e. wrote (e @ '']'')) = wrote (e' @ '']'')" by (simp only: r(1) Inr e_then_def option.case sum.case)
    then show ?thesis using ap by (simp only: good_simps) blast
  qed (simp add: r(1) e_then_def good_def)
qed

lemma good_object:
  assumes "good_loop True nums (e @ ''{'') member_ok member_text m" "numbers_ok v \<Longrightarrow> nums"
  shows "good v e (e_then m (\<lambda>e. wrote (e @ ''}'')))"
proof -
  obtain r where r: "m = Some r" "\<forall>e'. r = Inr e' \<longrightarrow> nums \<longrightarrow>
      (\<exists>xs. (\<forall>x \<in> set xs. member_ok x) \<and> e' = (e @ ''{'') @ lead True (map member_text xs))"
    using assms(1) by (auto simp: good_loop_def)
  show ?thesis
  proof (cases r)
    case (Inr e')
    have ap: "appends e (e' @ ''}'')" if v: "numbers_ok v"
    proof -
      obtain ps where ps: "\<forall>x \<in> set ps. member_ok x" "e' = (e @ ''{'') @ lead True (map member_text ps)"
        using r(2) [rule_format, OF Inr assms(2) [OF v]] by blast
      have "json_ok (JObj ps)" using ps(1) by (simp add: member_ok_def)
      moreover have "e' @ ''}'' = e @ render (JObj ps)" unfolding ps(2) render_members by (simp add: lead_def)
      ultimately show ?thesis by (rule appendsI)
    qed
    have "e_then m (\<lambda>e. wrote (e @ ''}'')) = wrote (e' @ ''}'')" by (simp only: r(1) Inr e_then_def option.case sum.case)
    then show ?thesis using ap by (simp only: good_simps) blast
  qed (simp add: r(1) e_then_def good_def)
qed

section \<open>Every encoder\<close>

lemma typeByIndex_member:
  "types_closed E \<Longrightarrow> t \<in> set (te_types E) \<Longrightarrow> typeByIndex E t is = Some ft \<Longrightarrow> ft \<in> set (te_types E)"
proof (induction "is" arbitrary: t)
  case (Cons i "is")
  define u where "u = (case kind_of E t of TPtr t' \<Rightarrow> t' | _ \<Rightarrow> t)"
  obtain fs where fs: "kind_of E u = TStruct fs" "i < length fs" "typeByIndex E (gf_type (fs ! i)) is = Some ft"
    using Cons.prems(3) by (auto simp: u_def [symmetric] struct_fields_kind split: option.splits if_splits)
  have c: "components (kind_of E x) \<subseteq> set (te_types E)" if "x \<in> set (te_types E)" for x
    using Cons.prems(1) that by (auto simp: types_closed_def)
  have "u \<in> set (te_types E)"
    using c [OF Cons.prems(2)] Cons.prems(2) by (auto simp: u_def split: gtype.splits)
  then have "gf_type (fs ! i) \<in> set (te_types E)" using c [of u] fs(1,2) by auto
  then show ?case using Cons.IH [OF Cons.prems(1) _ fs(3)] by blast
qed simp

text \<open>The encoder of a struct exists, and its fields lie in the type.\<close>

lemma newStructEncoder_ok:
  assumes "types_closed (ee_types E)" "t \<in> structs (ee_types E)"
  obtains fs where "newStructEncoder E t = Some (structEncoder fs)"
    "\<forall>(f, ft) \<in> set fs. f_index f \<noteq> [] \<and> typeByIndex (ee_types E) t (f_index f) = Some ft"
proof -
  obtain out where out: "typeFields (ee_types E) (Suc (length (te_types (ee_types E)))) t = Some out"
      "\<forall>f \<in> set out. found_ok (ee_types E) t f"
    by (rule typeFields_kept [OF assms])
  then have "\<forall>f \<in> set out. f_index f \<noteq> [] \<and> (\<exists>ft. typeByIndex (ee_types E) t (f_index f) = Some ft)"
    by (auto simp: found_ok_def at_path_def)
  then show thesis
    using that [of "map (\<lambda>f. (f, the (typeByIndex (ee_types E) t (f_index f)))) out"] out(1)
    by (auto simp: newStructEncoder_def)
qed

text \<open>All that is left to show for an encoder is that those of the parts of the value are good.\<close>

definition parts_good :: "'f enc_env \<Rightarrow> nat \<Rightarrow> 'f rval \<Rightarrow> bool" where
  "parts_good E n v \<longleftrightarrow>
     (\<forall>t' a' v' q e. size v' < size v \<longrightarrow> t' \<in> set (te_types (ee_types E)) \<longrightarrow> has_type (ee_types E) t' v' \<longrightarrow>
        good v' e (encode_typed E n t' a' v' q e))"

lemma parts_goodD:
  "parts_good E n v \<Longrightarrow> size v' < size v \<Longrightarrow> t' \<in> set (te_types (ee_types E)) \<Longrightarrow> has_type (ee_types E) t' v' \<Longrightarrow>
     good v' e (encode_typed E n t' a' v' q e)"
  by (auto simp: parts_good_def)

lemma good_mono: "good w e m \<Longrightarrow> (numbers_ok v \<Longrightarrow> numbers_ok w) \<Longrightarrow> good v e m"
  by (auto simp: good_def)

lemma size_elem: "w \<in> set vs \<Longrightarrow> size w < Suc (Suc (size_list size vs + n))" "w \<in> set vs \<Longrightarrow> size w < Suc (size_list size vs)"
  by (auto simp: less_Suc_eq_le dest: size_member)

lemma set_sort_entries: "set (sort_Sort stringValues_Less kvs) = set kvs"
  using sort_Sort_key [of stringValues_Less fst kvs] by (simp add: stringValues_Less_def)

lemma run_kind:
  fixes E :: "'f enc_env" and v :: "'f rval"
  assumes laws: "marshal_laws E" and t: "t \<in> set (te_types (ee_types E))" "has_type (ee_types E) t v"
    and parts: "parts_good E n v"
  obtains f where "kindEncoder E t = Some f" "good v e (run_encoder E (Suc n) f t a v q e)"
proof (cases "kind_of (ee_types E) t")
  case TBool
  then obtain b where "v = RBool b" using t(2) by (auto simp: has_type_scalars)
  then show thesis using that [of boolEncoder] TBool appends_bool [of e q b] by (simp add: kindEncoder_def)
next
  case (TInt w)
  then obtain i where "v = RInt i" using t(2) by (auto simp: has_type_scalars)
  then show thesis using that [of intEncoder] TInt by (simp add: kindEncoder_def appends_int)
next
  case (TUint w)
  then obtain k where "v = RUint k" using t(2) by (auto simp: has_type_scalars)
  then show thesis using that [of uintEncoder] TUint by (simp add: kindEncoder_def appends_nat)
next
  case TUintptr
  then obtain k where "v = RUint k" using t(2) by (auto simp: has_type_scalars)
  then show thesis using that [of uintEncoder] TUintptr by (simp add: kindEncoder_def appends_nat)
next
  case (TFloat w)
  then obtain x where x: "v = RFloat x" using t(2) by (auto simp: has_type_scalars)
  show thesis
  proof (cases "ee_finite E x")
    case True
    then obtain m where "number_ok m" "ee_formatFloat E w x = render_number m"
      using laws unfolding marshal_laws_def by blast
    then show thesis using that [of "floatEncoder w"] TFloat x True appends_number [of m e q] by (simp add: kindEncoder_def)
  qed (use that [of "floatEncoder w"] TFloat x in \<open>simp add: kindEncoder_def\<close>)
next
  case TString
  show thesis
  proof (cases "t = numberType")
    case True
    then obtain s where s: "v = RNumber s" using t(2) has_type_scalars(6) [OF TString] by auto
    have "appends e (e @ (if s = [] then ''0'' else s))" if "numbers_ok v"
    proof (cases "s = []")
      case True
      then show ?thesis using appends_int [of e False 0] by (simp add: with_quotes_def dec_int_def dec_nat.simps [of 0] digit_chars)
    next
      case False
      then show ?thesis using that s appends_number [of _ e False] by (auto simp: with_quotes_def)
    qed
    then show thesis using that [of stringEncoder] TString s by (simp add: kindEncoder_def)
  next
    case False
    then obtain s where "v = RString s" using t(2) has_type_scalars(6) [OF TString] by auto
    then show thesis using that [of stringEncoder] TString by (simp add: kindEncoder_def appends_string)
  qed
next
  case TInterface
  show thesis
  proof (cases "v = RIface None")
    case True
    then show thesis using that [of interfaceEncoder] TInterface by (simp add: kindEncoder_def appends_null)
  next
    case False
    then obtain t' w where w: "v = RIface (Some (t', w))" "t' \<in> set (te_types (ee_types E))" "has_type (ee_types E) t' w"
      using t(2) has_type_parts(6) [OF TInterface] by blast
    have "good w e (encode_typed E n t' False w False e)" by (rule parts_goodD [OF parts _ w(2,3)]) (simp add: w(1))
    then show thesis using that [of interfaceEncoder] TInterface w(1) good_mono [of w e _ v] by (simp add: kindEncoder_def)
  qed
next
  case (TStruct sfs)
  then have st: "t \<in> structs (ee_types E)" using t(1) by (simp add: structs_def is_struct_def)
  have tc: "types_closed (ee_types E)" using laws by (simp add: marshal_laws_def)
  obtain fs where fs: "newStructEncoder E t = Some (structEncoder fs)"
      "\<forall>(f, ft) \<in> set fs. f_index f \<noteq> [] \<and> typeByIndex (ee_types E) t (f_index f) = Some ft"
    by (rule newStructEncoder_ok [OF tc st])
  have "\<forall>(f, ft) \<in> set fs. \<exists>r. fieldByIndex v a (f_index f) = Some r \<and>
      (\<forall>fv fa. r = Some (fv, fa) \<longrightarrow> (\<forall>q e. good fv e (encode_typed E n ft fa fv q e)) \<and> (numbers_ok v \<longrightarrow> numbers_ok fv))"
  proof clarify
    fix f ft assume f: "(f, ft) \<in> set fs"
    then have ix: "f_index f \<noteq> []" "typeByIndex (ee_types E) t (f_index f) = Some ft" using fs(2) by auto
    obtain r where r: "fieldByIndex v a (f_index f) = Some r"
        "\<forall>fv fa. r = Some (fv, fa) \<longrightarrow> has_type (ee_types E) ft fv \<and> size fv + length (f_index f) \<le> size v \<and>
           (numbers_ok v \<longrightarrow> numbers_ok fv)"
      using fieldByIndex_typed [OF t(2) ix(2), of a] by blast
    have ft: "ft \<in> set (te_types (ee_types E))"
      by (rule typeByIndex_member [OF tc t(1) ix(2)])
    have "good fv e (encode_typed E n ft fa fv q e) \<and> (numbers_ok v \<longrightarrow> numbers_ok fv)" if "r = Some (fv, fa)" for fv fa q e
    proof -
      have "has_type (ee_types E) ft fv" "size fv + length (f_index f) \<le> size v" "numbers_ok v \<longrightarrow> numbers_ok fv"
        using r(2) that by blast+
      moreover have "size fv < size v" using calculation(2) ix(1) by (cases "f_index f") simp_all
      ultimately show ?thesis using parts_goodD [OF parts _ ft] by simp
    qed
    then show "\<exists>r. fieldByIndex v a (f_index f) = Some r \<and>
      (\<forall>fv fa. r = Some (fv, fa) \<longrightarrow> (\<forall>q e. good fv e (encode_typed E n ft fa fv q e)) \<and> (numbers_ok v \<longrightarrow> numbers_ok fv))"
      using r(1) by blast
  qed
  from good_object [OF good_struct_loop [OF this, where E = E], where v = v and e = e] show thesis
    using that [of "structEncoder fs"] TStruct fs(1) by (simp add: kindEncoder_def)
next
  case (TMap k el)
  have el: "el \<in> set (te_types (ee_types E))" using laws t(1) TMap by (fastforce simp: marshal_laws_def types_closed_def)
  show thesis
  proof (cases "kind_of (ee_types E) k = TString")
    case False
    then show thesis using that [of unsupportedTypeEncoder] TMap by (simp add: kindEncoder_def newMapEncoder_def)
  next
    case True
    note k = True
    show thesis
    proof (cases "v = RMap None")
      case True
      then show thesis using that [of "mapEncoder el"] TMap k by (simp add: kindEncoder_def newMapEncoder_def appends_null)
    next
      case False
      then obtain kvs where kvs: "v = RMap (Some kvs)" "\<forall>p \<in> set kvs. has_type (ee_types E) el (snd p)"
        using t(2) has_type_parts(2) [OF TMap] by blast
      have "good (snd p) e (encode_typed E n el False (snd p) False e)" if p: "p \<in> set kvs" for p e
      proof (rule parts_goodD [OF parts _ el])
        show "size (snd p) < size v" using size_entry [of "fst p" "snd p" kvs] p kvs(1) by simp
      qed (use kvs(2) p in blast)
      then have "good_loop True (\<forall>p \<in> set kvs. numbers_ok (snd p)) (e @ ''{'') member_ok member_text
          (map_loop (\<lambda>v. encode_typed E n el False v False) (sort_Sort stringValues_Less kvs) True (e @ ''{''))"
        using good_map_loop [of "sort_Sort stringValues_Less kvs" "\<lambda>v. encode_typed E n el False v False" True "e @ ''{''"]
        by (simp add: set_sort_entries)
      from good_object [OF this, of v] show thesis
        using that [of "mapEncoder el"] TMap k kvs(1) by (simp add: kindEncoder_def newMapEncoder_def)
    qed
  qed
next
  case (TSlice el)
  have el: "el \<in> set (te_types (ee_types E))" using laws t(1) TSlice by (fastforce simp: marshal_laws_def types_closed_def)
  consider (nil) "v = RSlice None []" | (vs) vs sp where "v = RSlice (Some vs) sp" "\<forall>v \<in> set vs. has_type (ee_types E) el v"
    using t(2) has_type_parts(3) [OF TSlice] by blast
  then show thesis
  proof cases
    case nil
    then show thesis
      using that [of encodeByteSlice] that [of "sliceEncoder el"] TSlice
      by (cases "kind_of (ee_types E) el = TUint 8") (simp_all add: kindEncoder_def newSliceEncoder_def appends_null)
  next
    case (vs vs sp)
    show thesis
    proof (cases "kind_of (ee_types E) el = TUint 8")
      case True
      have "\<exists>bs. bytes_of vs = Some bs \<and> (\<forall>b \<in> set bs. b < 256)"
        using vs(2)
      proof (induction vs)
        case (Cons x xs)
        then obtain m where "x = RUint m" "m < 2 ^ 8" using has_type_scalars(3) [OF True, of x] by auto
        then show ?case using Cons by auto
      qed simp
      then obtain bs where "bytes_of vs = Some bs" "\<forall>b \<in> set bs. b < 256" by blast
      then show thesis using that [of encodeByteSlice] TSlice True vs(1) appends_quotes [OF base64_plain, of bs e]
        by (simp add: kindEncoder_def newSliceEncoder_def)
    next
      case False
      have "\<forall>w \<in> set vs. \<forall>e. good w e (encode_typed E n el True w False e)"
        using parts_goodD [OF parts _ el] vs size_elem(1) [of _ vs "size_list size sp"] by simp
      from good_array [OF good_array_loop [OF this], where v = v and e = e] show thesis
        using that [of "sliceEncoder el"] TSlice False vs(1) by (simp add: kindEncoder_def newSliceEncoder_def)
    qed
  qed
next
  case (TArray k el)
  have el: "el \<in> set (te_types (ee_types E))" using laws t(1) TArray by (fastforce simp: marshal_laws_def types_closed_def)
  obtain vs where vs: "v = RArray vs" "\<forall>v \<in> set vs. has_type (ee_types E) el v"
    using t(2) has_type_parts(4) [OF TArray] by blast
  have "\<forall>w \<in> set vs. \<forall>e. good w e (encode_typed E n el a w False e)"
    using parts_goodD [OF parts _ el] vs size_elem(2) [of _ vs] by simp
  from good_array [OF good_array_loop [OF this], where v = v and e = e] show thesis
    using that [of "arrayEncoder el"] TArray vs(1) by (simp add: kindEncoder_def)
next
  case (TPtr el)
  have el: "el \<in> set (te_types (ee_types E))" using laws t(1) TPtr by (fastforce simp: marshal_laws_def types_closed_def)
  show thesis
  proof (cases "v = RPtr None")
    case True
    then show thesis using that [of "ptrEncoder el"] TPtr by (simp add: kindEncoder_def appends_null)
  next
    case False
    then obtain w where w: "v = RPtr (Some w)" "has_type (ee_types E) el w" using t(2) has_type_parts(5) [OF TPtr] by blast
    have "good w e (encode_typed E n el True w False e)" by (rule parts_goodD [OF parts _ el w(2)]) (simp add: w(1))
    then show thesis using that [of "ptrEncoder el"] TPtr w(1) good_mono [of w e _ v] by (simp add: kindEncoder_def)
  qed
qed (use that [of unsupportedTypeEncoder] in \<open>simp_all add: kindEncoder_def\<close>)

lemma good_method:
  assumes "marshal_laws E" "has_type (ee_types E) t v" "ee_marshaler E t \<or> ee_textMarshaler E t"
  shows "receiver t v \<noteq> None"
proof -
  have "kind_of (ee_types E) t \<noteq> TInterface" using assms(1,3) by (auto simp: marshal_laws_def)
  then show ?thesis using assms(2) by (cases v; auto simp: receiver_def has_type.simps split: option.splits)
    (metis (no_types, opaque_lifting) has_type.simps(7,8) not_Some_eq surj_pair)
qed

text \<open>The encoder \<open>newTypeEncoder\<close> chooses: that of the kind, a method, or by address one of the two.\<close>

lemma run_chosen:
  assumes laws: "marshal_laws E" and t: "t \<in> set (te_types (ee_types E))" "has_type (ee_types E) t v"
    and parts: "\<And>m. n \<le> m \<Longrightarrow> parts_good E m v"
  shows "\<exists>f. newTypeEncoder E t addr = Some f \<and>
    (\<forall>m a q e. n + (if addr then 1 else 0) + 2 \<le> m \<longrightarrow> good v e (run_encoder E m f t a v q e))"
proof -
  have kind: "\<exists>f. kindEncoder E t = Some f \<and> (\<forall>m a q e. n + 1 \<le> m \<longrightarrow> good v e (run_encoder E m f t a v q e))"
  proof -
    obtain f where f: "kindEncoder E t = Some f" by (rule run_kind [OF laws t parts [OF order_refl]])
    have "good v e (run_encoder E m f t a v q e)" if le: "n + 1 \<le> m" for m a q e
    proof -
      obtain m' where m: "m = Suc m'" "n \<le> m'" using le by (cases m) auto
      obtain g where "kindEncoder E t = Some g" "good v e (run_encoder E (Suc m') g t a v q e)"
        by (rule run_kind [OF laws t parts [OF m(2)]])
      then show ?thesis using f m(1) by simp
    qed
    then show ?thesis using f by blast
  qed
  have direct: "good v e (run_encoder E m marshalerEncoder t a v q e)" if "ee_marshaler E t" "0 < m" for m a q e
    using that good_MarshalJSON [OF laws good_method [OF laws t(2)], of v e t] by (cases m) (simp_all add: appends_null)
  have texts: "good v e (run_encoder E m textMarshalerEncoder t a v q e)" if "ee_textMarshaler E t" "0 < m" for m a q e
    using that good_MarshalText [OF good_method [OF laws t(2)], of v e E t] by (cases m) (simp_all add: appends_null)
  have addr: "good v e (run_encoder E m addrMarshalerEncoder t a v q e)"
      "good v e (run_encoder E m addrTextMarshalerEncoder t a v q e)" if "0 < m" for m a q e
    using that good_MarshalJSON [OF laws, of "Some (TPtr t, RPtr (Some v))" v e t]
      good_MarshalText [of "Some (TPtr t, RPtr (Some v))" v e E t] by (cases m; simp)+
  have cond: "good v e (run_encoder E m (condAddrEncoder f g) t a v q e)"
    if "1 < m" "good v e (run_encoder E (m - 1) f t a v q e)" "good v e (run_encoder E (m - 1) g t a v q e)" for m a q e f g
    using that by (cases m; cases a) simp_all
  have plain: "\<exists>f. newTypeEncoder E t False = Some f \<and> (\<forall>m a q e. n + 1 \<le> m \<longrightarrow> good v e (run_encoder E m f t a v q e))"
  proof -
    consider "ee_marshaler E t" | "\<not> ee_marshaler E t" "ee_textMarshaler E t" | "\<not> ee_marshaler E t" "\<not> ee_textMarshaler E t"
      by blast
    then show ?thesis
    proof cases
      case 1
      then show ?thesis using direct by (simp add: newTypeEncoder.simps)
    next
      case 2
      then show ?thesis using texts by (simp add: newTypeEncoder.simps)
    next
      case 3
      then have "newTypeEncoder E t False = kindEncoder E t" by (simp add: newTypeEncoder.simps)
      then show ?thesis using kind by (simp only:)
    qed
  qed
  show ?thesis
  proof (cases addr)
    case False
    then show ?thesis using plain by auto
  next
    case True
    obtain f where f: "newTypeEncoder E t False = Some f"
        "\<And>m a q e. n + 1 \<le> m \<Longrightarrow> good v e (run_encoder E m f t a v q e)" using plain by blast
    have c: "good v e (run_encoder E m (condAddrEncoder g f) t a v q e)"
      if "n + 3 \<le> m" "\<And>m a q e. 0 < m \<Longrightarrow> good v e (run_encoder E m g t a v q e)" for m a q e g
      by (rule cond) (use that f(2) in auto)
    note c1 = c [OF _ addr(1)] and c2 = c [OF _ addr(2)]
    have "newTypeEncoder E t True =
        (if ee_marshaler E t then Some marshalerEncoder
         else if \<not> is_ptr E t \<and> ee_marshaler E (TPtr t) then Some (condAddrEncoder addrMarshalerEncoder f)
         else if ee_textMarshaler E t then Some textMarshalerEncoder
         else if \<not> is_ptr E t \<and> ee_textMarshaler E (TPtr t) then Some (condAddrEncoder addrTextMarshalerEncoder f)
         else kindEncoder E t)" (is "_ = ?sel")
      using f(1) by (simp add: newTypeEncoder.simps [of E t True])
    moreover have "\<exists>g. ?sel = Some g \<and> (\<forall>m a q e. n + 3 \<le> m \<longrightarrow> good v e (run_encoder E m g t a v q e))"
    proof -
      consider (m) "ee_marshaler E t" | (am) "\<not> ee_marshaler E t" "\<not> is_ptr E t \<and> ee_marshaler E (TPtr t)"
        | (x) "\<not> ee_marshaler E t" "\<not> (\<not> is_ptr E t \<and> ee_marshaler E (TPtr t))" "ee_textMarshaler E t"
        | (ax) "\<not> ee_marshaler E t" "\<not> (\<not> is_ptr E t \<and> ee_marshaler E (TPtr t))" "\<not> ee_textMarshaler E t"
            "\<not> is_ptr E t \<and> ee_textMarshaler E (TPtr t)"
        | (k) "\<not> ee_marshaler E t" "\<not> (\<not> is_ptr E t \<and> ee_marshaler E (TPtr t))" "\<not> ee_textMarshaler E t"
            "\<not> (\<not> is_ptr E t \<and> ee_textMarshaler E (TPtr t))" by blast
      then show ?thesis
      proof cases
        case m
        then show ?thesis using direct by simp
      next
        case am
        then show ?thesis using c1 by simp
      next
        case x
        then have "?sel = Some textMarshalerEncoder" by (simp only: if_False if_True)
        then show ?thesis using texts [OF x(3)] by simp
      next
        case ax
        then have "?sel = Some (condAddrEncoder addrTextMarshalerEncoder f)" by (simp only: if_False if_True simp_thms)
        then show ?thesis using c2 by simp
      next
        case k
        obtain g where "kindEncoder E t = Some g" "\<forall>m a q e. n + 1 \<le> m \<longrightarrow> good v e (run_encoder E m g t a v q e)"
          using kind by blast
        moreover have "?sel = kindEncoder E t" using k by (simp only: if_False)
        ultimately show ?thesis by simp
      qed
    qed
    ultimately show ?thesis using True by (simp add: eval_nat_numeral)
  qed
qed

lemma encode_typed_good:
  "marshal_laws E \<Longrightarrow> t \<in> set (te_types (ee_types E)) \<Longrightarrow> has_type (ee_types E) t v \<Longrightarrow> 4 * size v + 4 \<le> n \<Longrightarrow>
     good v e (encode_typed E n t a v q e)"
proof (induction "size v" arbitrary: v t n a q e rule: less_induct)
  case less
  have parts: "parts_good E m v" if "4 * size v \<le> m" for m
    unfolding parts_good_def using less.hyps less.prems(1) that by auto
  obtain f where f: "newTypeEncoder E t True = Some f"
      "\<And>m a q e. 4 * size v + 3 \<le> m \<Longrightarrow> good v e (run_encoder E m f t a v q e)"
    using run_chosen [OF less.prems(1-3), where n = "4 * size v" and addr = True] parts by (auto simp: eval_nat_numeral)
  obtain m where "n = Suc m" "4 * size v + 3 \<le> m" using less.prems(4) by (cases n) auto
  then show ?case using f by simp
qed


definition sample_env :: "unit enc_env" where
  "sample_env =
     \<lparr>ee_types = sample_types, ee_marshaler = (\<lambda>_. False), ee_textMarshaler = (\<lambda>_. False),
      ee_MarshalJSON = (\<lambda>_ _. Inl []), ee_MarshalText = (\<lambda>_ _. Inl []),
      ee_finite = (\<lambda>_. False), ee_zero = (\<lambda>_. False), ee_formatFloat = (\<lambda>_ _. [])\<rparr>"

definition sample_point :: "unit rval" where
  "sample_point = RStruct [RInt 0, RUint 7, RPtr (Some (RStruct [RString ''<a>'', RInt 5]))]"

lemma sample_point_type: "has_type sample_types (TNamed ''Point'') sample_point"
  by (simp add: sample_point_def has_type.simps sample_types_def kind_of_def numberType_def)

lemma sample_env_laws: "marshal_laws sample_env"
  using sample_types_closed(1) by (simp add: marshal_laws_def sample_env_def)

lemma sample_point_text:
  "Marshal sample_env 60 (Some (TNamed ''Point'', sample_point)) =
     Some (Inr ([CHR ''{'', CHR 0x22] @ ''id'' @ [CHR 0x22] @ '':7,'' @ [CHR 0x22] @ ''Name'' @ [CHR 0x22] @ '':'' @
       encode_string [] ''<a>'' @ ''}''))"
  by code_simp


section \<open>What is not checked\<close>

text \<open>A value of the type \<open>Number\<close> is written as it is, number or not.\<close>

lemma Number_unchecked:
  assumes "\<not> ee_marshaler E numberType" "\<not> ee_marshaler E (TPtr numberType)" "\<not> ee_textMarshaler E numberType"
    "\<not> ee_textMarshaler E (TPtr numberType)" "kind_of (ee_types E) numberType = TString" "s \<noteq> []" "2 \<le> n"
  shows "Marshal E n (Some (numberType, RNumber s)) = Some (Inr s)"
proof -
  obtain m where "n = Suc (Suc m)" using assms(7) by (metis add_2_eq_Suc le_Suc_ex)
  moreover have "newTypeEncoder E numberType True = Some stringEncoder"
    using assms(1-5) by (subst newTypeEncoder.simps) (simp add: kindEncoder_def)
  ultimately show ?thesis using assms(6) by (simp add: Marshal_def reflectValue_def wrote_def)
qed

text \<open>A nil interface of a type with the method is called: a run-time panic.\<close>

lemma nil_Marshaler_panics:
  assumes "ee_marshaler E t"
  shows "Marshal E n (Some (t, RIface None)) = None"
proof (cases n)
  case (Suc m)
  have "newTypeEncoder E t True = Some marshalerEncoder" using assms by (simp add: newTypeEncoder.simps)
  then show ?thesis using Suc
    by (cases m) (simp_all add: Marshal_def reflectValue_def receiver_def call_MarshalJSON_def)
qed (simp add: Marshal_def reflectValue_def)

text \<open>A comment in the text of a \<open>Marshaler\<close> is dropped, but a character of it that HTML gives a meaning to is
  left behind, escaped: the text was valid and the result is not.\<close>

lemma compact_keeps_escape_of_comment:
  "compact [] (''[1,'' @ comment ''<'' @ ''2]'') True = Some (None, ''[1,'' @ [CHR 0x5C] @ ''u003c2]'')"
  "\<exists>s. checkValid (''[1,'' @ comment ''<'' @ ''2]'') fresh_scanner = Some (None, s)"
  "\<exists>e s. checkValid (''[1,'' @ [CHR 0x5C] @ ''u003c2]'') fresh_scanner = Some (Some e, s)"
proof -
  show "compact [] (''[1,'' @ comment ''<'' @ ''2]'') True = Some (None, ''[1,'' @ [CHR 0x5C] @ ''u003c2]'')"
    by code_simp
  have "map_option fst (checkValid (''[1,'' @ comment ''<'' @ ''2]'') fresh_scanner) = Some None" by code_simp
  then show "\<exists>s. checkValid (''[1,'' @ comment ''<'' @ ''2]'') fresh_scanner = Some (None, s)" by auto
  have "map_option (\<lambda>r. fst r = None) (checkValid (''[1,'' @ [CHR 0x5C] @ ''u003c2]'') fresh_scanner) = Some False"
    by code_simp
  then show "\<exists>e s. checkValid (''[1,'' @ [CHR 0x5C] @ ''u003c2]'') fresh_scanner = Some (Some e, s)" by auto
qed

end
