(* ===== verification/Json_Roundtrip.thy ===== *)
theory Json_Roundtrip
  imports Json_Encode Json_Decode
begin

text \<open>
  Encoding and decoding together: the value that \<open>Unmarshal\<close> stores in an empty interface, as \<open>Marshal\<close> of
  \<open>common/json/encode.go\<close> sees it, is written and read back unchanged.
\<close>

section \<open>Decoded values\<close>

text \<open>The types of the values in an empty interface: \<open>bool\<close>, \<open>float64\<close>, \<open>string\<close>, \<open>Number\<close>, \<open>[]interface{}\<close> and
  \<open>map[string]interface{}\<close>.\<close>

fun reflected :: "'f goval \<Rightarrow> (gtype \<times> 'f rval) option" where
  "reflected VNil = None"
| "reflected (VBool b) = Some (TBool, RBool b)"
| "reflected (VNumber s) = Some (numberType, RNumber s)"
| "reflected (VFloat f) = Some (TFloat 64, RFloat f)"
| "reflected (VString s) = Some (TString, RString s)"
| "reflected (VArray vs) = Some (TSlice TInterface, RSlice (Some (map (\<lambda>v. RIface (reflected v)) vs)) [])"
| "reflected (VObject kvs) =
     Some (TMap TString TInterface, RMap (Some (map (\<lambda>p. (fst p, RIface (reflected (snd p)))) kvs)))"

text \<open>A value in the form it is compared in: objects list their keys in order, strings are valid UTF-8.\<close>

fun canonical :: "('f \<Rightarrow> bool) \<Rightarrow> 'f goval \<Rightarrow> bool" where
  "canonical fin VNil \<longleftrightarrow> True"
| "canonical fin (VBool b) \<longleftrightarrow> True"
| "canonical fin (VNumber s) \<longleftrightarrow> False"
| "canonical fin (VFloat f) \<longleftrightarrow> fin f"
| "canonical fin (VString s) \<longleftrightarrow> utf8_valid s"
| "canonical fin (VArray vs) \<longleftrightarrow> (\<forall>v \<in> set vs. canonical fin v)"
| "canonical fin (VObject kvs) \<longleftrightarrow>
     sorted (map fst kvs) \<and> distinct (map fst kvs) \<and> (\<forall>p \<in> set kvs. utf8_valid (fst p) \<and> canonical fin (snd p))"

text \<open>The text that is written.\<close>

fun json_of :: "('f \<Rightarrow> number) \<Rightarrow> 'f goval \<Rightarrow> json" where
  "json_of num VNil = JNull"
| "json_of num (VBool b) = JBool b"
| "json_of num (VNumber s) = JNull"
| "json_of num (VFloat f) = JNum (num f)"
| "json_of num (VString s) = JStr (enc_text s)"
| "json_of num (VArray vs) = JArr (map (json_of num) vs)"
| "json_of num (VObject kvs) = JObj (map (\<lambda>p. (enc_text (fst p), json_of num (snd p))) kvs)"

text \<open>What is asked of the number formatting and of the types: parsing gives back a formatted number, and the
  predeclared types and those put together from them have no methods.\<close>

definition roundtrip_laws :: "'f enc_env \<Rightarrow> (string \<Rightarrow> 'f option) \<Rightarrow> ('f \<Rightarrow> number) \<Rightarrow> bool" where
  "roundtrip_laws E pf num \<longleftrightarrow>
     (\<forall>f. ee_finite E f \<longrightarrow> number_ok (num f) \<and> ee_formatFloat E 64 f = render_number (num f) \<and>
        pf (render_number (num f)) = Some f) \<and>
     (\<forall>t \<in> {TBool, TFloat 64, TString, TInterface, TSlice TInterface, TMap TString TInterface}.
        \<not> ee_marshaler E t \<and> \<not> ee_textMarshaler E t \<and> \<not> ee_marshaler E (TPtr t) \<and> \<not> ee_textMarshaler E (TPtr t))"

section \<open>Writing\<close>

lemma plain_type:
  assumes "roundtrip_laws E pf num"
    and "t \<in> {TBool, TFloat 64, TString, TInterface, TSlice TInterface, TMap TString TInterface}"
  shows "newTypeEncoder E t a = kindEncoder E t"
proof -
  have "\<not> ee_marshaler E t \<and> \<not> ee_textMarshaler E t \<and> \<not> ee_marshaler E (TPtr t) \<and> \<not> ee_textMarshaler E (TPtr t)"
    using assms(1) [unfolded roundtrip_laws_def, THEN conjunct2, rule_format, OF assms(2)] .
  then show ?thesis by (subst newTypeEncoder.simps) simp
qed

lemma plain_encoders:
  assumes "roundtrip_laws E pf num"
  shows "newTypeEncoder E TBool a = Some boolEncoder" "newTypeEncoder E (TFloat 64) a = Some (floatEncoder 64)"
    "newTypeEncoder E TString a = Some stringEncoder" "newTypeEncoder E TInterface a = Some interfaceEncoder"
    "newTypeEncoder E (TSlice TInterface) a = Some (sliceEncoder TInterface)"
    "newTypeEncoder E (TMap TString TInterface) a = Some (mapEncoder TInterface)"
  by (simp_all add: plain_type [OF assms] kindEncoder_def kind_of_def newSliceEncoder_def newMapEncoder_def)

lemma array_loop_wrote:
  "\<forall>x \<in> set xs. \<forall>e. enc (g x) e = wrote (e @ txt x) \<Longrightarrow>
     array_loop enc (map g xs) first e = wrote (e @ lead first (map txt xs))"
proof (induction xs arbitrary: first e)
  case (Cons x xs)
  have "array_loop enc (map g (x # xs)) first e = array_loop enc (map g xs) False (put_comma first e @ txt x)"
    using Cons.prems by (simp add: e_then_def wrote_def)
  then show ?case using Cons lead_simps(2) [of first e "txt x" "map txt xs"] by simp
qed (simp add: lead_simps)

abbreviation entry_text :: "('a \<Rightarrow> string) \<Rightarrow> string \<times> 'a \<Rightarrow> string" where
  "entry_text txt p \<equiv> render_string (enc_text (fst p)) @ '':'' @ txt (snd p)"

lemma map_loop_wrote:
  "\<forall>p \<in> set ps. \<forall>e. enc (g (snd p)) e = wrote (e @ txt (snd p)) \<Longrightarrow>
     map_loop enc (map (\<lambda>p. (fst p, g (snd p))) ps) first e = wrote (e @ lead first (map (entry_text txt) ps))"
proof (induction ps arbitrary: first e)
  case (Cons p ps)
  obtain k x where p: "p = (k, x)" by (cases p)
  have "map_loop enc (map (\<lambda>p. (fst p, g (snd p))) (p # ps)) first e =
      map_loop enc (map (\<lambda>p. (fst p, g (snd p))) ps) False (put_comma first e @ entry_text txt p)"
    using Cons.prems by (simp add: p e_then_def wrote_def encode_string_render)
  then show ?case using Cons lead_simps(2) [of first e "entry_text txt p" "map (entry_text txt) ps"] by simp
qed (simp add: lead_simps)

lemma sorted_entries: "sorted (map fst kvs) \<Longrightarrow> sort_Sort stringValues_Less kvs = kvs"
  using sort_Sort_key [of stringValues_Less fst kvs] by (simp add: stringValues_Less_def sort_key_id_if_sorted)

lemma size_goval:
  "v \<in> set vs \<Longrightarrow> size v < size (VArray vs)" "p \<in> set kvs \<Longrightarrow> size (snd p) < size (VObject kvs)"
proof -
  show "v \<in> set vs \<Longrightarrow> size v < size (VArray vs)" by (simp add: less_Suc_eq_le size_list_estimation')
  assume "p \<in> set kvs"
  then have "size (snd p) \<le> size_list (size_prod (\<lambda>_. 0) size) kvs"
    by (rule size_list_estimation') (cases p, simp)
  then show "size (snd p) < size (VObject kvs)" by simp
qed

lemma encode_reflected:
  assumes laws: "roundtrip_laws E pf num"
  shows "canonical (ee_finite E) x \<Longrightarrow> 4 * size x + 4 \<le> n \<Longrightarrow>
    (\<forall>t v. reflected x = Some (t, v) \<longrightarrow> encode_typed E (n - 2) t False v False e = wrote (e @ render (json_of num x))) \<and>
    encode_typed E n TInterface a (RIface (reflected x)) False e = wrote (e @ render (json_of num x))"
proof (induction "size x" arbitrary: x n a e rule: less_induct)
  case less
  define m where "m = n - 4"
  have n: "n = Suc (Suc (Suc (Suc m)))" "4 * size x \<le> m" using less.prems(2) by (simp_all add: m_def)
  note enc = plain_encoders [OF laws]
  have elem: "encode_typed E m TInterface b (RIface (reflected y)) False e' = wrote (e' @ render (json_of num y))"
    if "size y < size x" "canonical (ee_finite E) y" for y b e'
    using less.hyps [OF that, of m e' b] that(1) n(2) by simp
  have top: "encode_typed E (Suc (Suc m)) t False v False e = wrote (e @ render (json_of num x))"
    if r: "reflected x = Some (t, v)" for t v
  proof (cases x)
    case (VBool b)
    then show ?thesis using r enc by (auto simp: with_quotes_def)
  next
    case (VFloat f)
    then have "ee_finite E f" "ee_formatFloat E 64 f = render_number (num f)"
      using less.prems(1) laws by (auto simp: roundtrip_laws_def)
    then show ?thesis using r enc VFloat by (auto simp: with_quotes_def)
  next
    case (VString s)
    then show ?thesis using r enc by (auto simp: encode_string_render)
  next
    case (VArray vs)
    have l: "array_loop (\<lambda>v. encode_typed E m TInterface True v False) (map (\<lambda>v. RIface (reflected v)) vs) True (e @ ''['') =
        wrote ((e @ ''['') @ lead True (map (\<lambda>w. render (json_of num w)) vs))"
      by (rule array_loop_wrote) (use elem size_goval(1) [of _ vs] less.prems(1) VArray in simp)
    show ?thesis using r enc VArray l by (auto simp: e_then_def wrote_def lead_def comp_def)
  next
    case (VObject kvs)
    let ?kvs = "map (\<lambda>p. (fst p, RIface (reflected (snd p)))) kvs"
    have s: "sort_Sort stringValues_Less ?kvs = ?kvs"
      by (rule sorted_entries) (use less.prems(1) VObject in \<open>simp add: comp_def\<close>)
    have "map_loop (\<lambda>v. encode_typed E m TInterface False v False) ?kvs True (e @ ''{'') =
        wrote ((e @ ''{'') @ lead True (map (entry_text (\<lambda>w. render (json_of num w))) kvs))"
      by (rule map_loop_wrote) (use elem size_goval(2) [of _ kvs] less.prems(1) VObject in simp)
    then show ?thesis using r enc VObject s by (auto simp: e_then_def wrote_def lead_def comp_def)
  qed (use r less.prems(1) in simp_all)
  have "encode_typed E n TInterface a (RIface (reflected x)) False e = wrote (e @ render (json_of num x))"
  proof (cases "reflected x")
    case None
    then have "json_of num x = JNull" by (cases x) simp_all
    then show ?thesis using None enc n(1) by simp
  next
    case (Some p)
    then obtain t v where "reflected x = Some (t, v)" by (cases p) auto
    then show ?thesis using top enc n(1) by simp
  qed
  then show ?case using top n(1) by simp
qed

section \<open>Reading back\<close>

lemma update_fresh: "k \<notin> fst ` set al \<Longrightarrow> AList.update k v al = al @ [(k, v)]"
  by (induction al) auto

lemma fold_update_fresh:
  "distinct (map fst acc @ map fst kvs) \<Longrightarrow> fold (\<lambda>p. AList.update (fst p) (snd p)) kvs acc = acc @ kvs"
proof (induction kvs arbitrary: acc)
  case (Cons p kvs)
  have "AList.update (fst p) (snd p) acc = acc @ [p]"
    using Cons.prems by (subst update_fresh) auto
  then show ?case using Cons by simp
qed simp

lemma json_of_ok:
  assumes "roundtrip_laws E pf num"
  shows "canonical (ee_finite E) x \<Longrightarrow> json_ok (json_of num x)"
  using assms by (induction x) (auto simp: string_body_enc_text roundtrip_laws_def)

lemma go_value_json_of:
  assumes "roundtrip_laws E pf num"
  shows "canonical (ee_finite E) x \<Longrightarrow> go_value pf False (json_of num x) = x \<and> num_errors pf False (json_of num x) = []"
proof (induction x)
  case (VFloat f)
  then show ?case using assms by (simp add: roundtrip_laws_def convertNumber_def)
next
  case (VString s)
  then show ?case by (simp add: str_value_enc_text coerce_valid)
next
  case (VArray vs)
  then show ?case by (simp add: comp_def map_idI)
next
  case (VObject kvs)
  have IH: "go_value pf False (json_of num (snd p)) = snd p \<and> num_errors pf False (json_of num (snd p)) = []"
    if "p \<in> set kvs" for p
    using VObject that by (cases p) fastforce
  have "map (\<lambda>p. (str_value (enc_text (fst p)), go_value pf False (json_of num (snd p)))) kvs = kvs"
    using VObject.prems IH by (intro map_idI) (auto simp: str_value_enc_text coerce_valid)
  then show ?case using VObject.prems IH fold_update_fresh [of "[]" kvs] by (simp add: comp_def)
qed simp_all

lemma marshal_text:
  assumes "roundtrip_laws E pf num" "canonical (ee_finite E) x" "4 * size x + 4 \<le> n"
  shows "Marshal E (n - 2) (reflected x) = Some (Inr (render (json_of num x)))"
proof (cases "reflected x")
  case None
  then have "json_of num x = JNull" by (cases x) simp_all
  then show ?thesis using None by (simp add: Marshal_def reflectValue_def wrote_def)
next
  case (Some p)
  then show ?thesis using encode_reflected [OF assms, of "[]"]
    by (cases p) (simp add: Marshal_def reflectValue_def wrote_def)
qed

text \<open>C29: what \<open>Unmarshal\<close> stores in an empty interface comes back unchanged from \<open>Marshal\<close> and \<open>Unmarshal\<close>:
  nested arrays and objects, strings with every character that is escaped for JSON or HTML, and numbers
  that the formatting and the parsing of the standard library return. The keys of an object are compared in
  their order, as a Go map has none.\<close>

theorem Marshal_Unmarshal:
  assumes "roundtrip_laws E pf num" "canonical (ee_finite E) x" "4 * size x + 2 \<le> n"
  shows "\<exists>b. Marshal E n (reflected x) = Some (Inr b) \<and> (\<forall>m > length b. Unmarshal_iface pf m b = Some (None, x))"
proof -
  let ?b = "render (json_of num x)"
  have m: "Marshal E n (reflected x) = Some (Inr ?b)"
    using marshal_text [OF assms(1,2), of "n + 2"] assms(3) by simp
  obtain os where os: "layout (json_of num x) ?b os" using layout_render [OF json_of_ok [OF assms(1,2)]] by blast
  have "Unmarshal_iface pf k ?b = Some (None, x)" if "length ?b < k" for k
    using Unmarshal_text [OF gap_Nil os _ that, of "[]" pf] go_value_json_of [OF assms(1,2)]
    by (simp add: first_error_def)
  then show ?thesis using m by blast
qed

definition plain_env :: "string enc_env" where
  "plain_env =
     \<lparr>ee_types = \<lparr>te_under = (\<lambda>_. TOther), te_letter = (\<lambda>_. True), te_types = []\<rparr>,
      ee_marshaler = (\<lambda>_. False), ee_textMarshaler = (\<lambda>_. False),
      ee_MarshalJSON = (\<lambda>_ _. Inl []), ee_MarshalText = (\<lambda>_ _. Inl []),
      ee_finite = (\<lambda>f. f = ''7''), ee_zero = (\<lambda>f. f = ''0''), ee_formatFloat = (\<lambda>_ f. f)\<rparr>"

lemma plain_env_laws: "roundtrip_laws plain_env Some (\<lambda>_. int_number 7)"
  by (simp add: roundtrip_laws_def plain_env_def int_number) (simp add: dec_int_def dec_nat.simps [of 7] digit_chars)

theorem Marshal_Unmarshal_witness:
  "\<exists>b. Marshal plain_env 100 (reflected (VObject [(''a'', VArray [VFloat ''7'', VNil]), (''b'', VString ''<x>'')])) =
     Some (Inr b) \<and>
     (\<forall>m > length b. Unmarshal_iface Some m b = Some (None, VObject [(''a'', VArray [VFloat ''7'', VNil]), (''b'', VString ''<x>'')]))"
  by (rule Marshal_Unmarshal [OF plain_env_laws])
    (simp_all add: plain_env_def utf8_valid.simps RuneError_def)

end
