(* ===== verification/Json_Typed.thy ===== *)
theory Json_Typed
  imports Json_Roundtrip
begin

text \<open>
  Decoding into Go values of any type: \<open>value\<close>, \<open>indirect\<close>, \<open>array\<close>, \<open>object\<close>, \<open>literal\<close> and \<open>literalStore\<close> of
  \<open>common/json/decode.go\<close> with \<open>Unmarshal\<close>. The target is a reflected value; what is stored is the value with
  the part that was decoded put back in its place. What the target holds after \<open>d.error\<close> is left open.
\<close>

section \<open>The environment\<close>

text \<open>Which types have the methods, the methods themselves (called on the type of a pointer and what it points
  to, with the error they return and what the pointer points to afterwards), the interface types that have
  methods, and the parsing of floating-point numbers of a width.\<close>

record 'f dec_env =
  de_types :: type_env
  de_unmarshaler :: "gtype \<Rightarrow> bool"
  de_textUnmarshaler :: "gtype \<Rightarrow> bool"
  de_UnmarshalJSON :: "gtype \<Rightarrow> 'f rval \<Rightarrow> string \<Rightarrow> string option \<times> 'f rval"
  de_UnmarshalText :: "gtype \<Rightarrow> 'f rval \<Rightarrow> string \<Rightarrow> string option \<times> 'f rval"
  de_hasMethods :: "gtype \<Rightarrow> bool"
  de_parseFloat :: "nat \<Rightarrow> string \<Rightarrow> 'f option"
  de_overflowFloat :: "nat \<Rightarrow> 'f \<Rightarrow> bool"
  de_zero :: 'f
  de_EqualFold :: "string \<Rightarrow> string \<Rightarrow> bool"

text \<open>\<open>reflect.Zero\<close>; the fuel bounds the nesting of structs and arrays.\<close>

fun zero_value :: "'f dec_env \<Rightarrow> nat \<Rightarrow> gtype \<Rightarrow> 'f rval option" where
  "zero_value E 0 t = None"
| "zero_value E (Suc n) t =
     (case kind_of (de_types E) t of
        TBool \<Rightarrow> Some (RBool False)
      | TInt _ \<Rightarrow> Some (RInt 0)
      | TUint _ \<Rightarrow> Some (RUint 0)
      | TUintptr \<Rightarrow> Some (RUint 0)
      | TFloat _ \<Rightarrow> Some (RFloat (de_zero E))
      | TString \<Rightarrow> Some (if t = numberType then RNumber [] else RString [])
      | TInterface \<Rightarrow> Some (RIface None)
      | TStruct fs \<Rightarrow> map_option RStruct (those (map (\<lambda>f. zero_value E n (gf_type f)) fs))
      | TMap _ _ \<Rightarrow> Some (RMap None)
      | TSlice _ \<Rightarrow> Some (RSlice None [])
      | TArray k e \<Rightarrow> map_option (\<lambda>z. RArray (replicate k z)) (zero_value E n e)
      | TPtr _ \<Rightarrow> Some (RPtr None)
      | _ \<Rightarrow> Some ROther)"

definition zero_of :: "'f dec_env \<Rightarrow> gtype \<Rightarrow> 'f rval option" where
  "zero_of E t = zero_value E (Suc (length (te_types (de_types E)))) t"

section \<open>Following pointers\<close>

text \<open>What \<open>indirect\<close> stops at: a pointer whose type has the methods, with what it points to, or a value; with it
  comes the function that puts what is found there later back into the value it started from.\<close>

datatype 'f focus = FUnmarshaler gtype "'f rval" | FText gtype "'f rval" | FValue gtype "'f rval"

type_synonym 'f place = "'f focus \<times> ('f rval \<Rightarrow> 'f rval)"

definition inside :: "('f rval \<Rightarrow> 'f rval) \<Rightarrow> 'f place option \<Rightarrow> 'f place option" where
  "inside g r = map_option (\<lambda>(fc, back). (fc, \<lambda>x. g (back x))) r"

definition ptr_elem :: "type_env \<Rightarrow> gtype \<Rightarrow> gtype option" where
  "ptr_elem E t = (case kind_of E t of TPtr e \<Rightarrow> Some e | _ \<Rightarrow> None)"

text \<open>The loop of \<open>indirect\<close>; \<open>canSet\<close> tells whether the value at hand can be set.\<close>

fun indirect_loop :: "'f dec_env \<Rightarrow> nat \<Rightarrow> bool \<Rightarrow> gtype \<Rightarrow> 'f rval \<Rightarrow> bool \<Rightarrow> 'f place option" where
  "indirect_loop E 0 decodingNull t v canSet = None"
| "indirect_loop E (Suc n) decodingNull t v canSet =
     (case v of
        RIface (Some (t', RPtr (Some w))) \<Rightarrow>
          if \<not> decodingNull \<or> (\<exists>e \<in> set_option (ptr_elem (de_types E) t'). ptr_elem (de_types E) e \<noteq> None)
          then inside (\<lambda>x. RIface (Some (t', x))) (indirect_loop E n decodingNull t' (RPtr (Some w)) False)
          else Some (FValue t v, \<lambda>x. x)
      | _ \<Rightarrow>
          (case ptr_elem (de_types E) t of
             None \<Rightarrow> Some (FValue t v, \<lambda>x. x)
           | Some e \<Rightarrow>
               if \<not> (v \<noteq> RPtr None \<and> ptr_elem (de_types E) e \<noteq> None) \<and> decodingNull \<and> canSet
               then Some (FValue t v, \<lambda>x. x)
               else
                 Option.bind (case v of
                     RPtr None \<Rightarrow> if canSet then zero_of E e else None
                   | RPtr (Some w) \<Rightarrow> Some w
                   | _ \<Rightarrow> None)
                 (\<lambda>w. if de_unmarshaler E t then Some (FUnmarshaler t w, \<lambda>x. RPtr (Some x))
                      else if de_textUnmarshaler E t then Some (FText t w, \<lambda>x. RPtr (Some x))
                      else inside (\<lambda>x. RPtr (Some x)) (indirect_loop E n decodingNull e w True))))"

text \<open>A type with a name: a declared or a predeclared one.\<close>

definition has_name :: "gtype \<Rightarrow> bool" where
  "has_name t \<longleftrightarrow>
     (case t of TNamed _ \<Rightarrow> True | TBool \<Rightarrow> True | TInt _ \<Rightarrow> True | TUint _ \<Rightarrow> True | TUintptr \<Rightarrow> True
      | TFloat _ \<Rightarrow> True | TString \<Rightarrow> True | _ \<Rightarrow> False)"

definition pointee :: "'f rval \<Rightarrow> 'f rval" where
  "pointee v = (case v of RPtr (Some w) \<Rightarrow> w | _ \<Rightarrow> v)"

text \<open>Every value that is decoded into can be addressed, but for the pointer at the top, which has the kind of a
  pointer.\<close>

definition indirect :: "'f dec_env \<Rightarrow> nat \<Rightarrow> gtype \<Rightarrow> 'f rval \<Rightarrow> bool \<Rightarrow> bool \<Rightarrow> 'f place option" where
  "indirect E n t v canSet decodingNull =
     (if ptr_elem (de_types E) t = None \<and> has_name t
      then inside pointee (indirect_loop E n decodingNull (TPtr t) (RPtr (Some v)) False)
      else indirect_loop E n decodingNull t v canSet)"

section \<open>Storing a literal\<close>

definition call_UnmarshalJSON ::
    "'f dec_env \<Rightarrow> gtype \<Rightarrow> 'f rval \<Rightarrow> ('f rval \<Rightarrow> 'f rval) \<Rightarrow> string \<Rightarrow> decodeState \<Rightarrow> ('f rval \<times> decodeState) res" where
  "call_UnmarshalJSON E t w back item d =
     (case de_UnmarshalJSON E t w item of
        (Some e, _) \<Rightarrow> fail_with (ErrMethod e)
      | (None, w') \<Rightarrow> ok (back w', d))"

definition call_UnmarshalText ::
    "'f dec_env \<Rightarrow> gtype \<Rightarrow> 'f rval \<Rightarrow> ('f rval \<Rightarrow> 'f rval) \<Rightarrow> string \<Rightarrow> decodeState \<Rightarrow> ('f rval \<times> decodeState) res" where
  "call_UnmarshalText E t w back s d =
     (case de_UnmarshalText E t w s of
        (Some e, _) \<Rightarrow> fail_with (ErrMethod e)
      | (None, w') \<Rightarrow> ok (back w', d))"

text \<open>\<open>base64.StdEncoding.Decode\<close>: line breaks are skipped, a corrupt input is \<^term>\<open>None\<close>.\<close>

definition base64_digit :: "char \<Rightarrow> nat option" where
  "base64_digit c = (if c \<in> set base64_alphabet then Some (length (takeWhile (\<lambda>b. b \<noteq> c) base64_alphabet)) else None)"

fun base64_quads :: "string \<Rightarrow> nat list option" where
  "base64_quads [] = Some []"
| "base64_quads (a # b # c # d # cs) =
     (case (base64_digit a, base64_digit b) of
        (Some x, Some y) \<Rightarrow>
          if c = CHR ''='' then
            (if d = CHR ''='' \<and> cs = [] then Some [x * 4 + y div 16] else None)
          else (case base64_digit c of
              None \<Rightarrow> None
            | Some z \<Rightarrow>
                if d = CHR ''='' then (if cs = [] then Some [x * 4 + y div 16, y mod 16 * 16 + z div 4] else None)
                else (case base64_digit d of
                    None \<Rightarrow> None
                  | Some u \<Rightarrow>
                      map_option (\<lambda>bs. (x * 4 + y div 16) # (y mod 16 * 16 + z div 4) # (z mod 4 * 64 + u) # bs)
                        (base64_quads cs)))
      | _ \<Rightarrow> None)"
| "base64_quads _ = None"

definition base64_Decode :: "string \<Rightarrow> nat list option" where
  "base64_Decode s = base64_quads (filter (\<lambda>c. c \<noteq> CHR 0x0A \<and> c \<noteq> CHR 0x0D) s)"

definition ParseUint :: "string \<Rightarrow> nat option" where
  "ParseUint s = (case atoi_unsigned s of None \<Rightarrow> None | Some n \<Rightarrow> if n < 2 ^ 64 then Some (nat n) else None)"

text \<open>The switches of \<open>literalStore\<close> on the kind of the target, one for each sort of literal.\<close>

definition store_null :: "'f dec_env \<Rightarrow> gtype \<Rightarrow> 'f rval \<Rightarrow> 'f rval" where
  "store_null E t v =
     (case kind_of (de_types E) t of
        TInterface \<Rightarrow> RIface None
      | TPtr _ \<Rightarrow> RPtr None
      | TMap _ _ \<Rightarrow> RMap None
      | TSlice _ \<Rightarrow> RSlice None []
      | _ \<Rightarrow> v)"

definition store_bool ::
    "'f dec_env \<Rightarrow> bool \<Rightarrow> gtype \<Rightarrow> 'f rval \<Rightarrow> bool \<Rightarrow> decodeState \<Rightarrow> ('f rval \<times> decodeState) res" where
  "store_bool E b t v fromQuoted d =
     (case kind_of (de_types E) t of
        TBool \<Rightarrow> ok (RBool b, d)
      | TInterface \<Rightarrow>
          if \<not> de_hasMethods E t then ok (RIface (Some (TBool, RBool b)), d)
          else ok (v, saveError (ErrType ''bool'' t) d)
      | _ \<Rightarrow> ok (v, saveError (if fromQuoted then ErrUsage else ErrType ''bool'' t) d))"

definition store_string ::
    "'f dec_env \<Rightarrow> string \<Rightarrow> gtype \<Rightarrow> 'f rval \<Rightarrow> decodeState \<Rightarrow> ('f rval \<times> decodeState) res" where
  "store_string E s t v d =
     (case kind_of (de_types E) t of
        TSlice _ \<Rightarrow>
          if t \<noteq> TSlice (TUint 8) then ok (v, saveError (ErrType ''string'' t) d)
          else (case base64_Decode s of
              None \<Rightarrow> ok (v, saveError ErrBase64 d)
            | Some bs \<Rightarrow> ok (RSlice (Some (map RUint bs)) [], d))
      | TString \<Rightarrow> ok (if t = numberType then RNumber s else RString s, d)
      | TInterface \<Rightarrow>
          if \<not> de_hasMethods E t then ok (RIface (Some (TString, RString s)), d)
          else ok (v, saveError (ErrType ''string'' t) d)
      | _ \<Rightarrow> ok (v, saveError (ErrType ''string'' t) d))"

text \<open>The interface, for which the number is converted first.\<close>

definition store_number_iface ::
    "'f dec_env \<Rightarrow> string \<Rightarrow> gtype \<Rightarrow> 'f rval \<Rightarrow> decodeState \<Rightarrow> ('f rval \<times> decodeState) res" where
  "store_number_iface E s t v d =
     (case convertNumber (de_parseFloat E 64) (d_useNumber d) s of
        Inl e \<Rightarrow> ok (v, saveError e d)
      | Inr n \<Rightarrow>
          if de_hasMethods E t then ok (v, saveError (ErrType ''number'' t) d)
          else ok (RIface (reflected n), d))"

definition store_number ::
    "'f dec_env \<Rightarrow> string \<Rightarrow> gtype \<Rightarrow> 'f rval \<Rightarrow> bool \<Rightarrow> decodeState \<Rightarrow> ('f rval \<times> decodeState) res" where
  "store_number E s t v fromQuoted d =
     (let bad = ok (v, saveError (ErrType (''number '' @ s) t) d) in
      case kind_of (de_types E) t of
        TInterface \<Rightarrow> store_number_iface E s t v d
      | TInt w \<Rightarrow>
          (case strconv_Atoi s of
             None \<Rightarrow> bad
           | Some n \<Rightarrow> if - (2 ^ (w - 1)) \<le> n \<and> n < 2 ^ (w - 1) then ok (RInt n, d) else bad)
      | TUint w \<Rightarrow>
          (case ParseUint s of None \<Rightarrow> bad | Some n \<Rightarrow> if n < 2 ^ w then ok (RUint n, d) else bad)
      | TUintptr \<Rightarrow>
          (case ParseUint s of None \<Rightarrow> bad | Some n \<Rightarrow> ok (RUint n, d))
      | TFloat w \<Rightarrow>
          (case de_parseFloat E w s of
             None \<Rightarrow> bad | Some f \<Rightarrow> if de_overflowFloat E w f then bad else ok (RFloat f, d))
      | _ \<Rightarrow>
          if kind_of (de_types E) t = TString \<and> t = numberType then ok (RNumber s, d)
          else fail_with (if fromQuoted then ErrUsage else ErrType ''number'' t))"

definition store_literal ::
    "'f dec_env \<Rightarrow> string \<Rightarrow> gtype \<Rightarrow> 'f rval \<Rightarrow> bool \<Rightarrow> decodeState \<Rightarrow> ('f rval \<times> decodeState) res" where
  "store_literal E item t v fromQuoted d =
     (let c = hd item in
      if c = CHR ''n'' then ok (store_null E t v, d)
      else if c = CHR ''t'' \<or> c = CHR ''f'' then store_bool E (c = CHR ''t'') t v fromQuoted d
      else if c = CHR 0x22 then
        and_then (run (unquoteBytes item)) (\<lambda>s.
          (case s of
             None \<Rightarrow> fail_with (if fromQuoted then ErrUsage else ErrPhase)
           | Some s \<Rightarrow> store_string E s t v d))
      else if \<not> is_number_start c then fail_with (if fromQuoted then ErrUsage else ErrPhase)
      else store_number E item t v fromQuoted d)"

definition literalStore ::
    "'f dec_env \<Rightarrow> nat \<Rightarrow> string \<Rightarrow> gtype \<Rightarrow> 'f rval \<Rightarrow> bool \<Rightarrow> bool \<Rightarrow> decodeState \<Rightarrow> ('f rval \<times> decodeState) res" where
  "literalStore E n item t v canSet fromQuoted d =
     (if item = [] then ok (v, saveError ErrUsage d)
      else case indirect E n t v canSet (hd item = CHR ''n'') of
        None \<Rightarrow> None
      | Some (FUnmarshaler pt w, back) \<Rightarrow> call_UnmarshalJSON E pt w back item d
      | Some (FText pt w, back) \<Rightarrow>
          (let d = (if hd item \<noteq> CHR 0x22
                    then saveError (if fromQuoted then ErrUsage else ErrType ''string'' t) d else d)
           in and_then (run (unquoteBytes item)) (\<lambda>s.
             (case s of
                None \<Rightarrow> fail_with (if fromQuoted then ErrUsage else ErrPhase)
              | Some s \<Rightarrow> call_UnmarshalText E pt w back s d)))
      | Some (FValue t' w, back) \<Rightarrow>
          and_then (store_literal E item t' w fromQuoted d) (\<lambda>(x, d). ok (back x, d)))"

section \<open>Arrays and objects\<close>

text \<open>\<open>d.off--; d.next()\<close>: an array or object is skipped.\<close>

definition skip_next :: "decodeState \<Rightarrow> (string \<times> decodeState) res" where
  "skip_next d = next_value (d\<lparr>d_off := d_off d - 1\<rparr>)"

definition type_error ::
    "string \<Rightarrow> gtype \<Rightarrow> 'f rval \<Rightarrow> decodeState \<Rightarrow> ('f rval \<times> decodeState) res" where
  "type_error what t v d = and_then (skip_next (saveError (ErrType what t) d)) (\<lambda>(_, d). ok (v, d))"

text \<open>The methods of a target, in front of \<open>array\<close> and \<open>object\<close>; the rest of the two is the argument.\<close>

definition with_target ::
    "'f dec_env \<Rightarrow> nat \<Rightarrow> string \<Rightarrow> gtype \<Rightarrow> 'f rval \<Rightarrow> bool \<Rightarrow> decodeState \<Rightarrow>
     (gtype \<Rightarrow> 'f rval \<Rightarrow> ('f rval \<times> decodeState) res) \<Rightarrow> ('f rval \<times> decodeState) res" where
  "with_target E n what t v canSet d rest =
     (case indirect E n t v canSet False of
        None \<Rightarrow> None
      | Some (FUnmarshaler pt w, back) \<Rightarrow>
          and_then (skip_next d) (\<lambda>(item, d). call_UnmarshalJSON E pt w back item d)
      | Some (FText pt w, back) \<Rightarrow> type_error what t (back w) d
      | Some (FValue t' w, back) \<Rightarrow> and_then (rest t' w) (\<lambda>(x, d). ok (back x, d)))"

text \<open>The growing of a slice before its element \<open>i\<close>: a new array of one and a half the capacity, at least four,
  and then one element more.\<close>

definition grow_slice ::
    "'f dec_env \<Rightarrow> gtype \<Rightarrow> 'f rval list \<Rightarrow> 'f rval list \<Rightarrow> nat \<Rightarrow> ('f rval list \<times> 'f rval list) option" where
  "grow_slice E et vs spare i =
     Option.bind
       (let cap = length vs + length spare in
        if i \<ge> cap
        then map_option (\<lambda>z. (vs, replicate (max 4 (cap + cap div 2) - length vs) z)) (zero_of E et)
        else Some (vs, spare))
     (\<lambda>(vs, spare).
       Some (if i \<ge> length vs
         then (vs @ take (i + 1 - length vs) spare, drop (i + 1 - length vs) spare) else (vs, spare)))"

text \<open>What is left of the elements after the loop has read \<open>i\<close> of them.\<close>

definition finish_array :: "'f dec_env \<Rightarrow> gtype \<Rightarrow> 'f rval list \<Rightarrow> nat \<Rightarrow> 'f rval option" where
  "finish_array E et vs i =
     (if i < length vs
      then map_option (\<lambda>z. RArray (take i vs @ replicate (length vs - i) z)) (zero_of E et)
      else Some (RArray vs))"

definition finish_slice :: "'f rval list \<Rightarrow> 'f rval list \<Rightarrow> nat \<Rightarrow> 'f rval" where
  "finish_slice vs spare i =
     (if i = 0 then RSlice (Some []) []
      else if i < length vs then RSlice (Some (take i vs)) (drop i vs @ spare)
      else RSlice (Some vs) spare)"

text \<open>The search for the field of a key: the first with the very name, or else the first with the name up to
  case.\<close>

fun find_key :: "'f dec_env \<Rightarrow> jfield list \<Rightarrow> string \<Rightarrow> jfield option \<Rightarrow> jfield option" where
  "find_key E [] key f = f"
| "find_key E (ff # fs) key f =
     (if f_nameBytes ff = key then Some ff
      else find_key E fs key
        (if f = None \<and> call_fold (de_EqualFold E) (f_equalFold ff) (f_nameBytes ff) key then Some ff else f))"

text \<open>The walk to the field along its index sequence, allocating what embedded pointers lack.\<close>

fun field_place ::
    "'f dec_env \<Rightarrow> gtype \<Rightarrow> 'f rval \<Rightarrow> nat list \<Rightarrow> (gtype \<times> 'f rval \<times> ('f rval \<Rightarrow> 'f rval)) option" where
  "field_place E t v [] = Some (t, v, \<lambda>x. x)"
| "field_place E t v (i # is) =
     Option.bind
       (case ptr_elem (de_types E) t of
          None \<Rightarrow> Some (t, v, \<lambda>x. x)
        | Some e \<Rightarrow>
            map_option (\<lambda>w. (e, w, \<lambda>x. RPtr (Some x)))
              (case v of RPtr (Some w) \<Rightarrow> Some w | RPtr None \<Rightarrow> zero_of E e | _ \<Rightarrow> None))
     (\<lambda>(t, v, out).
       case (struct_fields (de_types E) t, v) of
         (Some fs, RStruct vs) \<Rightarrow>
           if i < length fs \<and> i < length vs
           then map_option (\<lambda>(ft, fv, back). (ft, fv, \<lambda>x. out (RStruct (vs[i := back x]))))
                  (field_place E (gf_type (fs ! i)) (vs ! i) is)
           else None
       | _ \<Rightarrow> None)"

text \<open>A key of a map whose key type is not a string cannot be converted: a panic.\<close>

definition set_entry :: "'f dec_env \<Rightarrow> gtype \<Rightarrow> string \<Rightarrow> 'f rval \<Rightarrow> 'f rval \<Rightarrow> 'f rval option" where
  "set_entry E kt key x m =
     (if kind_of (de_types E) kt \<noteq> TString then None
      else (case m of RMap (Some kvs) \<Rightarrow> Some (RMap (Some (AList.update key x kvs))) | _ \<Rightarrow> None))"

text \<open>The loops take the decoding of a part as their argument.\<close>

type_synonym 'f value_fn = "gtype \<Rightarrow> 'f rval \<Rightarrow> bool \<Rightarrow> decodeState \<Rightarrow> ('f rval \<times> decodeState) res"

fun array_elems ::
    "'f dec_env \<Rightarrow> 'f value_fn \<Rightarrow> nat \<Rightarrow> gtype \<Rightarrow> bool \<Rightarrow> 'f rval list \<Rightarrow> 'f rval list \<Rightarrow> nat \<Rightarrow> decodeState \<Rightarrow>
     (('f rval list \<times> 'f rval list \<times> nat) \<times> decodeState) res" where
  "array_elems E val 0 et growing vs spare i d = None"
| "array_elems E val (Suc n) et growing vs spare i d =
     and_then (run (scanWhile scanSkipSpace d)) (\<lambda>(op, d).
       if op = scanEndArray then ok ((vs, spare, i), d)
       else and_then (run (back_up op d)) (\<lambda>d.
         case (if growing then grow_slice E et vs spare i else Some (vs, spare)) of
           None \<Rightarrow> None
         | Some (vs, spare) \<Rightarrow>
             and_then
               (if i < length vs
                then and_then (val et (vs ! i) True d) (\<lambda>(x, d). ok (vs[i := x], d))
                else and_then (skip_value d) (\<lambda>d. ok (vs, d)))
             (\<lambda>(vs, d).
               and_then (run (scanWhile scanSkipSpace d)) (\<lambda>(op, d).
                 if op = scanEndArray then ok ((vs, spare, i + 1), d)
                 else if op \<noteq> scanArrayValue then fail_with ErrPhase
                 else array_elems E val n et growing vs spare (i + 1) d))))"

definition array_at ::
    "'f dec_env \<Rightarrow> 'f value_fn \<Rightarrow> nat \<Rightarrow> gtype \<Rightarrow> 'f rval \<Rightarrow> bool \<Rightarrow> decodeState \<Rightarrow> ('f rval \<times> decodeState) res" where
  "array_at E val n t v canSet d =
     with_target E n ''array'' t v canSet d (\<lambda>t' w.
       case kind_of (de_types E) t' of
         TInterface \<Rightarrow>
           if de_hasMethods E t' then type_error ''array'' t' w d
           else and_then (arrayInterface (de_parseFloat E 64) n [] d) (\<lambda>(g, d). ok (RIface (reflected g), d))
       | TArray k et \<Rightarrow>
           (case w of
              RArray vs \<Rightarrow>
                and_then (array_elems E val n et False vs [] 0 d) (\<lambda>((vs, spare, i), d).
                  case finish_array E et vs i of None \<Rightarrow> None | Some x \<Rightarrow> ok (x, d))
            | _ \<Rightarrow> None)
       | TSlice et \<Rightarrow>
           (case w of
              RSlice vs spare \<Rightarrow>
                and_then (array_elems E val n et True (case vs of None \<Rightarrow> [] | Some vs \<Rightarrow> vs) spare 0 d)
                  (\<lambda>((vs, spare, i), d). ok (finish_slice vs spare i, d))
            | _ \<Rightarrow> None)
       | _ \<Rightarrow> type_error ''array'' t' w d)"

text \<open>The value of a member goes to a new value of the element type of a map, or to the field of a struct, or is
  skipped; with the option \<open>string\<close> it is a string that holds the literal.\<close>

definition map_member ::
    "'f dec_env \<Rightarrow> 'f value_fn \<Rightarrow> gtype \<Rightarrow> gtype \<Rightarrow> 'f rval \<Rightarrow> string \<Rightarrow> decodeState \<Rightarrow> ('f rval \<times> decodeState) res" where
  "map_member E val kt et v key d =
     (case zero_of E et of None \<Rightarrow> None
      | Some z \<Rightarrow>
          and_then (val et z True d) (\<lambda>(x, d).
            case set_entry E kt key x v of None \<Rightarrow> None | Some m \<Rightarrow> ok (m, d)))"

definition field_member ::
    "'f dec_env \<Rightarrow> 'f value_fn \<Rightarrow> nat \<Rightarrow> gtype \<Rightarrow> 'f rval \<Rightarrow> string \<Rightarrow> decodeState \<Rightarrow> ('f rval \<times> decodeState) res" where
  "field_member E val n t v key d =
     (case typeFields (de_types E) (Suc (length (te_types (de_types E)))) t of
        None \<Rightarrow> None
      | Some fs \<Rightarrow>
          (case find_key E fs key None of
             None \<Rightarrow> and_then (skip_value d) (\<lambda>d. ok (v, d))
           | Some f \<Rightarrow>
               (case field_place E t v (f_index f) of
                  None \<Rightarrow> None
                | Some (ft, fv, back) \<Rightarrow>
                    and_then
                      (if f_quoted f
                       then and_then (val (TPtr TString) (RPtr (Some (RString []))) False d) (\<lambda>(s, d).
                              case s of
                                RPtr (Some (RString s)) \<Rightarrow> literalStore E n s ft fv True True d
                              | _ \<Rightarrow> None)
                       else val ft fv True d)
                    (\<lambda>(x, d). ok (back x, d)))))"

definition member_value ::
    "'f dec_env \<Rightarrow> 'f value_fn \<Rightarrow> nat \<Rightarrow> gtype \<Rightarrow> 'f rval \<Rightarrow> string \<Rightarrow> decodeState \<Rightarrow> ('f rval \<times> decodeState) res" where
  "member_value E val n t v key d =
     (case kind_of (de_types E) t of
        TMap kt et \<Rightarrow> map_member E val kt et v key d
      | _ \<Rightarrow> field_member E val n t v key d)"

fun object_members ::
    "'f dec_env \<Rightarrow> 'f value_fn \<Rightarrow> nat \<Rightarrow> gtype \<Rightarrow> 'f rval \<Rightarrow> decodeState \<Rightarrow> ('f rval \<times> decodeState) res" where
  "object_members E val 0 t v d = None"
| "object_members E val (Suc n) t v d =
     and_then (run (scanWhile scanSkipSpace d)) (\<lambda>(op, d).
       if op = scanEndObject then ok (v, d)
       else if op \<noteq> scanBeginLiteral then fail_with ErrPhase
       else and_then (key_item d) (\<lambda>((key, op), d).
         and_then (colon op d) (\<lambda>d.
           and_then (member_value E val n t v key d) (\<lambda>(v, d).
             and_then (run (scanWhile scanSkipSpace d)) (\<lambda>(op, d).
               if op = scanEndObject then ok (v, d)
               else if op \<noteq> scanObjectValue then fail_with ErrPhase
               else object_members E val n t v d)))))"

definition object_at ::
    "'f dec_env \<Rightarrow> 'f value_fn \<Rightarrow> nat \<Rightarrow> gtype \<Rightarrow> 'f rval \<Rightarrow> bool \<Rightarrow> decodeState \<Rightarrow> ('f rval \<times> decodeState) res" where
  "object_at E val n t v canSet d =
     with_target E n ''object'' t v canSet d (\<lambda>t' w.
       case kind_of (de_types E) t' of
         TInterface \<Rightarrow>
           if de_hasMethods E t' then type_error ''object'' t' w d
           else and_then (objectInterface (de_parseFloat E 64) n [] d) (\<lambda>(g, d). ok (RIface (reflected g), d))
       | TMap kt et \<Rightarrow>
           if kind_of (de_types E) kt \<noteq> TString
           then object_members E val n t' w (saveError (ErrType ''object'' t') d)
           else object_members E val n t' (if w = RMap None then RMap (Some []) else w) d
       | TStruct fs \<Rightarrow> object_members E val n t' w d
       | _ \<Rightarrow> type_error ''object'' t' w d)"

text \<open>\<open>value\<close>; the recursion is bounded by fuel, one unit for a nested value or a round of a loop.\<close>

fun value_at :: "'f dec_env \<Rightarrow> nat \<Rightarrow> 'f value_fn" where
  "value_at E 0 t v canSet d = None"
| "value_at E (Suc n) t v canSet d =
     and_then (run (scanWhile scanSkipSpace d)) (\<lambda>(op, d).
       if op = scanBeginArray then array_at E (value_at E n) n t v canSet d
       else if op = scanBeginObject then object_at E (value_at E n) n t v canSet d
       else if op = scanBeginLiteral
       then and_then (literal_item d) (\<lambda>(item, d). literalStore E n item t v canSet False d)
       else fail_with ErrPhase)"

section \<open>Unmarshal\<close>

text \<open>\<open>unmarshal\<close> with the argument \<open>v\<close>, nil or a value of a type: the error it returns, and the argument
  afterwards, unless decoding was given up.\<close>

definition unmarshal ::
    "'f dec_env \<Rightarrow> nat \<Rightarrow> (gtype \<times> 'f rval) option \<Rightarrow> decodeState \<Rightarrow> (decode_error option \<times> 'f rval option) option" where
  "unmarshal E n v d =
     (case v of
        None \<Rightarrow> Some (Some (ErrInvalid None), None)
      | Some (t, x) \<Rightarrow>
          if ptr_elem (de_types E) t = None \<or> x = RPtr None then Some (Some (ErrInvalid (Some t)), Some x)
          else map_option (\<lambda>r. case r of Inl e \<Rightarrow> (Some e, None) | Inr (y, d) \<Rightarrow> (d_savedError d, Some y))
                 (value_at E n t x False (d\<lparr>d_scan := scanner_reset (d_scan d)\<rparr>)))"

definition Unmarshal ::
    "'f dec_env \<Rightarrow> nat \<Rightarrow> string \<Rightarrow> (gtype \<times> 'f rval) option \<Rightarrow> (decode_error option \<times> 'f rval option) option" where
  "Unmarshal E n data v =
     Option.bind (checkValid data (d_scan new_decodeState)) (\<lambda>(err, s).
       if err \<noteq> None then Some (Some (ErrSyntax err), map_option snd v)
       else unmarshal E n v (decode_init data (new_decodeState\<lparr>d_scan := s\<rparr>)))"

section \<open>Errors and numbers\<close>

text \<open>The texts of the errors, with the name of a type as reflection gives it.\<close>

definition UnmarshalTypeError_Error :: "(gtype \<Rightarrow> string) \<Rightarrow> string \<Rightarrow> gtype \<Rightarrow> string" where
  "UnmarshalTypeError_Error name v t = ''json: cannot unmarshal '' @ v @ '' into Go value of type '' @ name t"

definition InvalidUnmarshalError_Error :: "type_env \<Rightarrow> (gtype \<Rightarrow> string) \<Rightarrow> gtype option \<Rightarrow> string" where
  "InvalidUnmarshalError_Error E name t =
     (case t of
        None \<Rightarrow> ''json: Unmarshal(nil)''
      | Some t \<Rightarrow>
          if ptr_elem E t = None then ''json: Unmarshal(non-pointer '' @ name t @ '')''
          else ''json: Unmarshal(nil '' @ name t @ '')'')"

definition Number_Float64 :: "(nat \<Rightarrow> string \<Rightarrow> 'f option) \<Rightarrow> string \<Rightarrow> 'f option" where
  "Number_Float64 parseFloat n = parseFloat 64 n"

definition Number_Int64 :: "string \<Rightarrow> int option" where
  "Number_Int64 n = strconv_Atoi n"

section \<open>Into an empty interface\<close>

text \<open>The pointer to an empty interface is followed, and what is stored is stored in the interface.\<close>

definition no_methods :: "'f dec_env \<Rightarrow> gtype \<Rightarrow> bool" where
  "no_methods E t \<longleftrightarrow> \<not> de_unmarshaler E t \<and> \<not> de_textUnmarshaler E t"

lemma indirect_interface:
  assumes "no_methods E (TPtr TInterface)"
  shows "indirect E (Suc (Suc n)) (TPtr TInterface) (RPtr (Some (RIface None))) False b =
    Some (FValue TInterface (RIface None), \<lambda>x. RPtr (Some x))"
  using assms by (simp add: indirect_def ptr_elem_def kind_of_def inside_def no_methods_def)

definition iface_result :: "('f goval \<times> decodeState) res \<Rightarrow> ('f rval \<times> decodeState) res" where
  "iface_result r = and_then r (\<lambda>(g, d). ok (RPtr (Some (RIface (reflected g))), d))"

lemma and_then_assoc: "and_then (and_then m f) g = and_then m (\<lambda>x. and_then (f x) g)"
  by (simp add: and_then_def split: option.split sum.split)

lemma and_then_if: "and_then (if b then m else n) f = (if b then and_then m f else and_then n f)"
  by simp

lemma literalStore_interface:
  assumes "no_methods E (TPtr TInterface)" "\<not> de_hasMethods E TInterface"
  shows "literalStore E (Suc (Suc n)) item (TPtr TInterface) (RPtr (Some (RIface None))) False False d =
    iface_result (literalStore_iface (de_parseFloat E 64) item VNil d)"
proof (cases item)
  case (Cons c cs)
  have k: "kind_of (de_types E) TInterface = TInterface" by (simp add: kind_of_def)
  show ?thesis
    using assms(2) indirect_interface [OF assms(1)] Cons
    by (simp add: literalStore_def literalStore_iface_def store_literal_def iface_result_def k store_null_def
        store_bool_def store_string_def store_number_def store_number_iface_def and_then_assoc Let_def
        split: option.split sum.split cong: if_cong)
       (auto simp: and_then_def ok_def fail_with_def run_def split: option.splits sum.splits)
qed (simp add: literalStore_def literalStore_iface_def iface_result_def)

lemma value_at_interface:
  assumes "no_methods E (TPtr TInterface)" "\<not> de_hasMethods E TInterface"
  shows "value_at E (Suc (Suc (Suc n))) (TPtr TInterface) (RPtr (Some (RIface None))) False d =
    iface_result (value_iface (de_parseFloat E 64) (Suc (Suc n)) d)"
proof -
  have k: "kind_of (de_types E) TInterface = TInterface" by (simp add: kind_of_def)
  note i = indirect_interface [OF assms(1), of n]
  have a: "array_at E (value_at E (Suc (Suc n))) (Suc (Suc n)) (TPtr TInterface) (RPtr (Some (RIface None))) False d1 =
      iface_result (arrayInterface (de_parseFloat E 64) (Suc (Suc n)) [] d1)" for d1
    using assms(2) i by (simp add: array_at_def with_target_def k iface_result_def and_then_assoc case_prod_unfold)
  have o: "object_at E (value_at E (Suc (Suc n))) (Suc (Suc n)) (TPtr TInterface) (RPtr (Some (RIface None))) False d1 =
      iface_result (objectInterface (de_parseFloat E 64) (Suc (Suc n)) [] d1)" for d1
    using assms(2) i by (simp add: object_at_def with_target_def k iface_result_def and_then_assoc case_prod_unfold)
  have l: "and_then (literal_item d1) (\<lambda>(item, d). literalStore E (Suc (Suc n)) item (TPtr TInterface) (RPtr (Some (RIface None))) False False d) =
      iface_result (and_then (literal_item d1) (\<lambda>(item, d). literalStore_iface (de_parseFloat E 64) item VNil d))" for d1
    by (simp add: literalStore_interface [OF assms] iface_result_def and_then_assoc case_prod_unfold)
  show ?thesis
    by (subst value_at.simps(2), simp only: value_iface_def a o l iface_result_def [of "and_then _ _"] and_then_assoc)
       (intro arg_cong2 [where f = and_then] ext, simp_all add: case_prod_unfold iface_result_def and_then_assoc)
qed

section \<open>Examples\<close>

declare scanWhile.simps [code]

definition sample_dec :: "unit dec_env" where
  "sample_dec =
     \<lparr>de_types = sample_types\<lparr>te_under := (\<lambda>n. if n = ''json.Number'' then TString else te_under sample_types n)\<rparr>,
      de_unmarshaler = (\<lambda>_. False), de_textUnmarshaler = (\<lambda>t. t = TPtr (TNamed ''Base'')),
      de_UnmarshalJSON = (\<lambda>_ w _. (None, w)), de_UnmarshalText = (\<lambda>_ w _. (None, w)), de_hasMethods = (\<lambda>_. False),
      de_parseFloat = (\<lambda>_ _. Some ()), de_overflowFloat = (\<lambda>_ _. False), de_zero = (), de_EqualFold = (\<lambda>s t. s = t)\<rparr>"

abbreviation quoted_text :: "string \<Rightarrow> string" where
  "quoted_text s \<equiv> CHR 0x22 # s @ [CHR 0x22]"

text \<open>A string that is no number is stored in a \<open>Number\<close> as it is.\<close>

lemma string_into_Number:
  "Unmarshal sample_dec 9 (quoted_text ''x'') (Some (TPtr numberType, RPtr (Some (RNumber [])))) =
     Some (None, Some (RPtr (Some (RNumber ''x''))))"
  by code_simp

text \<open>The complaint about a map whose keys are no strings does not end the decoding: its first member panics,
  and the panic is none that \<open>unmarshal\<close> recovers from.\<close>

lemma integer_keys_panic:
  "Unmarshal sample_dec 9 (''{'' @ quoted_text ''1'' @ '':2}'') (Some (TPtr (TMap (TInt 64) (TInt 64)), RPtr (Some (RMap None)))) =
     None"
  "Unmarshal sample_dec 9 ''{}'' (Some (TPtr (TMap (TInt 64) (TInt 64)), RPtr (Some (RMap None)))) =
     Some (Some (ErrType ''object'' (TMap (TInt 64) (TInt 64))), Some (RPtr (Some (RMap None))))"
  by code_simp+

text \<open>A number for a \<open>TextUnmarshaler\<close> is reported as a decoder out of sync: the type error that was saved is
  lost.\<close>

lemma number_into_TextUnmarshaler:
  "Unmarshal sample_dec 9 ''5'' (Some (TPtr (TNamed ''Base''), RPtr (Some (RStruct [RString [], RInt 0])))) =
     Some (Some ErrPhase, None)"
  by code_simp

text \<open>A number that does not fit leaves the old value; the rest is decoded.\<close>

lemma number_out_of_range:
  "Unmarshal sample_dec 9 ''[7,300,-1,9]'' (Some (TPtr (TArray 3 (TInt 8)), RPtr (Some (RArray [RInt 1, RInt 2, RInt 3])))) =
     Some (Some (ErrType ''number 300'' (TInt 8)), Some (RPtr (Some (RArray [RInt 7, RInt 2, RInt (-1)]))))"
  by code_simp

text \<open>A number for a string ends the decoding, though a string for a number is skipped.\<close>

lemma number_into_string:
  "Unmarshal sample_dec 9 (''[7,'' @ quoted_text ''a'' @ '']'') (Some (TPtr (TSlice TString), RPtr (Some (RSlice None [])))) =
     Some (Some (ErrType ''number'' TString), None)"
  "Unmarshal sample_dec 9 (''['' @ quoted_text ''a'' @ '',7]'') (Some (TPtr (TSlice (TInt 8)), RPtr (Some (RSlice None [])))) =
     Some (Some (ErrType ''string'' (TInt 8)), Some (RPtr (Some (RSlice (Some [RInt 0, RInt 7]) [RInt 0, RInt 0]))))"
  by code_simp+

text \<open>A null for a field with the option \<open>string\<close> is an error.\<close>

definition quoted_dec :: "unit dec_env" where
  "quoted_dec = sample_dec\<lparr>de_types := sample_types\<lparr>te_under := \<lambda>_. TStruct [GField ''X'' [] ''x,string'' False (TInt 64)]\<rparr>\<rparr>"

lemma quoted_null:
  "Unmarshal quoted_dec 19 (''{'' @ quoted_text ''x'' @ '':null}'') (Some (TPtr (TNamed ''P''), RPtr (Some (RStruct [RInt 5])))) =
     Some (Some ErrUsage, Some (RPtr (Some (RStruct [RInt 5]))))"
  by code_simp

end
