(* ===== verification/Json_Tree.thy ===== *)
theory Json_Tree
  imports Json_Typed
begin

text \<open>
  What decoding into a Go value of any type is meant to do: a specification of \<open>value\<close> of
  \<open>common/json/decode.go\<close> by recursion on the JSON value, without bytes, offsets and the scanner, and the proof
  that the decoder implements it on every text of the value.
\<close>

section \<open>The target of a JSON value\<close>

text \<open>The notes of a decoder: the error it has saved, and the switch \<open>UseNumber\<close>. Storing a literal reads and
  writes nothing else.\<close>

definition noted :: "decodeState \<Rightarrow> decodeState" where
  "noted d = new_decodeState\<lparr>d_savedError := d_savedError d, d_useNumber := d_useNumber d\<rparr>"

text \<open>A JSON value is stored: the text it was read from, with its gaps and its scanner, plays no part. The fuel
  bounds the nesting and the pointers; \<^term>\<open>None\<close> is a panic, a target with methods for an array or object
  (they are given the text), or an array behind the end of a fixed array, which the scanner does not survive.\<close>

type_synonym 'f tree_fn = "json \<Rightarrow> gtype \<Rightarrow> 'f rval \<Rightarrow> bool \<Rightarrow> decodeState \<Rightarrow> ('f rval \<times> decodeState) res"

definition tree_target ::
    "'f dec_env \<Rightarrow> nat \<Rightarrow> string \<Rightarrow> gtype \<Rightarrow> 'f rval \<Rightarrow> bool \<Rightarrow> decodeState \<Rightarrow>
     (gtype \<Rightarrow> 'f rval \<Rightarrow> ('f rval \<times> decodeState) res) \<Rightarrow> ('f rval \<times> decodeState) res" where
  "tree_target E n what t v canSet s rest =
     (case indirect E n t v canSet False of
        Some (FText pt w, back) \<Rightarrow> ok (back w, saveError (ErrType what t) s)
      | Some (FValue t' w, back) \<Rightarrow> and_then (rest t' w) (\<lambda>(x, s). ok (back x, s))
      | _ \<Rightarrow> None)"

definition is_array :: "json \<Rightarrow> bool" where
  "is_array j = (case j of JArr _ \<Rightarrow> True | _ \<Rightarrow> False)"

fun tree_elems ::
    "'f dec_env \<Rightarrow> 'f tree_fn \<Rightarrow> gtype \<Rightarrow> bool \<Rightarrow> json list \<Rightarrow> 'f rval list \<Rightarrow> 'f rval list \<Rightarrow> nat \<Rightarrow> decodeState \<Rightarrow>
     (('f rval list \<times> 'f rval list \<times> nat) \<times> decodeState) res" where
  "tree_elems E val et growing [] vs spare i s = ok ((vs, spare, i), s)"
| "tree_elems E val et growing (j # js) vs spare i s =
     (case (if growing then grow_slice E et vs spare i else Some (vs, spare)) of
        None \<Rightarrow> None
      | Some (vs, spare) \<Rightarrow>
          if i < length vs
          then and_then (val j et (vs ! i) True s) (\<lambda>(x, s). tree_elems E val et growing js (vs[i := x]) spare (i + 1) s)
          else if is_array j then None
          else tree_elems E val et growing js vs spare (i + 1) s)"

definition interface_value ::
    "'f dec_env \<Rightarrow> json \<Rightarrow> decodeState \<Rightarrow> ('f rval \<times> decodeState) res" where
  "interface_value E j s =
     ok (RIface (reflected (go_value (de_parseFloat E 64) (d_useNumber s) j)),
         s\<lparr>d_savedError := first_error (d_savedError s) (num_errors (de_parseFloat E 64) (d_useNumber s) j)\<rparr>)"

definition tree_array ::
    "'f dec_env \<Rightarrow> 'f tree_fn \<Rightarrow> nat \<Rightarrow> json list \<Rightarrow> gtype \<Rightarrow> 'f rval \<Rightarrow> bool \<Rightarrow> decodeState \<Rightarrow> ('f rval \<times> decodeState) res" where
  "tree_array E val n js t v canSet s =
     tree_target E n ''array'' t v canSet s (\<lambda>t' w.
       case kind_of (de_types E) t' of
         TInterface \<Rightarrow>
           if de_hasMethods E t' then ok (w, saveError (ErrType ''array'' t') s) else interface_value E (JArr js) s
       | TArray k et \<Rightarrow>
           (case w of
              RArray vs \<Rightarrow>
                and_then (tree_elems E val et False js vs [] 0 s) (\<lambda>((vs, spare, i), s).
                  case finish_array E et vs i of None \<Rightarrow> None | Some x \<Rightarrow> ok (x, s))
            | _ \<Rightarrow> None)
       | TSlice et \<Rightarrow>
           (case w of
              RSlice vs spare \<Rightarrow>
                and_then (tree_elems E val et True js (case vs of None \<Rightarrow> [] | Some vs \<Rightarrow> vs) spare 0 s)
                  (\<lambda>((vs, spare, i), s). ok (finish_slice vs spare i, s))
            | _ \<Rightarrow> None)
       | _ \<Rightarrow> ok (w, saveError (ErrType ''array'' t') s))"

definition tree_field ::
    "'f dec_env \<Rightarrow> 'f tree_fn \<Rightarrow> nat \<Rightarrow> json \<Rightarrow> gtype \<Rightarrow> 'f rval \<Rightarrow> string \<Rightarrow> decodeState \<Rightarrow> ('f rval \<times> decodeState) res" where
  "tree_field E val n j t v key s =
     (case typeFields (de_types E) (Suc (length (te_types (de_types E)))) t of
        None \<Rightarrow> None
      | Some fs \<Rightarrow>
          (case find_key E fs key None of
             None \<Rightarrow> ok (v, s)
           | Some f \<Rightarrow>
               (case field_place E t v (f_index f) of
                  None \<Rightarrow> None
                | Some (ft, fv, back) \<Rightarrow>
                    and_then
                      (if f_quoted f
                       then and_then (val j (TPtr TString) (RPtr (Some (RString []))) False s) (\<lambda>(x, s).
                              case x of
                                RPtr (Some (RString l)) \<Rightarrow> literalStore E n l ft fv True True s
                              | _ \<Rightarrow> None)
                       else val j ft fv True s)
                    (\<lambda>(x, s). ok (back x, s)))))"

definition tree_map ::
    "'f dec_env \<Rightarrow> 'f tree_fn \<Rightarrow> json \<Rightarrow> gtype \<Rightarrow> gtype \<Rightarrow> 'f rval \<Rightarrow> string \<Rightarrow> decodeState \<Rightarrow> ('f rval \<times> decodeState) res" where
  "tree_map E val j kt et v key s =
     (case zero_of E et of None \<Rightarrow> None
      | Some z \<Rightarrow>
          and_then (val j et z True s) (\<lambda>(x, s).
            case set_entry E kt key x v of None \<Rightarrow> None | Some m \<Rightarrow> ok (m, s)))"

definition tree_member ::
    "'f dec_env \<Rightarrow> 'f tree_fn \<Rightarrow> nat \<Rightarrow> json \<Rightarrow> gtype \<Rightarrow> 'f rval \<Rightarrow> string \<Rightarrow> decodeState \<Rightarrow> ('f rval \<times> decodeState) res" where
  "tree_member E val n j t v key s =
     (case kind_of (de_types E) t of
        TMap kt et \<Rightarrow> tree_map E val j kt et v key s
      | _ \<Rightarrow> tree_field E val n j t v key s)"

fun tree_members ::
    "'f dec_env \<Rightarrow> 'f tree_fn \<Rightarrow> nat \<Rightarrow> (string \<times> json) list \<Rightarrow> gtype \<Rightarrow> 'f rval \<Rightarrow> decodeState \<Rightarrow> ('f rval \<times> decodeState) res" where
  "tree_members E val n [] t v s = ok (v, s)"
| "tree_members E val n ((k, j) # kvs) t v s =
     and_then (tree_member E val n j t v (str_value k) s) (\<lambda>(v, s). tree_members E val n kvs t v s)"

definition tree_object ::
    "'f dec_env \<Rightarrow> 'f tree_fn \<Rightarrow> nat \<Rightarrow> (string \<times> json) list \<Rightarrow> gtype \<Rightarrow> 'f rval \<Rightarrow> bool \<Rightarrow> decodeState \<Rightarrow> ('f rval \<times> decodeState) res" where
  "tree_object E val n kvs t v canSet s =
     tree_target E n ''object'' t v canSet s (\<lambda>t' w.
       case kind_of (de_types E) t' of
         TInterface \<Rightarrow>
           if de_hasMethods E t' then ok (w, saveError (ErrType ''object'' t') s) else interface_value E (JObj kvs) s
       | TMap kt et \<Rightarrow>
           if kind_of (de_types E) kt \<noteq> TString
           then tree_members E val n kvs t' w (saveError (ErrType ''object'' t') s)
           else tree_members E val n kvs t' (if w = RMap None then RMap (Some []) else w) s
       | TStruct fs \<Rightarrow> tree_members E val n kvs t' w s
       | _ \<Rightarrow> ok (w, saveError (ErrType ''object'' t') s))"

fun tree_value :: "'f dec_env \<Rightarrow> nat \<Rightarrow> 'f tree_fn" where
  "tree_value E 0 j t v canSet s = None"
| "tree_value E (Suc n) j t v canSet s =
     (case j of
        JArr js \<Rightarrow> tree_array E (tree_value E n) n js t v canSet s
      | JObj kvs \<Rightarrow> tree_object E (tree_value E n) n kvs t v canSet s
      | _ \<Rightarrow> literalStore E n (render j) t v canSet False s)"

section \<open>Agreement\<close>

text \<open>A run of the decoder agrees with the specification where the latter is defined: the same error, or the same
  value with the same notes, and with \<open>Q\<close> for the state it ends in.\<close>

definition agrees :: "('a \<times> decodeState) res \<Rightarrow> ('a \<times> decodeState) res \<Rightarrow> (decodeState \<Rightarrow> bool) \<Rightarrow> bool" where
  "agrees r m Q \<longleftrightarrow>
     r = None \<or> (\<exists>e. r = fail_with e \<and> m = fail_with e) \<or>
     (\<exists>x d. r = ok (x, noted d) \<and> m = ok (x, d) \<and> Q d)"

lemma agrees_None [simp]: "agrees None m Q"
  by (simp add: agrees_def)

lemma agrees_fail [simp]: "agrees (fail_with e) (fail_with e) Q"
  by (auto simp: agrees_def)

lemma agrees_ok: "s = noted d \<Longrightarrow> Q d \<Longrightarrow> agrees (ok (x, s)) (ok (x, d)) Q"
  by (auto simp: agrees_def)

lemma agrees_then:
  assumes "agrees r m Q" "\<And>x d. Q d \<Longrightarrow> agrees (f (x, noted d)) (g (x, d)) R"
  shows "agrees (and_then r f) (and_then m g) R"
  using assms(1) unfolding agrees_def [of r] by (elim disjE exE conjE) (auto intro: assms(2))

lemma agrees_mono: "agrees r m Q \<Longrightarrow> (\<And>d. Q d \<Longrightarrow> R d) \<Longrightarrow> agrees r m R"
  by (fastforce simp: agrees_def)

lemma noted_simps [simp]:
  "noted (noted d) = noted d" "d_useNumber (noted d) = d_useNumber d" "d_savedError (noted d) = d_savedError d"
  "saveError e (noted d) = noted (saveError e d)"
  "noted (d\<lparr>d_off := k\<rparr>) = noted d" "noted (d\<lparr>d_scan := c\<rparr>) = noted d" "noted (d\<lparr>d_nextscan := c\<rparr>) = noted d"
  by (simp_all add: noted_def saveError_def)

lemma noted_advances: "advances d k [] d' \<Longrightarrow> noted d' = noted d"
  by (simp add: advances_def noted_def first_error_def)

section \<open>Literals\<close>

text \<open>A step that leaves the text and the scanner alone.\<close>

definition quiet :: "decodeState \<Rightarrow> decodeState \<Rightarrow> bool" where
  "quiet d d' \<longleftrightarrow> (\<exists>e. d' = d\<lparr>d_savedError := e\<rparr>)"

definition local_step :: "(decodeState \<Rightarrow> ('a \<times> decodeState) res) \<Rightarrow> bool" where
  "local_step f \<longleftrightarrow> (\<forall>d. agrees (f (noted d)) (f d) (quiet d))"

lemma quiet_refl [simp]: "quiet d d"
  unfolding quiet_def by (rule exI [of _ "d_savedError d"]) simp

lemma quiet_saveError [simp]: "quiet d (saveError e d)"
  by (cases "d_savedError d = None") (auto simp: saveError_def quiet_def intro: quiet_refl [unfolded quiet_def])

lemma quiet_trans: "quiet d d1 \<Longrightarrow> quiet d1 d2 \<Longrightarrow> quiet d d2"
  by (auto simp: quiet_def)

lemma local_simps [intro!]:
  "local_step (\<lambda>d. ok (x, d))" "local_step (\<lambda>d. ok (x, saveError e d))" "local_step (\<lambda>d. fail_with e)" "local_step (\<lambda>d. None)"
  by (auto simp: local_step_def intro: agrees_ok)

lemma local_if [intro!]: "local_step f \<Longrightarrow> local_step g \<Longrightarrow> local_step (\<lambda>d. if b then f d else g d)"
  by (simp add: local_step_def)

lemma local_then:
  assumes "local_step f" "\<And>x. local_step (\<lambda>d. g (x, d))"
  shows "local_step (\<lambda>d. and_then (f d) g)"
  unfolding local_step_def
proof
  fix d
  show "agrees (and_then (f (noted d)) g) (and_then (f d) g) (quiet d)"
  proof (rule agrees_then)
    show "agrees (f (noted d)) (f d) (quiet d)" using assms(1) by (simp add: local_step_def)
    show "agrees (g (x, noted d')) (g (x, d')) (quiet d)" if "quiet d d'" for x d'
    proof (rule agrees_mono)
      show "agrees (g (x, noted d')) (g (x, d')) (quiet d')" using assms(2) by (simp add: local_step_def)
      show "quiet d d''" if "quiet d' d''" for d'' by (rule quiet_trans [OF \<open>quiet d d'\<close> that])
    qed
  qed
qed

lemma local_run: "(\<And>x. local_step (g x)) \<Longrightarrow> local_step (\<lambda>d. and_then (run m) (\<lambda>x. g x d))"
  by (cases m) (auto simp: local_step_def run_def and_then_def)

lemma local_saved:
  assumes "local_step f"
  shows "local_step (\<lambda>d. f (saveError e d))"
  unfolding local_step_def
proof
  fix d
  show "agrees (f (saveError e (noted d))) (f (saveError e d)) (quiet d)"
    unfolding noted_simps
    by (rule agrees_mono [OF assms [unfolded local_step_def, rule_format]])
      (rule quiet_trans [OF quiet_saveError])
qed

lemma local_store:
  "local_step (store_bool E b t v q)" "local_step (store_string E s t v)" "local_step (store_number_iface E s t v)"
proof -
  show "local_step (store_bool E b t v q)"
    unfolding store_bool_def by (cases "kind_of (de_types E) t") (simp_all add: local_simps local_if)
  show "local_step (store_string E s t v)"
    unfolding store_string_def by (cases "kind_of (de_types E) t"; cases "base64_Decode s") (simp_all add: local_simps local_if)
  show "local_step (store_number_iface E s t v)"
    unfolding local_step_def store_number_iface_def by (auto split: sum.split intro: agrees_ok)
qed

lemma local_store_number: "local_step (store_number E s t v q)"
proof -
  have b: "local_step (\<lambda>d. case m of None \<Rightarrow> f d | Some x \<Rightarrow> g x d)" if "local_step f" "\<And>x. local_step (g x)"
    for m :: "'c option" and f and g :: "'c \<Rightarrow> decodeState \<Rightarrow> ('b \<times> decodeState) res"
    using that by (cases m) simp_all
  show ?thesis
    unfolding store_number_def Let_def
    by (cases "kind_of (de_types E) t") (simp_all add: local_simps local_if local_store b)
qed

lemma local_store_literal: "local_step (store_literal E item t v q)"
proof -
  have s: "local_step (\<lambda>d. case s of None \<Rightarrow> fail_with e | Some s \<Rightarrow> store_string E s t v d)" for s e
    by (cases s) (simp_all add: local_simps local_store)
  show ?thesis
    unfolding store_literal_def Let_def
    by (intro local_if local_run) (simp_all add: local_simps local_store local_store_number s)
qed

text \<open>The pointers are followed the same way with more fuel.\<close>

lemma inside_Some: "inside g r = Some p \<longleftrightarrow> (\<exists>fc back. r = Some (fc, back) \<and> p = (fc, \<lambda>x. g (back x)))"
  by (auto simp: inside_def)

text \<open>The step of the loop at anything but an interface that holds a pointer.\<close>

lemma indirect_pointer:
  assumes "\<nexists>t' w. v = RIface (Some (t', RPtr (Some w)))"
  shows "indirect_loop E (Suc n) b t v c =
    (case ptr_elem (de_types E) t of
       None \<Rightarrow> Some (FValue t v, \<lambda>x. x)
     | Some e \<Rightarrow>
         if \<not> (v \<noteq> RPtr None \<and> ptr_elem (de_types E) e \<noteq> None) \<and> b \<and> c then Some (FValue t v, \<lambda>x. x)
         else
           Option.bind (case v of
               RPtr None \<Rightarrow> if c then zero_of E e else None
             | RPtr (Some w) \<Rightarrow> Some w
             | _ \<Rightarrow> None)
           (\<lambda>w. if de_unmarshaler E t then Some (FUnmarshaler t w, \<lambda>x. RPtr (Some x))
                else if de_textUnmarshaler E t then Some (FText t w, \<lambda>x. RPtr (Some x))
                else inside (\<lambda>x. RPtr (Some x)) (indirect_loop E n b e w True)))"
proof (cases v)
  case (RIface x)
  then show ?thesis using assms by (cases x) (auto split: rval.split option.split)
qed (simp_all split: option.split)

lemma if_bind_more:
  "(if C then X else Option.bind M f) = Some p \<Longrightarrow> (\<And>w. f w = Some p \<Longrightarrow> g w = Some p) \<Longrightarrow>
   (if C then X else Option.bind M g) = Some p"
  by (auto simp: bind_eq_Some_conv)

lemma indirect_loop_more:
  "indirect_loop E n b t v c = Some p \<Longrightarrow> n \<le> m \<Longrightarrow> indirect_loop E m b t v c = Some p"
proof (induction n arbitrary: m t v c p)
  case (Suc n)
  obtain k where k: "m = Suc k" "n \<le> k" using Suc.prems(2) by (cases m) auto
  have rec: "inside g (indirect_loop E n b t v c) = Some p \<Longrightarrow> inside g (indirect_loop E k b t v c) = Some p" for g t v c p
    using Suc.IH [OF _ k(2)] by (auto simp: inside_Some)
  show ?case
  proof (cases "\<exists>t' w. v = RIface (Some (t', RPtr (Some w)))")
    case True
    then obtain t' w where v: "v = RIface (Some (t', RPtr (Some w)))" by blast
    show ?thesis using Suc.prems(1) unfolding k(1) v by (auto simp: rec split: if_splits)
  next
    case False
    note body = indirect_pointer [OF False, of E _ b t c]
    show ?thesis
    proof (cases "ptr_elem (de_types E) t")
      case (Some e)
      show ?thesis
        using Suc.prems(1) unfolding k(1) body Some option.case
        by (rule if_bind_more) (auto simp: rec split: if_splits)
    qed (use Suc.prems(1) body k(1) in simp)
  qed
qed simp

lemma indirect_more:
  "indirect E n t v c b = Some p \<Longrightarrow> n \<le> m \<Longrightarrow> indirect E m t v c b = Some p"
  by (auto simp: indirect_def inside_Some split: if_splits dest: indirect_loop_more)

lemma local_methods:
  "local_step (call_UnmarshalJSON E t w back item)" "local_step (call_UnmarshalText E t w back item)"
  unfolding call_UnmarshalJSON_def [abs_def] call_UnmarshalText_def [abs_def]
  by (cases "de_UnmarshalJSON E t w item"; cases "fst (de_UnmarshalJSON E t w item)"; simp add: local_simps)
     (cases "de_UnmarshalText E t w item"; cases "fst (de_UnmarshalText E t w item)"; simp add: local_simps)

lemma literalStore_agrees:
  assumes "n \<le> m"
  shows "agrees (literalStore E n item t v c q (noted d)) (literalStore E m item t v c q d) (quiet d)"
proof (cases "item = [] \<or> indirect E n t v c (hd item = CHR ''n'') = None")
  case True
  then show ?thesis by (auto simp: literalStore_def intro: agrees_ok)
next
  case False
  then obtain fc bk where i: "indirect E n t v c (hd item = CHR ''n'') = Some (fc, bk)" by auto
  note j = indirect_more [OF i assms]
  have s: "local_step (\<lambda>d. case s of None \<Rightarrow> fail_with e | Some s \<Rightarrow> call_UnmarshalText E pt w bk s d)" for s pt w and e :: decode_error
    by (cases s) (simp_all add: local_simps local_methods)
  have "local_step (literalStore E n item t v c q) \<and> literalStore E n item t v c q = literalStore E m item t v c q"
  proof (cases fc)
    case (FUnmarshaler pt w)
    then show ?thesis using False i j local_methods(1) [of E pt w bk item] by (simp add: literalStore_def [abs_def] split: if_splits)
  next
    case (FText pt w)
    have "local_step (\<lambda>d. and_then (run (unquoteBytes item)) (\<lambda>s.
        case s of None \<Rightarrow> fail_with (if q then ErrUsage else ErrPhase) | Some s \<Rightarrow> call_UnmarshalText E pt w bk s d))"
      by (intro local_run s)
    note this local_saved [OF this, of "if q then ErrUsage else ErrType ''string'' t"]
    then show ?thesis using False i j FText
      by (cases "hd item = CHR 0x22") (simp_all add: literalStore_def [abs_def] Let_def split: if_splits)
  next
    case (FValue t' w)
    have "local_step (\<lambda>d. and_then (store_literal E item t' w q d) (\<lambda>(x, d). ok (bk x, d)))"
      by (rule local_then [OF local_store_literal]) (simp add: local_simps)
    then show ?thesis using False i j FValue by (simp add: literalStore_def [abs_def])
  qed
  then show ?thesis by (metis local_step_def)
qed

section \<open>Skipping\<close>

text \<open>How far the decoder has come in its text.\<close>

definition consumed :: "decodeState \<Rightarrow> nat \<Rightarrow> decodeState \<Rightarrow> bool" where
  "consumed d k d' \<longleftrightarrow> d_data d' = d_data d \<and> d_off d' = d_off d + k"

lemma consumed_advances: "advances d k es d' \<Longrightarrow> consumed d k d'"
  by (simp add: consumed_def advances_def)

lemma consumed_quiet: "quiet d d' \<Longrightarrow> consumed d 0 d'"
  by (auto simp: consumed_def quiet_def)

lemma consumed_trans: "consumed d k d1 \<Longrightarrow> consumed d1 l d2 \<Longrightarrow> consumed d (k + l) d2"
  by (simp add: consumed_def)

lemma consumed_drop:
  "consumed d (length w) d' \<Longrightarrow> drop (d_off d) (d_data d) = w @ u \<Longrightarrow> drop (d_off d') (d_data d') = u"
  by (simp add: consumed_def) (metis add.commute append_eq_conv_conj drop_drop)

text \<open>What follows a value inside an array or object does not prolong it.\<close>

lemma follows_gap:
  assumes "gap w" "x \<in> {CHR '','', CHR '']'', CHR ''}''}"
  shows "follows v (w @ x # u)"
proof -
  have "isSpace c \<Longrightarrow> \<not> is_digit c \<and> c \<notin> {CHR ''.'', CHR ''e'', CHR ''E''}" for c
    by (auto simp: isSpace_def is_digit_iff)
  then show ?thesis
    using assms by (auto simp: follows_def comment_def is_digit_iff elim: gap.cases)
qed

text \<open>Splitting off a value with the gap in front of it.\<close>

lemma nextValue_gap:
  assumes "gap w" "layout v t os" "follows v rest"
  shows "\<exists>s. nextValue (w @ t @ rest) scan = Some (Inr (w @ t, rest), s)"
proof -
  obtain f where f: "leads StateBeginValue [] w (skips w) f []" "begins f"
    using leads_gap_value [OF assms(1), of StateBeginValue] by (auto simp: begins_def)
  obtain g where g: "leads f [] t os g []" "ends_in v [] g" using leads_layout [OF assms(2) f(2)] by blast
  obtain s where s: "at g [] s"
      "nextValue (w @ t @ rest) scan = nextValue_loop (w @ t @ rest) (length (w @ t)) rest s"
    using leads_nextValue [OF leads_append [OF f(1) g(1)] at_reset, of "w @ t @ rest" 0 rest]
    by (auto simp: nextValue_def)
  show ?thesis
  proof (cases rest)
    case Nil
    obtain t' where "scanner_eof s = Some (scanEnd, t')" using top_eof [OF g(2) s(1)] by auto
    then show ?thesis using s(2) Nil by simp
  next
    case (Cons c cs)
    obtain t' where "scan_step s c = Some (scanEnd, t')"
      using top_step [OF g(2) s(1), of c cs] assms(3) Cons by auto
    then show ?thesis using s(2) Cons by simp
  qed
qed

text \<open>The value of a member that no field takes.\<close>

lemma skip_member:
  assumes l: "layout v t os" "follows v rest" "gap w"
    and d: "at StateBeginValue (ps @ [parseObjectValue]) (d_scan d)" "drop (d_off d) (d_data d) = w @ t @ rest"
      "d_off d \<le> length (d_data d)"
  obtains d' where "skip_value d = ok d'" "at StateEndValue (ps @ [parseObjectValue]) (d_scan d')"
    "consumed d (length w + length t) d'" "noted d' = noted d"
proof -
  obtain ns where ns: "nextValue (w @ t @ rest) (d_nextscan d) = Some (Inr (w @ t, rest), ns)"
    using nextValue_gap [OF l(3,1,2)] by blast
  obtain s where s: "feed [CHR 0x22, CHR 0x22] (d_scan d) = Some s" "at StateEndValue (ps @ [parseObjectValue]) s"
    using feed_string [OF d(1)] by blast
  let ?d = "d\<lparr>d_off := length (d_data d) - length rest, d_nextscan := ns, d_scan := s\<rparr>"
  have "skip_value d = ok ?d"
    using ns s d(1,2) by (simp add: skip_value_def Let_def at_def del: feed.simps)
  moreover have "length (drop (d_off d) (d_data d)) = length w + length t + length rest" unfolding d(2) by simp
  then have "consumed d (length w + length t) ?d" using d(3) by (simp add: consumed_def)
  ultimately show thesis using that s(2) by simp
qed

text \<open>An array or object that does not fit its target: the bracket has been read already.\<close>

lemma skip_next_bracket:
  assumes l: "layout v t os" "t = c # u" "follows v rest" "c = CHR ''['' \<or> c = CHR ''{''"
    and d: "consumed d0 1 d" "drop (d_off d0) (d_data d0) = t @ rest"
    and s: "at f qs (d_scan d)" "moves f qs (if c = CHR ''{'' then CHR ''}'' else CHR '']'') op (closed_fn ps) ps"
  obtains d' where "skip_next d = ok (t, d')" "at (closed_fn ps) ps (d_scan d')" "consumed d0 (length t) d'"
    "noted d' = noted d"
proof -
  let ?d = "d\<lparr>d_off := d_off d - 1\<rparr>"
  have off: "d_off ?d = d_off d0" "d_data ?d = d_data d0" using d(1) by (simp_all add: consumed_def)
  note n = drop_nth [OF d(2) [unfolded l(2) append_Cons]]
  obtain ns where ns: "nextValue (t @ rest) (d_nextscan d) = Some (Inr (t, rest), ns)"
    using nextValue_text [OF l(1,3)] by blast
  obtain s' where s': "scan_step (d_scan d) (if c = CHR ''{'' then CHR ''}'' else CHR '']'') = Some (op, s')"
      "at (closed_fn ps) ps s'"
    using moves_step [OF s(2,1)] by blast
  let ?e = "?d\<lparr>d_off := length (d_data d0) - length rest, d_scan := s', d_nextscan := ns\<rparr>"
  have "skip_next d = ok (t, ?e)"
    using ns s'(1) n d(2) off by (simp add: skip_next_def next_value_def)
  moreover have "length (drop (d_off d0) (d_data d0)) = length t + length rest" unfolding d(2) by simp
  then have "consumed d0 (length t) ?e" using n off(2) by (simp add: consumed_def) linarith
  ultimately show thesis using that s'(2) by simp
qed

section \<open>Elements\<close>

text \<open>A value and what it is decoded to, inside an array or object.\<close>

definition reads :: "'f tree_fn \<Rightarrow> 'f value_fn \<Rightarrow> json \<Rightarrow> string \<Rightarrow> bool" where
  "reads tval val j t \<longleftrightarrow>
     (\<forall>w f ps p d c rest ty v cs. gap w \<and> begins f \<and> (p = parseArrayValue \<or> p = parseObjectValue) \<and>
        ready f (ps @ [p]) d \<and> drop (d_off d) (d_data d) = w @ t @ c # rest \<and> stops (ps @ [p]) c \<and> follows j (c # rest) \<longrightarrow>
        agrees (tval j ty v cs (noted d)) (val ty v cs d)
          (\<lambda>d'. (\<exists>g. end_fn g \<and> ready g (ps @ [p]) d') \<and> consumed d (length w + length t) d'))"

lemma readsD:
  assumes "reads tval val j t" "gap w" "begins f" "p = parseArrayValue \<or> p = parseObjectValue"
    "ready f (ps @ [p]) d" "drop (d_off d) (d_data d) = w @ t @ c # rest" "stops (ps @ [p]) c" "follows j (c # rest)"
  shows "agrees (tval j ty v cs (noted d)) (val ty v cs d)
    (\<lambda>d'. (\<exists>g. end_fn g \<and> ready g (ps @ [p]) d') \<and> consumed d (length w + length t) d')"
  using assms(1) [unfolded reads_def, rule_format, of w f p ps d c rest ty v cs] assms(2-) by blast

text \<open>The decoder stands behind a value, up to the token behind the gap.\<close>

definition before_token :: "scan_op \<Rightarrow> step_fn \<Rightarrow> parse_state list \<Rightarrow> decodeState \<Rightarrow> nat \<Rightarrow> decodeState \<Rightarrow> bool" where
  "before_token op h rs d k d1 \<longleftrightarrow>
     (\<exists>d2. scanWhile scanSkipSpace d1 = Some (op, d2) \<and> at h rs (d_scan d2) \<and> consumed d k d2 \<and> noted d2 = noted d1)"

lemma gap_token:
  assumes g: "end_fn g" "ready g (ps @ [p]) d1" "p = parseArrayValue \<or> p = parseObjectValue" and w: "gap w"
    and d: "consumed d k d1" "drop (d_off d1) (d_data d1) = w @ x # u"
    and x: "\<And>g. end_fn g \<Longrightarrow> moves g (ps @ [p]) x op h rs" "op \<noteq> scanSkipSpace"
  shows "before_token op h rs d (k + length w + 1) d1"
proof -
  obtain g2 where g2: "leads g (ps @ [p]) w (skips w) g2 (ps @ [p])" "end_fn g2"
    using leads_gap_end [OF w g(1,3)] by blast
  obtain d2 where d2: "scanWhile scanSkipSpace d1 = Some (op, d2)" "at h rs (d_scan d2)"
      "advances d1 (length w + 1) [] d2"
    by (rule token [OF g2(1) g(2) d(2) x(1) [OF g2(2)] x(2)])
  then show ?thesis
    using noted_advances [OF d2(3)] consumed_trans [OF d(1) consumed_advances [OF d2(3)]]
    by (auto simp: before_token_def add.assoc)
qed

definition behind :: "parse_state list \<Rightarrow> decodeState \<Rightarrow> nat \<Rightarrow> decodeState \<Rightarrow> bool" where
  "behind ps d k d1 \<longleftrightarrow> (\<exists>g. end_fn g \<and> ready g ps d1) \<and> consumed d k d1"

lemma behind_quiet: "behind ps d k d1 \<Longrightarrow> quiet d1 d2 \<Longrightarrow> behind ps d k d2"
  by (auto simp: behind_def quiet_def ready_def consumed_def)

lemma read_value:
  assumes v: "reads tval val j t" and w: "gap w1" "gap w2" "begins f" and p: "p = parseArrayValue \<or> p = parseObjectValue"
    and d: "ready f (ps @ [p]) d" "drop (d_off d) (d_data d) = w1 @ t @ w2 @ x # u"
    and x: "stops (ps @ [p]) x" "x \<in> {CHR '','', CHR '']'', CHR ''}''}"
  shows "agrees (tval j ty v0 cs (noted d)) (val ty v0 cs d) (behind (ps @ [p]) d (length w1 + length t))"
proof -
  obtain c us where us: "w2 @ x # u = c # us" by (cases w2) auto
  then have "c = hd (w2 @ x # u)" by simp
  then have st: "stops (ps @ [p]) c" by (rule stops_gap [OF w(2) p _ x(1)])
  have du: "drop (d_off d) (d_data d) = w1 @ t @ c # us" using d(2) by (simp only: us)
  have fo: "follows j (c # us)" using follows_gap [OF w(2) x(2), of j u] by (simp only: us)
  show ?thesis unfolding behind_def [abs_def] by (rule readsD [OF v w(1,3) p d(1) du st fo])
qed

lemma behind_token:
  assumes b: "behind (ps @ [p]) d (length w1 + length t) d1" and p: "p = parseArrayValue \<or> p = parseObjectValue"
    and w: "gap w2" "drop (d_off d) (d_data d) = w1 @ t @ w2 @ x # u"
    and x: "\<And>g. end_fn g \<Longrightarrow> moves g (ps @ [p]) x op h rs" "op \<noteq> scanSkipSpace"
  shows "before_token op h rs d (length w1 + length t + length w2 + 1) d1"
proof -
  obtain g where g: "end_fn g" "ready g (ps @ [p]) d1" and c: "consumed d (length w1 + length t) d1"
    using b by (auto simp: behind_def)
  have "drop (d_off d1) (d_data d1) = w2 @ x # u"
    by (rule consumed_drop [of d "w1 @ t"]) (use c w(2) in simp_all)
  then show ?thesis using gap_token [OF g p w(1) c _ x] by simp
qed

lemma skip_value_frame: "skip_value d = ok d' \<Longrightarrow> d_data d' = d_data d \<and> noted d' = noted d"
  by (auto simp: skip_value_def and_then_def run_def ok_def fail_with_def Let_def
      split: option.splits sum.splits if_splits)

text \<open>An element behind the end of a fixed array.\<close>

lemma skip_part:
  assumes l: "layout v t os" "\<not> is_array v" and w: "gap w1" "gap w2" "begins f"
    and d: "at f (ps @ [parseArrayValue]) (d_scan d)" "drop (d_off d) (d_data d) = w1 @ t @ w2 @ x # u"
    and b: "scanWhile scanSkipSpace d = Some (op1, d1)" "back_up op1 d1 = Some d2" "noted d2 = noted d"
    and x: "\<And>g. end_fn g \<Longrightarrow> moves g (ps @ [parseArrayValue]) x op h rs" "op \<noteq> scanSkipSpace"
      "x \<in> {CHR '','', CHR '']'', CHR ''}''}" and dd: "d_data d2 = d_data d"
  obtains d3 where "skip_value d2 = ok d3" "before_token op h rs d (length w1 + length t + length w2 + 1) d3"
    "noted d3 = noted d"
proof -
  obtain d3 where d3: "skip_value d2 = ok d3" "d_off d3 = d_off d + length w1 + length t"
      "at StateEndValue (ps @ [parseArrayValue] @ (case v of JArr _ \<Rightarrow> [parseArrayValue] | _ \<Rightarrow> [])) (d_scan d3)"
    using skip_element_read [OF l(1) follows_gap [OF w(2) x(3)] w(1,3) d] b(1,2) by fastforce
  have "(case v of JArr _ \<Rightarrow> [parseArrayValue] | _ \<Rightarrow> []) = []" using l(2) by (cases v) (simp_all add: is_array_def)
  then have a: "at StateEndValue (ps @ [parseArrayValue]) (d_scan d3)" using d3(3) by simp
  have c: "consumed d (length w1 + length t) d3" using d3(2) skip_value_frame [OF d3(1)] dd by (simp add: consumed_def)
  have "drop (d_off d3) (d_data d3) = w2 @ x # u"
    by (rule consumed_drop [of d "w1 @ t"]) (use c d(2) in simp_all)
  then have "before_token op h rs d (length w1 + length t + length w2 + 1) d3"
    by (intro gap_token [OF _ at_ready [OF a] disjI1 [OF refl] w(2) c _ x(1,2)]) (simp_all add: end_fn_def)
  then show thesis using that d3(1) skip_value_frame [OF d3(1)] b(3) by simp
qed

text \<open>One round of the loop.\<close>

lemma elem_round:
  assumes l: "layout j t os" "reads tval val j t" and w: "gap w1" "gap w2" "begins f"
    and d: "at f (ps @ [parseArrayValue]) (d_scan d)" "drop (d_off d) (d_data d) = w1 @ t @ w2 @ x # u"
    and x: "stops (ps @ [parseArrayValue]) x" "\<And>g. end_fn g \<Longrightarrow> moves g (ps @ [parseArrayValue]) x op h rs"
      "op \<noteq> scanSkipSpace" "x \<in> {CHR '','', CHR '']'', CHR ''}''}"
    and cont: "\<And>vs sp d'. at h rs (d_scan d') \<Longrightarrow> consumed d (length w1 + length t + length w2 + 1) d' \<Longrightarrow>
      agrees (tree_elems E tval et growing js vs sp (i + 1) (noted d'))
        (if op = scanEndArray then ok ((vs, sp, i + 1), d')
         else if op \<noteq> scanArrayValue then fail_with ErrPhase
         else array_elems E val m et growing vs sp (i + 1) d') Q"
  shows "agrees (tree_elems E tval et growing (j # js) vs sp i (noted d)) (array_elems E val (Suc m) et growing vs sp i d) Q"
proof -
  obtain op1 d1 d2 f2 where b: "scanWhile scanSkipSpace d = Some (op1, d1)" "op1 \<noteq> scanEndArray" "back_up op1 d1 = Some d2"
      "ready f2 (ps @ [parseArrayValue]) d2" "begins f2" "drop (d_off d2) (d_data d2) = t @ w2 @ x # u"
      "advances d (length w1) [] d2"
    by (rule array_first [OF l(1) w(1,3) at_ready [OF d(1)] d(2)])
  note nd = noted_advances [OF b(7)] and cd = consumed_advances [OF b(7)]
  show ?thesis
  proof (cases "if growing then grow_slice E et vs sp i else Some (vs, sp)")
    case None
    then show ?thesis by simp
  next
    case (Some p)
    then obtain vs1 sp1 where g: "(if growing then grow_slice E et vs sp i else Some (vs, sp)) = Some (vs1, sp1)"
      by (cases p) auto
    have cont': "agrees (tree_elems E tval et growing js vs2 sp1 (i + 1) (noted d3))
        (and_then (run (scanWhile scanSkipSpace d3)) (\<lambda>(op, d).
           if op = scanEndArray then ok ((vs2, sp1, i + 1), d)
           else if op \<noteq> scanArrayValue then fail_with ErrPhase
           else array_elems E val m et growing vs2 sp1 (i + 1) d)) Q"
      if "before_token op h rs d (length w1 + length t + length w2 + 1) d3" for vs2 d3
      using that cont [of _ vs2 sp1] unfolding before_token_def by fastforce
    show ?thesis
    proof (cases "i < length vs1")
      case True
      have u2: "drop (d_off d2) (d_data d2) = [] @ t @ w2 @ x # u" using b(6) by simp
      have r: "agrees (tval j et (vs1 ! i) True (noted d2)) (val et (vs1 ! i) True d2)
          (before_token op h rs d2 (length ([] :: string) + length t + length w2 + 1))"
        by (rule agrees_mono [OF read_value [OF l(2) gap_Nil w(2) b(5) disjI1 [OF refl] b(4) u2 x(1,4)]])
          (rule behind_token [OF _ disjI1 [OF refl] w(2) u2 x(2,3)])
      have r': "before_token op h rs d (length w1 + length t + length w2 + 1) d3"
        if "before_token op h rs d2 (length ([] :: string) + length t + length w2 + 1) d3" for d3
        using that consumed_trans [OF cd, of "length t + length w2 + 1"] by (auto simp: before_token_def add.assoc)
      have "agrees (and_then (tval j et (vs1 ! i) True (noted d))
            (\<lambda>(x, s). tree_elems E tval et growing js (vs1[i := x]) sp1 (i + 1) s))
          (and_then (val et (vs1 ! i) True d2) (\<lambda>(x, d3).
             and_then (run (scanWhile scanSkipSpace d3)) (\<lambda>(op, d).
               if op = scanEndArray then ok ((vs1[i := x], sp1, i + 1), d)
               else if op \<noteq> scanArrayValue then fail_with ErrPhase
               else array_elems E val m et growing (vs1[i := x]) sp1 (i + 1) d))) Q"
        unfolding nd [symmetric] by (rule agrees_then [OF r], unfold prod.case, rule cont' [OF r'])
      then show ?thesis using b(1-3) True by (simp add: g and_then_assoc case_prod_unfold cong: if_cong)
    next
      case False
      show ?thesis
      proof (cases "is_array j")
        case True
        then show ?thesis using False by (simp add: g)
      next
        case na: False
        have dd: "d_data d2 = d_data d" using cd by (simp add: consumed_def)
        obtain d3 where d3: "skip_value d2 = ok d3" "before_token op h rs d (length w1 + length t + length w2 + 1) d3"
            "noted d3 = noted d"
          by (rule skip_part [OF l(1) na w d b(1,3) nd x(2-4) dd])
        then show ?thesis using cont' [OF d3(2), of vs1] b(1-3) False na by (simp add: g)
      qed
    qed
  qed
qed

text \<open>The loop of \<open>array\<close> on the elements of a text.\<close>

definition elems_agree :: "'f dec_env \<Rightarrow> 'f tree_fn \<Rightarrow> 'f value_fn \<Rightarrow> gtype \<Rightarrow> bool \<Rightarrow> json list \<Rightarrow> string \<Rightarrow> bool" where
  "elems_agree E tval val et growing js u \<longleftrightarrow>
     (\<forall>f ps d vs sp i m rest. begins f \<and> at f (ps @ [parseArrayValue]) (d_scan d) \<and>
        drop (d_off d) (d_data d) = u @ CHR '']'' # rest \<and> length u + 1 < m \<longrightarrow>
        agrees (tree_elems E tval et growing js vs sp i (noted d)) (array_elems E val m et growing vs sp i d)
          (\<lambda>d'. at (closed_fn ps) ps (d_scan d') \<and> consumed d (length u + 1) d'))"

lemma elements_agree:
  "layout v t os \<Longrightarrow> True"
  "elements js u os \<Longrightarrow> (\<And>j t os. layout j t os \<Longrightarrow> length t \<le> length u \<Longrightarrow> reads tval val j t) \<Longrightarrow>
     elems_agree E tval val et growing js u"
  "members kvs u os \<Longrightarrow> True"
proof (induction rule: layout_elements_members.inducts)
  case (el_last w1 v t os w2)
  have v: "reads tval val v t" using el_last.prems el_last.hyps(2) by simp
  show ?case
    unfolding elems_agree_def
  proof (intro allI impI, elim conjE)
    fix f ps vs sp i m rest and d :: decodeState
    assume a: "begins f" "at f (ps @ [parseArrayValue]) (d_scan d)"
      "drop (d_off d) (d_data d) = (w1 @ t @ w2) @ CHR '']'' # rest" "length (w1 @ t @ w2) + 1 < m"
    obtain n where m: "m = Suc n" using a(4) by (cases m) auto
    have u: "drop (d_off d) (d_data d) = w1 @ t @ w2 @ CHR '']'' # rest" using a(3) by simp
    show "agrees (tree_elems E tval et growing [v] vs sp i (noted d)) (array_elems E val m et growing vs sp i d)
        (\<lambda>d'. at (closed_fn ps) ps (d_scan d') \<and> consumed d (length (w1 @ t @ w2) + 1) d')"
      unfolding m
      by (rule elem_round [OF el_last.hyps(2) v el_last.hyps(1,3) a(1,2) u stops_punct(4) move_punct(5)])
        (auto intro: agrees_ok simp: add.assoc)
  qed
next
  case (el_more w1 v t os w2 vs u qs)
  have v: "reads tval val v t" using el_more.prems el_more.hyps(2) by simp
  have IH: "elems_agree E tval val et growing vs u" using el_more.IH(2) el_more.prems by simp
  show ?case
    unfolding elems_agree_def
  proof (intro allI impI, elim conjE)
    fix f ps xs sp i m rest and d :: decodeState
    assume a: "begins f" "at f (ps @ [parseArrayValue]) (d_scan d)"
      "drop (d_off d) (d_data d) = (w1 @ t @ w2 @ '','' @ u) @ CHR '']'' # rest" "length (w1 @ t @ w2 @ '','' @ u) + 1 < m"
    obtain n where m: "m = Suc n" "length u + 1 < n" using a(4) by (cases m) auto
    have ud: "drop (d_off d) (d_data d) = w1 @ t @ w2 @ CHR '','' # (u @ CHR '']'' # rest)" using a(3) by simp
    have IH': "agrees (tree_elems E tval et growing vs xs sp (i + 1) (noted d')) (array_elems E val n et growing xs sp (i + 1) d')
        (\<lambda>d''. at (closed_fn ps) ps (d_scan d'') \<and> consumed d (length (w1 @ t @ w2 @ '','' @ u) + 1) d'')"
      if d': "at StateBeginValue (ps @ [parseArrayValue]) (d_scan d')" "consumed d (length w1 + length t + length w2 + 1) d'"
      for d' xs sp
    proof -
      have "drop (d_off d') (d_data d') = u @ CHR '']'' # rest"
        by (rule consumed_drop [of d "w1 @ t @ w2 @ '',''"]) (use d'(2) ud in \<open>simp_all add: add.assoc\<close>)
      then have "agrees (tree_elems E tval et growing vs xs sp (i + 1) (noted d')) (array_elems E val n et growing xs sp (i + 1) d')
          (\<lambda>d''. at (closed_fn ps) ps (d_scan d'') \<and> consumed d' (length u + 1) d'')"
        using IH [unfolded elems_agree_def, rule_format, of StateBeginValue ps d' rest n xs sp "i + 1"] d'(1) m(2)
        by (simp add: begins_def)
      then show ?thesis
        by (rule agrees_mono) (use consumed_trans [OF d'(2), of "length u + 1"] in \<open>auto simp: add.assoc\<close>)
    qed
    show "agrees (tree_elems E tval et growing (v # vs) xs sp i (noted d)) (array_elems E val m et growing xs sp i d)
        (\<lambda>d'. at (closed_fn ps) ps (d_scan d') \<and> consumed d (length (w1 @ t @ w2 @ '','' @ u) + 1) d')"
      unfolding m(1)
      by (rule elem_round [OF el_more.hyps(2) v el_more.hyps(1,3) a(1,2) ud stops_punct(2) move_punct(3)])
        (use IH' in \<open>simp_all del: One_nat_def\<close>)
  qed
qed simp_all

section \<open>Members\<close>

lemma map_agree:
  assumes "agrees (tval j et z True (noted d)) (val et z True d) Q" "zero_of E et = Some z"
  shows "agrees (tree_map E tval j kt et v key (noted d)) (map_member E val kt et v key d) Q"
  unfolding tree_map_def map_member_def assms(2) option.case
  by (rule agrees_then [OF assms(1)]) (auto intro: agrees_ok split: option.split)

text \<open>The value of a member, wherever it goes.\<close>

lemma member_agree:
  assumes l: "layout j t os" "reads tval val j t" and w: "gap w3" "gap w4" and n: "n \<le> m"
    and d: "at StateBeginValue (ps @ [parseObjectValue]) (d_scan d)"
      "drop (d_off d) (d_data d) = w3 @ t @ w4 @ x # u" "d_off d \<le> length (d_data d)"
    and x: "stops (ps @ [parseObjectValue]) x" "x \<in> {CHR '','', CHR '']'', CHR ''}''}"
  shows "agrees (tree_member E tval n j ty v key (noted d)) (member_value E val m ty v key d)
    (behind (ps @ [parseObjectValue]) d (length w3 + length t))" (is "agrees _ _ ?Q")
proof -
  have b: "begins StateBeginValue" by (simp add: begins_def)
  have r: "agrees (tval j ty' v' cs (noted d)) (val ty' v' cs d) ?Q" for ty' v' cs
    by (rule read_value [OF l(2) w b disjI2 [OF refl] at_ready [OF d(1)] d(2) x])
  have f: "agrees (tree_field E tval n j ty v key (noted d)) (field_member E val m ty v key d) ?Q"
  proof (cases "typeFields (de_types E) (Suc (length (te_types (de_types E)))) ty")
    case (Some fs)
    show ?thesis
    proof (cases "find_key E fs key None")
      case None
      obtain d' where d': "skip_value d = ok d'" "at StateEndValue (ps @ [parseObjectValue]) (d_scan d')"
          "consumed d (length w3 + length t) d'" "noted d' = noted d"
        by (rule skip_member [OF l(1) follows_gap [OF w(2) x(2)] w(1) d])
      have "?Q d'" using d'(2,3) at_ready by (auto simp: behind_def end_fn_def)
      then show ?thesis using d'(1,4) Some None by (simp add: tree_field_def field_member_def agrees_ok)
    next
      case fld: (Some f)
      show ?thesis
      proof (cases "field_place E ty v (f_index f)")
        case pl: (Some q)
        obtain ft fv bk where q: "q = (ft, fv, bk)" by (cases q) auto
        have s: "agrees (case y of RPtr (Some (RString l)) \<Rightarrow> literalStore E n l ft fv True True (noted d1) | _ \<Rightarrow> None)
            (case y of RPtr (Some (RString l)) \<Rightarrow> literalStore E m l ft fv True True d1 | _ \<Rightarrow> None) ?Q" if "?Q d1" for y d1
          by (auto split: rval.split option.split
              intro!: agrees_mono [OF literalStore_agrees [OF n]] behind_quiet [OF that])
        have "agrees (if f_quoted f
              then and_then (tval j (TPtr TString) (RPtr (Some (RString []))) False (noted d)) (\<lambda>(y, s).
                     case y of RPtr (Some (RString l)) \<Rightarrow> literalStore E n l ft fv True True s | _ \<Rightarrow> None)
              else tval j ft fv True (noted d))
            (if f_quoted f
              then and_then (val (TPtr TString) (RPtr (Some (RString []))) False d) (\<lambda>(y, d).
                     case y of RPtr (Some (RString l)) \<Rightarrow> literalStore E m l ft fv True True d | _ \<Rightarrow> None)
              else val ft fv True d) ?Q"
        proof (cases "f_quoted f")
          case True
          show ?thesis unfolding if_P [OF True] by (rule agrees_then [OF r], unfold prod.case, rule s)
        qed (simp add: r)
        then show ?thesis
          unfolding tree_field_def field_member_def Some option.case fld pl q prod.case
          by (rule agrees_then) (simp add: agrees_ok)
      qed (simp add: Some fld tree_field_def)
    qed
  qed (simp add: tree_field_def)
  show ?thesis
  proof (cases "\<exists>kt et. kind_of (de_types E) ty = TMap kt et")
    case True
    then obtain kt et where k: "kind_of (de_types E) ty = TMap kt et" by blast
    show ?thesis
    proof (cases "zero_of E et")
      case None
      then show ?thesis by (simp add: tree_member_def k tree_map_def)
    next
      case (Some z)
      show ?thesis unfolding tree_member_def member_value_def k gtype.case by (rule map_agree [OF _ Some]) (rule r)
    qed
  next
    case False
    then have "tree_member E tval n j ty v key (noted d) = tree_field E tval n j ty v key (noted d)"
      "member_value E val m ty v key d = field_member E val m ty v key d"
      by (auto simp: tree_member_def member_value_def split: gtype.split)
    then show ?thesis using f by simp
  qed
qed

lemma member_round:
  assumes l: "layout j t os" "reads tval val j t" and f: "f = StateBeginString \<or> f = StateBeginStringOrEmpty"
    and w: "gap w1" "spaces w2" "gap w3" "gap w4" "string_body k" and n: "n \<le> m"
    and d: "ready f (ps @ [parseObjectKey]) d"
      "drop (d_off d) (d_data d) = w1 @ render_string k @ w2 @ CHR '':'' # w3 @ t @ w4 @ x # u"
    and x: "stops (ps @ [parseObjectValue]) x" "\<And>g. end_fn g \<Longrightarrow> moves g (ps @ [parseObjectValue]) x op h rs"
      "op \<noteq> scanSkipSpace" "x \<in> {CHR '','', CHR '']'', CHR ''}''}"
    and cont: "\<And>v d'. at h rs (d_scan d') \<Longrightarrow>
      consumed d (length (w1 @ render_string k @ w2 @ '':'' @ w3 @ t @ w4) + 1) d' \<Longrightarrow>
      agrees (tree_members E tval n kvs ty v (noted d'))
        (if op = scanEndObject then ok (v, d')
         else if op \<noteq> scanObjectValue then fail_with ErrPhase
         else object_members E val m ty v d') Q"
  shows "agrees (tree_members E tval n ((k, j) # kvs) ty v (noted d)) (object_members E val (Suc m) ty v d) Q"
proof -
  obtain op1 d1 d2 d3 where k: "scanWhile scanSkipSpace d = Some (scanBeginLiteral, d1)"
      "key_item d1 = ok ((str_value k, op1), d2)" "colon op1 d2 = ok d3"
      "at StateBeginValue (ps @ [parseObjectValue]) (d_scan d3)"
      "advances d (length w1 + length (render_string k) + length w2 + 1) [] d3"
      "drop (d_off d3) (d_data d3) = w3 @ t @ w4 @ x # u"
    by (rule read_key [OF f w(1,2,5) d])
  note nd = noted_advances [OF k(5)] and cd = consumed_advances [OF k(5)]
  have "drop (d_off d3) (d_data d3) \<noteq> []" unfolding k(6) by simp
  then have off: "d_off d3 \<le> length (d_data d3)" by simp
  have "agrees (and_then (tree_member E tval n j ty v (str_value k) (noted d3)) (\<lambda>(v, s). tree_members E tval n kvs ty v s))
      (and_then (member_value E val m ty v (str_value k) d3) (\<lambda>(v, d4).
         and_then (run (scanWhile scanSkipSpace d4)) (\<lambda>(op, d).
           if op = scanEndObject then ok (v, d)
           else if op \<noteq> scanObjectValue then fail_with ErrPhase
           else object_members E val m ty v d))) Q"
  proof (rule agrees_then [OF member_agree [OF l w(3,4) n k(4,6) off x(1,4)]], unfold prod.case)
    fix v d4 assume b: "behind (ps @ [parseObjectValue]) d3 (length w3 + length t) d4"
    have "before_token op h rs d3 (length w3 + length t + length w4 + 1) d4"
      by (rule behind_token [OF b disjI2 [OF refl] w(4) k(6) x(2,3)])
    then obtain d5 where d5: "scanWhile scanSkipSpace d4 = Some (op, d5)" "at h rs (d_scan d5)" "noted d5 = noted d4"
        "consumed d3 (length w3 + length t + length w4 + 1) d5"
      by (auto simp: before_token_def)
    have "consumed d (length (w1 @ render_string k @ w2 @ '':'' @ w3 @ t @ w4) + 1) d5"
      using consumed_trans [OF cd d5(4)] by (simp add: add.assoc add.left_commute)
    from cont [OF d5(2) this, of v] show "agrees (tree_members E tval n kvs ty v (noted d4))
        (and_then (run (scanWhile scanSkipSpace d4)) (\<lambda>(op, d).
           if op = scanEndObject then ok (v, d)
           else if op \<noteq> scanObjectValue then fail_with ErrPhase
           else object_members E val m ty v d)) Q"
      using d5(1,3) by simp
  qed
  then show ?thesis using k(1-3) by (simp add: nd)
qed

text \<open>The loop of \<open>object\<close> on the members of a text.\<close>

definition members_agree :: "'f dec_env \<Rightarrow> 'f tree_fn \<Rightarrow> 'f value_fn \<Rightarrow> nat \<Rightarrow> (string \<times> json) list \<Rightarrow> string \<Rightarrow> bool" where
  "members_agree E tval val n kvs u \<longleftrightarrow>
     (\<forall>f ps d ty v m rest. (f = StateBeginString \<or> f = StateBeginStringOrEmpty) \<and> at f (ps @ [parseObjectKey]) (d_scan d) \<and>
        drop (d_off d) (d_data d) = u @ CHR ''}'' # rest \<and> length u + n < m \<longrightarrow>
        agrees (tree_members E tval n kvs ty v (noted d)) (object_members E val m ty v d)
          (\<lambda>d'. at (closed_fn ps) ps (d_scan d') \<and> consumed d (length u + 1) d'))"

lemma members_agree_layout:
  "layout v t os \<Longrightarrow> True"
  "elements js u os \<Longrightarrow> True"
  "members kvs u os \<Longrightarrow> (\<And>j t os. layout j t os \<Longrightarrow> length t \<le> length u \<Longrightarrow> reads tval val j t) \<Longrightarrow>
     members_agree E tval val n kvs u"
proof (induction rule: layout_elements_members.inducts)
  case (mem_last w1 w2 w3 v t os w4 k)
  have v: "reads tval val v t" using mem_last.prems mem_last.hyps(4) by simp
  show ?case
    unfolding members_agree_def
  proof (intro allI impI, elim conjE)
    fix f ps ty x m rest and d :: decodeState
    assume a: "f = StateBeginString \<or> f = StateBeginStringOrEmpty" "at f (ps @ [parseObjectKey]) (d_scan d)"
      "drop (d_off d) (d_data d) = (w1 @ render_string k @ w2 @ '':'' @ w3 @ t @ w4) @ CHR ''}'' # rest"
      "length (w1 @ render_string k @ w2 @ '':'' @ w3 @ t @ w4) + n < m"
    obtain m' where m: "m = Suc m'" "n \<le> m'" using a(4) by (cases m) auto
    have u: "drop (d_off d) (d_data d) = w1 @ render_string k @ w2 @ CHR '':'' # w3 @ t @ w4 @ CHR ''}'' # rest"
      using a(3) by simp
    show "agrees (tree_members E tval n [(k, v)] ty x (noted d)) (object_members E val m ty x d)
        (\<lambda>d'. at (closed_fn ps) ps (d_scan d') \<and>
           consumed d (length (w1 @ render_string k @ w2 @ '':'' @ w3 @ t @ w4) + 1) d')"
      unfolding m(1)
      by (rule member_round [OF mem_last.hyps(4) v a(1) mem_last.hyps(1,2,3,5,6) m(2) at_ready [OF a(2)] u stops_punct(3) move_punct(4)])
        (auto intro: agrees_ok)
  qed
next
  case (mem_more w1 w2 w3 v t os w4 kvs u qs k)
  have v: "reads tval val v t" using mem_more.prems mem_more.hyps(4) by simp
  have IH: "members_agree E tval val n kvs u" using mem_more.IH(2) mem_more.prems by simp
  show ?case
    unfolding members_agree_def
  proof (intro allI impI, elim conjE)
    fix f ps ty x m rest and d :: decodeState
    let ?t = "w1 @ render_string k @ w2 @ '':'' @ w3 @ t @ w4"
    assume a: "f = StateBeginString \<or> f = StateBeginStringOrEmpty" "at f (ps @ [parseObjectKey]) (d_scan d)"
      "drop (d_off d) (d_data d) = (w1 @ render_string k @ w2 @ '':'' @ w3 @ t @ w4 @ '','' @ u) @ CHR ''}'' # rest"
      "length (w1 @ render_string k @ w2 @ '':'' @ w3 @ t @ w4 @ '','' @ u) + n < m"
    obtain m' where m: "m = Suc m'" "length u + n < m'" "n \<le> m'" using a(4) by (cases m) auto
    have ud: "drop (d_off d) (d_data d) =
        w1 @ render_string k @ w2 @ CHR '':'' # w3 @ t @ w4 @ CHR '','' # (u @ CHR ''}'' # rest)"
      using a(3) by simp
    have IH': "agrees (tree_members E tval n kvs ty y (noted d')) (object_members E val m' ty y d')
        (\<lambda>d''. at (closed_fn ps) ps (d_scan d'') \<and> consumed d (length ?t + 1 + (length u + 1)) d'')"
      if d': "at StateBeginString (ps @ [parseObjectKey]) (d_scan d')" "consumed d (length ?t + 1) d'" for d' y
    proof -
      have "drop (d_off d') (d_data d') = u @ CHR ''}'' # rest"
        by (rule consumed_drop [of d "?t @ '',''"]) (use d'(2) ud in simp_all)
      then have "agrees (tree_members E tval n kvs ty y (noted d')) (object_members E val m' ty y d')
          (\<lambda>d''. at (closed_fn ps) ps (d_scan d'') \<and> consumed d' (length u + 1) d'')"
        using IH [unfolded members_agree_def, rule_format, of StateBeginString ps d' rest m' ty y] d'(1) m(2) by simp
      then show ?thesis
        by (rule agrees_mono) (use consumed_trans [OF d'(2), of "length u + 1"] in blast)
    qed
    have len: "length (w1 @ render_string k @ w2 @ '':'' @ w3 @ t @ w4 @ '','' @ u) + 1 = length ?t + 1 + (length u + 1)"
      by simp
    show "agrees (tree_members E tval n ((k, v) # kvs) ty x (noted d)) (object_members E val m ty x d)
        (\<lambda>d'. at (closed_fn ps) ps (d_scan d') \<and>
           consumed d (length (w1 @ render_string k @ w2 @ '':'' @ w3 @ t @ w4 @ '','' @ u) + 1) d')"
      unfolding m(1) len
      by (rule member_round [OF mem_more.hyps(4) v a(1) mem_more.hyps(1,2,3,5,7) m(3) at_ready [OF a(2)] ud stops_punct(1) move_punct(2)])
        (use IH' in simp_all)
  qed
qed simp_all

section \<open>Arrays, objects and values\<close>

lemma saveError_simps [simp]:
  "d_scan (saveError e d) = d_scan d" "d_data (saveError e d) = d_data d" "d_off (saveError e d) = d_off d"
  "d_nextscan (saveError e d) = d_nextscan d" "d_useNumber (saveError e d) = d_useNumber d"
  "consumed d0 k (saveError e d) = consumed d0 k d"
  by (simp_all add: saveError_def consumed_def)

text \<open>The decoder has read the bracket a value begins with.\<close>

definition opened_at :: "char \<Rightarrow> json \<Rightarrow> string \<Rightarrow> string \<Rightarrow> parse_state list \<Rightarrow> decodeState \<Rightarrow> decodeState \<Rightarrow> bool" where
  "opened_at c j t rest ps d0 d \<longleftrightarrow>
     (\<exists>os u. layout j t os \<and> t = c # u) \<and> consumed d0 1 d \<and> drop (d_off d0) (d_data d0) = t @ rest \<and>
     (if c = CHR ''['' then at StateBeginValueOrEmpty (ps @ [parseArrayValue]) (d_scan d)
      else c = CHR ''{'' \<and> at StateBeginStringOrEmpty (ps @ [parseObjectKey]) (d_scan d))"

definition closed_at :: "parse_state list \<Rightarrow> decodeState \<Rightarrow> nat \<Rightarrow> decodeState \<Rightarrow> bool" where
  "closed_at ps d0 k d \<longleftrightarrow> at (closed_fn ps) ps (d_scan d) \<and> consumed d0 k d"

lemma type_error_agree:
  assumes "opened_at c j t rest ps d0 d" "\<nexists>n. j = JNum n"
  shows "agrees (ok (x, noted (saveError (ErrType what ty) d))) (type_error what ty x d) (closed_at ps d0 (length t))"
proof -
  obtain os u where l: "layout j t os" "t = c # u" using assms(1) by (auto simp: opened_at_def)
  have f: "follows j rest" using assms(2) by (auto simp: follows_def)
  let ?d = "saveError (ErrType what ty) d"
  have c: "c = CHR ''['' \<or> c = CHR ''{''" using assms(1) by (auto simp: opened_at_def split: if_splits)
  obtain d' where "skip_next ?d = ok (t, d')" "at (closed_fn ps) ps (d_scan d')" "consumed d0 (length t) d'"
      "noted d' = noted ?d"
  proof (cases "c = CHR ''[''")
    case True
    show thesis
      by (rule skip_next_bracket [OF l f c, of d0 ?d StateBeginValueOrEmpty "ps @ [parseArrayValue]" scanEndArray ps])
        (use assms(1) True move_empty(2) that in \<open>auto simp: opened_at_def\<close>)
  next
    case False
    show thesis
      by (rule skip_next_bracket [OF l f c, of d0 ?d StateBeginStringOrEmpty "ps @ [parseObjectKey]" scanEndObject ps])
        (use assms(1) False move_empty(1) that in \<open>auto simp: opened_at_def\<close>)
  qed
  then show ?thesis by (simp add: type_error_def agrees_ok closed_at_def)
qed

lemma target_agree:
  assumes d: "opened_at c j t rest ps d0 d" "\<nexists>n. j = JNum n" and k: "k \<le> n"
    and r: "\<And>t' w. agrees (r t' w) (r' t' w) (closed_at ps d0 (length t))"
  shows "agrees (tree_target E k what ty v cs (noted d) r) (with_target E n what ty v cs d r') (closed_at ps d0 (length t))"
proof (cases "indirect E k ty v cs False")
  case (Some p)
  note i = indirect_more [OF Some k]
  obtain fc bk where p: "p = (fc, bk)" by (cases p) auto
  show ?thesis
  proof (cases fc)
    case (FText pt w)
    then show ?thesis using Some i p type_error_agree [OF d] by (simp add: tree_target_def with_target_def)
  next
    case (FValue t' w)
    have "agrees (and_then (r t' w) (\<lambda>(x, s). ok (bk x, s))) (and_then (r' t' w) (\<lambda>(x, d). ok (bk x, d))) (closed_at ps d0 (length t))"
      by (rule agrees_then [OF r]) (simp add: agrees_ok)
    then show ?thesis using Some i p FValue by (simp add: tree_target_def with_target_def)
  qed (simp add: Some p tree_target_def)
qed (simp add: tree_target_def)

text \<open>An empty interface takes the value as \<open>arrayInterface\<close> and \<open>objectInterface\<close> build it.\<close>

lemma interface_agree:
  assumes "m = ok (go_value (de_parseFloat E 64) (d_useNumber d) j, d')" "Q d'"
    "advances d k (num_errors (de_parseFloat E 64) (d_useNumber d) j) d'"
  shows "agrees (interface_value E j (noted d)) (and_then m (\<lambda>(g, d). ok (RIface (reflected g), d))) Q"
proof -
  have "(noted d)\<lparr>d_savedError := first_error (d_savedError d) (num_errors (de_parseFloat E 64) (d_useNumber d) j)\<rparr> = noted d'"
    using assms(3) by (simp add: noted_def advances_def)
  then show ?thesis using assms(1,2) by (simp add: interface_value_def agrees_ok)
qed

text \<open>The elements up to the closing bracket.\<close>

lemma elems_body:
  assumes l: "js = [] \<and> gap u \<or> (\<exists>os. elements js u os)"
    and r: "\<And>j t os. layout j t os \<Longrightarrow> length t \<le> length u \<Longrightarrow> reads tval val j t"
    and d: "at StateBeginValueOrEmpty (ps @ [parseArrayValue]) (d_scan d)" "drop (d_off d) (d_data d) = u @ CHR '']'' # rest"
      "length u + 1 < m" "consumed d0 1 d"
  shows "agrees (tree_elems E tval et growing js vs sp i (noted d)) (array_elems E val m et growing vs sp i d)
    (closed_at ps d0 (length u + 2))"
  using l
proof (elim disjE conjE exE)
  assume e: "js = []" "gap u"
  obtain g where "leads StateBeginValueOrEmpty (ps @ [parseArrayValue]) u (skips u) g (ps @ [parseArrayValue])"
      "g = StateBeginValueOrEmpty"
    using leads_gap_value [OF e(2), of StateBeginValueOrEmpty] by (auto simp: begins_def)
  then obtain d' where d': "scanWhile scanSkipSpace d = Some (scanEndArray, d')" "at (closed_fn ps) ps (d_scan d')"
      "advances d (length u + 1) [] d'"
    using token [OF _ at_ready [OF d(1)] d(2) move_empty(2)] by blast
  obtain n where "m = Suc n" using d(3) by (cases m) auto
  moreover have "closed_at ps d0 (length u + 2) d'"
    using d'(2) consumed_trans [OF d(4) consumed_advances [OF d'(3)]] by (simp add: closed_at_def)
  ultimately show ?thesis using d'(1) noted_advances [OF d'(3)] e(1) by (simp add: agrees_ok)
next
  fix os assume "elements js u os"
  then have e: "elems_agree E tval val et growing js u" using elements_agree(2) r by blast
  have "agrees (tree_elems E tval et growing js vs sp i (noted d)) (array_elems E val m et growing vs sp i d)
      (\<lambda>d'. at (closed_fn ps) ps (d_scan d') \<and> consumed d (length u + 1) d')"
    using e [unfolded elems_agree_def, rule_format, of StateBeginValueOrEmpty ps d rest m vs sp i] d(1-3)
    by (simp add: begins_def)
  then show ?thesis
    by (rule agrees_mono) (use consumed_trans [OF d(4), of "length u + 1"] in \<open>auto simp: closed_at_def\<close>)
qed

lemma members_body:
  assumes l: "kvs = [] \<and> spaces u \<or> (\<exists>os. members kvs u os)"
    and r: "\<And>j t os. layout j t os \<Longrightarrow> length t \<le> length u \<Longrightarrow> reads tval val j t"
    and d: "at StateBeginStringOrEmpty (ps @ [parseObjectKey]) (d_scan d)" "drop (d_off d) (d_data d) = u @ CHR ''}'' # rest"
      "length u + n < m" "consumed d0 1 d"
  shows "agrees (tree_members E tval n kvs ty v (noted d)) (object_members E val m ty v d) (closed_at ps d0 (length u + 2))"
  using l
proof (elim disjE conjE exE)
  assume e: "kvs = []" "spaces u"
  have "leads StateBeginStringOrEmpty (ps @ [parseObjectKey]) u (skips u) StateBeginStringOrEmpty (ps @ [parseObjectKey])"
    by (rule leads_spaces) (use e(2) in \<open>simp_all add: skipping_def\<close>)
  then obtain d' where d': "scanWhile scanSkipSpace d = Some (scanEndObject, d')" "at (closed_fn ps) ps (d_scan d')"
      "advances d (length u + 1) [] d'"
    using token [OF _ at_ready [OF d(1)] d(2) move_empty(1)] by blast
  obtain m' where "m = Suc m'" using d(3) by (cases m) auto
  moreover have "closed_at ps d0 (length u + 2) d'"
    using d'(2) consumed_trans [OF d(4) consumed_advances [OF d'(3)]] by (simp add: closed_at_def)
  ultimately show ?thesis using d'(1) noted_advances [OF d'(3)] e(1) by (simp add: agrees_ok)
next
  fix os assume "members kvs u os"
  then have e: "members_agree E tval val n kvs u" using members_agree_layout(3) r by blast
  have "agrees (tree_members E tval n kvs ty v (noted d)) (object_members E val m ty v d)
      (\<lambda>d'. at (closed_fn ps) ps (d_scan d') \<and> consumed d (length u + 1) d')"
    using e [unfolded members_agree_def, rule_format, of StateBeginStringOrEmpty ps d rest m ty v] d(1-3) by simp
  then show ?thesis
    by (rule agrees_mono) (use consumed_trans [OF d(4), of "length u + 1"] in \<open>auto simp: closed_at_def\<close>)
qed

text \<open>The text between the brackets.\<close>

lemma array_inner:
  assumes "layout (JArr js) t os"
  obtains u where "t = ''['' @ u @ '']''" "js = [] \<and> gap u \<or> (\<exists>os. elements js u os)" "array_body pf js u"
  using assms
proof cases
  case (lay_empty_array w)
  then show ?thesis using that array_body_empty by blast
next
  case (lay_array u os')
  then show ?thesis using that array_body_elements [OF decodes_layout(2)] by blast
qed

lemma object_inner:
  assumes "layout (JObj kvs) t os"
  obtains u where "t = ''{'' @ u @ ''}''" "kvs = [] \<and> spaces u \<or> (\<exists>os. members kvs u os)" "object_body pf kvs u"
  using assms
proof cases
  case (lay_empty_object w)
  then show ?thesis using that object_body_empty by blast
next
  case (lay_object u os')
  then show ?thesis using that object_body_members [OF decodes_layout(3)] by blast
qed

lemma array_agree:
  assumes d: "opened_at (CHR ''['') (JArr js) t rest ps d0 d" and k: "length t + k < n"
    and r: "\<And>j u os. layout j u os \<Longrightarrow> length u + 2 \<le> length t \<Longrightarrow> reads tval val j u"
  shows "agrees (tree_array E tval k js ty v cs (noted d)) (array_at E val n ty v cs d) (closed_at ps d0 (length t))"
proof -
  obtain os where l: "layout (JArr js) t os" using d by (auto simp: opened_at_def)
  obtain u where u: "t = ''['' @ u @ '']''" "js = [] \<and> gap u \<or> (\<exists>os. elements js u os)"
      "array_body (de_parseFloat E 64) js u"
    by (rule array_inner [OF l])
  have a: "at StateBeginValueOrEmpty (ps @ [parseArrayValue]) (d_scan d)" and c: "consumed d0 1 d"
    using d by (auto simp: opened_at_def)
  have dd: "drop (d_off d) (d_data d) = u @ CHR '']'' # rest"
    by (rule consumed_drop [of d0 "''[''"]) (use d u(1) in \<open>simp_all add: opened_at_def\<close>)
  have len: "length u + 2 = length t" "length u + 1 < n" using u(1) k by simp_all
  have el: "agrees (tree_elems E tval et growing js vs sp 0 (noted d)) (array_elems E val n et growing vs sp 0 d)
      (closed_at ps d0 (length t))" for et growing vs sp
    using elems_body [OF u(2) r a dd len(2) c] len(1) by simp
  have te: "agrees (ok (w, noted (saveError (ErrType ''array'' t') d))) (type_error ''array'' t' w d) (closed_at ps d0 (length t))"
    for t' w
    by (rule type_error_agree [OF d]) simp
  obtain d' where d': "arrayInterface (de_parseFloat E 64) n [] d = ok (go_value (de_parseFloat E 64) (d_useNumber d) (JArr js), d')"
      "at (closed_fn ps) ps (d_scan d')" "advances d (length u + 1) (num_errors (de_parseFloat E 64) (d_useNumber d) (JArr js)) d'"
    by (rule array_bodyD [OF u(3) a dd len(2)])
  have "closed_at ps d0 (length t) d'"
    using d'(2) consumed_trans [OF c consumed_advances [OF d'(3)]] len(1) by (simp add: closed_at_def)
  then have i: "agrees (interface_value E (JArr js) (noted d))
      (and_then (arrayInterface (de_parseFloat E 64) n [] d) (\<lambda>(g, d). ok (RIface (reflected g), d))) (closed_at ps d0 (length t))"
    by (rule interface_agree [OF d'(1) _ d'(3)])
  show ?thesis
    unfolding tree_array_def array_at_def
  proof (rule target_agree [OF d], goal_cases)
    case (3 t' w)
    show ?case
      by (cases "kind_of (de_types E) t'")
        (simp_all add: te i, (cases w; auto intro!: agrees_then [OF el] agrees_ok split: option.split)+)
  qed (use k in simp_all)
qed

lemma object_agree:
  assumes d: "opened_at (CHR ''{'') (JObj kvs) t rest ps d0 d" and k: "length t + k < n"
    and r: "\<And>j u os. layout j u os \<Longrightarrow> length u + 2 \<le> length t \<Longrightarrow> reads tval val j u"
  shows "agrees (tree_object E tval k kvs ty v cs (noted d)) (object_at E val n ty v cs d) (closed_at ps d0 (length t))"
proof -
  obtain os where l: "layout (JObj kvs) t os" using d by (auto simp: opened_at_def)
  obtain u where u: "t = ''{'' @ u @ ''}''" "kvs = [] \<and> spaces u \<or> (\<exists>os. members kvs u os)"
      "object_body (de_parseFloat E 64) kvs u"
    by (rule object_inner [OF l])
  have a: "at StateBeginStringOrEmpty (ps @ [parseObjectKey]) (d_scan d)" and c: "consumed d0 1 d"
    using d by (auto simp: opened_at_def)
  have dd: "drop (d_off d) (d_data d) = u @ CHR ''}'' # rest"
    by (rule consumed_drop [of d0 "''{''"]) (use d u(1) in \<open>simp_all add: opened_at_def\<close>)
  have len: "length u + 2 = length t" "length u + 1 < n" "length u + k < n" using u(1) k by simp_all
  have el: "agrees (tree_members E tval k kvs ty' v' (noted d)) (object_members E val n ty' v' d) (closed_at ps d0 (length t))"
    for ty' v'
    using members_body [OF u(2) r a dd len(3) c] len(1) by simp
  have el': "agrees (tree_members E tval k kvs ty' v' (noted (saveError e d))) (object_members E val n ty' v' (saveError e d))
      (closed_at ps d0 (length t))" for ty' v' e
    unfolding len(1) [symmetric] by (rule members_body [OF u(2) r]) (use a dd len c in simp_all)
  have te: "agrees (ok (w, noted (saveError (ErrType ''object'' t') d))) (type_error ''object'' t' w d) (closed_at ps d0 (length t))"
    for t' w
    by (rule type_error_agree [OF d]) simp
  obtain d' where d': "objectInterface (de_parseFloat E 64) n [] d = ok (go_value (de_parseFloat E 64) (d_useNumber d) (JObj kvs), d')"
      "at (closed_fn ps) ps (d_scan d')" "advances d (length u + 1) (num_errors (de_parseFloat E 64) (d_useNumber d) (JObj kvs)) d'"
    by (rule object_bodyD [OF u(3) a dd len(2)])
  have "closed_at ps d0 (length t) d'"
    using d'(2) consumed_trans [OF c consumed_advances [OF d'(3)]] len(1) by (simp add: closed_at_def)
  then have i: "agrees (interface_value E (JObj kvs) (noted d))
      (and_then (objectInterface (de_parseFloat E 64) n [] d) (\<lambda>(g, d). ok (RIface (reflected g), d))) (closed_at ps d0 (length t))"
    by (rule interface_agree [OF d'(1) _ d'(3)])
  show ?thesis
    unfolding tree_object_def object_at_def
  proof (rule target_agree [OF d], goal_cases)
    case (3 t' w)
    show ?case by (cases "kind_of (de_types E) t'") (simp_all add: te i el el')
  qed (use k in simp_all)
qed

lemma closed_from: "consumed d k d0 \<Longrightarrow> closed_at ps d0 l d' \<Longrightarrow> closed_at ps d (k + l) d'"
  using consumed_trans by (auto simp: closed_at_def)

text \<open>A value in brackets, at any depth.\<close>

lemma bracket_agree:
  assumes l: "layout j t os" "\<not> is_literal j" and f: "leads f ps w (skips w) f1 ps" "begins f1"
    and d: "ready f ps d" "drop (d_off d) (d_data d) = w @ t @ rest" and k: "length t + k < n"
    and r: "\<And>j u os. layout j u os \<Longrightarrow> length u + 2 \<le> length t \<Longrightarrow> reads (tree_value E k) (value_at E n) j u"
  shows "agrees (tree_value E (Suc k) j ty v cs (noted d)) (value_at E (Suc n) ty v cs d) (closed_at ps d (length w + length t))"
proof -
  let ?d0 = "d\<lparr>d_off := d_off d + length w\<rparr>"
  have d0: "consumed d (length w) ?d0" by (simp add: consumed_def)
  have u0: "drop (d_off ?d0) (d_data ?d0) = t @ rest" by (rule consumed_drop [OF d0 d(2)])
  have opened: "opened_at c j t rest ps ?d0 d1" if "t = c # u" "advances d (length w + 1) [] d1"
      "if c = CHR ''['' then at StateBeginValueOrEmpty (ps @ [parseArrayValue]) (d_scan d1)
       else c = CHR ''{'' \<and> at StateBeginStringOrEmpty (ps @ [parseObjectKey]) (d_scan d1)" for c u d1
    using that l(1) u0 by (auto simp: opened_at_def consumed_def advances_def)
  show ?thesis
  proof (cases j)
    case (JArr js)
    obtain u where u: "t = CHR ''['' # u" by (rule array_inner [OF l(1) [unfolded JArr], of "\<lambda>_. None :: unit option"]) simp
    have u': "drop (d_off d) (d_data d) = w @ CHR ''['' # (u @ rest)" using d(2) u by simp
    obtain d1 where d1: "scanWhile scanSkipSpace d = Some (scanBeginArray, d1)"
        "at StateBeginValueOrEmpty (ps @ [parseArrayValue]) (d_scan d1)" "advances d (length w + 1) [] d1"
      by (rule token [OF f(1) d(1) u' move_open(2) [OF f(2)]]) (simp, blast)
    have o: "opened_at (CHR ''['') (JArr js) t rest ps ?d0 d1" using opened [OF u d1(3)] d1(2) JArr by simp
    have "agrees (tree_array E (tree_value E k) k js ty v cs (noted d1)) (array_at E (value_at E n) n ty v cs d1)
        (closed_at ps d (length w + length t))"
      by (rule agrees_mono [OF array_agree [OF o k r] closed_from [OF d0]])
    then show ?thesis using d1(1) noted_advances [OF d1(3)] JArr by simp
  next
    case (JObj kvs)
    obtain u where u: "t = CHR ''{'' # u" by (rule object_inner [OF l(1) [unfolded JObj], of "\<lambda>_. None :: unit option"]) simp
    have u': "drop (d_off d) (d_data d) = w @ CHR ''{'' # (u @ rest)" using d(2) u by simp
    obtain d1 where d1: "scanWhile scanSkipSpace d = Some (scanBeginObject, d1)"
        "at StateBeginStringOrEmpty (ps @ [parseObjectKey]) (d_scan d1)" "advances d (length w + 1) [] d1"
      by (rule token [OF f(1) d(1) u' move_open(1) [OF f(2)]]) (simp, blast)
    have o: "opened_at (CHR ''{'') (JObj kvs) t rest ps ?d0 d1" using opened [OF u d1(3)] d1(2) JObj by simp
    have "agrees (tree_object E (tree_value E k) k kvs ty v cs (noted d1)) (object_at E (value_at E n) n ty v cs d1)
        (closed_at ps d (length w + length t))"
      by (rule agrees_mono [OF object_agree [OF o k r] closed_from [OF d0]])
    then show ?thesis using d1(1) noted_advances [OF d1(3)] JObj by simp
  qed (use l(2) in simp_all)
qed

text \<open>A literal, once its bytes are read.\<close>

lemma literal_agree:
  assumes "is_literal j" "scanWhile scanSkipSpace d = Some (scanBeginLiteral, d1)" "literal_item d1 = ok (render j, d2)"
    and "noted d2 = noted d" "k \<le> n"
  shows "agrees (tree_value E (Suc k) j ty v cs (noted d)) (value_at E (Suc n) ty v cs d) (quiet d2)"
proof -
  have "tree_value E (Suc k) j ty v cs (noted d) = literalStore E k (render j) ty v cs False (noted d)"
    using assms(1) by (cases j) simp_all
  then show ?thesis
    using literalStore_agrees [OF assms(5), of E "render j" ty v cs False d2] assms(2-4) by simp
qed

lemma reads_layout:
  "layout j t os \<Longrightarrow> length t + k < n \<Longrightarrow> reads (tree_value E k) (value_at E n) j t"
proof (induction k arbitrary: j t os n)
  case 0
  then show ?case by (simp add: reads_def)
next
  case (Suc k)
  obtain m where n: "n = Suc m" "length t + k < m" using Suc.prems(2) by (cases n) auto
  show ?case
    unfolding reads_def
  proof (intro allI impI, elim conjE)
    fix w f ps p d c rest ty v cs
    assume a: "gap w" "begins f" "p = parseArrayValue \<or> p = parseObjectValue" "ready f (ps @ [p]) d"
      "drop (d_off d) (d_data d) = w @ t @ c # rest" "stops (ps @ [p]) c" "follows j (c # rest)"
    obtain f1 where f1: "leads f (ps @ [p]) w (skips w) f1 (ps @ [p])" "begins f1"
      using leads_gap_value [OF a(1,2)] by blast
    show "agrees (tree_value E (Suc k) j ty v cs (noted d)) (value_at E n ty v cs d)
        (\<lambda>d'. (\<exists>g. end_fn g \<and> ready g (ps @ [p]) d') \<and> consumed d (length w + length t) d')"
    proof (cases "is_literal j")
      case False
      have "agrees (tree_value E (Suc k) j ty v cs (noted d)) (value_at E (Suc m) ty v cs d)
          (closed_at (ps @ [p]) d (length w + length t))"
        by (rule bracket_agree [OF Suc.prems(1) False f1 a(4,5) n(2)]) (rule Suc.IH, use n(2) in simp_all)
      then show ?thesis
        unfolding n(1) by (rule agrees_mono) (use closed_ready in \<open>auto simp: closed_at_def\<close>)
    next
      case True
      obtain g where g: "t = render j" "leads f1 (ps @ [p]) t (lit_ops t) g (ps @ [p])" "end_fn g" "t \<noteq> []"
        by (rule literal_leads [OF True Suc.prems(1) f1(2), of "ps @ [p]"])
      obtain c0 us f2 qs where c: "t = c0 # us" "moves f1 (ps @ [p]) c0 scanBeginLiteral f2 qs"
          "leads f2 qs us (conts us) g (ps @ [p])"
        by (rule leads_lit_split [OF g(2,4)])
      have u: "drop (d_off d) (d_data d) = w @ c0 # (us @ c # rest)" using a(5) c(1) by simp
      obtain d1 where d1: "scanWhile scanSkipSpace d = Some (scanBeginLiteral, d1)" "at f2 qs (d_scan d1)"
          "advances d (length w + 1) [] d1"
        by (rule token [OF f1(1) a(4) u c(2)]) (simp, blast)
      have "drop (d_off d + length w) (d_data d) = t @ c # rest"
        using a(5) by (metis append_eq_conv_conj drop_drop add.commute)
      then have off: "1 \<le> d_off d1" "drop (d_off d1 - 1) (d_data d1) = (c0 # us) @ c # rest"
        using d1(3) c(1) by (simp_all add: advances_def)
      obtain d2 where d2: "literal_item d1 = ok (c0 # us, d2)" "ready g (ps @ [p]) d2" "advances d1 (length us) [] d2"
        by (rule literal_item_ready [OF c(3) at_ready [OF d1(2)] off g(3) a(6)])
      have "consumed d (length w + length t) d2"
        using consumed_advances [OF advances_trans [OF d1(3) d2(3)]] c(1) by simp
      then have b: "behind (ps @ [p]) d (length w + length t) d2" using d2(2) g(3) by (auto simp: behind_def)
      have li: "literal_item d1 = ok (render j, d2)" using d2(1) g(1) c(1) by simp
      have nd: "noted d2 = noted d" using noted_advances [OF d1(3)] noted_advances [OF d2(3)] by simp
      have "agrees (tree_value E (Suc k) j ty v cs (noted d)) (value_at E (Suc m) ty v cs d) (quiet d2)"
        by (rule literal_agree [OF True d1(1) li nd]) (use n(2) in simp)
      then show ?thesis
        unfolding n(1) by (rule agrees_mono) (use behind_quiet [OF b] in \<open>auto simp: behind_def\<close>)
    qed
  qed
qed

section \<open>Whole texts\<close>

lemma value_at_tree:
  assumes l: "layout j t os" and w: "gap w" and s: "spaces rest"
    and d: "at StateBeginValue [] (d_scan d)" "drop (d_off d) (d_data d) = w @ t @ rest" "length t + k < n"
  shows "agrees (tree_value E (Suc k) j ty v cs (noted d)) (value_at E (Suc n) ty v cs d) (\<lambda>_. True)"
proof -
  obtain f1 where f1: "leads StateBeginValue [] w (skips w) f1 []" "begins f1"
    using leads_gap_value [OF w, of StateBeginValue] by (auto simp: begins_def)
  note r = at_ready [OF d(1)]
  show ?thesis
  proof (cases "is_literal j")
    case False
    show ?thesis
      by (rule agrees_mono [OF bracket_agree [OF l False f1 r d(2,3)] TrueI]) (rule reads_layout, use d(3) in simp_all)
  next
    case True
    obtain g where g: "t = render j" "leads f1 [] t (lit_ops t) g []" "ends_in j [] g" "t \<noteq> []"
      by (rule literal_leads [OF True l f1(2), of "[]"])
    obtain c0 us f2 qs where c: "t = c0 # us" "moves f1 [] c0 scanBeginLiteral f2 qs" "leads f2 qs us (conts us) g []"
      by (rule leads_lit_split [OF g(2,4)])
    have u: "drop (d_off d) (d_data d) = w @ c0 # (us @ rest)" using d(2) c(1) by simp
    obtain d1 where d1: "scanWhile scanSkipSpace d = Some (scanBeginLiteral, d1)" "at f2 qs (d_scan d1)"
        "advances d (length w + 1) [] d1"
      by (rule token [OF f1(1) r u c(2)]) (simp, blast)
    have "drop (d_off d + length w) (d_data d) = t @ rest"
      using d(2) by (metis append_eq_conv_conj drop_drop add.commute)
    then have off: "1 \<le> d_off d1" "drop (d_off d1 - 1) (d_data d1) = (c0 # us) @ rest"
      using d1(3) c(1) by (simp_all add: advances_def)
    obtain d2 where d2: "literal_item d1 = ok (c0 # us, d2)" "advances d1 (length us) [] d2"
      by (rule literal_item_top [OF c(3) d1(2) off g(3) s])
    have li: "literal_item d1 = ok (render j, d2)" using d2(1) g(1) c(1) by simp
    have nd: "noted d2 = noted d" using noted_advances [OF d1(3)] noted_advances [OF d2(2)] by simp
    show ?thesis by (rule agrees_mono [OF literal_agree [OF True d1(1) li nd] TrueI]) (use d(3) in simp)
  qed
qed

definition unmarshal_result :: "(decode_error + 'f rval \<times> decodeState) \<Rightarrow> decode_error option \<times> 'f rval option" where
  "unmarshal_result r = (case r of Inl e \<Rightarrow> (Some e, None) | Inr (x, s) \<Rightarrow> (d_savedError s, Some x))"

lemma Unmarshal_text_tree:
  assumes "gap w" "layout j t os" "spaces rest" "length t + k < n"
    and "ptr_elem (de_types E) ty \<noteq> None" "v \<noteq> RPtr None"
    and r: "tree_value E (Suc k) j ty v False new_decodeState = Some r"
  shows "Unmarshal E (Suc n) (w @ t @ rest) (Some (ty, v)) = Some (unmarshal_result r)"
proof -
  have f: "follows j rest"
  proof (cases rest)
    case (Cons c cs)
    then show ?thesis using isSpace_not [of c] assms(3) by (auto simp: follows_def)
  qed (simp add: follows_def)
  obtain s where s: "checkValid (w @ t @ rest) (d_scan new_decodeState) = Some (None, s)"
    using checkValid_text [OF assms(1,2) f, of "d_scan new_decodeState"] assms(3) by auto
  let ?d = "decode_init (w @ t @ rest) (new_decodeState\<lparr>d_scan := s\<rparr>)"
  let ?e = "?d\<lparr>d_scan := scanner_reset (d_scan ?d)\<rparr>"
  have d: "at StateBeginValue [] (d_scan ?e)" "drop (d_off ?e) (d_data ?e) = w @ t @ rest"
    by (simp_all add: decode_init_def)
  have "noted ?e = new_decodeState" by (simp add: noted_def decode_init_def new_decodeState_def)
  then have "agrees (Some r) (value_at E (Suc n) ty v False ?e) (\<lambda>_. True)"
    using value_at_tree [OF assms(2,1,3) d assms(4), of E ty v False] r by simp
  then have "map_option (\<lambda>r. case r of Inl e \<Rightarrow> (Some e, None) | Inr (y, d) \<Rightarrow> (d_savedError d, Some y))
      (value_at E (Suc n) ty v False ?e) = Some (unmarshal_result r)"
    by (auto simp: agrees_def unmarshal_result_def ok_def fail_with_def)
  then show ?thesis using s assms(5,6) by (auto simp: Unmarshal_def unmarshal_def simp del: value_at.simps)
qed

text \<open>C26: a JSON text is decoded into a Go value of any type as its tree says, whatever white space and comments
  stand between the tokens: pointers allocated, fields found by name and by case folding along their embedded
  structs, slices grown, arrays cut or padded, unknown members and values of the wrong kind skipped whole with the
  decoding going on behind them, and the first error that was noted returned at the end. What the tree leaves open
  (panics, the text handed to an \<open>Unmarshaler\<close> of an array or object, an array behind the end of a fixed array)
  is outside the claim.\<close>

theorem Unmarshal_tree:
  assumes "gap w" "layout j t os" "spaces rest" "length t + k < n"
    and "ptr_elem (de_types E) ty \<noteq> None" "v \<noteq> RPtr None"
    and "tree_value E (Suc k) j ty v False new_decodeState = Some r"
  shows "Unmarshal E (Suc n) (w @ t @ rest) (Some (ty, v)) = Some (unmarshal_result r)"
  by (rule Unmarshal_text_tree [OF assms])

definition sample_object :: json where
  "sample_object =
     JObj [(''id'', JNum (int_number 300)), (''no'', JArr [JNull]), (''x'', JNum (int_number 4)), (''Name'', JStr ''q'')]"

definition sample_target :: "unit rval" where
  "sample_target = RPtr (Some (RStruct [RInt 0, RUint 7, RPtr None]))"

definition sample_noted :: decodeState where
  "sample_noted = new_decodeState\<lparr>d_savedError := Some (ErrType ''number 300'' (TUint 8))\<rparr>"

lemma sample_keys: "str_value ''id'' = ''id''" "str_value ''no'' = ''no''" "str_value ''x'' = ''x''" "str_value ''Name'' = ''Name''"
  by (simp_all add: str_value_plain plain_char_def EncodeRune_def valid_rune_def encode_valid_def surrogate_def char_of_def bit_0)

lemma sample_members:
  "tree_member sample_dec (tree_value sample_dec 8) 8 (JNum (int_number 300)) (TNamed ''Point'')
     (RStruct [RInt 0, RUint 7, RPtr None]) ''id'' new_decodeState = ok (RStruct [RInt 0, RUint 7, RPtr None], sample_noted)"
  "tree_member sample_dec (tree_value sample_dec 8) 8 (JArr [JNull]) (TNamed ''Point'')
     (RStruct [RInt 0, RUint 7, RPtr None]) ''no'' sample_noted = ok (RStruct [RInt 0, RUint 7, RPtr None], sample_noted)"
  "tree_member sample_dec (tree_value sample_dec 8) 8 (JNum (int_number 4)) (TNamed ''Point'')
     (RStruct [RInt 0, RUint 7, RPtr None]) ''x'' sample_noted = ok (RStruct [RInt 4, RUint 7, RPtr None], sample_noted)"
  "tree_member sample_dec (tree_value sample_dec 8) 8 (JStr ''q'') (TNamed ''Point'')
     (RStruct [RInt 4, RUint 7, RPtr None]) ''Name'' sample_noted =
   ok (RStruct [RInt 4, RUint 7, RPtr (Some (RStruct [RString ''q'', RInt 0]))], sample_noted)"
  by code_simp+

lemma sample_object_tree:
  "tree_value sample_dec 9 sample_object (TPtr (TNamed ''Point'')) sample_target False new_decodeState =
     ok (RPtr (Some (RStruct [RInt 4, RUint 7, RPtr (Some (RStruct [RString ''q'', RInt 0]))])), sample_noted)"
proof -
  have i: "indirect sample_dec 8 (TPtr (TNamed ''Point'')) sample_target False False =
      Some (FValue (TNamed ''Point'') (RStruct [RInt 0, RUint 7, RPtr None]), \<lambda>x. RPtr (Some x))"
    by (simp add: indirect_def sample_target_def sample_dec_def sample_types_def ptr_elem_def kind_of_def inside_def
        numeral_eq_Suc)
  obtain fs where k: "kind_of (de_types sample_dec) (TNamed ''Point'') = TStruct fs"
    by (simp add: sample_dec_def sample_types_def kind_of_def)
  have "tree_value sample_dec (Suc 8) sample_object (TPtr (TNamed ''Point'')) sample_target False new_decodeState =
     ok (RPtr (Some (RStruct [RInt 4, RUint 7, RPtr (Some (RStruct [RString ''q'', RInt 0]))])), sample_noted)"
    unfolding sample_object_def tree_value.simps(2) json.case tree_object_def tree_target_def i
    by (simp add: k sample_keys sample_members)
  then show ?thesis by simp
qed

theorem Unmarshal_tree_witness:
  "Unmarshal sample_dec 100 ('' '' @ render sample_object @ '' '') (Some (TPtr (TNamed ''Point''), sample_target)) =
     Some (Some (ErrType ''number 300'' (TUint 8)),
       Some (RPtr (Some (RStruct [RInt 4, RUint 7, RPtr (Some (RStruct [RString ''q'', RInt 0]))]))))"
proof -
  have g: "gap '' ''" by (intro gap.intros) (simp add: isSpace_def)
  have len: "length (render sample_object) + 8 < 99" by code_simp
  have "json_ok sample_object" by (simp add: sample_object_def int_number(1)) (simp add: string_body_plain plain_char_def)
  then obtain os where l: "layout sample_object (render sample_object) os" using layout_render by blast
  have t: "ptr_elem (de_types sample_dec) (TPtr (TNamed ''Point'')) \<noteq> None" "spaces '' ''" "sample_target \<noteq> RPtr None"
    by (simp_all add: ptr_elem_def kind_of_def isSpace_def sample_target_def)
  have r: "tree_value sample_dec (Suc 8) sample_object (TPtr (TNamed ''Point'')) sample_target False new_decodeState =
      Some (Inr (RPtr (Some (RStruct [RInt 4, RUint 7, RPtr (Some (RStruct [RString ''q'', RInt 0]))])), sample_noted))"
    using sample_object_tree by (simp add: ok_def)
  show ?thesis using Unmarshal_tree [OF g l t(2) len t(1,3) r] by (simp add: unmarshal_result_def sample_noted_def)
qed

end
