(* ===== verification/Json_Safe.thy ===== *)
theory Json_Safe
  imports Json_Tree
begin

text \<open>
  Decoding keeps the type of its target: whatever the text, well-formed or not, and whatever the methods store that
  keep the types of their receivers.
\<close>

section \<open>Results\<close>

definition gives :: "('a \<times> decodeState) res \<Rightarrow> ('a \<Rightarrow> bool) \<Rightarrow> bool" where
  "gives m P \<longleftrightarrow> (\<forall>x d. m = ok (x, d) \<longrightarrow> P x)"

lemma gives_simps [simp]:
  "gives (ok (x, d)) P \<longleftrightarrow> P x" "gives (fail_with e) P" "gives None P"
  by (auto simp: gives_def ok_def fail_with_def)

lemma gives_then:
  "gives m P \<Longrightarrow> (\<And>x d. P x \<Longrightarrow> gives (f (x, d)) Q) \<Longrightarrow> gives (and_then m f) Q"
  by (fastforce simp: gives_def and_then_def ok_def split: option.splits sum.splits)

lemma gives_any: "(\<And>y. gives (f y) Q) \<Longrightarrow> gives (and_then m f) Q"
  by (auto simp: gives_def and_then_def ok_def split: option.splits sum.splits)

lemma gives_mono: "gives m P \<Longrightarrow> (\<And>x. P x \<Longrightarrow> Q x) \<Longrightarrow> gives m Q"
  by (auto simp: gives_def)

section \<open>The laws of the environment\<close>

text \<open>The methods keep the type of what their receiver points to; the types of the values in an empty interface
  are known; a declared type is declared by its structure.\<close>

definition dec_laws :: "'f dec_env \<Rightarrow> bool" where
  "dec_laws E \<longleftrightarrow>
     (\<forall>t e w s w'. ptr_elem (de_types E) t = Some e \<and> has_type (de_types E) e w \<longrightarrow>
        (de_UnmarshalJSON E t w s = (None, w') \<longrightarrow> has_type (de_types E) e w') \<and>
        (de_UnmarshalText E t w s = (None, w') \<longrightarrow> has_type (de_types E) e w')) \<and>
     {TBool, TFloat 64, TString, numberType, TSlice TInterface, TMap TString TInterface} \<subseteq> set (te_types (de_types E)) \<and>
     kind_of (de_types E) numberType = TString \<and>
     (\<forall>n m. te_under (de_types E) n \<noteq> TNamed m)"

lemma dec_laws_types:
  assumes "dec_laws E"
  shows "TBool \<in> set (te_types (de_types E))" "TFloat 64 \<in> set (te_types (de_types E))"
    "TString \<in> set (te_types (de_types E))" "numberType \<in> set (te_types (de_types E))"
    "TSlice TInterface \<in> set (te_types (de_types E))" "TMap TString TInterface \<in> set (te_types (de_types E))"
    "kind_of (de_types E) numberType = TString" "kind_of (de_types E) t \<noteq> TNamed n"
  using assms by (auto simp: dec_laws_def kind_of_def split: gtype.split)

lemma kind_of_simps [simp]:
  "kind_of T TBool = TBool" "kind_of T (TInt w) = TInt w" "kind_of T (TUint w) = TUint w" "kind_of T (TFloat w) = TFloat w"
  "kind_of T TString = TString" "kind_of T TInterface = TInterface" "kind_of T (TMap k e) = TMap k e"
  "kind_of T (TSlice e) = TSlice e" "kind_of T (TArray n e) = TArray n e" "kind_of T (TPtr e) = TPtr e"
  by (simp_all add: kind_of_def)

lemma ptr_elem_kind: "ptr_elem T t = Some e \<longleftrightarrow> kind_of T t = TPtr e"
  by (simp add: ptr_elem_def split: gtype.split)

section \<open>Zero values\<close>

lemma those_map: "those (map f xs) = Some ys \<Longrightarrow> length ys = length xs \<and> (\<forall>i < length xs. f (xs ! i) = Some (ys ! i))"
proof (induction xs arbitrary: ys)
  case (Cons x xs)
  then obtain y zs where "f x = Some y" "those (map f xs) = Some zs" "ys = y # zs"
    by (auto split: option.splits)
  then show ?case using Cons.IH by (auto simp: nth_Cons split: nat.split)
qed simp

lemma zero_value_typed:
  assumes "dec_laws E"
  shows "zero_value E n t = Some z \<Longrightarrow> has_type (de_types E) t z"
proof (induction n arbitrary: t z)
  case (Suc n)
  have r: "0 < (2::int) ^ k" for k by simp
  show ?case
  proof (cases "kind_of (de_types E) t")
    case (TStruct fs)
    then obtain vs where vs: "those (map (\<lambda>f. zero_value E n (gf_type f)) fs) = Some vs" "z = RStruct vs"
      using Suc.prems by auto
    show ?thesis unfolding has_type_parts(1) [OF TStruct] using those_map [OF vs(1)] vs(2) Suc.IH by auto
  next
    case (TArray k e)
    then obtain y where "zero_value E n e = Some y" "z = RArray (replicate k y)" using Suc.prems by auto
    then show ?thesis using Suc.IH by (simp add: has_type_parts(4) [OF TArray])
  next
    case (TInt w)
    then show ?thesis using Suc.prems r [of "w - 1"] by (auto simp: has_type.simps intro: order.trans [of _ 0])
  next
    case (TNamed m)
    then show ?thesis using dec_laws_types(8) [OF assms] by blast
  qed (use Suc.prems in \<open>auto simp: has_type.simps\<close>)
qed simp

lemma zero_of_typed: "dec_laws E \<Longrightarrow> zero_of E t = Some z \<Longrightarrow> has_type (de_types E) t z"
  unfolding zero_of_def by (rule zero_value_typed)

section \<open>Places\<close>

text \<open>What \<open>indirect\<close> finds has its type, and what is put there gives a value of the type it started from.\<close>

definition place_ok :: "type_env \<Rightarrow> gtype \<Rightarrow> 'f place \<Rightarrow> bool" where
  "place_ok T t p =
     (case p of
        (FUnmarshaler pt w, bk) \<Rightarrow> \<exists>e. ptr_elem T pt = Some e \<and> has_type T e w \<and> (\<forall>x. has_type T e x \<longrightarrow> has_type T t (bk x))
      | (FText pt w, bk) \<Rightarrow> \<exists>e. ptr_elem T pt = Some e \<and> has_type T e w \<and> (\<forall>x. has_type T e x \<longrightarrow> has_type T t (bk x))
      | (FValue t' w, bk) \<Rightarrow> has_type T t' w \<and> (\<forall>x. has_type T t' x \<longrightarrow> has_type T t (bk x)))"

lemma place_inside:
  assumes "inside g r = Some p" "\<And>q. r = Some q \<Longrightarrow> place_ok T t1 q" "\<And>x. has_type T t1 x \<Longrightarrow> has_type T t (g x)"
  shows "place_ok T t p"
proof -
  obtain fc bk where q: "r = Some (fc, bk)" "p = (fc, \<lambda>x. g (bk x))" using assms(1) by (auto simp: inside_def)
  show ?thesis using assms(2) [OF q(1)] assms(3) q(2) by (cases fc) (auto simp: place_ok_def)
qed

lemma indirect_loop_typed:
  assumes laws: "dec_laws E"
  shows "has_type (de_types E) t v \<Longrightarrow> indirect_loop E n b t v c = Some p \<Longrightarrow> place_ok (de_types E) t p"
proof (induction n arbitrary: t v c p)
  case (Suc n)
  have here: "place_ok (de_types E) t (FValue t v, \<lambda>x. x)" using Suc.prems(1) by (simp add: place_ok_def)
  show ?case
  proof (cases "\<exists>t' w. v = RIface (Some (t', RPtr (Some w)))")
    case True
    then obtain t' w where v: "v = RIface (Some (t', RPtr (Some w)))" by blast
    then have t: "kind_of (de_types E) t = TInterface" "kind_of (de_types E) t' \<noteq> TInterface" "t' \<in> set (te_types (de_types E))"
        "has_type (de_types E) t' (RPtr (Some w))"
      using Suc.prems(1) by (simp_all add: has_type.simps)
    have "place_ok (de_types E) t p"
      if "inside (\<lambda>x. RIface (Some (t', x))) (indirect_loop E n b t' (RPtr (Some w)) False) = Some p"
      by (rule place_inside [OF that Suc.IH [OF t(4)]]) (use t(1-3) in \<open>simp_all add: has_type.simps\<close>)
    then show ?thesis using Suc.prems(2) here unfolding v by (auto split: if_splits)
  next
    case False
    note body = indirect_pointer [OF False, of E n b t c]
    show ?thesis
    proof (cases "ptr_elem (de_types E) t")
      case None
      then show ?thesis using Suc.prems(2) here body by simp
    next
      case (Some e)
      note k = Some [unfolded ptr_elem_kind]
      let ?M = "case v of RPtr None \<Rightarrow> if c then zero_of E e else None | RPtr (Some w) \<Rightarrow> Some w | _ \<Rightarrow> None"
      have M: "has_type (de_types E) e w" if "?M = Some w" for w
        using that Suc.prems(1) zero_of_typed [OF laws] has_type_parts(5) [OF k, of v]
        by (auto split: if_splits rval.splits option.splits)
      have bk: "has_type (de_types E) e x \<Longrightarrow> has_type (de_types E) t (RPtr (Some x))" for x
        by (simp add: has_type_parts(5) [OF k])
      have f: "place_ok (de_types E) t p"
        if w: "?M = Some w" and p: "(if de_unmarshaler E t then Some (FUnmarshaler t w, \<lambda>x. RPtr (Some x))
            else if de_textUnmarshaler E t then Some (FText t w, \<lambda>x. RPtr (Some x))
            else inside (\<lambda>x. RPtr (Some x)) (indirect_loop E n b e w True)) = Some p" for w
        using p Some M [OF w] bk place_inside [OF _ Suc.IH [OF M [OF w]] bk]
        by (auto simp: place_ok_def split: if_splits)
      show ?thesis
        using Suc.prems(2) here f unfolding body Some option.case
        by (auto simp: bind_eq_Some_conv split: if_splits)
    qed
  qed
qed simp

text \<open>The address of a value is followed as the value itself, but for its methods.\<close>

lemma indirect_named:
  assumes "ptr_elem (de_types E) t = None" "has_name t"
  shows "indirect E (Suc n) t v c b =
    (if de_unmarshaler E (TPtr t) then Some (FUnmarshaler (TPtr t) v, \<lambda>x. x)
     else if de_textUnmarshaler E (TPtr t) then Some (FText (TPtr t) v, \<lambda>x. x)
     else inside (\<lambda>x. x) (indirect_loop E n b t v True))"
proof -
  have p: "ptr_elem (de_types E) (TPtr t) = Some t" by (simp add: ptr_elem_def)
  have "indirect_loop E (Suc n) b (TPtr t) (RPtr (Some v)) False =
    (if de_unmarshaler E (TPtr t) then Some (FUnmarshaler (TPtr t) v, \<lambda>x. RPtr (Some x))
     else if de_textUnmarshaler E (TPtr t) then Some (FText (TPtr t) v, \<lambda>x. RPtr (Some x))
     else inside (\<lambda>x. RPtr (Some x)) (indirect_loop E n b t v True))"
    by (simp add: p)
  then show ?thesis
    using assms by (simp add: indirect_def inside_def pointee_def option.map_comp comp_def case_prod_unfold)
qed

lemma indirect_typed:
  assumes laws: "dec_laws E" and v: "has_type (de_types E) t v" and p: "indirect E n t v c b = Some p"
  shows "place_ok (de_types E) t p"
proof (cases "ptr_elem (de_types E) t = None \<and> has_name t")
  case True
  obtain m where n: "n = Suc m" using p True by (cases n) (auto simp: indirect_def inside_def)
  have e: "ptr_elem (de_types E) (TPtr t) = Some t" by (simp add: ptr_elem_def)
  show ?thesis
    using p True place_inside [OF _ indirect_loop_typed [OF laws v], of "\<lambda>x. x"] v e unfolding n
    by (auto simp: indirect_named place_ok_def split: if_splits)
next
  case False
  then have "indirect_loop E n b t v c = Some p" using p by (auto simp: indirect_def)
  then show ?thesis by (rule indirect_loop_typed [OF laws v])
qed

section \<open>Values of an empty interface\<close>

fun goval_ok :: "'f goval \<Rightarrow> bool" where
  "goval_ok (VArray vs) \<longleftrightarrow> (\<forall>v \<in> set vs. goval_ok v)"
| "goval_ok (VObject kvs) \<longleftrightarrow> distinct (map fst kvs) \<and> (\<forall>p \<in> set kvs. goval_ok (snd p))"
| "goval_ok _ \<longleftrightarrow> True"

lemma reflected_typed:
  assumes "dec_laws E"
  shows "goval_ok g \<Longrightarrow> kind_of (de_types E) t = TInterface \<Longrightarrow> has_type (de_types E) t (RIface (reflected g))"
proof (induction g arbitrary: t)
  case (VArray vs)
  then show ?case using dec_laws_types(5) [OF assms] by (simp add: has_type.simps)
next
  case (VObject kvs)
  have "has_type (de_types E) TInterface (RIface (reflected (snd p)))" if "p \<in> set kvs" for p
    using VObject.IH [of p "snd p"] VObject.prems(1) that by (cases p) fastforce
  then show ?case using VObject.prems dec_laws_types(6) [OF assms] by (simp add: has_type.simps comp_def)
qed (use dec_laws_types [OF assms] in \<open>simp_all add: has_type.simps numberType_def\<close>)

lemma update_set: "p \<in> set (AList.update k x m) \<Longrightarrow> p = (k, x) \<or> p \<in> set m"
  by (induction m) (auto split: if_splits)

lemma update_ok:
  "distinct (map fst m) \<Longrightarrow> \<forall>p \<in> set m. P (snd p) \<Longrightarrow> P x \<Longrightarrow>
   distinct (map fst (AList.update k x m)) \<and> (\<forall>p \<in> set (AList.update k x m). P (snd p))"
  using update_set [of _ k x m] by (metis distinct_update snd_conv)

lemma interface_ok:
  fixes pf :: "string \<Rightarrow> 'f option"
  shows "gives (valueInterface pf n d) goval_ok"
    "\<forall>x \<in> set v. goval_ok x \<Longrightarrow> gives (arrayInterface pf n v d) goval_ok"
    "goval_ok (VObject m) \<Longrightarrow> gives (objectInterface pf n m d) goval_ok"
proof (induction n arbitrary: d v m)
  case (Suc n)
  have l: "gives (literalInterface pf d) goval_ok" for d
    unfolding literalInterface_def
    by (rule gives_any)
      (auto simp: literal_value_def convertNumber_def split: list.split sum.split option.split intro!: gives_any)
  {
    case 1
    show ?case by (auto intro!: gives_any simp: Suc.IH l)
  next
    case 2
    then show ?case by (auto intro!: gives_any gives_then [OF Suc.IH(1)] Suc.IH(2))
  next
    case 3
    have u: "goval_ok (VObject (AList.update k x m))" if "goval_ok x" for k x
      using update_ok [of m goval_ok x k] 3 that by simp
    show ?case by (auto intro!: gives_any gives_then [OF Suc.IH(1)] Suc.IH(3) u 3 simp del: goval_ok.simps)
  }
qed simp_all

section \<open>Literals\<close>

lemma base64_digit_less: "base64_digit c = Some x \<Longrightarrow> x < 64"
proof -
  assume a: "base64_digit c = Some x"
  then have "c \<in> set base64_alphabet" "x = length (takeWhile (\<lambda>b. b \<noteq> c) base64_alphabet)"
    by (auto simp: base64_digit_def split: if_splits)
  moreover have "length base64_alphabet = 64" by (simp add: base64_alphabet_def)
  ultimately show "x < 64"
    using length_takeWhile_le [of "\<lambda>b. b \<noteq> c" base64_alphabet] takeWhile_eq_all_conv [of "\<lambda>b. b \<noteq> c" base64_alphabet]
      takeWhile_eq_take [of "\<lambda>b. b \<noteq> c" base64_alphabet]
    by (metis le_neq_implies_less take_all_iff order.refl)
qed

lemma base64_quads_bytes: "base64_quads s = Some bs \<Longrightarrow> \<forall>b \<in> set bs. b < 256"
proof (induction s arbitrary: bs rule: base64_quads.induct)
  case (2 a b c d cs)
  have q: "x * 4 + y div 16 < 256" "y mod 16 * 16 + x div 4 < 256" "x mod 4 * 64 + y < 256" if "x < 64" "y < 64" for x y :: nat
    using that by (auto simp: mult.commute intro: order.strict_trans2)
  show ?case
    using 2(2) 2(1) base64_digit_less [of a] base64_digit_less [of b] base64_digit_less [of c] base64_digit_less [of d] q
    by (auto split: option.splits if_splits)
qed auto

lemma store_typed:
  assumes laws: "dec_laws E" and v: "has_type (de_types E) t v"
  shows "has_type (de_types E) t (store_null E t v)" "gives (store_bool E b t v q d) (has_type (de_types E) t)"
    "gives (store_string E s t v d) (has_type (de_types E) t)" "gives (store_number E s t v q d) (has_type (de_types E) t)"
proof -
  note ty = dec_laws_types [OF laws]
  show "has_type (de_types E) t (store_null E t v)"
    using v by (auto simp: store_null_def has_type.simps split: gtype.split)
  show "gives (store_bool E b t v q d) (has_type (de_types E) t)"
    using v ty(1) by (auto simp: store_bool_def has_type.simps split: gtype.split)
  have b: "gives (case base64_Decode s of None \<Rightarrow> ok (v, saveError ErrBase64 d) | Some bs \<Rightarrow> ok (RSlice (Some (map RUint bs)) [], d))
      (has_type (de_types E) (TSlice (TUint 8)))" if "has_type (de_types E) (TSlice (TUint 8)) v"
    using that base64_quads_bytes by (auto simp: base64_Decode_def has_type.simps split: option.split)
  show "gives (store_string E s t v d) (has_type (de_types E) t)"
    using v ty(3) b
    by (cases "kind_of (de_types E) t") (auto simp: store_string_def has_type.simps numberType_def)
  have i: "kind_of (de_types E) t = TInterface \<Longrightarrow> gives (store_number_iface E s t v d) (has_type (de_types E) t)"
    using v reflected_typed [OF laws, of "VNumber s" t] reflected_typed [OF laws, of "VFloat _" t]
    by (auto simp: store_number_iface_def convertNumber_def split: sum.split option.split)
  show "gives (store_number E s t v q d) (has_type (de_types E) t)"
    using v i
    by (cases "kind_of (de_types E) t")
      (auto simp: store_number_def has_type.simps ParseUint_def Let_def split: option.split)
qed

lemma store_literal_typed:
  assumes "dec_laws E" "has_type (de_types E) t v"
  shows "gives (store_literal E item t v q d) (has_type (de_types E) t)"
  using store_typed [OF assms] by (auto simp: store_literal_def Let_def intro!: gives_any split: option.split)

lemma call_typed:
  assumes laws: "dec_laws E" and w: "ptr_elem (de_types E) pt = Some e" "has_type (de_types E) e w"
    and bk: "\<And>x. has_type (de_types E) e x \<Longrightarrow> has_type (de_types E) t (bk x)"
  shows "gives (call_UnmarshalJSON E pt w bk item d) (has_type (de_types E) t)"
    "gives (call_UnmarshalText E pt w bk item d) (has_type (de_types E) t)"
proof -
  note m = laws [unfolded dec_laws_def, THEN conjunct1, rule_format, OF conjI [OF w]]
  show "gives (call_UnmarshalJSON E pt w bk item d) (has_type (de_types E) t)"
    using m bk by (auto simp: call_UnmarshalJSON_def split: prod.split option.split)
  show "gives (call_UnmarshalText E pt w bk item d) (has_type (de_types E) t)"
    using m bk by (auto simp: call_UnmarshalText_def split: prod.split option.split)
qed

lemma literalStore_typed:
  assumes laws: "dec_laws E" and v: "has_type (de_types E) t v"
  shows "gives (literalStore E n item t v c q d) (has_type (de_types E) t)"
proof (cases "item = [] \<or> indirect E n t v c (hd item = CHR ''n'') = None")
  case True
  then show ?thesis using v by (auto simp: literalStore_def)
next
  case False
  then obtain fc bk where i: "indirect E n t v c (hd item = CHR ''n'') = Some (fc, bk)" "item \<noteq> []" by auto
  note p = indirect_typed [OF laws v i(1)]
  show ?thesis
  proof (cases fc)
    case (FUnmarshaler pt w)
    then show ?thesis using i p call_typed(1) [OF laws] by (auto simp: literalStore_def place_ok_def)
  next
    case (FText pt w)
    then show ?thesis using i p call_typed(2) [OF laws]
      by (auto simp: literalStore_def place_ok_def Let_def intro!: gives_any split: option.split)
  next
    case (FValue t' w)
    then have "has_type (de_types E) t' w" "\<And>x. has_type (de_types E) t' x \<Longrightarrow> has_type (de_types E) t (bk x)"
      using p by (auto simp: place_ok_def)
    then have "gives (and_then (store_literal E item t' w q d) (\<lambda>(x, d). ok (bk x, d))) (has_type (de_types E) t)"
      by (auto intro!: gives_then [OF store_literal_typed [OF laws]])
    then show ?thesis using i FValue by (simp add: literalStore_def)
  qed
qed

section \<open>Arrays and objects\<close>

lemma with_target_typed:
  assumes laws: "dec_laws E" and v: "has_type (de_types E) t v"
    and r: "\<And>t' w. has_type (de_types E) t' w \<Longrightarrow> gives (r t' w) (has_type (de_types E) t')"
  shows "gives (with_target E n what t v c d r) (has_type (de_types E) t)"
proof (cases "indirect E n t v c False")
  case (Some p)
  then obtain fc bk where i: "indirect E n t v c False = Some (fc, bk)" by (cases p) auto
  note p = indirect_typed [OF laws v i]
  show ?thesis
  proof (cases fc)
    case (FUnmarshaler pt w)
    then show ?thesis using i p call_typed(1) [OF laws]
      by (auto simp: with_target_def place_ok_def intro!: gives_any)
  next
    case (FText pt w)
    then show ?thesis using i p by (auto simp: with_target_def place_ok_def type_error_def intro!: gives_any)
  next
    case (FValue t' w)
    then have "has_type (de_types E) t' w" "\<And>x. has_type (de_types E) t' x \<Longrightarrow> has_type (de_types E) t (bk x)"
      using p by (auto simp: place_ok_def)
    then have "gives (and_then (r t' w) (\<lambda>(x, d). ok (bk x, d))) (has_type (de_types E) t)"
      by (auto intro!: gives_then [OF r])
    then show ?thesis using i FValue by (simp add: with_target_def)
  qed
qed (simp add: with_target_def)

lemma grow_slice_typed:
  assumes "dec_laws E" "\<forall>v \<in> set vs. has_type (de_types E) et v" "\<forall>v \<in> set sp. has_type (de_types E) et v"
    and "grow_slice E et vs sp i = Some (vs', sp')"
  shows "(\<forall>v \<in> set vs'. has_type (de_types E) et v) \<and> (\<forall>v \<in> set sp'. has_type (de_types E) et v)"
  using assms(2-4) zero_of_typed [OF assms(1)]
  by (auto simp: grow_slice_def Let_def bind_eq_Some_conv split: if_splits) (meson in_set_takeD in_set_dropD)+

text \<open>The elements keep their type, and a fixed array its length.\<close>

definition elems_ok :: "type_env \<Rightarrow> gtype \<Rightarrow> bool \<Rightarrow> nat \<Rightarrow> 'f rval list \<times> 'f rval list \<times> nat \<Rightarrow> bool" where
  "elems_ok T et growing len r =
     (case r of (vs, sp, k) \<Rightarrow>
        (\<forall>v \<in> set vs. has_type T et v) \<and> (\<forall>v \<in> set sp. has_type T et v) \<and> (\<not> growing \<longrightarrow> length vs = len))"

lemma array_elems_typed:
  assumes laws: "dec_laws E" and val: "\<And>v c d. has_type (de_types E) et v \<Longrightarrow> gives (val et v c d) (has_type (de_types E) et)"
  shows "\<forall>v \<in> set vs. has_type (de_types E) et v \<Longrightarrow> \<forall>v \<in> set sp. has_type (de_types E) et v \<Longrightarrow>
    gives (array_elems E val n et growing vs sp i d) (elems_ok (de_types E) et growing (length vs))"
proof (induction n arbitrary: vs sp i d)
  case (Suc n)
  let ?P = "elems_ok (de_types E) et growing (length vs)"
  have rest: "gives
     (and_then
       (if i < length vs1 then and_then (val et (vs1 ! i) True d) (\<lambda>(x, d). ok (vs1[i := x], d))
        else and_then (skip_value d) (\<lambda>d. ok (vs1, d)))
       (\<lambda>(vs, d).
         and_then (run (scanWhile scanSkipSpace d)) (\<lambda>(op, d).
           if op = scanEndArray then ok ((vs, sp1, i + 1), d)
           else if op \<noteq> scanArrayValue then fail_with ErrPhase
           else array_elems E val n et growing vs sp1 (i + 1) d))) ?P"
    if g: "\<forall>v \<in> set vs1. has_type (de_types E) et v" "\<forall>v \<in> set sp1. has_type (de_types E) et v"
      "\<not> growing \<longrightarrow> length vs1 = length vs" for vs1 sp1 d
  proof (rule gives_then [where P = "\<lambda>vs2. (\<forall>v \<in> set vs2. has_type (de_types E) et v) \<and> length vs2 = length vs1"])
    show "gives (if i < length vs1 then and_then (val et (vs1 ! i) True d) (\<lambda>(x, d). ok (vs1[i := x], d))
        else and_then (skip_value d) (\<lambda>d. ok (vs1, d)))
      (\<lambda>vs2. (\<forall>v \<in> set vs2. has_type (de_types E) et v) \<and> length vs2 = length vs1)"
    proof (cases "i < length vs1")
      case True
      then show ?thesis
        using g(1) by (auto intro!: gives_then [OF val] dest!: set_update_subset_insert [THEN subsetD])
    qed (use g(1) in \<open>auto intro: gives_any\<close>)
    show "gives (case (vs2, d) of (vs, d) \<Rightarrow>
         and_then (run (scanWhile scanSkipSpace d)) (\<lambda>(op, d).
           if op = scanEndArray then ok ((vs, sp1, i + 1), d)
           else if op \<noteq> scanArrayValue then fail_with ErrPhase
           else array_elems E val n et growing vs sp1 (i + 1) d)) ?P"
      if "(\<forall>v \<in> set vs2. has_type (de_types E) et v) \<and> length vs2 = length vs1" for vs2 d
    proof -
      have now: "?P (vs2, sp1, k)" for k using that g(2,3) by (auto simp: elems_ok_def)
      have rec: "gives (array_elems E val n et growing vs2 sp1 (i + 1) d) ?P" for d
        by (rule gives_mono [OF Suc.IH]) (use that g(2,3) in \<open>auto simp: elems_ok_def\<close>)
      show ?thesis unfolding prod.case by (rule gives_any, clarify) (use now rec in simp)
    qed
  qed
  have grown: "(\<forall>v \<in> set vs1. has_type (de_types E) et v) \<and> (\<forall>v \<in> set sp1. has_type (de_types E) et v) \<and>
      (\<not> growing \<longrightarrow> length vs1 = length vs)"
    if "(if growing then grow_slice E et vs sp i else Some (vs, sp)) = Some (vs1, sp1)" for vs1 sp1
    using that grow_slice_typed [OF laws Suc.prems] Suc.prems by (auto split: if_splits)
  show ?case
    unfolding array_elems.simps(2)
  proof (rule gives_any, clarify)
    fix op d'
    show "gives (if op = scanEndArray then ok ((vs, sp, i), d')
       else and_then (run (back_up op d')) (\<lambda>d.
         case (if growing then grow_slice E et vs sp i else Some (vs, sp)) of
           None \<Rightarrow> None
         | Some (vs, spare) \<Rightarrow>
             and_then
               (if i < length vs
                then and_then (val et (vs ! i) True d) (\<lambda>(x, d). ok (vs[i := x], d))
                else and_then (skip_value d) (\<lambda>d. ok (vs, d)))
             (\<lambda>(vs, d).
               and_then (run (scanWhile scanSkipSpace d)) (\<lambda>(op, d).
                 if op = scanEndArray then ok ((vs, spare, i + 1), d)
                 else if op \<noteq> scanArrayValue then fail_with ErrPhase
                 else array_elems E val n et growing vs spare (i + 1) d)))) ?P"
    proof (cases "if growing then grow_slice E et vs sp i else Some (vs, sp)")
      case None
      then show ?thesis using Suc.prems by (auto intro: gives_any simp: elems_ok_def)
    next
      case (Some p)
      obtain vs1 sp1 where p: "p = (vs1, sp1)" by (cases p)
      show ?thesis
      proof (cases "op = scanEndArray")
        case True
        then show ?thesis using Suc.prems by (simp add: elems_ok_def)
      next
        case False
        show ?thesis
          unfolding Some p option.case prod.case if_not_P [OF False]
          by (rule gives_any, rule rest) (use grown [OF Some [unfolded p]] in simp_all)
      qed
    qed
  qed
qed simp

lemma type_error_typed: "has_type T t v \<Longrightarrow> gives (type_error what ty v d) (has_type T t)"
  by (auto simp: type_error_def intro: gives_any)

lemma interface_typed:
  assumes "dec_laws E" "kind_of (de_types E) t = TInterface" "gives m goval_ok"
  shows "gives (and_then m (\<lambda>(g, d). ok (RIface (reflected g), d))) (has_type (de_types E) t)"
  by (rule gives_then [OF assms(3)]) (simp add: reflected_typed [OF assms(1) _ assms(2)])

lemma array_at_typed:
  assumes laws: "dec_laws E"
    and val: "\<And>t v c d. has_type (de_types E) t v \<Longrightarrow> gives (val t v c d) (has_type (de_types E) t)"
    and v: "has_type (de_types E) t v"
  shows "gives (array_at E val n t v c d) (has_type (de_types E) t)"
  unfolding array_at_def
proof (rule with_target_typed [OF laws v], goal_cases)
  case (1 t' w)
  note te = type_error_typed [OF 1]
  have i: "gives (and_then (arrayInterface (de_parseFloat E 64) n [] d) (\<lambda>(g, d). ok (RIface (reflected g), d)))
      (has_type (de_types E) t')" if "kind_of (de_types E) t' = TInterface"
    by (rule interface_typed [OF laws that]) (simp add: interface_ok(2))
  have el: "gives (array_elems E val n et growing vs sp i d) (elems_ok (de_types E) et growing (length vs))"
    if "\<forall>v \<in> set vs. has_type (de_types E) et v" "\<forall>v \<in> set sp. has_type (de_types E) et v" for et growing vs sp i
    by (rule array_elems_typed [OF laws _ that]) (rule val)
  show ?case
  proof (cases "kind_of (de_types E) t'")
    case (TArray k et)
    obtain vs where w: "w = RArray vs" "length vs = k" "\<forall>v \<in> set vs. has_type (de_types E) et v"
      using 1 has_type_parts(4) [OF TArray] by auto
    have e0: "gives (array_elems E val n et False vs [] 0 d) (elems_ok (de_types E) et False (length vs))"
      by (rule el [OF w(3)]) simp
    have "gives (and_then (array_elems E val n et False vs [] 0 d) (\<lambda>((vs, spare, i), d).
        case finish_array E et vs i of None \<Rightarrow> None | Some x \<Rightarrow> ok (x, d))) (has_type (de_types E) t')"
    proof (rule gives_then [OF e0], clarify)
      fix vs' sp' :: "'a rval list" and i and d :: decodeState assume e: "elems_ok (de_types E) et False (length vs) (vs', sp', i)"
      show "gives (case finish_array E et vs' i of None \<Rightarrow> None | Some x \<Rightarrow> ok (x, d)) (has_type (de_types E) t')"
        using e w(2) zero_of_typed [OF laws]
        by (auto simp: elems_ok_def finish_array_def has_type_parts(4) [OF TArray] split: option.split dest: in_set_takeD)
    qed
    then show ?thesis using TArray w(1) by simp
  next
    case (TSlice et)
    obtain vs sp where w: "w = RSlice vs sp" "\<forall>v \<in> set (case vs of None \<Rightarrow> [] | Some vs \<Rightarrow> vs). has_type (de_types E) et v"
        "\<forall>v \<in> set sp. has_type (de_types E) et v"
      using 1 has_type_parts(3) [OF TSlice, of w] by auto
    have "gives (and_then (array_elems E val n et True (case vs of None \<Rightarrow> [] | Some vs \<Rightarrow> vs) sp 0 d)
        (\<lambda>((vs, spare, i), d). ok (finish_slice vs spare i, d))) (has_type (de_types E) t')"
      by (rule gives_then [OF el [OF w(2,3)]])
        (auto simp: elems_ok_def finish_slice_def has_type_parts(3) [OF TSlice] dest!: in_set_takeD in_set_dropD)
    then show ?thesis using TSlice w(1) by simp
  qed (use te i in simp_all)
qed

lemma bind_SomeD: "Option.bind m f = Some y \<Longrightarrow> \<exists>x. m = Some x"
  by (cases m) simp_all

lemma field_place_typed:
  fixes E :: "'f dec_env"
  assumes laws: "dec_laws E"
  shows "has_type (de_types E) t v \<Longrightarrow> field_place E t v is = Some (ft, fv, bk) \<Longrightarrow>
    has_type (de_types E) ft fv \<and> (\<forall>x. has_type (de_types E) ft x \<longrightarrow> has_type (de_types E) t (bk x))"
proof (induction "is" arbitrary: t v bk)
  case (Cons i "is")
  obtain q where q: "(case ptr_elem (de_types E) t of
        None \<Rightarrow> Some (t, v, \<lambda>x :: 'f rval. x)
      | Some e \<Rightarrow> map_option (\<lambda>w. (e, w, \<lambda>x :: 'f rval. RPtr (Some x)))
          (case v of RPtr (Some w) \<Rightarrow> Some w | RPtr None \<Rightarrow> zero_of E e | _ \<Rightarrow> None)) = Some q"
    using bind_SomeD [OF Cons.prems(2) [unfolded field_place.simps(2)]] by blast
  obtain t1 v1 out where qq: "q = (t1, v1, out)" by (cases q)
  note o = q [unfolded qq]
  have v1: "has_type (de_types E) t1 v1" "\<And>x. has_type (de_types E) t1 x \<Longrightarrow> has_type (de_types E) t (out x)"
  proof -
    have "has_type (de_types E) t1 v1 \<and> (\<forall>x. has_type (de_types E) t1 x \<longrightarrow> has_type (de_types E) t (out x))"
    proof (cases "ptr_elem (de_types E) t")
      case (Some e)
      then show ?thesis
        using o Cons.prems(1) zero_of_typed [OF laws] has_type_parts(5) [of "de_types E" t e]
        by (auto simp: ptr_elem_kind split: rval.splits option.splits)
    qed (use o Cons.prems(1) in auto)
    then show "has_type (de_types E) t1 v1" "\<And>x. has_type (de_types E) t1 x \<Longrightarrow> has_type (de_types E) t (out x)" by blast+
  qed
  obtain fs vs fbk where f: "struct_fields (de_types E) t1 = Some fs" "v1 = RStruct vs" "i < length fs" "i < length vs"
      "field_place E (gf_type (fs ! i)) (vs ! i) is = Some (ft, fv, fbk)" "bk = (\<lambda>x. out (RStruct (vs[i := fbk x])))"
    using Cons.prems(2) o by (auto split: option.splits rval.splits if_splits)
  have k: "kind_of (de_types E) t1 = TStruct fs" using f(1) by (simp add: struct_fields_kind split: gtype.splits)
  have vs: "length fs = length vs" "\<forall>j < length fs. has_type (de_types E) (gf_type (fs ! j)) (vs ! j)"
    using v1(1) f(2) by (auto simp: has_type_parts(1) [OF k])
  have IH: "has_type (de_types E) ft fv" "\<And>x. has_type (de_types E) ft x \<Longrightarrow> has_type (de_types E) (gf_type (fs ! i)) (fbk x)"
    using Cons.IH [OF _ f(5)] vs f(3) by blast+
  have "has_type (de_types E) t1 (RStruct (vs[i := fbk x]))" if "has_type (de_types E) ft x" for x
    using vs IH(2) [OF that] f(4) by (auto simp: has_type_parts(1) [OF k] nth_list_update)
  then show ?case using IH(1) v1(2) f(6) by blast
qed simp

lemma map_member_typed:
  assumes laws: "dec_laws E"
    and val: "\<And>t v c d. has_type (de_types E) t v \<Longrightarrow> gives (val t v c d) (has_type (de_types E) t)"
    and k: "kind_of (de_types E) t = TMap kt et" and v: "has_type (de_types E) t v"
  shows "gives (map_member E val kt et v key d) (has_type (de_types E) t)"
proof (cases "zero_of E et")
  case (Some z)
  have s: "has_type (de_types E) t m" if x: "has_type (de_types E) et x" and m: "set_entry E kt key x v = Some m" for x m
  proof -
    obtain kvs where kvs: "v = RMap (Some kvs)" "m = RMap (Some (AList.update key x kvs))"
      using m by (auto simp: set_entry_def split: if_splits rval.splits option.splits)
    then show ?thesis
      using v x update_ok [of kvs "has_type (de_types E) et" x key] by (auto simp: has_type_parts(2) [OF k])
  qed
  show ?thesis
    unfolding map_member_def Some option.case
    by (rule gives_then [OF val [OF zero_of_typed [OF laws Some]]]) (auto split: option.split intro: s)
qed (simp add: map_member_def)

lemma field_member_typed:
  assumes laws: "dec_laws E"
    and val: "\<And>t v c d. has_type (de_types E) t v \<Longrightarrow> gives (val t v c d) (has_type (de_types E) t)"
    and v: "has_type (de_types E) t v"
  shows "gives (field_member E val n t v key d) (has_type (de_types E) t)"
proof (cases "typeFields (de_types E) (Suc (length (te_types (de_types E)))) t")
  case (Some fs)
  show ?thesis
  proof (cases "find_key E fs key None")
    case None
    then show ?thesis using Some v by (auto simp: field_member_def intro: gives_any)
  next
    case fld: (Some f)
    show ?thesis
    proof (cases "field_place E t v (f_index f)")
      case pl: (Some q)
      obtain ft fv bk where q: "q = (ft, fv, bk)" by (cases q)
      note p = field_place_typed [OF laws v pl [unfolded q]]
      have "gives (if f_quoted f
            then and_then (val (TPtr TString) (RPtr (Some (RString []))) False d) (\<lambda>(s, d).
                   case s of RPtr (Some (RString s)) \<Rightarrow> literalStore E n s ft fv True True d | _ \<Rightarrow> None)
            else val ft fv True d) (has_type (de_types E) ft)"
        using p by (auto intro!: gives_any val literalStore_typed [OF laws] split: rval.split option.split)
      then show ?thesis
        unfolding field_member_def Some option.case fld pl q prod.case
        by (rule gives_then) (use p in simp)
    qed (simp add: field_member_def Some fld)
  qed
qed (simp add: field_member_def)

lemma object_members_typed:
  assumes laws: "dec_laws E"
    and val: "\<And>t v c d. has_type (de_types E) t v \<Longrightarrow> gives (val t v c d) (has_type (de_types E) t)"
  shows "has_type (de_types E) t v \<Longrightarrow> gives (object_members E val n t v d) (has_type (de_types E) t)"
proof (induction n arbitrary: v d)
  case (Suc n)
  have m: "gives (member_value E val n t v key d) (has_type (de_types E) t)" for key d
    using map_member_typed [OF laws val _ Suc.prems] field_member_typed [OF laws val Suc.prems]
    by (simp add: member_value_def split: gtype.split)
  have r: "gives (and_then (member_value E val n t v key d) (\<lambda>(v, d).
             and_then (run (scanWhile scanSkipSpace d)) (\<lambda>(op, d).
               if op = scanEndObject then ok (v, d)
               else if op \<noteq> scanObjectValue then fail_with ErrPhase
               else object_members E val n t v d))) (has_type (de_types E) t)" for key d
    by (rule gives_then [OF m]) (auto intro!: gives_any Suc.IH)
  show ?case using Suc.prems by (auto intro!: gives_any r)
qed simp

lemma object_at_typed:
  assumes laws: "dec_laws E"
    and val: "\<And>t v c d. has_type (de_types E) t v \<Longrightarrow> gives (val t v c d) (has_type (de_types E) t)"
    and v: "has_type (de_types E) t v"
  shows "gives (object_at E val n t v c d) (has_type (de_types E) t)"
  unfolding object_at_def
proof (rule with_target_typed [OF laws v], goal_cases)
  case (1 t' w)
  have i: "gives (and_then (objectInterface (de_parseFloat E 64) n [] d) (\<lambda>(g, d). ok (RIface (reflected g), d)))
      (has_type (de_types E) t')" if "kind_of (de_types E) t' = TInterface"
    by (rule interface_typed [OF laws that]) (simp add: interface_ok(3))
  have m: "has_type (de_types E) t' (if w = RMap None then RMap (Some []) else w)" if "kind_of (de_types E) t' = TMap kt et" for kt et
    using 1 by (auto simp: has_type_parts(2) [OF that])
  show ?case
    by (cases "kind_of (de_types E) t'")
      (simp_all add: type_error_typed [OF 1] i object_members_typed [OF laws val 1] object_members_typed [OF laws val m])
qed

text \<open>Every recursive call is made on a value of its type.\<close>

lemma value_at_typed:
  assumes laws: "dec_laws E"
  shows "has_type (de_types E) t v \<Longrightarrow> gives (value_at E n t v c d) (has_type (de_types E) t)"
proof (induction n arbitrary: t v c d)
  case (Suc n)
  show ?case
    by (auto intro!: gives_any array_at_typed [OF laws Suc.IH Suc.prems] object_at_typed [OF laws Suc.IH Suc.prems]
        literalStore_typed [OF laws Suc.prems])
qed simp

section \<open>Unmarshal\<close>

lemma Unmarshal_keeps:
  assumes "dec_laws E" "has_type (de_types E) t v" "Unmarshal E n data (Some (t, v)) = Some (e, Some v')"
  shows "has_type (de_types E) t v'"
proof -
  have "v' = v \<or> (\<exists>d d'. value_at E n t v False d = ok (v', d'))"
    using assms(3)
    by (auto simp: Unmarshal_def unmarshal_def ok_def bind_eq_Some_conv split: if_splits sum.splits)
      (metis sum.exhaust surj_pair)
  then show ?thesis using assms(2) value_at_typed [OF assms(1,2), of n False] by (auto simp: gives_def)
qed


definition plain_dec :: "unit dec_env" where
  "plain_dec =
     sample_dec\<lparr>de_types := \<lparr>te_under = (\<lambda>n. if n = ''json.Number'' then TString else TOther), te_letter = (\<lambda>_. True),
       te_types = [TBool, TFloat 64, TString, numberType, TSlice TInterface, TMap TString TInterface]\<rparr>\<rparr>"

lemma plain_dec_laws: "dec_laws plain_dec"
  by (auto simp: dec_laws_def plain_dec_def sample_dec_def kind_of_def numberType_def)


end
