(* ===== verification/Log_File.thy ===== *)
theory Log_File
  imports Go_Prelude "HOL-Library.Sublist"
begin

text \<open>
  The adapters of the log: \<open>common/log/file.go\<close> with its rotation, and \<open>common/log/console.go\<close>. The
  operating system is a record of files and of what it permits; a time is a record of its parts.
  \<open>encoding/json\<close> is a parameter of \<open>Init\<close>.
\<close>

section \<open>Levels\<close>

definition LevelFatal :: int where "LevelFatal = 0"
definition LevelError :: int where "LevelError = 1"
definition LevelAlert :: int where "LevelAlert = 2"
definition LevelWarn :: int where "LevelWarn = 3"
definition LevelNotice :: int where "LevelNotice = 4"
definition LevelInfo :: int where "LevelInfo = 5"
definition LevelDebug :: int where "LevelDebug = 6"
definition LevelTrace :: int where "LevelTrace = 7"

lemmas level_defs =
  LevelFatal_def LevelError_def LevelAlert_def LevelWarn_def LevelNotice_def LevelInfo_def LevelDebug_def
  LevelTrace_def

section \<open>The operating system\<close>

text \<open>The files with their contents, and whether opening for writing and for reading, writing and renaming succeed.\<close>

record os =
  os_files :: "string \<Rightarrow> string option"
  os_open_ok :: "string \<Rightarrow> bool"
  os_read_ok :: "string \<Rightarrow> bool"
  os_write_ok :: "string \<Rightarrow> bool"
  os_rename_ok :: "string \<Rightarrow> string \<Rightarrow> bool"

datatype file_handle = NoFile | OpenFile string | ClosedFile

text \<open>\<open>os.Lstat\<close> succeeds on a file that exists.\<close>

definition os_Lstat :: "os \<Rightarrow> string \<Rightarrow> bool" where
  "os_Lstat S p \<longleftrightarrow> os_files S p \<noteq> None"

definition os_OpenAppend :: "os \<Rightarrow> string \<Rightarrow> (file_handle \<times> os) option" where
  "os_OpenAppend S p =
     (if os_open_ok S p
      then Some (OpenFile p, (if os_files S p = None then S\<lparr>os_files := (os_files S)(p \<mapsto> [])\<rparr> else S))
      else None)"

text \<open>A write reports an error when the file is not open; a file that has been unlinked takes it silently.\<close>

definition os_Write :: "os \<Rightarrow> file_handle \<Rightarrow> string \<Rightarrow> bool \<times> os" where
  "os_Write S h b =
     (case h of
        OpenFile p \<Rightarrow>
          (if os_write_ok S p
           then (True, case os_files S p of None \<Rightarrow> S | Some c \<Rightarrow> S\<lparr>os_files := (os_files S)(p \<mapsto> c @ b)\<rparr>)
           else (False, S))
      | _ \<Rightarrow> (False, S))"

definition os_Rename :: "os \<Rightarrow> string \<Rightarrow> string \<Rightarrow> bool \<times> os" where
  "os_Rename S p q =
     (case os_files S p of
        None \<Rightarrow> (False, S)
      | Some c \<Rightarrow>
          (if os_rename_ok S p q
           then (True, S\<lparr>os_files := (os_files S)(p := None, q \<mapsto> c)\<rparr>) else (False, S)))"

definition os_Remove :: "os \<Rightarrow> string \<Rightarrow> os" where
  "os_Remove S p = S\<lparr>os_files := (os_files S)(p := None)\<rparr>"

record clock =
  year :: int
  month :: int
  day :: int
  hour :: int
  minute :: int
  second :: int
  unix :: int

section \<open>The writer\<close>

record fileLogWriter =
  Filename :: string
  fileWriter :: file_handle
  MaxLines :: int
  maxLinesCurLines :: int
  MaxSize :: int
  maxSizeCurSize :: int
  Daily :: bool
  MaxDays :: int
  dailyOpenDate :: int
  Rotate :: bool
  fw_Level :: int
  DrawColor :: bool
  Perm :: nat

definition newFileWriter :: fileLogWriter where
  "newFileWriter =
     \<lparr>Filename = [], fileWriter = NoFile, MaxLines = 5000000, maxLinesCurLines = 0, MaxSize = 2 ^ 30,
      maxSizeCurSize = 0, Daily = True, MaxDays = 7, dailyOpenDate = 0, Rotate = True, fw_Level = LevelDebug,
      DrawColor = False, Perm = 432\<rparr>"

definition createLogFile :: "fileLogWriter \<Rightarrow> os \<Rightarrow> (file_handle \<times> os) option" where
  "createLogFile w S = os_OpenAppend S (Filename w)"

text \<open>\<open>lines\<close>: the line feeds of the file, counted in blocks of 32k.\<close>

function count_blocks :: "string \<Rightarrow> nat" where
  "count_blocks s =
     (if s = [] then 0 else count_list (take 32768 s) (CHR 0x0A) + count_blocks (drop 32768 s))"
  by pat_completeness auto

termination
  by (relation "measure length") auto

declare count_blocks.simps [simp del]

definition lines :: "fileLogWriter \<Rightarrow> os \<Rightarrow> nat option" where
  "lines w S =
     (if os_read_ok S (Filename w) then map_option count_blocks (os_files S (Filename w)) else None)"

text \<open>\<^term>\<open>Inl e\<close> is an error.\<close>

definition initFd :: "clock \<Rightarrow> fileLogWriter \<Rightarrow> os \<Rightarrow> (string + unit) \<times> fileLogWriter" where
  "initFd now w S =
     (case fileWriter w of
        OpenFile p \<Rightarrow>
          (let size = (case os_files S p of None \<Rightarrow> 0 | Some c \<Rightarrow> int (length c));
               w = w\<lparr>maxSizeCurSize := size, dailyOpenDate := day now, maxLinesCurLines := 0\<rparr>
           in if size > 0
              then (case lines w S of
                      None \<Rightarrow> (Inl ''open'', w)
                    | Some n \<Rightarrow> (Inr (), w\<lparr>maxLinesCurLines := int n\<rparr>))
              else (Inr (), w))
      | _ \<Rightarrow> (Inl ''get stat err'', w))"

definition startLogger :: "clock \<Rightarrow> fileLogWriter \<Rightarrow> os \<Rightarrow> (string + unit) \<times> fileLogWriter \<times> os" where
  "startLogger now w S =
     (case createLogFile w S of
        None \<Rightarrow> (Inl ''open'', w, S)
      | Some (f, S) \<Rightarrow>
          (let w = w\<lparr>fileWriter := f\<rparr>; (r, w) = initFd now w S in (r, w, S)))"

definition Init ::
    "(string \<Rightarrow> fileLogWriter \<Rightarrow> (string + unit) \<times> fileLogWriter) \<Rightarrow> string \<Rightarrow> clock \<Rightarrow> fileLogWriter \<Rightarrow> os \<Rightarrow>
     (string + unit) \<times> fileLogWriter \<times> os" where
  "Init unmarshal jsonConfig now w S =
     (let (r, w) = unmarshal jsonConfig w in
      case r of
        Inl e \<Rightarrow> (Inl e, w, S)
      | Inr _ \<Rightarrow>
          (if length (Filename w) = 0 then (Inl ''jsonconfig must have filename'', w, S)
           else startLogger now w S))"

definition needRotate :: "fileLogWriter \<Rightarrow> int \<Rightarrow> int \<Rightarrow> bool" where
  "needRotate w sz d \<longleftrightarrow>
     (MaxLines w > 0 \<and> maxLinesCurLines w \<ge> MaxLines w) \<or>
     (MaxSize w > 0 \<and> maxSizeCurSize w \<ge> MaxSize w) \<or>
     (Daily w \<and> d \<noteq> dailyOpenDate w)"

section \<open>Rotation\<close>

text \<open>\<open>filepath.Ext\<close>: from the last dot on, unless a slash comes behind it.\<close>

fun ext_scan :: "string \<Rightarrow> string \<Rightarrow> string" where
  "ext_scan [] acc = []"
| "ext_scan (c # cs) acc =
     (if c = CHR ''/'' then [] else if c = CHR ''.'' then c # acc else ext_scan cs (c # acc))"

definition filepath_Ext :: "string \<Rightarrow> string" where
  "filepath_Ext p = ext_scan (rev p) []"

definition TrimSuffix :: "string \<Rightarrow> string \<Rightarrow> string" where
  "TrimSuffix s t = (if suffix t s then take (length s - length t) s else s)"

definition filepath_Base :: "string \<Rightarrow> string" where
  "filepath_Base p =
     (if p = [] then ''.''
      else let p = rev (dropWhile (\<lambda>c. c = CHR ''/'') (rev p));
               b = rev (takeWhile (\<lambda>c. c \<noteq> CHR ''/'') (rev p))
           in if b = [] then ''/'' else b)"

text \<open>\<open>%0kd\<close> of a number that is not negative.\<close>

definition pad :: "nat \<Rightarrow> int \<Rightarrow> string" where
  "pad k n = (let s = dec_nat (nat n) in replicate (k - length s) (CHR ''0'') @ s)"

definition date_text :: "clock \<Rightarrow> string" where
  "date_text t = pad 4 (year t) @ ''-'' @ pad 2 (month t) @ ''-'' @ pad 2 (day t)"

definition rotated_name :: "clock \<Rightarrow> string \<Rightarrow> nat \<Rightarrow> string" where
  "rotated_name now F num =
     (let suf = filepath_Ext F;
          filenameOnly = TrimSuffix F suf;
          suf = (if suf = [] then ''.log'' else suf)
      in filenameOnly @ ''.'' @ date_text now @ ''.'' @ pad 3 (int num) @ suf)"

text \<open>The search for a free number: the first name that does not exist, \<^term>\<open>None\<close> when all 999 do.\<close>

function find_name :: "clock \<Rightarrow> os \<Rightarrow> string \<Rightarrow> nat \<Rightarrow> string option" where
  "find_name now S F num =
     (if num \<le> 999
      then (if os_Lstat S (rotated_name now F num) then find_name now S F (num + 1)
            else Some (rotated_name now F num))
      else None)"
  by pat_completeness auto

termination
  by (relation "measure (\<lambda>(_, _, _, num). 1000 - num)") auto

declare find_name.simps [simp del]

definition doRotate :: "clock \<Rightarrow> fileLogWriter \<Rightarrow> os \<Rightarrow> (string + unit) \<times> fileLogWriter \<times> os" where
  "doRotate now w S =
     (if \<not> os_Lstat S (Filename w) then (Inl ''lstat'', w, S)
      else case find_name now S (Filename w) 1 of
        None \<Rightarrow> (Inl ''Rotate: Cannot find free log number to rename'', w, S)
      | Some fName \<Rightarrow>
          (let w = w\<lparr>fileWriter := ClosedFile\<rparr>;
               (renamed, S) = os_Rename S (Filename w) fName;
               (r, w, S) = startLogger now w S
           in case r of
                Inl e \<Rightarrow> (Inl (''Rotate StartLogger: '' @ e), w, S)
              | Inr _ \<Rightarrow> (if renamed then Inr () else Inl ''Rotate: rename'', w, S)))"

text \<open>The visit of one file by \<open>deleteOldLog\<close>, with its time of modification.\<close>

definition delete_visit :: "clock \<Rightarrow> fileLogWriter \<Rightarrow> string \<times> bool \<times> int \<Rightarrow> os \<Rightarrow> os" where
  "delete_visit now w = (\<lambda>(path, isDir, modTime) S.
     if \<not> isDir \<and> modTime < unix now - 60 * 60 * 24 * MaxDays w \<and>
        str_HasPrefix (filepath_Base path) (filepath_Base (Filename w))
     then os_Remove S path else S)"

definition deleteOldLog :: "clock \<Rightarrow> fileLogWriter \<Rightarrow> (string \<times> bool \<times> int) list \<Rightarrow> os \<Rightarrow> os" where
  "deleteOldLog now w visited S = fold (delete_visit now w) visited S"

section \<open>Colours\<close>

definition newBrush :: "string \<Rightarrow> string \<Rightarrow> string" where
  "newBrush color txt = [CHR 0x1B, CHR ''[''] @ color @ ''m'' @ txt @ [CHR 0x1B] @ ''[0m''"

definition colors :: "(string \<Rightarrow> string) list" where
  "colors = map newBrush [''1;35'', ''1;31'', ''1;36'', ''1;33'', ''1;37'', ''1;32'', ''1;34'']"

definition paint :: "int \<Rightarrow> string \<Rightarrow> string option" where
  "paint lvl msg = (if 0 \<le> lvl \<and> lvl < int (length colors) then Some ((colors ! nat lvl) msg) else None)"

section \<open>Writing\<close>

text \<open>The conversion to a byte.\<close>

definition go_byte :: "int \<Rightarrow> char" where
  "go_byte n = char_of (nat (n mod 256))"

function year_loop :: "int \<Rightarrow> int \<Rightarrow> string \<Rightarrow> (int \<times> string) option" where
  "year_loop y t buf =
     (if y \<ge> 10
      then (if t < 0 then None
            else year_loop (y div 10) (t - 1) (buf[nat t := go_byte (48 + y - (y div 10) * 10)]))
      else Some (y, buf))"
  by pat_completeness auto

termination
  by (relation "measure (\<lambda>(y, _, _). nat y)") auto

declare year_loop.simps [simp del]

definition two_bytes :: "int \<Rightarrow> string" where
  "two_bytes n = (let t = go_div n 10 in [go_byte (48 + t), go_byte (48 + n - t * 10)])"

text \<open>The head of a line, \<open>2006/01/02 15:04:05\<close> and a space; \<^term>\<open>None\<close> is an index out of range.\<close>

definition stamp :: "clock \<Rightarrow> string option" where
  "stamp now =
     map_option (\<lambda>(y, buf).
       take 4 (buf[0 := go_byte (48 + y)]) @ ''/'' @
       (if month now > 9 then [CHR ''1'', go_byte (48 + month now - 9)]
        else [CHR ''0'', go_byte (48 + month now)]) @ ''/'' @
       two_bytes (day now) @ '' '' @ two_bytes (hour now) @ '':'' @ two_bytes (minute now) @ '':'' @
       two_bytes (second now) @ '' '')
       (year_loop (year now) 3 (replicate 20 (CHR 0x00)))"

text \<open>\<open>WriteMsg\<close>; \<open>now'\<close> is the time of the rotation. A failed rotation is reported on the standard error
  and the message goes to the file that is open. The outer \<^term>\<open>None\<close> is a panic.\<close>

definition file_WriteMsg ::
    "clock \<Rightarrow> clock \<Rightarrow> string \<Rightarrow> int \<Rightarrow> fileLogWriter \<Rightarrow> os \<Rightarrow> ((string + unit) \<times> fileLogWriter \<times> os) option" where
  "file_WriteMsg now now' msg lvl w S =
     (if lvl > fw_Level w then Some (Inr (), w, S)
      else Option.bind (stamp now) (\<lambda>head.
        Option.bind (if DrawColor w then paint lvl msg else Some msg) (\<lambda>body.
          (let msg = head @ body @ [CHR 0x0A];
               (w, S) = (if Rotate w \<and> needRotate w (int (length msg)) (day now)
                         then snd (doRotate now' w S) else (w, S));
               (written, S) = os_Write S (fileWriter w) msg
           in if written
              then Some (Inr (), w\<lparr>maxLinesCurLines := maxLinesCurLines w + 1,
                                   maxSizeCurSize := maxSizeCurSize w + int (length msg)\<rparr>, S)
              else Some (Inl ''write'', w, S)))))"

definition file_Destroy :: "fileLogWriter \<Rightarrow> fileLogWriter" where
  "file_Destroy w = (if fileWriter w = NoFile then w else w\<lparr>fileWriter := ClosedFile\<rparr>)"

definition file_Flush :: "fileLogWriter \<Rightarrow> fileLogWriter" where
  "file_Flush w = w"

section \<open>The console\<close>

text \<open>What is printed is the state of the console.\<close>

record consoleWriter =
  cw_Level :: int
  cw_out :: "string list"

definition NewConsole :: consoleWriter where
  "NewConsole = \<lparr>cw_Level = LevelDebug, cw_out = []\<rparr>"

definition console_Init ::
    "(string \<Rightarrow> consoleWriter \<Rightarrow> (string + unit) \<times> consoleWriter) \<Rightarrow> string \<Rightarrow> consoleWriter \<Rightarrow>
     (string + unit) \<times> consoleWriter" where
  "console_Init unmarshal jsonconfig c = (if length jsonconfig = 0 then (Inr (), c) else unmarshal jsonconfig c)"

definition console_WriteMsg :: "string \<Rightarrow> string \<Rightarrow> int \<Rightarrow> consoleWriter \<Rightarrow> consoleWriter option" where
  "console_WriteMsg goos msg lvl c =
     (if lvl > cw_Level c then Some c
      else if goos = ''windows'' then Some (c\<lparr>cw_out := cw_out c @ [msg]\<rparr>)
      else map_option (\<lambda>m. c\<lparr>cw_out := cw_out c @ [m]\<rparr>) (paint lvl msg))"

section \<open>Rotation loses nothing\<close>

lemma find_name_free:
  assumes "find_name now S F n = Some f"
  shows "os_files S f = None \<and> (\<exists>k \<le> 999. f = rotated_name now F k)"
  using assms
proof (induction now S F n rule: find_name.induct)
  case (1 now S F n)
  then show ?case
    using find_name.simps [of now S F n] by (auto simp: os_Lstat_def split: if_splits)
qed

lemma initFd_keeps:
  "initFd now w S = (r, w') \<Longrightarrow> Filename w' = Filename w \<and> fileWriter w' = fileWriter w"
  by (auto simp: initFd_def Let_def split: file_handle.splits option.splits if_splits)

lemma startLogger_files:
  "os_files (snd (snd (startLogger now w S))) =
     (if os_open_ok S (Filename w) \<and> os_files S (Filename w) = None
      then (os_files S)(Filename w \<mapsto> []) else os_files S)"
  by (auto simp: startLogger_def createLogFile_def os_OpenAppend_def Let_def split: prod.splits)

lemma startLogger_writer:
  assumes "startLogger now w S = (r, w', S')"
  shows "Filename w' = Filename w"
    and "fileWriter w' = (if os_open_ok S (Filename w) then OpenFile (Filename w) else fileWriter w)"
  using assms
  by (auto simp: startLogger_def createLogFile_def os_OpenAppend_def Let_def split: prod.splits if_splits
      dest: initFd_keeps)

lemma os_Rename_files:
  "os_files S q = None \<Longrightarrow> os_files S p \<noteq> None \<Longrightarrow>
   os_files (snd (os_Rename S p q)) =
     (if fst (os_Rename S p q) then (os_files S)(q := os_files S p, p := None) else os_files S)"
  by (auto simp: os_Rename_def fun_eq_iff split: if_splits)

lemma os_Rename_keeps [simp]:
  "os_open_ok (snd (os_Rename S p q)) = os_open_ok S" "os_write_ok (snd (os_Rename S p q)) = os_write_ok S"
  by (auto simp: os_Rename_def split: option.splits)

lemma doRotate_cases:
  assumes "doRotate now w S = (r, w', S')"
  obtains (stays) "r \<noteq> Inr ()" "w' = w" "S' = S"
      "os_files S (Filename w) = None \<or> find_name now S (Filename w) 1 = None"
  | (moves) f renamed S1 where
      "os_files S f = None" "os_files S (Filename w) \<noteq> None" "f \<noteq> Filename w"
      "find_name now S (Filename w) 1 = Some f"
      "os_Rename S (Filename w) f = (renamed, S1)"
      "snd (startLogger now (w\<lparr>fileWriter := ClosedFile\<rparr>) S1) = (w', S')"
proof (cases "find_name now S (Filename w) 1")
  case None
  then show ?thesis using assms stays by (auto simp: doRotate_def split: if_splits)
next
  case (Some f)
  note free = find_name_free [OF Some]
  show ?thesis
  proof (cases "os_files S (Filename w)")
    case None
    then show ?thesis using assms stays by (auto simp: doRotate_def os_Lstat_def)
  next
    case F: (Some c)
    obtain renamed S1 where R: "os_Rename S (Filename w) f = (renamed, S1)" by fastforce
    then have "snd (startLogger now (w\<lparr>fileWriter := ClosedFile\<rparr>) S1) = (w', S')"
      using assms Some F by (auto simp: doRotate_def os_Lstat_def Let_def split: prod.splits sum.splits)
    moreover have "f \<noteq> Filename w" using free F by auto
    ultimately show ?thesis using moves [OF _ _ _ Some R] free F by simp
  qed
qed


section \<open>What a message does to the files\<close>

text \<open>The counters of the writer are those of the open file; a message may hold line feeds of its own, so the
  number of lines is a lower bound.\<close>

definition fw_inv :: "fileLogWriter \<Rightarrow> os \<Rightarrow> bool" where
  "fw_inv w S \<longleftrightarrow>
     (case fileWriter w of
        OpenFile p \<Rightarrow>
          p = Filename w \<and>
          (case os_files S p of
             None \<Rightarrow> False
           | Some c \<Rightarrow> maxSizeCurSize w = int (length c) \<and>
                       maxLinesCurLines w \<le> int (count_list c (CHR 0x0A)))
      | _ \<Rightarrow> True)"

lemma fw_invD:
  "fw_inv w S \<Longrightarrow> fileWriter w = OpenFile p \<Longrightarrow>
   p = Filename w \<and> (\<exists>c. os_files S (Filename w) = Some c \<and> maxSizeCurSize w = int (length c) \<and>
     maxLinesCurLines w \<le> int (count_list c (CHR 0x0A)))"
  by (auto simp: fw_inv_def split: option.splits)

lemma count_list_take_drop: "count_list (take n s) c + count_list (drop n s) c = count_list s c"
  by (metis append_take_drop_id count_list_append)

lemma count_blocks_eq: "count_blocks s = count_list s (CHR 0x0A)"
proof (induction s rule: count_blocks.induct)
  case (1 s)
  then show ?case
    using count_blocks.simps [of s] count_list_take_drop [of 32768 s "CHR 0x0A"] by auto
qed

lemma fw_inv_initFd:
  assumes "fileWriter w = OpenFile (Filename w)" "os_files S (Filename w) = Some c"
  shows "fw_inv (snd (initFd now w S)) S"
  using assms by (auto simp: fw_inv_def initFd_def lines_def count_blocks_eq Let_def split: option.splits)

lemma fw_inv_startLogger:
  assumes "startLogger now w S = (r, w', S')" "fw_inv w S"
  shows "fw_inv w' S'"
proof (cases "os_open_ok S (Filename w)")
  case True
  let ?S = "if os_files S (Filename w) = None then S\<lparr>os_files := (os_files S)(Filename w \<mapsto> [])\<rparr> else S"
  obtain c where "os_files ?S (Filename w) = Some c" by (cases "os_files S (Filename w)") auto
  then have "fw_inv (snd (initFd now (w\<lparr>fileWriter := OpenFile (Filename w)\<rparr>) ?S)) ?S"
    by (intro fw_inv_initFd [where c = c]) auto
  then show ?thesis using assms True
    by (auto simp: startLogger_def createLogFile_def os_OpenAppend_def Let_def split: prod.splits if_splits)
next
  case False
  then show ?thesis using assms by (simp add: startLogger_def createLogFile_def os_OpenAppend_def)
qed

lemma fw_inv_doRotate:
  assumes "doRotate now w S = (r, w', S')" "fw_inv w S"
  shows "fw_inv w' S'"
  using assms(1)
proof (cases rule: doRotate_cases)
  case (moves f renamed S1)
  have "fw_inv (w\<lparr>fileWriter := ClosedFile\<rparr>) S1" by (simp add: fw_inv_def)
  moreover obtain r' where "startLogger now (w\<lparr>fileWriter := ClosedFile\<rparr>) S1 = (r', w', S')"
    using moves by (metis prod.collapse)
  ultimately show ?thesis by (rule fw_inv_startLogger [rotated])
qed (use assms in simp)

lemma fw_inv_write:
  assumes "fw_inv w S" "os_Write S (fileWriter w) b = (True, S')" "count_list b (CHR 0x0A) > 0"
  shows "fw_inv (w\<lparr>maxLinesCurLines := maxLinesCurLines w + 1,
                   maxSizeCurSize := maxSizeCurSize w + int (length b)\<rparr>) S'"
  using assms by (auto simp: fw_inv_def os_Write_def split: file_handle.splits if_splits option.splits)

lemma os_Write_fails: "os_Write S h b = (False, S') \<Longrightarrow> S' = S"
  by (auto simp: os_Write_def split: file_handle.splits if_splits)

lemma file_WriteMsg_cases:
  assumes "file_WriteMsg now now' msg lvl w S = Some (r, w', S')" "lvl \<le> fw_Level w"
  obtains head body line w1 S1 written S2 where
    "stamp now = Some head" "(if DrawColor w then paint lvl msg else Some msg) = Some body"
    "line = head @ body @ [CHR 0x0A]"
    "(if Rotate w \<and> needRotate w (int (length line)) (day now) then snd (doRotate now' w S) else (w, S))
     = (w1, S1)"
    "os_Write S1 (fileWriter w1) line = (written, S2)"
    "(r, w', S') = (if written then (Inr (), w1\<lparr>maxLinesCurLines := maxLinesCurLines w1 + 1,
        maxSizeCurSize := maxSizeCurSize w1 + int (length line)\<rparr>, S2) else (Inl ''write'', w1, S2))"
proof -
  obtain head body where hb: "stamp now = Some head"
      "(if DrawColor w then paint lvl msg else Some msg) = Some body"
    using assms by (auto simp: file_WriteMsg_def bind_eq_Some_conv split: if_splits)
  define line where "line = head @ body @ [CHR 0x0A]"
  define R where "R = (if Rotate w \<and> needRotate w (int (length line)) (day now)
      then snd (doRotate now' w S) else (w, S))"
  obtain w1 S1 where R1: "R = (w1, S1)" by fastforce
  obtain written S2 where W: "os_Write S1 (fileWriter w1) line = (written, S2)" by fastforce
  have "(r, w', S') = (if written then (Inr (), w1\<lparr>maxLinesCurLines := maxLinesCurLines w1 + 1,
          maxSizeCurSize := maxSizeCurSize w1 + int (length line)\<rparr>, S2) else (Inl ''write'', w1, S2))"
    using assms hb R1 W by (simp add: file_WriteMsg_def Let_def R_def line_def split: if_splits)
  then show thesis using that [OF hb line_def _ W] R1 unfolding R_def by blast
qed

lemma doRotate_snd:
  "snd (doRotate now w S) = (w', S') \<Longrightarrow> \<exists>r. doRotate now w S = (r, w', S')"
  by (cases "doRotate now w S") auto

text \<open>The invariant of the file adapter: its counters describe the file it has open.\<close>

theorem file_WriteMsg_inv:
  assumes "fw_inv w S" "file_WriteMsg now now' msg lvl w S = Some (r, w', S')"
  shows "fw_inv w' S'"
proof (cases "lvl > fw_Level w")
  case False
  then have "lvl \<le> fw_Level w" by simp
  with assms(2) show ?thesis
  proof (cases rule: file_WriteMsg_cases)
    case (1 head body line w1 S1 written S2)
    have inv: "fw_inv w1 S1"
      using 1(4) assms(1) fw_inv_doRotate doRotate_snd by (metis prod.inject)
    have "count_list line (CHR 0x0A) > 0" using 1(3) by simp
    then show ?thesis using inv 1 fw_inv_write [of w1 S1 line S2] os_Write_fails [of S1 "fileWriter w1" line S2]
      by (auto split: if_splits)
  qed
qed (use assms in \<open>auto simp: file_WriteMsg_def\<close>)

lemma doRotate_current:
  assumes "doRotate now w S = (r, w', S')" "fileWriter w = OpenFile (Filename w)"
    "fileWriter w' = OpenFile p" "os_files S (Filename w) = Some c"
  shows "p = Filename w \<and>
    (os_files S' = os_files S \<or>
     (\<exists>f. os_files S f = None \<and> os_files S' = (os_files S)(f \<mapsto> c, Filename w \<mapsto> [])))"
  using assms(1)
proof (cases rule: doRotate_cases)
  case (moves f renamed S1)
  obtain r' where st: "startLogger now (w\<lparr>fileWriter := ClosedFile\<rparr>) S1 = (r', w', S')"
    using moves by (metis prod.collapse)
  note wr = startLogger_writer [OF st]
  have op: "os_open_ok S1 (Filename w)" using wr assms(3) by (auto split: if_splits)
  have "os_files S' = (if os_files S1 (Filename w) = None then (os_files S1)(Filename w \<mapsto> []) else os_files S1)"
    using startLogger_files [of now "w\<lparr>fileWriter := ClosedFile\<rparr>" S1] st op by simp
  moreover have "os_files S1 = (if renamed then (os_files S)(f := os_files S (Filename w), Filename w := None)
      else os_files S)"
    using os_Rename_files [OF moves(1,2)] moves by simp
  ultimately show ?thesis using assms moves wr op by (auto split: if_splits)
qed (use assms in auto)


section \<open>The stamp of a line\<close>

lemma go_byte_digit: "k < 10 \<Longrightarrow> go_byte (48 + int k) = char_of (k + 48)"
  by (simp add: go_byte_def nat_add_distrib add.commute)

lemma dec_nat_2: "10 \<le> n \<Longrightarrow> n < 100 \<Longrightarrow> dec_nat n = [char_of (n div 10 + 48), char_of (n mod 10 + 48)]"
  by (subst dec_nat.simps, subst dec_nat.simps) simp

lemma dec_nat_1: "n < 10 \<Longrightarrow> dec_nat n = [char_of (n + 48)]"
  by (subst dec_nat.simps) simp

lemma dec_nat_4:
  assumes "1000 \<le> n" "n < 10000"
  shows "dec_nat n = [char_of (n div 1000 + 48), char_of (n div 100 mod 10 + 48),
                      char_of (n div 10 mod 10 + 48), char_of (n mod 10 + 48)]"
proof -
  have "dec_nat (n div 100) = [char_of (n div 100 div 10 + 48), char_of (n div 100 mod 10 + 48)]"
    using assms by (intro dec_nat_2) auto
  moreover have "dec_nat n = dec_nat (n div 10) @ [char_of (n mod 10 + 48)]"
    using assms dec_nat.simps [of n] by simp
  moreover have "dec_nat (n div 10) = dec_nat (n div 100) @ [char_of (n div 10 mod 10 + 48)]"
    using assms dec_nat.simps [of "n div 10"] by (simp add: div_mult2_eq [symmetric])
  ultimately show ?thesis by (simp add: div_mult2_eq [symmetric])
qed

lemma two_bytes_pad:
  assumes "0 \<le> n" "n \<le> 99"
  shows "two_bytes n = pad 2 n"
proof -
  obtain k where k: "n = int k" "k \<le> 99" using assms by (metis nat_le_eq_zle nat_numeral zero_le_imp_eq_int of_nat_le_iff of_nat_numeral)
  have t: "go_div n 10 = int (k div 10)" using k by (simp add: go_div_nonneg zdiv_int)
  have m: "48 + n - int (k div 10) * 10 = 48 + int (k mod 10)" using k by presburger
  have "two_bytes n = [char_of (k div 10 + 48), char_of (k mod 10 + 48)]"
    using k by (simp add: two_bytes_def Let_def t m k(1) [symmetric] go_byte_digit)
  moreover have "pad 2 n = [char_of (k div 10 + 48), char_of (k mod 10 + 48)]"
    using k by (cases "k < 10") (simp_all add: pad_def dec_nat_1 dec_nat_2 digit_chars)
  ultimately show ?thesis by simp
qed

lemma year_loop_4:
  assumes "1000 \<le> k" "k < 10000" and buf: "buf = a # b # c # d # rest"
  shows "\<exists>y b. year_loop (int k) 3 buf = Some (y, b) \<and> take 4 (b[0 := go_byte (48 + y)]) = pad 4 (int k)"
proof -
  have step: "10 \<le> j \<Longrightarrow> j < 10000 \<Longrightarrow> 0 \<le> t \<Longrightarrow> year_loop (int j) t b =
      year_loop (int (j div 10)) (t - 1) (b[nat t := char_of (j mod 10 + 48)])" for j t b
  proof -
    have "48 + int j - (int j div 10) * 10 = 48 + int (j mod 10)"
      by (simp add: zmod_int minus_div_mult_eq_mod)
    then have "go_byte (48 + int j - (int j div 10) * 10) = char_of (j mod 10 + 48)"
      by (simp only: go_byte_digit [of "j mod 10"])
    moreover assume "10 \<le> j" "j < 10000" "0 \<le> t"
    ultimately show ?thesis using year_loop.simps [of "int j" t b]
      by (simp add: zdiv_int)
  qed
  have stop: "j < 10 \<Longrightarrow> year_loop (int j) t b = Some (int j, b)" for j t b
    using year_loop.simps [of "int j" t b] by simp
  have "year_loop (int k) 3 buf =
    Some (int (k div 1000), buf[3 := char_of (k mod 10 + 48), 2 := char_of (k div 10 mod 10 + 48),
      1 := char_of (k div 100 mod 10 + 48)])"
    using assms step [of k 3 buf] step [of "k div 10" 2] step [of "k div 100" 1] stop [of "k div 1000"]
    by (simp add: div_mult2_eq [symmetric])
  moreover have "go_byte (48 + int (k div 1000)) = char_of (k div 1000 + 48)"
    using assms by (intro go_byte_digit) simp
  moreover have "take 4 (buf[3 := w, 2 := x, 1 := y, 0 := z]) = [z, y, x, w]" for w x y z
    by (simp add: buf numeral_3_eq_3 numeral_2_eq_2)
  ultimately show ?thesis using assms(1,2) by (simp add: pad_def dec_nat_4)
qed

text \<open>The stamp of a line is the time in the format of the comment for the first nine months; the tenth to
  the twelfth are written as 11 to 13.\<close>

theorem stamp_text:
  assumes "1000 \<le> year t" "year t \<le> 9999" "1 \<le> month t" "month t \<le> 12" "0 \<le> day t" "day t \<le> 99"
    "0 \<le> hour t" "hour t \<le> 99" "0 \<le> minute t" "minute t \<le> 99" "0 \<le> second t" "second t \<le> 99"
  shows "stamp t = Some (pad 4 (year t) @ ''/'' @ pad 2 (if month t > 9 then month t + 1 else month t) @ ''/'' @
      pad 2 (day t) @ '' '' @ pad 2 (hour t) @ '':'' @ pad 2 (minute t) @ '':'' @ pad 2 (second t) @ '' '')"
proof -
  obtain k where k: "year t = int k" "1000 \<le> k" "k < 10000"
    using assms(1,2) by (intro that [of "nat (year t)"]) auto
  have "replicate 20 (CHR 0x00) = CHR 0x00 # CHR 0x00 # CHR 0x00 # CHR 0x00 # replicate 16 (CHR 0x00)"
    by code_simp
  from year_loop_4 [OF k(2,3) this] obtain y b where Y: "year_loop (int k) 3 (replicate 20 (CHR 0x00)) = Some (y, b)"
      "take 4 (b[0 := go_byte (48 + y)]) = pad 4 (int k)" by blast
  have "(if month t > 9 then [CHR ''1'', go_byte (48 + month t - 9)] else [CHR ''0'', go_byte (48 + month t)])
      = pad 2 (if month t > 9 then month t + 1 else month t)"
  proof -
    have "month t \<in> {1, 2, 3, 4, 5, 6, 7, 8, 9, 10, 11, 12}" using assms(3,4) by simp presburger
    then show ?thesis
      by (elim insertE emptyE) (simp_all add: pad_def dec_nat_1 dec_nat_2 digit_chars go_byte_def)
  qed
  then show ?thesis using assms Y k by (simp add: stamp_def two_bytes_pad)
qed

lemma stamp_text_witness:
  "let t = \<lparr>year = 2016, month = 12, day = 1, hour = 21, minute = 34, second = 33, unix = 0\<rparr>
   in stamp t = Some ''2016/13/01 21:34:33 ''"
  by (simp add: stamp_text [of "\<lparr>year = 2016, month = 12, day = 1, hour = 21, minute = 34, second = 33, unix = 0\<rparr>"]
      pad_def dec_nat_1 dec_nat_2 dec_nat_4 digit_chars)

definition ex_os :: os where
  "ex_os = \<lparr>os_files = [''logs/zeus.log'' \<mapsto> ''old'' @ [CHR 0x0A]], os_open_ok = (\<lambda>_. True),
     os_read_ok = (\<lambda>_. True), os_write_ok = (\<lambda>_. True), os_rename_ok = (\<lambda>_ _. True)\<rparr>"

definition ex_clock :: clock where
  "ex_clock = \<lparr>year = 2016, month = 12, day = 1, hour = 21, minute = 34, second = 33, unix = 10 ^ 9\<rparr>"

section \<open>The removal of old logs\<close>

definition no_slash :: "string \<Rightarrow> bool" where
  "no_slash s \<longleftrightarrow> CHR ''/'' \<notin> set s"

lemma ext_scan_tail:
  "CHR ''/'' \<notin> set s \<Longrightarrow> CHR ''.'' \<notin> set s \<Longrightarrow> ext_scan (s @ CHR ''.'' # q) acc = CHR ''.'' # rev s @ acc"
  by (induction s arbitrary: acc) auto

lemma filepath_Ext_stem:
  "no_slash e \<Longrightarrow> CHR ''.'' \<notin> set e \<Longrightarrow> filepath_Ext (stem @ ''.'' @ e) = ''.'' @ e"
  using ext_scan_tail [of "rev e" "rev stem" "[]"] by (simp add: filepath_Ext_def no_slash_def)

lemma TrimSuffix_append [simp]: "TrimSuffix (a @ b) b = a"
  by (simp add: TrimSuffix_def suffix_def)

lemma filepath_Base_append:
  assumes "no_slash b" "b \<noteq> []"
  shows "filepath_Base (d @ b) = rev (takeWhile (\<lambda>c. c \<noteq> CHR ''/'') (rev d)) @ b"
proof -
  have "last b \<noteq> CHR ''/''" using assms(1) last_in_set [OF assms(2)] unfolding no_slash_def by metis
  then have "dropWhile (\<lambda>c. c = CHR ''/'') (rev b @ rev d) = rev b @ rev d"
    using assms(2) by (cases b rule: rev_cases) auto
  moreover have "takeWhile (\<lambda>c. c \<noteq> CHR ''/'') (rev b @ rev d) = rev b @ takeWhile (\<lambda>c. c \<noteq> CHR ''/'') (rev d)"
    using assms(1) by (subst takeWhile_append2) (auto simp: no_slash_def)
  ultimately show ?thesis using assms by (simp add: filepath_Base_def Let_def)
qed

lemma pad_digits: "c \<in> set (pad k n) \<Longrightarrow> is_digit c"
  using dec_nat_digits by (auto simp: pad_def Let_def is_digit_iff split: if_splits)

lemma pad_nonempty: "pad k n \<noteq> []"
  by (simp add: pad_def Let_def)

lemma digit_no_slash: "is_digit c \<Longrightarrow> c \<noteq> CHR ''/''"
  by (auto simp: is_digit_iff)

lemma date_text_no_slash: "no_slash (date_text t)" "no_slash (pad k n)"
  using pad_digits digit_no_slash by (fastforce simp: date_text_def no_slash_def)+

lemma rotated_name_stem:
  assumes "no_slash e" "CHR ''.'' \<notin> set e"
  shows "rotated_name t (stem @ ''.'' @ e) n =
    stem @ ''.'' @ date_text t @ ''.'' @ pad 3 (int n) @ ''.'' @ e"
proof -
  have "TrimSuffix (stem @ ''.'' @ e) (''.'' @ e) = stem" by (rule TrimSuffix_append)
  then show ?thesis unfolding rotated_name_def Let_def filepath_Ext_stem [OF assms] by simp
qed

lemma rotated_log_stays:
  assumes "Filename w = stem @ ''.'' @ c # e" "no_slash (c # e)" "CHR ''.'' \<notin> set (c # e)" "\<not> is_digit c"
  shows "delete_visit now w (rotated_name t (Filename w) n, isDir, modTime) S = S"
proof -
  let ?B = "rev (takeWhile (\<lambda>c. c \<noteq> CHR ''/'') (rev stem))"
  let ?tail = "''.'' @ date_text t @ ''.'' @ pad 3 (int n) @ ''.'' @ c # e"
  have "no_slash ?tail" using assms(2) date_text_no_slash by (simp add: no_slash_def)
  then have "filepath_Base (rotated_name t (Filename w) n) = ?B @ ?tail"
    using filepath_Base_append [of ?tail stem] rotated_name_stem [OF assms(2,3)] assms(1) by simp
  moreover have "filepath_Base (Filename w) = ?B @ ''.'' @ c # e"
    using filepath_Base_append [of "''.'' @ c # e" stem] assms(1,2) by (simp add: no_slash_def)
  moreover have "is_digit (hd (pad 4 (year t)))" using pad_digits pad_nonempty hd_in_set by blast
  then have "\<not> prefix (''.'' @ c # e) ?tail"
    using assms(4) pad_nonempty [of 4 "year t"] by (cases "pad 4 (year t)") (auto simp: date_text_def)
  ultimately show ?thesis by (simp add: delete_visit_def str_HasPrefix_def)
qed

text \<open>\<open>deleteOldLog\<close> looks for the base name of the log at the head of a file's name, and rotation puts the
  date between the stem and the extension: a rotated log is never removed, however old, when the extension
  does not start with a digit.\<close>

theorem rotated_logs_never_removed:
  assumes "Filename w = stem @ ''.'' @ c # e" "no_slash (c # e)" "CHR ''.'' \<notin> set (c # e)" "\<not> is_digit c"
  shows "deleteOldLog now w (map (\<lambda>(t, n, modTime). (rotated_name t (Filename w) n, False, modTime)) logs) S = S"
  using rotated_log_stays [OF assms] by (induction logs) (auto simp: deleteOldLog_def)

lemma rotated_logs_never_removed_witness:
  "let w = newFileWriter\<lparr>Filename := ''logs/zeus.log''\<rparr>;
       t = ex_clock
   in deleteOldLog ex_clock w [(rotated_name t ''logs/zeus.log'' 1, False, 0)] ex_os = ex_os"
  using rotated_logs_never_removed [of "newFileWriter\<lparr>Filename := ''logs/zeus.log''\<rparr>" "''logs/zeus''" "CHR ''l''" "''og''"
    _ "[(ex_clock, 1, 0)]" ex_os]
  by (simp add: Let_def no_slash_def is_digit_iff)

text \<open>A file that is removed was older than \<open>MaxDays\<close> and its name starts with the name of the log.\<close>

lemma deleteOldLog_only_old:
  assumes "os_files (deleteOldLog now w visited S) p \<noteq> os_files S p"
  shows "\<exists>m. (p, False, m) \<in> set visited \<and> m < unix now - 86400 * MaxDays w \<and>
    str_HasPrefix (filepath_Base p) (filepath_Base (Filename w))"
  using assms
proof (induction visited arbitrary: S)
  case (Cons v vs)
  obtain q d m where v: "v = (q, d, m)" by (cases v) auto
  show ?case
  proof (cases "os_files (delete_visit now w v S) p = os_files S p")
    case True
    then show ?thesis using Cons.IH [of "delete_visit now w v S"] Cons.prems by (auto simp: deleteOldLog_def)
  next
    case False
    then show ?thesis using v by (auto simp: delete_visit_def os_Remove_def split: if_splits)
  qed
qed (simp add: deleteOldLog_def)

section \<open>The bound on the size of the log\<close>

lemma doRotate_moves:
  assumes "os_open_ok S (Filename w)" "\<And>q. os_rename_ok S (Filename w) q"
    "find_name now S (Filename w) 1 = Some f" "os_files S (Filename w) = Some c"
    "doRotate now w S = (r, w', S')"
  shows "os_files S' = (os_files S)(f \<mapsto> c, Filename w \<mapsto> []) \<and> fileWriter w' = OpenFile (Filename w)"
  using assms(5)
proof (cases rule: doRotate_cases)
  case stays
  then show ?thesis using assms by simp
next
  case (moves g renamed S1)
  obtain r' where st: "startLogger now (w\<lparr>fileWriter := ClosedFile\<rparr>) S1 = (r', w', S')"
    using moves by (metis prod.collapse)
  have g: "g = f" using moves assms by simp
  have S1: "S1 = S\<lparr>os_files := (os_files S)(Filename w := None, f \<mapsto> c)\<rparr>"
    using moves(5) assms g by (auto simp: os_Rename_def)
  show ?thesis
    using startLogger_files [of now "w\<lparr>fileWriter := ClosedFile\<rparr>" S1] startLogger_writer [OF st] st moves assms S1 g
    by (auto simp: fun_eq_iff)
qed

text \<open>C34: With a file system that permits everything and a number that is free, a log that rotates by size is, after
  each message, smaller than \<open>MaxSize\<close> and one line: the rotation looks at the size before the message, not
  at the size the message will give.\<close>

theorem file_size_bound:
  assumes "fw_inv w S" "fileWriter w = OpenFile (Filename w)" "lvl \<le> fw_Level w" "Rotate w" "0 < MaxSize w"
    "os_open_ok S (Filename w)" "\<And>q. os_rename_ok S (Filename w) q" "find_name now' S (Filename w) 1 \<noteq> None"
    "stamp now = Some head" "(if DrawColor w then paint lvl msg else Some msg) = Some body"
    "file_WriteMsg now now' msg lvl w S = Some (Inr (), w', S')"
  shows "\<exists>c. os_files S' (Filename w) = Some c \<and> int (length c) < MaxSize w + int (length head + length body + 1)"
  using assms(11,3)
proof (cases rule: file_WriteMsg_cases)
  case (1 head' body' line w1 S1 written S2)
  obtain c where c: "os_files S (Filename w) = Some c" "maxSizeCurSize w = int (length c)"
    using fw_invD [OF assms(1,2)] by blast
  have line: "length line = length head + length body + 1" using 1 assms(9,10) by simp
  have W: "os_Write S1 (fileWriter w1) line = (True, S')" using 1 by (auto split: if_splits)
  show ?thesis
  proof (cases "needRotate w (int (length line)) (day now)")
    case True
    then obtain r1 where r1: "doRotate now' w S = (r1, w1, S1)" using 1(4) assms(4) doRotate_snd by fastforce
    obtain f where f: "find_name now' S (Filename w) 1 = Some f" using assms(8) by blast
    from doRotate_moves [OF assms(6,7) f c(1) r1]
    have "os_files S1 (Filename w) = Some []" "fileWriter w1 = OpenFile (Filename w)" by simp_all
    with W have "os_files S' (Filename w) = Some line" by (auto simp: os_Write_def split: if_splits)
    then show ?thesis using line assms(5) by simp
  next
    case False
    then have "w1 = w" "S1 = S" using 1(4) by (auto simp: if_not_P)
    moreover have "int (length c) < MaxSize w" using False c assms(5) by (simp add: needRotate_def)
    moreover have "os_files S' (Filename w) = Some (c @ line)"
      using W c(1) assms(2) calculation by (auto simp: os_Write_def split: if_splits)
    ultimately show ?thesis using line by simp
  qed
qed

section \<open>Examples\<close>

definition ex_writer :: fileLogWriter where
  "ex_writer = newFileWriter\<lparr>Filename := ''logs/zeus.log'', fileWriter := OpenFile ''logs/zeus.log'',
     maxSizeCurSize := 4, maxLinesCurLines := 1, dailyOpenDate := 1\<rparr>"

lemma ex_inv: "fw_inv ex_writer ex_os"
  by (simp add: fw_inv_def ex_writer_def ex_os_def newFileWriter_def)

lemma ex_stamp: "stamp ex_clock = Some ''2016/13/01 21:34:33 ''"
  by code_simp

lemma ex_write:
  "\<exists>w' S'. file_WriteMsg ex_clock ex_clock ''hi'' LevelWarn ex_writer ex_os = Some (Inr (), w', S')"
  by (simp add: file_WriteMsg_def ex_stamp)
    (simp add: Let_def ex_writer_def ex_os_def newFileWriter_def needRotate_def os_Write_def level_defs ex_clock_def)

lemma ex_find: "find_name ex_clock ex_os (Filename ex_writer) 1 \<noteq> None"
  by code_simp

lemma file_WriteMsg_inv_witness:
  "\<exists>w' S'. file_WriteMsg ex_clock ex_clock ''hi'' LevelWarn ex_writer ex_os = Some (Inr (), w', S') \<and> fw_inv w' S'"
  using ex_write file_WriteMsg_inv [OF ex_inv] by blast

lemma ex_fields: "fileWriter ex_writer = OpenFile (Filename ex_writer)" "LevelWarn \<le> fw_Level ex_writer"
  "os_files ex_os (Filename ex_writer) = Some (''old'' @ [CHR 0x0A])" "Rotate ex_writer" "0 < MaxSize ex_writer"
  "DrawColor ex_writer = False" "MaxSize ex_writer = 2 ^ 30" "Filename ex_writer = ''logs/zeus.log''"
  by (simp_all add: ex_writer_def ex_os_def newFileWriter_def level_defs)


lemma file_size_bound_witness:
  "\<exists>w' S' c. file_WriteMsg ex_clock ex_clock ''hi'' LevelWarn ex_writer ex_os = Some (Inr (), w', S') \<and>
     os_files S' ''logs/zeus.log'' = Some c \<and> int (length c) < 2 ^ 30 + 23"
proof -
  obtain w' S' where W: "file_WriteMsg ex_clock ex_clock ''hi'' LevelWarn ex_writer ex_os = Some (Inr (), w', S')"
    using ex_write by blast
  from file_size_bound [OF ex_inv ex_fields(1,2,4,5) _ _ ex_find ex_stamp _ W, of "''hi''"] W show ?thesis
    by (simp add: ex_fields(6-8)) (simp add: ex_os_def)
qed

lemma paint_ok: "0 \<le> lvl \<Longrightarrow> lvl \<le> LevelDebug \<Longrightarrow> paint lvl msg \<noteq> None"
  by (simp add: paint_def colors_def level_defs)

lemma paint_trace: "paint LevelTrace msg = None"
  by (simp add: paint_def colors_def level_defs)

end
