(* ===== verification/Log.thy ===== *)
theory Log
  imports Log_File "HOL-Library.Multiset"
begin

text \<open>
  The logger of \<open>common/log/log.go\<close> with its package-level front \<open>logger.go\<close>: the registered adapters, the
  outputs of a logger, the level filters, and the queue of the asynchronous mode as a step relation. What the
  environment supplies is a record: \<open>fmt.Sprintf\<close>, \<open>runtime.Caller\<close> and \<open>encoding/json\<close>.
\<close>

section \<open>The interface Logger\<close>

datatype Logger = ConsoleLogger consoleWriter | FileLogger fileLogWriter

text \<open>What an adapter works on: the operating system, the time now and the time of a rotation, the name of the
  platform and what has been written to the standard error.\<close>

record log_env =
  le_os :: os
  le_now :: clock
  le_rotate_now :: clock
  le_goos :: string
  le_stderr :: "string list"

text \<open>The arguments of a format, for the callers in the program.\<close>

datatype fmt_arg = Str string | Num int

record 'v log_runtime =
  rt_Sprintf :: "string \<Rightarrow> 'v list \<Rightarrow> string"
  rt_Caller :: "int \<Rightarrow> (string \<times> int) option"
  rt_console_json :: "string \<Rightarrow> consoleWriter \<Rightarrow> (string + unit) \<times> consoleWriter"
  rt_file_json :: "string \<Rightarrow> fileLogWriter \<Rightarrow> (string + unit) \<times> fileLogWriter"

definition console_write ::
    "string \<Rightarrow> int \<Rightarrow> consoleWriter \<Rightarrow> log_env \<Rightarrow> ((string + unit) \<times> consoleWriter \<times> log_env) option" where
  "console_write msg lvl c E = map_option (\<lambda>c. (Inr (), c, E)) (console_WriteMsg (le_goos E) msg lvl c)"

definition file_write ::
    "string \<Rightarrow> int \<Rightarrow> fileLogWriter \<Rightarrow> log_env \<Rightarrow> ((string + unit) \<times> fileLogWriter \<times> log_env) option" where
  "file_write msg lvl w E =
     map_option (\<lambda>(r, w, S). (r, w, E\<lparr>le_os := S\<rparr>))
       (file_WriteMsg (le_now E) (le_rotate_now E) msg lvl w (le_os E))"

definition lg_WriteMsg :: "string \<Rightarrow> int \<Rightarrow> Logger \<Rightarrow> log_env \<Rightarrow> ((string + unit) \<times> Logger \<times> log_env) option" where
  "lg_WriteMsg msg lvl l E =
     (case l of
        ConsoleLogger c \<Rightarrow> map_option (\<lambda>(r, c, E). (r, ConsoleLogger c, E)) (console_write msg lvl c E)
      | FileLogger w \<Rightarrow> map_option (\<lambda>(r, w, E). (r, FileLogger w, E)) (file_write msg lvl w E))"

definition lg_Init :: "'v log_runtime \<Rightarrow> string \<Rightarrow> Logger \<Rightarrow> log_env \<Rightarrow> (string + unit) \<times> Logger \<times> log_env" where
  "lg_Init R config l E =
     (case l of
        ConsoleLogger c \<Rightarrow>
          (let (r, c) = console_Init (rt_console_json R) config c in (r, ConsoleLogger c, E))
      | FileLogger w \<Rightarrow>
          (let (r, w, S) = Init (rt_file_json R) config (le_now E) w (le_os E)
           in (r, FileLogger w, E\<lparr>le_os := S\<rparr>)))"

definition lg_Destroy :: "Logger \<Rightarrow> Logger" where
  "lg_Destroy l = (case l of ConsoleLogger c \<Rightarrow> ConsoleLogger c | FileLogger w \<Rightarrow> FileLogger (file_Destroy w))"

definition lg_Flush :: "Logger \<Rightarrow> Logger" where
  "lg_Flush l = (case l of ConsoleLogger c \<Rightarrow> ConsoleLogger c | FileLogger w \<Rightarrow> FileLogger (file_Flush w))"

definition lg_level :: "Logger \<Rightarrow> int" where
  "lg_level l = (case l of ConsoleLogger c \<Rightarrow> cw_Level c | FileLogger w \<Rightarrow> fw_Level w)"

section \<open>Registration\<close>

text \<open>A provider is the adapter it makes; \<^term>\<open>None\<close> as the provider is nil, as the result a panic.\<close>

type_synonym log_providers = "string \<Rightarrow> Logger option"

definition Register_log :: "string \<Rightarrow> Logger option \<Rightarrow> log_providers \<Rightarrow> log_providers option" where
  "Register_log name log adapters =
     (case log of
        None \<Rightarrow> None
      | Some l \<Rightarrow> (if adapters name \<noteq> None then None else Some (adapters(name \<mapsto> l))))"

definition console_init :: "log_providers \<Rightarrow> log_providers option" where
  "console_init = Register_log ''console'' (Some (ConsoleLogger NewConsole))"

definition file_init :: "log_providers \<Rightarrow> log_providers option" where
  "file_init = Register_log ''file'' (Some (FileLogger newFileWriter))"

definition log_adapters :: "log_providers option" where
  "log_adapters = Option.bind (console_init Map.empty) file_init"

section \<open>The logger\<close>

record nameLogger =
  nl_Logger :: Logger
  nl_name :: string

record logMsg =
  lm_level :: int
  lm_msg :: string

record ZeusLogger =
  zl_level :: int
  enableFuncCallDepth :: bool
  loggerFuncCallDepth :: int
  asynchronous :: bool
  msgChan :: "logMsg list"
  msgChan_cap :: nat
  outputs :: "nameLogger list"

definition NewLogger :: "nat \<Rightarrow> ZeusLogger" where
  "NewLogger channelLen =
     \<lparr>zl_level = LevelDebug, enableFuncCallDepth = False, loggerFuncCallDepth = 2, asynchronous = False,
      msgChan = [], msgChan_cap = channelLen, outputs = []\<rparr>"

definition SetLogger ::
    "'v log_runtime \<Rightarrow> log_providers \<Rightarrow> string \<Rightarrow> string \<Rightarrow> ZeusLogger \<Rightarrow> log_env \<Rightarrow>
     (string + unit) \<times> ZeusLogger \<times> log_env" where
  "SetLogger R adapters adapterName config bl E =
     (case adapters adapterName of
        None \<Rightarrow> (Inl ''logs: unknown adaptername'', bl, E)
      | Some lg \<Rightarrow>
          (let (r, lg, E) = lg_Init R config lg E
           in case r of
                Inl e \<Rightarrow> (Inl e, bl, E\<lparr>le_stderr := le_stderr E @ [''logs.ZeusLogger.SetLogger: '' @ e]\<rparr>)
              | Inr _ \<Rightarrow> (Inr (), bl\<lparr>outputs := outputs bl @ [\<lparr>nl_Logger = lg, nl_name = adapterName\<rparr>]\<rparr>, E)))"

text \<open>The configuration \<open>SetLogFile\<close> writes, with \<open>%s\<close>, \<open>%d\<close> and \<open>%v\<close> of a boolean.\<close>

definition fmt_bool :: "bool \<Rightarrow> string" where
  "fmt_bool b = (if b then ''true'' else ''false'')"

definition quoted :: "string \<Rightarrow> string" where
  "quoted s = [CHR 0x22] @ s @ [CHR 0x22]"

definition log_file_config :: "string \<Rightarrow> int \<Rightarrow> bool \<Rightarrow> bool \<Rightarrow> int \<Rightarrow> string" where
  "log_file_config logFile lvl isRotateDaily drawColor rotateMaxDays =
     ''{'' @ quoted ''filename'' @ '':'' @ quoted logFile @ '','' @ quoted ''level'' @ '':'' @ dec_int lvl @
     '','' @ quoted ''daily'' @ '':'' @ fmt_bool isRotateDaily @ '','' @ quoted ''maxdays'' @ '':'' @
     dec_int rotateMaxDays @ '','' @ quoted ''drawcolor'' @ '':'' @ fmt_bool drawColor @ ''}''"

definition SetLogFile ::
    "'v log_runtime \<Rightarrow> log_providers \<Rightarrow> string \<Rightarrow> int \<Rightarrow> bool \<Rightarrow> bool \<Rightarrow> int \<Rightarrow> ZeusLogger \<Rightarrow> log_env \<Rightarrow>
     (string + unit) \<times> ZeusLogger \<times> log_env" where
  "SetLogFile R adapters logFile lvl isRotateDaily drawColor rotateMaxDays =
     SetLogger R adapters ''file'' (log_file_config logFile lvl isRotateDaily drawColor rotateMaxDays)"

text \<open>\<open>DelLogger\<close>; the third part of the result is the adapters it has destroyed.\<close>

fun del_loop :: "string \<Rightarrow> nameLogger list \<Rightarrow> nameLogger list \<times> Logger list" where
  "del_loop name [] = ([], [])"
| "del_loop name (lg # lgs) =
     (let (outs, gone) = del_loop name lgs
      in if nl_name lg = name then (outs, lg_Destroy (nl_Logger lg) # gone) else (lg # outs, gone))"

definition DelLogger :: "string \<Rightarrow> ZeusLogger \<Rightarrow> (string + unit) \<times> ZeusLogger \<times> Logger list" where
  "DelLogger adapterName bl =
     (let (outs, gone) = del_loop adapterName (outputs bl)
      in if length outs = length (outputs bl) then (Inl ''logs: unknown adaptername'', bl, gone)
         else (Inr (), bl\<lparr>outputs := outs\<rparr>, gone))"

section \<open>Writing to the adapters\<close>

text \<open>The loop over the outputs, for any adapter operation \<open>write\<close>; \<^term>\<open>None\<close> is a panic.\<close>

fun write_all ::
    "(string \<Rightarrow> int \<Rightarrow> 'l \<Rightarrow> 'e \<Rightarrow> ((string + unit) \<times> 'l \<times> 'e) option) \<Rightarrow> (string \<Rightarrow> string \<Rightarrow> 'e \<Rightarrow> 'e) \<Rightarrow>
     string \<Rightarrow> int \<Rightarrow> (string \<times> 'l) list \<Rightarrow> 'e \<Rightarrow> ((string \<times> 'l) list \<times> 'e) option" where
  "write_all write report msg lvl [] E = Some ([], E)"
| "write_all write report msg lvl ((name, l) # ls) E =
     (case write msg lvl l E of
        None \<Rightarrow> None
      | Some (r, l, E) \<Rightarrow>
          (let E = (case r of Inl e \<Rightarrow> report name e E | Inr _ \<Rightarrow> E)
           in map_option (\<lambda>(ls, E). ((name, l) # ls, E)) (write_all write report msg lvl ls E)))"

definition report_stderr :: "string \<Rightarrow> string \<Rightarrow> log_env \<Rightarrow> log_env" where
  "report_stderr name e E =
     E\<lparr>le_stderr := le_stderr E @ [''unable to WriteMsg to adapter:'' @ name @ '',error:'' @ e]\<rparr>"

definition writeToLoggers :: "string \<Rightarrow> int \<Rightarrow> ZeusLogger \<Rightarrow> log_env \<Rightarrow> (ZeusLogger \<times> log_env) option" where
  "writeToLoggers msg lvl bl E =
     map_option (\<lambda>(ls, E). (bl\<lparr>outputs := map (\<lambda>(n, l). \<lparr>nl_Logger = l, nl_name = n\<rparr>) ls\<rparr>, E))
       (write_all lg_WriteMsg report_stderr msg lvl (map (\<lambda>x. (nl_name x, nl_Logger x)) (outputs bl)) E)"

text \<open>How a call ends: it returns, it waits on a full queue, it panics or it ends the process.\<close>

datatype 's outcome = Returned 's | Blocked | Panicked | Exited int 's

type_synonym log_state = "ZeusLogger \<times> log_env"

definition path_file :: "string \<Rightarrow> string" where
  "path_file p = rev (takeWhile (\<lambda>c. c \<noteq> CHR ''/'') (rev p))"

definition caller_text :: "'v log_runtime \<Rightarrow> ZeusLogger \<Rightarrow> string" where
  "caller_text R bl =
     (if enableFuncCallDepth bl
      then (let (file, line) = (case rt_Caller R (loggerFuncCallDepth bl) of
                                  None \<Rightarrow> (''???'', 0) | Some (f, l) \<Rightarrow> (f, l))
            in ''['' @ path_file file @ '':'' @ dec_int line @ '']'')
      else [])"

definition writeMsg :: "'v log_runtime \<Rightarrow> int \<Rightarrow> string \<Rightarrow> log_state \<Rightarrow> log_state outcome" where
  "writeMsg R logLevel msg = (\<lambda>(bl, E).
     let msg = caller_text R bl @ msg
     in if asynchronous bl
        then (if length (msgChan bl) < msgChan_cap bl
              then Returned (bl\<lparr>msgChan := msgChan bl @ [\<lparr>lm_level = logLevel, lm_msg = msg\<rparr>]\<rparr>, E)
              else Blocked)
        else (case writeToLoggers msg logLevel bl E of None \<Rightarrow> Panicked | Some s \<Rightarrow> Returned s))"

section \<open>Settings\<close>

text \<open>\<open>Async\<close> also starts a goroutine that serves the queue: a step of the last section.\<close>

definition Async :: "ZeusLogger \<Rightarrow> ZeusLogger" where
  "Async bl = bl\<lparr>asynchronous := True\<rparr>"

definition SetLevel :: "int \<Rightarrow> ZeusLogger \<Rightarrow> ZeusLogger" where
  "SetLevel l bl = bl\<lparr>zl_level := l\<rparr>"

definition SetLogFuncCallDepth :: "int \<Rightarrow> ZeusLogger \<Rightarrow> ZeusLogger" where
  "SetLogFuncCallDepth d bl = bl\<lparr>loggerFuncCallDepth := d\<rparr>"

definition GetLogFuncCallDepth :: "ZeusLogger \<Rightarrow> int" where
  "GetLogFuncCallDepth bl = loggerFuncCallDepth bl"

definition EnableFuncCallDepth :: "bool \<Rightarrow> ZeusLogger \<Rightarrow> ZeusLogger" where
  "EnableFuncCallDepth b bl = bl\<lparr>enableFuncCallDepth := b\<rparr>"

definition SetLogFuncCallWithDepth :: "bool \<Rightarrow> int \<Rightarrow> ZeusLogger \<Rightarrow> ZeusLogger" where
  "SetLogFuncCallWithDepth b depth bl = SetLogFuncCallDepth depth (EnableFuncCallDepth b bl)"

definition SetLogFuncCall :: "bool \<Rightarrow> ZeusLogger \<Rightarrow> ZeusLogger" where
  "SetLogFuncCall b bl = SetLogFuncCallDepth 3 (EnableFuncCallDepth b bl)"

definition generateFmtStr :: "nat \<Rightarrow> string" where
  "generateFmtStr n = concat (replicate n ''%v '')"

section \<open>The level methods\<close>

text \<open>\<open>os.Exit(2)\<close> after the message; a call that never comes back from the queue does not get there.\<close>

definition exit_after :: "int \<Rightarrow> 's outcome \<Rightarrow> 's outcome" where
  "exit_after code r = (case r of Returned s \<Rightarrow> Exited code s | _ \<Rightarrow> r)"

text \<open>A level method: the guard on the logger's level, then the message with its letter, written at a level.\<close>

definition Fatalf :: "'v log_runtime \<Rightarrow> string \<Rightarrow> 'v list \<Rightarrow> log_state \<Rightarrow> log_state outcome" where
  "Fatalf R format v = (\<lambda>(bl, E).
     if LevelFatal > zl_level bl then Returned (bl, E)
     else exit_after 2 (writeMsg R LevelFatal (rt_Sprintf R (''[F] '' @ format) v) (bl, E)))"

definition Fatal :: "'v log_runtime \<Rightarrow> 'v list \<Rightarrow> log_state \<Rightarrow> log_state outcome" where
  "Fatal R v = (\<lambda>(bl, E).
     if LevelFatal > zl_level bl then Returned (bl, E)
     else exit_after 2 (writeMsg R LevelFatal (rt_Sprintf R (''[F] '' @ generateFmtStr (length v)) v) (bl, E)))"

definition Alertf :: "'v log_runtime \<Rightarrow> string \<Rightarrow> 'v list \<Rightarrow> log_state \<Rightarrow> log_state outcome" where
  "Alertf R format v = (\<lambda>(bl, E).
     if LevelAlert > zl_level bl then Returned (bl, E)
     else writeMsg R LevelAlert (rt_Sprintf R (''[A] '' @ format) v) (bl, E))"

definition Alert :: "'v log_runtime \<Rightarrow> 'v list \<Rightarrow> log_state \<Rightarrow> log_state outcome" where
  "Alert R v = (\<lambda>(bl, E).
     if LevelAlert > zl_level bl then Returned (bl, E)
     else writeMsg R LevelAlert (rt_Sprintf R (''[A] '' @ generateFmtStr (length v)) v) (bl, E))"

definition Errorf :: "'v log_runtime \<Rightarrow> string \<Rightarrow> 'v list \<Rightarrow> log_state \<Rightarrow> log_state outcome" where
  "Errorf R format v = (\<lambda>(bl, E).
     if LevelError > zl_level bl then Returned (bl, E)
     else writeMsg R LevelError (rt_Sprintf R (''[E] '' @ format) v) (bl, E))"

definition Error :: "'v log_runtime \<Rightarrow> 'v list \<Rightarrow> log_state \<Rightarrow> log_state outcome" where
  "Error R v = (\<lambda>(bl, E).
     if LevelError > zl_level bl then Returned (bl, E)
     else writeMsg R LevelError (rt_Sprintf R (''[E] '' @ generateFmtStr (length v)) v) (bl, E))"

definition Warnf :: "'v log_runtime \<Rightarrow> string \<Rightarrow> 'v list \<Rightarrow> log_state \<Rightarrow> log_state outcome" where
  "Warnf R format v = (\<lambda>(bl, E).
     if LevelWarn > zl_level bl then Returned (bl, E)
     else writeMsg R LevelWarn (rt_Sprintf R (''[W] '' @ format) v) (bl, E))"

definition Warn :: "'v log_runtime \<Rightarrow> 'v list \<Rightarrow> log_state \<Rightarrow> log_state outcome" where
  "Warn R v = (\<lambda>(bl, E).
     if LevelWarn > zl_level bl then Returned (bl, E)
     else writeMsg R LevelWarn (rt_Sprintf R (''[W] '' @ generateFmtStr (length v)) v) (bl, E))"

definition Noticef :: "'v log_runtime \<Rightarrow> string \<Rightarrow> 'v list \<Rightarrow> log_state \<Rightarrow> log_state outcome" where
  "Noticef R format v = (\<lambda>(bl, E).
     if LevelNotice > zl_level bl then Returned (bl, E)
     else writeMsg R LevelNotice (rt_Sprintf R (''[N] '' @ format) v) (bl, E))"

definition Notice :: "'v log_runtime \<Rightarrow> 'v list \<Rightarrow> log_state \<Rightarrow> log_state outcome" where
  "Notice R v = (\<lambda>(bl, E).
     if LevelNotice > zl_level bl then Returned (bl, E)
     else writeMsg R LevelNotice (rt_Sprintf R (''[N] '' @ generateFmtStr (length v)) v) (bl, E))"

definition Debugf :: "'v log_runtime \<Rightarrow> string \<Rightarrow> 'v list \<Rightarrow> log_state \<Rightarrow> log_state outcome" where
  "Debugf R format v = (\<lambda>(bl, E).
     if LevelDebug > zl_level bl then Returned (bl, E)
     else writeMsg R LevelDebug (rt_Sprintf R (''[D] '' @ format) v) (bl, E))"

definition Debug :: "'v log_runtime \<Rightarrow> 'v list \<Rightarrow> log_state \<Rightarrow> log_state outcome" where
  "Debug R v = (\<lambda>(bl, E).
     if LevelDebug > zl_level bl then Returned (bl, E)
     else writeMsg R LevelDebug (rt_Sprintf R (''[D] '' @ generateFmtStr (length v)) v) (bl, E))"

definition Infof :: "'v log_runtime \<Rightarrow> string \<Rightarrow> 'v list \<Rightarrow> log_state \<Rightarrow> log_state outcome" where
  "Infof R format v = (\<lambda>(bl, E).
     if LevelInfo > zl_level bl then Returned (bl, E)
     else writeMsg R LevelInfo (rt_Sprintf R (''[I] '' @ format) v) (bl, E))"

definition Info :: "'v log_runtime \<Rightarrow> 'v list \<Rightarrow> log_state \<Rightarrow> log_state outcome" where
  "Info R v = (\<lambda>(bl, E).
     if LevelInfo > zl_level bl then Returned (bl, E)
     else writeMsg R LevelInfo (rt_Sprintf R (''[I] '' @ generateFmtStr (length v)) v) (bl, E))"

definition Tracef :: "'v log_runtime \<Rightarrow> string \<Rightarrow> 'v list \<Rightarrow> log_state \<Rightarrow> log_state outcome" where
  "Tracef R format v = (\<lambda>(bl, E).
     if LevelTrace > zl_level bl then Returned (bl, E)
     else writeMsg R LevelDebug (rt_Sprintf R (''[T] '' @ format) v) (bl, E))"

definition Trace :: "'v log_runtime \<Rightarrow> 'v list \<Rightarrow> log_state \<Rightarrow> log_state outcome" where
  "Trace R v = (\<lambda>(bl, E).
     if LevelTrace > zl_level bl then Returned (bl, E)
     else writeMsg R LevelDebug (rt_Sprintf R (''[T] '' @ generateFmtStr (length v)) v) (bl, E))"

section \<open>Flush and Close\<close>

definition Flush :: "ZeusLogger \<Rightarrow> ZeusLogger" where
  "Flush bl = bl\<lparr>outputs := map (\<lambda>l. l\<lparr>nl_Logger := lg_Flush (nl_Logger l)\<rparr>) (outputs bl)\<rparr>"

definition destroy_outputs :: "ZeusLogger \<Rightarrow> ZeusLogger" where
  "destroy_outputs bl =
     bl\<lparr>outputs := map (\<lambda>l. l\<lparr>nl_Logger := lg_Destroy (lg_Flush (nl_Logger l))\<rparr>) (outputs bl)\<rparr>"

section \<open>The package-level logger\<close>

text \<open>\<open>init\<close> of \<open>logger.go\<close> makes the logger the package-level functions use; an error of \<open>SetLogger\<close> is ignored.\<close>

definition logger_init :: "'v log_runtime \<Rightarrow> log_providers \<Rightarrow> log_env \<Rightarrow> log_state" where
  "logger_init R adapters E =
     (let logger = SetLogFuncCallWithDepth True 3 (NewLogger 10000);
          (_, logger, E) = SetLogger R adapters ''console'' [] logger E
      in (SetLevel LevelDebug logger, E))"

definition log_SetLevel :: "int \<Rightarrow> log_state \<Rightarrow> log_state" where
  "log_SetLevel l = (\<lambda>(logger, E). (SetLevel l logger, E))"

definition GetDefaultLogger :: "log_state \<Rightarrow> ZeusLogger" where
  "GetDefaultLogger g = fst g"

definition log_SetLogFuncCall :: "bool \<Rightarrow> log_state \<Rightarrow> log_state" where
  "log_SetLogFuncCall b = (\<lambda>(logger, E). (SetLogFuncCall b logger, E))"

definition log_SetLogFile ::
    "'v log_runtime \<Rightarrow> log_providers \<Rightarrow> string \<Rightarrow> int \<Rightarrow> bool \<Rightarrow> bool \<Rightarrow> int \<Rightarrow> log_state \<Rightarrow> log_state" where
  "log_SetLogFile R adapters logFile lvl isRotateDaily drawColor rotateMaxDays = (\<lambda>(logger, E).
     snd (SetLogFile R adapters logFile lvl isRotateDaily drawColor rotateMaxDays logger E))"

definition log_Fatalf :: "'v log_runtime \<Rightarrow> string \<Rightarrow> 'v list \<Rightarrow> log_state \<Rightarrow> log_state outcome" where
  "log_Fatalf R format v logger = Fatalf R format v logger"

definition log_Fatal :: "'v log_runtime \<Rightarrow> 'v list \<Rightarrow> log_state \<Rightarrow> log_state outcome" where
  "log_Fatal R v logger = Fatal R v logger"

definition log_Alertf :: "'v log_runtime \<Rightarrow> string \<Rightarrow> 'v list \<Rightarrow> log_state \<Rightarrow> log_state outcome" where
  "log_Alertf R format v logger = Alertf R format v logger"

definition log_Alert :: "'v log_runtime \<Rightarrow> 'v list \<Rightarrow> log_state \<Rightarrow> log_state outcome" where
  "log_Alert R v logger = Alert R v logger"

definition log_Errorf :: "'v log_runtime \<Rightarrow> string \<Rightarrow> 'v list \<Rightarrow> log_state \<Rightarrow> log_state outcome" where
  "log_Errorf R format v logger = Errorf R format v logger"

definition log_Error :: "'v log_runtime \<Rightarrow> 'v list \<Rightarrow> log_state \<Rightarrow> log_state outcome" where
  "log_Error R v logger = Error R v logger"

definition log_Warnf :: "'v log_runtime \<Rightarrow> string \<Rightarrow> 'v list \<Rightarrow> log_state \<Rightarrow> log_state outcome" where
  "log_Warnf R format v logger = Warnf R format v logger"

definition log_Warn :: "'v log_runtime \<Rightarrow> 'v list \<Rightarrow> log_state \<Rightarrow> log_state outcome" where
  "log_Warn R v logger = Warn R v logger"

definition log_Noticef :: "'v log_runtime \<Rightarrow> string \<Rightarrow> 'v list \<Rightarrow> log_state \<Rightarrow> log_state outcome" where
  "log_Noticef R format v logger = Noticef R format v logger"

definition log_Notice :: "'v log_runtime \<Rightarrow> 'v list \<Rightarrow> log_state \<Rightarrow> log_state outcome" where
  "log_Notice R v logger = Notice R v logger"

definition log_Debugf :: "'v log_runtime \<Rightarrow> string \<Rightarrow> 'v list \<Rightarrow> log_state \<Rightarrow> log_state outcome" where
  "log_Debugf R format v logger = Debugf R format v logger"

definition log_Debug :: "'v log_runtime \<Rightarrow> 'v list \<Rightarrow> log_state \<Rightarrow> log_state outcome" where
  "log_Debug R v logger = Debug R v logger"

definition log_Infof :: "'v log_runtime \<Rightarrow> string \<Rightarrow> 'v list \<Rightarrow> log_state \<Rightarrow> log_state outcome" where
  "log_Infof R format v logger = Infof R format v logger"

definition log_Info :: "'v log_runtime \<Rightarrow> 'v list \<Rightarrow> log_state \<Rightarrow> log_state outcome" where
  "log_Info R v logger = Info R v logger"

definition log_Tracef :: "'v log_runtime \<Rightarrow> string \<Rightarrow> 'v list \<Rightarrow> log_state \<Rightarrow> log_state outcome" where
  "log_Tracef R format v logger = Tracef R format v logger"

definition log_Trace :: "'v log_runtime \<Rightarrow> 'v list \<Rightarrow> log_state \<Rightarrow> log_state outcome" where
  "log_Trace R v logger = Trace R v logger"

section \<open>What every adapter promises\<close>

text \<open>A provider takes a message at any level of the program without a panic, keeps its own level, and ignores
  what is above it.\<close>

locale log_adapter =
  fixes put :: "string \<Rightarrow> int \<Rightarrow> 'l \<Rightarrow> 'e \<Rightarrow> ((string + unit) \<times> 'l \<times> 'e) option"
    and threshold :: "'l \<Rightarrow> int"
    and env_ok :: "'e \<Rightarrow> bool"
  assumes write_above: "lvl > threshold l \<Longrightarrow> put msg lvl l E = Some (Inr (), l, E)"
    and write_total: "env_ok E \<Longrightarrow> 0 \<le> lvl \<Longrightarrow> lvl \<le> LevelDebug \<Longrightarrow>
          \<exists>r l' E'. put msg lvl l E = Some (r, l', E') \<and> env_ok E' \<and> threshold l' = threshold l"
begin

lemma write_all_total:
  assumes "env_ok E" "0 \<le> lvl" "lvl \<le> LevelDebug" "\<And>n e E. env_ok E \<Longrightarrow> env_ok (report n e E)"
  shows "\<exists>ls' E'. write_all put report msg lvl ls E = Some (ls', E') \<and> env_ok E' \<and>
    map (\<lambda>(n, l). (n, threshold l)) ls' = map (\<lambda>(n, l). (n, threshold l)) ls"
  using assms(1)
proof (induction ls arbitrary: E)
  case (Cons x ls)
  obtain n l where x: "x = (n, l)" by fastforce
  obtain r l' E1 where W: "put msg lvl l E = Some (r, l', E1)" "env_ok E1" "threshold l' = threshold l"
    using write_total [OF Cons.prems assms(2,3)] by blast
  define E2 where "E2 = (case r of Inl e \<Rightarrow> report n e E1 | Inr _ \<Rightarrow> E1)"
  have "env_ok E2" using W(2) assms(4) by (simp add: E2_def split: sum.split)
  from Cons.IH [OF this] obtain ls' E' where
    "write_all put report msg lvl ls E2 = Some (ls', E')" "env_ok E'"
    "map (\<lambda>(n, l). (n, threshold l)) ls' = map (\<lambda>(n, l). (n, threshold l)) ls" by blast
  then show ?case using x W by (simp add: E2_def Let_def)
qed simp

lemma write_all_above:
  "\<forall>(n, l) \<in> set ls. lvl > threshold l \<Longrightarrow> write_all put report msg lvl ls E = Some (ls, E)"
  by (induction ls) (auto simp: write_above Let_def)

end

definition log_env_ok :: "log_env \<Rightarrow> bool" where
  "log_env_ok E \<longleftrightarrow> stamp (le_now E) \<noteq> None"

lemma console_above: "lvl > cw_Level c \<Longrightarrow> console_write msg lvl c E = Some (Inr (), c, E)"
  by (simp add: console_write_def console_WriteMsg_def)

lemma console_total:
  assumes "0 \<le> lvl" "lvl \<le> LevelDebug"
  shows "\<exists>c'. console_write msg lvl c E = Some (Inr (), c', E) \<and> cw_Level c' = cw_Level c"
  using paint_ok [OF assms, of msg] by (auto simp: console_write_def console_WriteMsg_def)

interpretation console: log_adapter console_write cw_Level log_env_ok
proof (unfold_locales, goal_cases)
  case (1 l lvl msg E)
  then show ?case by (rule console_above)
next
  case (2 E lvl msg l)
  then show ?case using console_total by metis
qed

lemma initFd_level: "initFd now w S = (r, w') \<Longrightarrow> fw_Level w' = fw_Level w"
  by (auto simp: initFd_def Let_def split: file_handle.splits option.splits if_splits)

lemma startLogger_level: "startLogger now w S = (r, w', S') \<Longrightarrow> fw_Level w' = fw_Level w"
  by (auto simp: startLogger_def Let_def split: prod.splits option.splits dest: initFd_level)

lemma doRotate_level:
  assumes "doRotate now w S = (r, w', S')"
  shows "fw_Level w' = fw_Level w"
  using assms
proof (cases rule: doRotate_cases)
  case (moves f renamed S1)
  obtain r' where "startLogger now (w\<lparr>fileWriter := ClosedFile\<rparr>) S1 = (r', w', S')"
    using moves by (metis prod.collapse)
  then show ?thesis using startLogger_level by fastforce
qed simp

lemma file_above: "lvl > fw_Level w \<Longrightarrow> file_write msg lvl w E = Some (Inr (), w, E)"
  by (simp add: file_write_def file_WriteMsg_def)

lemma file_total:
  assumes "log_env_ok E" "0 \<le> lvl" "lvl \<le> LevelDebug"
  shows "\<exists>r w' E'. file_write msg lvl w E = Some (r, w', E') \<and> log_env_ok E' \<and> fw_Level w' = fw_Level w"
proof (cases "lvl > fw_Level w")
  case False
  obtain head where head: "stamp (le_now E) = Some head" using assms(1) by (auto simp: log_env_ok_def)
  obtain body where body: "(if DrawColor w then paint lvl msg else Some msg) = Some body"
    using paint_ok [OF assms(2,3), of msg] by (cases "DrawColor w") auto
  have "file_WriteMsg (le_now E) (le_rotate_now E) msg lvl w (le_os E) \<noteq> None"
    using False by (simp add: file_WriteMsg_def head body Let_def split_def)
  then obtain r w' S' where W: "file_WriteMsg (le_now E) (le_rotate_now E) msg lvl w (le_os E) = Some (r, w', S')"
    by auto
  moreover have "lvl \<le> fw_Level w" using False by simp
  ultimately have "fw_Level w' = fw_Level w"
  proof (cases rule: file_WriteMsg_cases)
    case (1 head body line w1 S1 written S2)
    have "fw_Level w1 = fw_Level w"
      using 1(4) doRotate_level doRotate_snd by (metis prod.inject)
    then show ?thesis using 1(6) by (auto split: if_splits)
  qed
  then show ?thesis using W assms(1) by (simp add: file_write_def log_env_ok_def)
qed (use assms in \<open>simp add: file_above\<close>)

interpretation log_file: log_adapter file_write fw_Level log_env_ok
proof (unfold_locales, goal_cases)
  case (1 l lvl msg E)
  then show ?case by (rule file_above)
next
  case (2 E lvl msg l)
  then show ?case by (rule file_total)
qed

interpretation any_adapter: log_adapter lg_WriteMsg lg_level log_env_ok
proof (unfold_locales, goal_cases)
  case (1 l lvl msg E)
  then show ?case
    by (cases l) (simp_all add: lg_WriteMsg_def lg_level_def console.write_above log_file.write_above)
next
  case (2 E lvl msg l)
  show ?case
  proof (cases l)
    case (ConsoleLogger c)
    then show ?thesis using console.write_total [OF 2, of msg c] by (auto simp: lg_WriteMsg_def lg_level_def)
  next
    case (FileLogger w)
    then show ?thesis using log_file.write_total [OF 2, of msg w] by (auto simp: lg_WriteMsg_def lg_level_def)
  qed
qed

lemma writeToLoggers_total:
  assumes "log_env_ok E" "0 \<le> lvl" "lvl \<le> LevelDebug"
  shows "\<exists>bl' E'. writeToLoggers msg lvl bl E = Some (bl', E') \<and> log_env_ok E' \<and>
    map (\<lambda>x. (nl_name x, lg_level (nl_Logger x))) (outputs bl') =
    map (\<lambda>x. (nl_name x, lg_level (nl_Logger x))) (outputs bl)"
proof -
  have "\<And>n e E. log_env_ok E \<Longrightarrow> log_env_ok (report_stderr n e E)"
    by (simp add: log_env_ok_def report_stderr_def)
  from any_adapter.write_all_total [where report = report_stderr and msg = msg and
      ls = "map (\<lambda>x. (nl_name x, nl_Logger x)) (outputs bl)", OF assms this]
  obtain ls' E' where "write_all lg_WriteMsg report_stderr msg lvl (map (\<lambda>x. (nl_name x, nl_Logger x)) (outputs bl)) E
      = Some (ls', E')" "log_env_ok E'"
    "map (\<lambda>(n, l). (n, lg_level l)) ls' =
     map (\<lambda>(n, l). (n, lg_level l)) (map (\<lambda>x. (nl_name x, nl_Logger x)) (outputs bl))" by blast
  then show ?thesis by (simp add: writeToLoggers_def comp_def split_def)
qed

lemma nameLogger_eta [simp]: "\<lparr>nl_Logger = nl_Logger x, nl_name = nl_name x\<rparr> = x" for x :: nameLogger
  by (cases x) simp

text \<open>A message above the levels of all outputs changes nothing.\<close>

lemma writeToLoggers_above:
  assumes "\<forall>x \<in> set (outputs bl). lvl > lg_level (nl_Logger x)"
  shows "writeToLoggers msg lvl bl E = Some (bl, E)"
  using any_adapter.write_all_above [of "map (\<lambda>x. (nl_name x, nl_Logger x)) (outputs bl)" lvl report_stderr msg E] assms
  by (simp add: writeToLoggers_def comp_def nameLogger_eta)

section \<open>The level methods\<close>

lemma writeMsg_no_panic:
  assumes "log_env_ok E" "0 \<le> lvl" "lvl \<le> LevelDebug"
  shows "writeMsg R lvl msg (bl, E) \<noteq> Panicked"
  using writeToLoggers_total [OF assms, of "caller_text R bl @ msg" bl]
  by (auto simp: writeMsg_def Let_def)

lemmas level_methods =
  Fatalf_def Fatal_def Alertf_def Alert_def Errorf_def Error_def Warnf_def Warn_def Noticef_def Notice_def
  Debugf_def Debug_def Infof_def Info_def Tracef_def Trace_def

text \<open>C37: No level method panics, whatever the outputs and their levels: a trace message, whose own level has no
  colour, is written at the debug level.\<close>

theorem level_methods_never_panic:
  assumes "log_env_ok E"
    "f \<in> set [Fatalf R format v, Fatal R v, Alertf R format v, Alert R v, Errorf R format v, Error R v,
      Warnf R format v, Warn R v, Noticef R format v, Notice R v, Debugf R format v, Debug R v,
      Infof R format v, Info R v, Tracef R format v, Trace R v]"
  shows "f (bl, E) \<noteq> Panicked"
proof -
  have "writeMsg R lvl msg (bl, E) \<noteq> Panicked" if "lvl \<in> {0..6}" for lvl msg
    using writeMsg_no_panic [OF assms(1)] that by (auto simp: level_defs)
  moreover have "exit_after 2 r \<noteq> Panicked \<longleftrightarrow> r \<noteq> Panicked" for r :: "log_state outcome"
    by (cases r) (simp_all add: exit_after_def)
  ultimately show ?thesis using assms(2)
    by (simp, elim disjE) (simp_all add: level_methods level_defs)
qed

text \<open>A message whose level is above the level of the logger is not sent to any adapter.\<close>

theorem level_filter:
  assumes "zl_level bl < lvl"
    "(lvl, f) \<in> set [(LevelFatal, Fatalf R format v), (LevelError, Errorf R format v), (LevelAlert, Alertf R format v),
      (LevelWarn, Warnf R format v), (LevelNotice, Noticef R format v), (LevelInfo, Infof R format v),
      (LevelDebug, Debugf R format v), (LevelTrace, Tracef R format v)]"
  shows "f (bl, E) = Returned (bl, E)"
  using assms by (simp, elim disjE) (simp_all add: level_methods)

text \<open>In the asynchronous mode a fatal message ends the process while it is still in the queue: no adapter and
  no file has seen it.\<close>

theorem Fatal_async_lost:
  assumes "asynchronous bl" "0 \<le> zl_level bl" "length (msgChan bl) < msgChan_cap bl"
  shows "\<exists>bl'. Fatalf R format v (bl, E) = Exited 2 (bl', E) \<and> outputs bl' = outputs bl \<and>
     msgChan bl' = msgChan bl @
       [\<lparr>lm_level = LevelFatal, lm_msg = caller_text R bl @ rt_Sprintf R (''[F] '' @ format) v\<rparr>]"
  using assms by (simp add: Fatalf_def writeMsg_def exit_after_def Let_def level_defs)

section \<open>Outputs\<close>

lemma del_loop_eq:
  "del_loop name lgs = (filter (\<lambda>x. nl_name x \<noteq> name) lgs,
     map (\<lambda>x. lg_Destroy (nl_Logger x)) (filter (\<lambda>x. nl_name x = name) lgs))"
  by (induction lgs) (auto simp: Let_def)

text \<open>\<open>DelLogger\<close> removes and destroys every output of the name and keeps the others in their order; with no such
  output it changes nothing and reports the error.\<close>

theorem DelLogger_exact:
  "DelLogger name bl =
     (if \<exists>x \<in> set (outputs bl). nl_name x = name
      then (Inr (), bl\<lparr>outputs := filter (\<lambda>x. nl_name x \<noteq> name) (outputs bl)\<rparr>,
            map (\<lambda>x. lg_Destroy (nl_Logger x)) (filter (\<lambda>x. nl_name x = name) (outputs bl)))
      else (Inl ''logs: unknown adaptername'', bl, []))"
proof (cases "\<exists>x \<in> set (outputs bl). nl_name x = name")
  case True
  then have "length (filter (\<lambda>x. nl_name x \<noteq> name) (outputs bl)) < length (outputs bl)"
    using length_filter_less by fastforce
  then show ?thesis using True by (simp add: DelLogger_def del_loop_eq)
next
  case False
  then have "filter (\<lambda>x. nl_name x \<noteq> name) (outputs bl) = outputs bl"
    "filter (\<lambda>x. nl_name x = name) (outputs bl) = []"
    by (simp_all add: filter_id_conv filter_empty_conv)
  then show ?thesis using False by (simp add: DelLogger_def del_loop_eq)
qed

text \<open>An output that is set and deleted again leaves the logger as it was.\<close>

theorem SetLogger_DelLogger:
  assumes "SetLogger R adapters name config bl E = (Inr (), bl', E')" "\<forall>x \<in> set (outputs bl). nl_name x \<noteq> name"
  shows "fst (snd (DelLogger name bl')) = bl"
proof -
  have "filter (\<lambda>x. nl_name x \<noteq> name) (outputs bl) = outputs bl" using assms(2) by (simp add: filter_id_conv)
  moreover obtain l where "bl' = bl\<lparr>outputs := outputs bl @ [\<lparr>nl_Logger = l, nl_name = name\<rparr>]\<rparr>"
    using assms(1) by (auto simp: SetLogger_def Let_def split: option.splits prod.splits sum.splits)
  ultimately show ?thesis by (simp add: DelLogger_exact)
qed

section \<open>The queue of the asynchronous mode\<close>

text \<open>The goroutines: each call of \<open>Async\<close> starts one that receives a message and writes it; \<open>Close\<close> looks at the
  length of the queue, receives, writes, and at length zero flushes and destroys the outputs. Two ghost lists
  record the messages in the order they were accepted and written. A message of the pool is put back only
  after it has been written, so each is a value here.\<close>

datatype closer = Close_idle | Close_check | Close_recv | Close_write logMsg | Close_done

record log_system =
  sy_logger :: ZeusLogger
  sy_env :: log_env
  sy_workers :: "logMsg option list"
  sy_closer :: closer
  sy_sent :: "logMsg list"
  sy_written :: "logMsg list"

definition sy_take :: "log_system \<Rightarrow> (logMsg \<times> log_system) option" where
  "sy_take s =
     (case msgChan (sy_logger s) of
        [] \<Rightarrow> None
      | m # ms \<Rightarrow> Some (m, s\<lparr>sy_logger := (sy_logger s)\<lparr>msgChan := ms\<rparr>\<rparr>))"

definition sy_write :: "logMsg \<Rightarrow> log_system \<Rightarrow> log_system option" where
  "sy_write m s =
     map_option (\<lambda>(bl, E). s\<lparr>sy_logger := bl, sy_env := E, sy_written := sy_written s @ [m]\<rparr>)
       (writeToLoggers (lm_msg m) (lm_level m) (sy_logger s) (sy_env s))"

inductive log_step :: "'v log_runtime \<Rightarrow> log_system \<Rightarrow> log_system \<Rightarrow> bool" for R where
  step_Async:
    "s' = s\<lparr>sy_logger := Async (sy_logger s), sy_workers := sy_workers s @ [None]\<rparr> \<Longrightarrow> log_step R s s'"
| step_send:
    "asynchronous (sy_logger s) \<Longrightarrow> writeMsg R lvl msg (sy_logger s, sy_env s) = Returned (bl, E) \<Longrightarrow>
     s' = s\<lparr>sy_logger := bl, sy_env := E, sy_sent := sy_sent s @ [last (msgChan bl)]\<rparr> \<Longrightarrow> log_step R s s'"
| step_receive:
    "i < length (sy_workers s) \<Longrightarrow> sy_workers s ! i = None \<Longrightarrow> sy_take s = Some (m, s1) \<Longrightarrow>
     s' = s1\<lparr>sy_workers := (sy_workers s)[i := Some m]\<rparr> \<Longrightarrow> log_step R s s'"
| step_write:
    "i < length (sy_workers s) \<Longrightarrow> sy_workers s ! i = Some m \<Longrightarrow> sy_write m s = Some s1 \<Longrightarrow>
     s' = s1\<lparr>sy_workers := (sy_workers s)[i := None]\<rparr> \<Longrightarrow> log_step R s s'"
| step_Close:
    "sy_closer s = Close_idle \<Longrightarrow> s' = s\<lparr>sy_closer := Close_check\<rparr> \<Longrightarrow> log_step R s s'"
| step_close_check:
    "sy_closer s = Close_check \<Longrightarrow> msgChan (sy_logger s) \<noteq> [] \<Longrightarrow> s' = s\<lparr>sy_closer := Close_recv\<rparr> \<Longrightarrow>
     log_step R s s'"
| step_close_recv:
    "sy_closer s = Close_recv \<Longrightarrow> sy_take s = Some (m, s1) \<Longrightarrow> s' = s1\<lparr>sy_closer := Close_write m\<rparr> \<Longrightarrow>
     log_step R s s'"
| step_close_write:
    "sy_closer s = Close_write m \<Longrightarrow> sy_write m s = Some s1 \<Longrightarrow> s' = s1\<lparr>sy_closer := Close_check\<rparr> \<Longrightarrow>
     log_step R s s'"
| step_close_done:
    "sy_closer s = Close_check \<Longrightarrow> msgChan (sy_logger s) = [] \<Longrightarrow>
     s' = s\<lparr>sy_logger := destroy_outputs (sy_logger s), sy_closer := Close_done\<rparr> \<Longrightarrow> log_step R s s'"

definition log_start :: "log_state \<Rightarrow> log_system" where
  "log_start = (\<lambda>(bl, E). \<lparr>sy_logger = bl\<lparr>msgChan := []\<rparr>, sy_env = E, sy_workers = [], sy_closer = Close_idle,
     sy_sent = [], sy_written = []\<rparr>)"

text \<open>The messages that have left the queue and are not written yet.\<close>

definition sy_flying :: "log_system \<Rightarrow> logMsg list" where
  "sy_flying s = List.map_filter id (sy_workers s)"

definition closer_msg :: "closer \<Rightarrow> logMsg list" where
  "closer_msg c = (case c of Close_write m \<Rightarrow> [m] | _ \<Rightarrow> [])"

lemma writeToLoggers_chan:
  "writeToLoggers msg lvl bl E = Some (bl', E') \<Longrightarrow> msgChan bl' = msgChan bl \<and> asynchronous bl' = asynchronous bl"
  by (auto simp: writeToLoggers_def)

lemma sy_write_keeps:
  "sy_write m s = Some s1 \<Longrightarrow> msgChan (sy_logger s1) = msgChan (sy_logger s) \<and> sy_workers s1 = sy_workers s \<and>
     sy_closer s1 = sy_closer s \<and> sy_sent s1 = sy_sent s \<and> sy_written s1 = sy_written s @ [m]"
  by (auto simp: sy_write_def dest: writeToLoggers_chan)

lemma sy_take_keeps:
  "sy_take s = Some (m, s1) \<Longrightarrow> msgChan (sy_logger s) = m # msgChan (sy_logger s1) \<and> sy_workers s1 = sy_workers s \<and>
     sy_closer s1 = sy_closer s \<and> sy_sent s1 = sy_sent s \<and> sy_written s1 = sy_written s"
  by (auto simp: sy_take_def split: list.splits)

lemma send_chan:
  "asynchronous bl \<Longrightarrow> writeMsg R lvl msg (bl, E) = Returned (bl', E') \<Longrightarrow>
   msgChan bl' = msgChan bl @ [last (msgChan bl')] \<and> outputs bl' = outputs bl \<and> E' = E"
  by (auto simp: writeMsg_def Let_def split: if_splits)

lemma map_filter_update:
  "i < length ws \<Longrightarrow> ws ! i = None \<Longrightarrow> mset (List.map_filter id (ws[i := Some m])) = add_mset m (mset (List.map_filter id ws))"
  "i < length ws \<Longrightarrow> ws ! i = Some m \<Longrightarrow> add_mset m (mset (List.map_filter id (ws[i := None]))) = mset (List.map_filter id ws)"
  by (induction ws arbitrary: i) (auto simp: List.map_filter_def nth_Cons split: nat.splits option.splits)

lemma map_filter_snoc_None: "List.map_filter id (ws @ [None]) = List.map_filter id ws"
  by (simp add: List.map_filter_def)

definition log_conserves :: "log_system \<Rightarrow> bool" where
  "log_conserves s \<longleftrightarrow>
     mset (sy_written s) + mset (sy_flying s) + mset (closer_msg (sy_closer s)) + mset (msgChan (sy_logger s))
     = mset (sy_sent s)"

lemma log_conserves_step:
  assumes "log_step R s s'" "log_conserves s"
  shows "log_conserves s'"
  using assms(1)
proof (cases rule: log_step.cases)
  case (step_send lvl msg bl E)
  from send_chan [OF step_send(1,2)] have "mset (msgChan bl) = add_mset (last (msgChan bl)) (mset (msgChan (sy_logger s)))"
    by (metis mset.simps(2) mset_append add_mset_add_single mset_single_iff_right union_commute)
  then show ?thesis using step_send assms(2) by (simp add: log_conserves_def sy_flying_def)
next
  case (step_receive i m s1)
  then show ?thesis using assms(2) map_filter_update(1) [OF step_receive(1,2), of m] sy_take_keeps [OF step_receive(3)]
    by (simp add: log_conserves_def sy_flying_def)
next
  case (step_write i m s1)
  then show ?thesis using assms(2) sy_write_keeps [OF step_write(3)]
    by (simp add: log_conserves_def sy_flying_def map_filter_update(2) [OF step_write(1,2), symmetric])
qed (use assms(2) in \<open>auto simp: log_conserves_def sy_flying_def closer_msg_def Async_def destroy_outputs_def
  map_filter_snoc_None dest!: sy_take_keeps sy_write_keeps\<close>)

text \<open>C35: No message of the queue is lost in it and none is written twice, however many goroutines serve it and
  whatever the closing goroutine does meanwhile.\<close>

theorem queue_conserves_messages:
  assumes "(log_step R)\<^sup>*\<^sup>* (log_start st) s"
  shows "mset (sy_written s) + mset (sy_flying s) + mset (closer_msg (sy_closer s)) +
    mset (msgChan (sy_logger s)) = mset (sy_sent s)"
  using assms
proof (induction rule: rtranclp_induct)
  case base
  then show ?case by (simp add: log_start_def split_def sy_flying_def closer_msg_def List.map_filter_def)
next
  case (step s s')
  then show ?case using log_conserves_step unfolding log_conserves_def by blast
qed

definition log_fifo :: "log_system \<Rightarrow> bool" where
  "log_fifo s \<longleftrightarrow>
     (length (sy_workers s) \<le> 1 \<and> sy_closer s = Close_idle \<longrightarrow>
        sy_written s @ sy_flying s @ msgChan (sy_logger s) = sy_sent s)"

lemma one_worker: "i < length ws \<Longrightarrow> length ws \<le> 1 \<Longrightarrow> i = 0 \<and> ws = [ws ! i]"
  by (cases ws) auto

lemma log_fifo_step:
  assumes "log_step R s s'" "log_fifo s"
  shows "log_fifo s'"
  using assms(1)
proof (cases rule: log_step.cases)
  case (step_send lvl msg bl E)
  from send_chan [OF step_send(1,2)] obtain m where "msgChan bl = msgChan (sy_logger s) @ [m]" by blast
  then show ?thesis using step_send assms(2) by (simp add: log_fifo_def sy_flying_def)
next
  case (step_receive i m s1)
  show ?thesis unfolding log_fifo_def
  proof
    assume A: "length (sy_workers s') \<le> 1 \<and> sy_closer s' = Close_idle"
    then have "i = 0" "sy_workers s = [None]"
      using one_worker [OF step_receive(1)] step_receive by auto
    then show "sy_written s' @ sy_flying s' @ msgChan (sy_logger s') = sy_sent s'"
      using A step_receive assms(2) sy_take_keeps [OF step_receive(3)]
      by (simp add: log_fifo_def sy_flying_def List.map_filter_def)
  qed
next
  case (step_write i m s1)
  show ?thesis unfolding log_fifo_def
  proof
    assume A: "length (sy_workers s') \<le> 1 \<and> sy_closer s' = Close_idle"
    then have "i = 0" "sy_workers s = [Some m]"
      using one_worker [OF step_write(1)] step_write by auto
    then show "sy_written s' @ sy_flying s' @ msgChan (sy_logger s') = sy_sent s'"
      using A step_write assms(2) sy_write_keeps [OF step_write(3)]
      by (simp add: log_fifo_def sy_flying_def List.map_filter_def)
  qed
qed (use assms(2) in \<open>auto simp: log_fifo_def sy_flying_def Async_def
  map_filter_snoc_None dest!: sy_take_keeps sy_write_keeps\<close>)


section \<open>Runs\<close>

text \<open>The steps as a function of a schedule, to run the relation.\<close>

datatype log_label =
  Do_Async | Do_send int string | Do_receive nat | Do_write nat | Do_Close | Do_check | Do_close_recv | Do_close_write

definition log_exec :: "'v log_runtime \<Rightarrow> log_label \<Rightarrow> log_system \<Rightarrow> log_system option" where
  "log_exec R lab s =
     (case lab of
        Do_Async \<Rightarrow> Some (s\<lparr>sy_logger := Async (sy_logger s), sy_workers := sy_workers s @ [None]\<rparr>)
      | Do_send lvl msg \<Rightarrow>
          (if asynchronous (sy_logger s)
           then (case writeMsg R lvl msg (sy_logger s, sy_env s) of
                   Returned (bl, E) \<Rightarrow>
                     Some (s\<lparr>sy_logger := bl, sy_env := E, sy_sent := sy_sent s @ [last (msgChan bl)]\<rparr>)
                 | _ \<Rightarrow> None)
           else None)
      | Do_receive i \<Rightarrow>
          (if i < length (sy_workers s) \<and> sy_workers s ! i = None
           then map_option (\<lambda>(m, s1). s1\<lparr>sy_workers := (sy_workers s)[i := Some m]\<rparr>) (sy_take s) else None)
      | Do_write i \<Rightarrow>
          (if i < length (sy_workers s)
           then (case sy_workers s ! i of
                   None \<Rightarrow> None
                 | Some m \<Rightarrow> map_option (\<lambda>s1. s1\<lparr>sy_workers := (sy_workers s)[i := None]\<rparr>) (sy_write m s))
           else None)
      | Do_Close \<Rightarrow> (if sy_closer s = Close_idle then Some (s\<lparr>sy_closer := Close_check\<rparr>) else None)
      | Do_check \<Rightarrow>
          (if sy_closer s = Close_check
           then Some (if msgChan (sy_logger s) \<noteq> [] then s\<lparr>sy_closer := Close_recv\<rparr>
                      else s\<lparr>sy_logger := destroy_outputs (sy_logger s), sy_closer := Close_done\<rparr>)
           else None)
      | Do_close_recv \<Rightarrow>
          (if sy_closer s = Close_recv then map_option (\<lambda>(m, s1). s1\<lparr>sy_closer := Close_write m\<rparr>) (sy_take s)
           else None)
      | Do_close_write \<Rightarrow>
          (case sy_closer s of
             Close_write m \<Rightarrow> map_option (\<lambda>s1. s1\<lparr>sy_closer := Close_check\<rparr>) (sy_write m s)
           | _ \<Rightarrow> None))"

lemma log_exec_step: "log_exec R lab s = Some s' \<Longrightarrow> log_step R s s'"
  by (cases lab)
    (auto simp: log_exec_def split: if_splits outcome.splits option.splits closer.splits intro: log_step.intros)

fun log_run :: "'v log_runtime \<Rightarrow> log_label list \<Rightarrow> log_system \<Rightarrow> log_system option" where
  "log_run R [] s = Some s"
| "log_run R (lab # labs) s = Option.bind (log_exec R lab s) (log_run R labs)"

lemma log_run_reachable: "log_run R labs s = Some s' \<Longrightarrow> (log_step R)\<^sup>*\<^sup>* s s'"
proof (induction labs arbitrary: s)
  case (Cons lab labs)
  then show ?case by (auto simp: bind_eq_Some_conv intro: converse_rtranclp_into_rtranclp dest: log_exec_step)
qed simp

lemma log_run_reaches:
  assumes "case log_run R labs s of None \<Rightarrow> False | Some s' \<Rightarrow> P s'"
  shows "\<exists>s'. (log_step R)\<^sup>*\<^sup>* s s' \<and> P s'"
  using assms log_run_reachable by (fastforce split: option.splits)

definition ex_runtime :: "unit log_runtime" where
  "ex_runtime = \<lparr>rt_Sprintf = (\<lambda>f v. f), rt_Caller = (\<lambda>d. None), rt_console_json = (\<lambda>s c. (Inr (), c)),
     rt_file_json = (\<lambda>s w. (Inr (), w))\<rparr>"

definition ex_env :: log_env where
  "ex_env = \<lparr>le_os = ex_os, le_now = ex_clock, le_rotate_now = ex_clock, le_goos = ''linux'', le_stderr = []\<rparr>"

definition ex_logger :: ZeusLogger where
  "ex_logger = (NewLogger 10)\<lparr>outputs := [\<lparr>nl_Logger = FileLogger ex_writer, nl_name = ''file''\<rparr>]\<rparr>"

definition ex_msg :: "string \<Rightarrow> logMsg" where
  "ex_msg m = \<lparr>lm_level = LevelError, lm_msg = m\<rparr>"

text \<open>\<open>Async\<close> starts a goroutine at each call; called twice, a later message can be written first.\<close>

theorem two_goroutines_reorder:
  "\<exists>s. (log_step ex_runtime)\<^sup>*\<^sup>* (log_start (ex_logger, ex_env)) s \<and>
     sy_sent s = [ex_msg ''a'', ex_msg ''b''] \<and> sy_written s = [ex_msg ''b'', ex_msg ''a'']"
  by (rule log_run_reaches [where labs = "[Do_Async, Do_Async, Do_send LevelError ''a'', Do_send LevelError ''b'',
      Do_receive 0, Do_receive 1, Do_write 1, Do_write 0]"]) code_simp

text \<open>\<open>Close\<close> looks at the length of the queue and then receives: when the other goroutine takes the last message
  in between, \<open>Close\<close> waits for a message that nobody has sent.\<close>

theorem Close_waits_forever:
  "\<exists>s. (log_step ex_runtime)\<^sup>*\<^sup>* (log_start (ex_logger, ex_env)) s \<and>
     sy_closer s = Close_recv \<and> msgChan (sy_logger s) = [] \<and> sy_written s = sy_sent s"
  by (rule log_run_reaches [where labs = "[Do_Async, Do_send LevelError ''a'', Do_Close, Do_check,
      Do_receive 0, Do_write 0]"]) code_simp

text \<open>\<open>Close\<close> destroys the outputs when the queue is empty, not when its messages are written: a message the other
  goroutine has taken is then written to a closed file, and the log stays as it was.\<close>

theorem Close_loses_a_message:
  "\<exists>s. (log_step ex_runtime)\<^sup>*\<^sup>* (log_start (ex_logger, ex_env)) s \<and>
     sy_closer s = Close_done \<and> sy_written s = [ex_msg ''a''] \<and>
     os_files (le_os (sy_env s)) ''logs/zeus.log'' = Some (''old'' @ [CHR 0x0A])"
  by (rule log_run_reaches [where labs = "[Do_Async, Do_send LevelError ''a'', Do_receive 0, Do_Close, Do_check,
      Do_write 0]"]) code_simp

text \<open>A run without \<open>Close\<close>, where the message arrives.\<close>

lemma queue_delivers_example:
  "\<exists>s. (log_step ex_runtime)\<^sup>*\<^sup>* (log_start (ex_logger, ex_env)) s \<and> sy_written s = [ex_msg ''a''] \<and>
     os_files (le_os (sy_env s)) ''logs/zeus.log'' =
       Some (''old'' @ [CHR 0x0A] @ ''2016/13/01 21:34:33 a'' @ [CHR 0x0A])"
  by (rule log_run_reaches [where labs = "[Do_Async, Do_send LevelError ''a'', Do_receive 0, Do_write 0]"]) code_simp

lemma level_methods_never_panic_witness:
  "Errorf ex_runtime ''x'' [] (ex_logger, ex_env) \<noteq> Panicked"
  by (rule level_methods_never_panic [where format = "''x''" and v = "[]" and R = ex_runtime])
    (simp_all add: log_env_ok_def ex_env_def ex_stamp)

lemma ex_run1:
  "\<exists>s. (log_step ex_runtime)\<^sup>*\<^sup>* (log_start (ex_logger, ex_env)) s \<and>
     length (sy_workers s) \<le> 1 \<and> sy_closer s = Close_idle \<and> sy_written s = [ex_msg ''a''] \<and>
     sy_flying s = [ex_msg ''b''] \<and> msgChan (sy_logger s) = [ex_msg ''c'']"
  by (rule log_run_reaches [where labs = "[Do_Async, Do_send LevelError ''a'', Do_send LevelError ''b'', Do_receive 0,
      Do_write 0, Do_receive 0, Do_send LevelError ''c'']"]) code_simp


lemma queue_conserves_messages_witness:
  "\<exists>s. (log_step ex_runtime)\<^sup>*\<^sup>* (log_start (ex_logger, ex_env)) s \<and>
     mset (sy_sent s) = {#ex_msg ''a'', ex_msg ''b'', ex_msg ''c''#}"
proof -
  obtain s where s: "(log_step ex_runtime)\<^sup>*\<^sup>* (log_start (ex_logger, ex_env)) s"
    "sy_closer s = Close_idle" "sy_written s = [ex_msg ''a'']"
    "sy_flying s = [ex_msg ''b'']" "msgChan (sy_logger s) = [ex_msg ''c'']"
    using ex_run1 by blast
  from queue_conserves_messages [OF s(1)] s show ?thesis
    by (intro exI [of _ s]) (simp add: closer_msg_def add_mset_commute)
qed

lemma Fatal_async_lost_witness:
  "\<exists>bl'. Fatalf ex_runtime ''x'' [] (Async ex_logger, ex_env) = Exited 2 (bl', ex_env) \<and> outputs bl' = outputs ex_logger"
  using Fatal_async_lost [of "Async ex_logger" ex_runtime "''x''" "[]" ex_env]
  by (auto simp: Async_def ex_logger_def NewLogger_def level_defs)

lemma SetLogger_DelLogger_witness:
  "let bl = NewLogger 10 in
   fst (snd (DelLogger ''console'' (fst (snd (SetLogger ex_runtime (the log_adapters) ''console'' [] bl ex_env))))) = bl"
proof -
  have "SetLogger ex_runtime (the log_adapters) ''console'' [] (NewLogger 10) ex_env =
    (Inr (), (NewLogger 10)\<lparr>outputs := [\<lparr>nl_Logger = ConsoleLogger NewConsole, nl_name = ''console''\<rparr>]\<rparr>, ex_env)"
    by (simp add: SetLogger_def log_adapters_def console_init_def file_init_def Register_log_def lg_Init_def
      console_Init_def NewLogger_def)
  from SetLogger_DelLogger [OF this] this show ?thesis by (simp add: NewLogger_def)
qed

lemma level_filter_witness:
  "Debugf ex_runtime ''x'' [] (SetLevel LevelInfo ex_logger, ex_env) = Returned (SetLevel LevelInfo ex_logger, ex_env)"
  by (rule level_filter [where lvl = LevelDebug and format = "''x''" and v = "[]" and R = ex_runtime])
    (simp_all add: SetLevel_def level_defs)

text \<open>A provider is registered once: the second registration of a name, and that of nil, panic.\<close>

lemma Register_once:
  "Register_log name (Some l) adapters = Some adapters' \<Longrightarrow> Register_log name l' adapters' = None"
  by (auto simp: Register_log_def split: if_splits option.splits)

lemma log_adapters_registered:
  "\<exists>A. log_adapters = Some A \<and> A ''console'' = Some (ConsoleLogger NewConsole) \<and> A ''file'' = Some (FileLogger newFileWriter)"
  by (simp add: log_adapters_def console_init_def file_init_def Register_log_def)

end
