(* ===== verification/Dump.thy ===== *)
theory Dump
  imports Log Tcp_Stream "HOL-Library.AList"
begin

text \<open>
  The dumper of \<open>dump/dump.go\<close>: the line it writes for a packet, the piece requests and responses of the UDP
  protocol it reads, the two maps in which it counts them and their report. It has a logger of its own; the
  fatal messages go to the logger of the package \<open>log\<close>. A map is an association list with distinct keys.
\<close>

section \<open>State\<close>

type_synonym dump_map = "(string \<times> int) list"

record dump_state =
  dm_log :: ZeusLogger
  dm_init :: bool
  PPLreqmap :: dump_map
  PPLrespmap :: dump_map
  dm_logger :: ZeusLogger
  dm_env :: log_env

definition NewDump :: ZeusLogger where
  "NewDump = EnableFuncCallDepth False (NewLogger 100000)"

definition dump_init :: "log_state \<Rightarrow> dump_state" where
  "dump_init = (\<lambda>(logger, E).
     \<lparr>dm_log = NewDump, dm_init = False, PPLreqmap = [], PPLrespmap = [], dm_logger = logger, dm_env = E\<rparr>)"

definition map_outcome :: "('s \<Rightarrow> 't) \<Rightarrow> 's outcome \<Rightarrow> 't outcome" where
  "map_outcome f r =
     (case r of Returned s \<Rightarrow> Returned (f s) | Blocked \<Rightarrow> Blocked | Panicked \<Rightarrow> Panicked | Exited c s \<Rightarrow> Exited c (f s))"

definition then_do :: "'s outcome \<Rightarrow> ('s \<Rightarrow> 's outcome) \<Rightarrow> 's outcome" where
  "then_do r f = (case r of Returned s \<Rightarrow> f s | _ \<Rightarrow> r)"

text \<open>A call of a method of the dumper's logger, and of the logger of the package.\<close>

definition on_dump_log :: "(log_state \<Rightarrow> log_state outcome) \<Rightarrow> dump_state \<Rightarrow> dump_state outcome" where
  "on_dump_log f s = map_outcome (\<lambda>(l, E). s\<lparr>dm_log := l, dm_env := E\<rparr>) (f (dm_log s, dm_env s))"

definition on_logger :: "(log_state \<Rightarrow> log_state outcome) \<Rightarrow> dump_state \<Rightarrow> dump_state outcome" where
  "on_logger f s = map_outcome (\<lambda>(l, E). s\<lparr>dm_logger := l, dm_env := E\<rparr>) (f (dm_logger s, dm_env s))"

definition SetFile :: "fmt_arg log_runtime \<Rightarrow> log_providers \<Rightarrow> string \<Rightarrow> bool \<Rightarrow> dump_state \<Rightarrow> dump_state" where
  "SetFile R providers file color s =
     (let (_, l, E) = SetLogFile R providers file LevelDebug True color 15 (dm_log s) (dm_env s)
      in s\<lparr>dm_init := True, dm_log := l, dm_env := E\<rparr>)"

definition Dump :: "fmt_arg log_runtime \<Rightarrow> fmt_arg list \<Rightarrow> dump_state \<Rightarrow> dump_state outcome" where
  "Dump R v = on_dump_log (Info R v)"

section \<open>The line of a packet\<close>

text \<open>\<open>%-ks\<close>.\<close>

definition pad_right :: "nat \<Rightarrow> string \<Rightarrow> string" where
  "pad_right k s = s @ replicate (k - length s) (CHR '' '')"

definition direct_text :: "string \<Rightarrow> string \<Rightarrow> string" where
  "direct_text from to = pad_right 21 from @ '' -> '' @ pad_right 21 to"

definition time_text :: "(time \<Rightarrow> string) \<Rightarrow> time \<Rightarrow> string" where
  "time_text Format ts = ''Time[ '' @ pad_right 26 (Format ts) @ '' ]''"

definition flow_from :: "'f flow_api \<Rightarrow> 'f \<Rightarrow> 'f \<Rightarrow> string" where
  "flow_from G netFlow transport = fl_Src G netFlow @ '':'' @ fl_Src G transport"

definition flow_to :: "'f flow_api \<Rightarrow> 'f \<Rightarrow> 'f \<Rightarrow> string" where
  "flow_to G netFlow transport = fl_Dst G netFlow @ '':'' @ fl_Dst G transport"

record 'f dump_tcp = "'f tcp_layer" +
  tcp_URG :: bool
  tcp_Window :: int

definition flag_text :: "'f dump_tcp \<Rightarrow> string" where
  "flag_text tcp =
     ''['' @ (if tcp_SYN tcp then '' SYN'' else []) @ (if tcp_FIN tcp then '' FIN'' else []) @
     (if tcp_RST tcp then '' RST'' else []) @ (if tcp_PSH tcp then '' PSH'' else []) @
     (if tcp_URG tcp then '' URG'' else []) @ (if tcp_ACK tcp then '' ACK'' else []) @ '' ]''"

definition DumpTcp ::
    "fmt_arg log_runtime \<Rightarrow> 'f flow_api \<Rightarrow> (time \<Rightarrow> string) \<Rightarrow> 'f \<Rightarrow> 'f dump_tcp \<Rightarrow> time \<Rightarrow> dump_state \<Rightarrow>
     dump_state outcome" where
  "DumpTcp R G Format netFlow tcp ts s =
     (if \<not> dm_init s then Returned s
      else on_dump_log (Infof R
        ''TCP  %-46s %s Len[ %-4d ] Seq[ %-10d ] Ack[ %-10d ] Win[ %-5d ] Flag%s''
        [Str (direct_text (flow_from G netFlow (tcp_TransportFlow tcp)) (flow_to G netFlow (tcp_TransportFlow tcp))),
         Str (time_text Format ts), Num (int (length (tcp_Payload tcp))), Num (tcp_Seq tcp), Num (tcp_Ack tcp),
         Num (tcp_Window tcp), Str (flag_text tcp)]) s)"

text \<open>The payload of a datagram is a slice: behind its bytes come those its backing array still holds, up to the
  capacity. An index is checked against the length, a slice expression against the capacity.\<close>

record 'f udp_layer =
  udp_TransportFlow :: 'f
  udp_Payload :: string
  udp_spare :: string

definition DumpUDP ::
    "fmt_arg log_runtime \<Rightarrow> 'f flow_api \<Rightarrow> (time \<Rightarrow> string) \<Rightarrow> 'f \<Rightarrow> 'f udp_layer \<Rightarrow> time \<Rightarrow> dump_state \<Rightarrow>
     dump_state outcome" where
  "DumpUDP R G Format netFlow udp ts s =
     (if \<not> dm_init s then Returned s
      else on_dump_log (Infof R ''UDP  %-46s %s Len[ %-4d ]''
        [Str (direct_text (flow_from G netFlow (udp_TransportFlow udp)) (flow_to G netFlow (udp_TransportFlow udp))),
         Str (time_text Format ts), Num (int (length (udp_Payload udp)))]) s)"

section \<open>Pieces\<close>

definition PPL_PEER_PACKET_HEADER_LEN :: int where "PPL_PEER_PACKET_HEADER_LEN = 4 + 1 + 4 + 4"
definition PPL_HASH_LEN :: int where "PPL_HASH_LEN = 16"
definition PPL_PEER_PIECE_RESP_LEN :: int where "PPL_PEER_PIECE_RESP_LEN = 1075"
definition PPL_PEER_PIECE_BLOCK_LEN :: int where "PPL_PEER_PIECE_BLOCK_LEN = 1024"

record RequestedPiece =
  rq_PieceIndex :: int
  rq_BlockIndex :: int

record PieceRequest =
  pq_CheckSum :: string
  pq_Length :: int
  pq_SeqId :: int
  pq_Version :: int
  pq_Hash :: string
  pq_Requests :: "RequestedPiece list"

record PieceResponse =
  ps_Length :: int
  ps_SeqId :: int
  ps_Version :: int
  ps_Hash :: string
  ps_PeerId :: string
  ps_PieceIndex :: int
  ps_BlockIndex :: int
  ps_Size :: int

definition payload_index :: "'f udp_layer \<Rightarrow> nat \<Rightarrow> char option" where
  "payload_index u i = (if i < length (udp_Payload u) then Some (udp_Payload u ! i) else None)"

definition payload_slice :: "'f udp_layer \<Rightarrow> int \<Rightarrow> int \<Rightarrow> string option" where
  "payload_slice u i j = go_slice (udp_Payload u @ udp_spare u) i j"

text \<open>\<open>binary.Read\<close> of an unsigned integer, least byte first.\<close>

fun le_val :: "string \<Rightarrow> int" where
  "le_val [] = 0"
| "le_val (c # cs) = int (of_char c) + 256 * le_val cs"

fun read_requests :: "'f udp_layer \<Rightarrow> int \<Rightarrow> nat \<Rightarrow> RequestedPiece list option" where
  "read_requests u index 0 = Some []"
| "read_requests u index (Suc n) = do {
     p \<leftarrow> payload_slice u index (index + 2);
     b \<leftarrow> payload_slice u (index + 2) (index + 4);
     rs \<leftarrow> read_requests u (index + 4) n;
     Some (\<lparr>rq_PieceIndex = le_val p, rq_BlockIndex = le_val b\<rparr> # rs)
   }"

text \<open>The request of a datagram; \<^term>\<open>Inl n\<close> when the count it carries asks for the length \<open>n\<close>.\<close>

definition read_piece_request :: "'f udp_layer \<Rightarrow> (int + PieceRequest) option" where
  "read_piece_request u = do {
     seq \<leftarrow> payload_slice u 5 9;
     ver \<leftarrow> payload_slice u 9 13;
     hash \<leftarrow> payload_slice u 13 29;
     cnt \<leftarrow> payload_slice u 29 31;
     let count = le_val cnt;
     let expect = PPL_PEER_PACKET_HEADER_LEN + PPL_HASH_LEN + 2 + count * 4 + 2;
     if int (length (udp_Payload u)) \<noteq> expect then Some (Inl expect)
     else do {
       rs \<leftarrow> read_requests u 31 (nat count);
       Some (Inr \<lparr>pq_CheckSum = take 4 (udp_Payload u), pq_Length = int (length (udp_Payload u)),
         pq_SeqId = le_val seq, pq_Version = le_val ver, pq_Hash = hash, pq_Requests = rs\<rparr>)
     }
   }"

definition read_piece_response :: "'f udp_layer \<Rightarrow> PieceResponse option" where
  "read_piece_response u = do {
     seq \<leftarrow> payload_slice u 5 9;
     ver \<leftarrow> payload_slice u 9 13;
     hash \<leftarrow> payload_slice u 13 29;
     peer \<leftarrow> payload_slice u 29 45;
     p \<leftarrow> payload_slice u 45 47;
     b \<leftarrow> payload_slice u 47 49;
     sz \<leftarrow> payload_slice u 49 51;
     Some \<lparr>ps_Length = PPL_PEER_PIECE_RESP_LEN, ps_SeqId = le_val seq, ps_Version = le_val ver, ps_Hash = hash,
       ps_PeerId = peer, ps_PieceIndex = le_val p, ps_BlockIndex = le_val b, ps_Size = le_val sz\<rparr>
   }"

text \<open>\<open>%X\<close> of bytes.\<close>

definition hex_digit :: "nat \<Rightarrow> char" where
  "hex_digit n = (if n < 10 then char_of (n + 48) else char_of (n + 55))"

definition hex_upper :: "string \<Rightarrow> string" where
  "hex_upper s = concat (map (\<lambda>c. [hex_digit (of_char c div 16), hex_digit (of_char c mod 16)]) s)"

definition piece_key :: "string \<Rightarrow> string \<Rightarrow> int \<Rightarrow> int \<Rightarrow> string" where
  "piece_key host hash piece block =
     host @ ''#'' @ hex_upper hash @ ''#'' @ dec_int piece @ '':'' @ dec_int block"

definition count_key :: "string \<Rightarrow> dump_map \<Rightarrow> dump_map" where
  "count_key k m = (case map_of m k of None \<Rightarrow> AList.update k 1 m | Some v \<Rightarrow> AList.update k (v + 1) m)"

definition count_requests :: "string \<Rightarrow> PieceRequest \<Rightarrow> dump_map \<Rightarrow> dump_map" where
  "count_requests from pr m =
     fold (\<lambda>req. count_key (piece_key from (pq_Hash pr) (rq_PieceIndex req) (rq_BlockIndex req))) (pq_Requests pr) m"

definition DumpPPLUDP ::
    "fmt_arg log_runtime \<Rightarrow> 'f flow_api \<Rightarrow> 'f \<Rightarrow> 'f udp_layer \<Rightarrow> dump_state \<Rightarrow> dump_state outcome" where
  "DumpPPLUDP R G netFlow udp s =
     (let from = flow_from G netFlow (udp_TransportFlow udp); to = flow_to G netFlow (udp_TransportFlow udp) in
      case payload_index udp 4 of
        None \<Rightarrow> Panicked
      | Some opcode \<Rightarrow>
          (if opcode = CHR 0x5B then
             (case read_piece_request udp of
                None \<Rightarrow> Panicked
              | Some (Inl expect) \<Rightarrow>
                  on_logger (log_Fatalf R ''invalid piece requset data, length of piece requset expect %d, but %d''
                    [Num expect, Num (int (length (udp_Payload udp)))]) s
              | Some (Inr pr) \<Rightarrow> Returned (s\<lparr>PPLreqmap := count_requests from pr (PPLreqmap s)\<rparr>))
           else if opcode = CHR 0x56 then
             (case read_piece_response udp of
                None \<Rightarrow> Panicked
              | Some res \<Rightarrow>
                  (if ps_Size res > PPL_PEER_PIECE_BLOCK_LEN
                   then on_logger (log_Fatalf R
                      ''invalid piece response data, length of piece Data must <= %d, but %d''
                      [Num PPL_PEER_PIECE_BLOCK_LEN, Num (ps_Size res)]) s
                   else Returned (s\<lparr>PPLrespmap :=
                      count_key (piece_key to (ps_Hash res) (ps_PieceIndex res) (ps_BlockIndex res)) (PPLrespmap s)\<rparr>)))
           else Returned s))"

section \<open>The report of the maps\<close>

text \<open>Go iterates over a map in an order of its own: \<open>ord\<close> lists the entries of a map in that order.\<close>

fun dump_reqs ::
    "fmt_arg log_runtime \<Rightarrow> (string \<times> int) list \<Rightarrow> dump_state \<times> int \<Rightarrow> (dump_state \<times> int) outcome" where
  "dump_reqs R [] (s, retran) = Returned (s, retran)"
| "dump_reqs R ((k, v) # kvs) (s, retran) =
     (let retran = (if v > 2 then retran + 1 else retran);
          output = ''req '' @ k @ '' '' @ dec_int v;
          (output, s) = (case map_of (PPLrespmap s) k of
             None \<Rightarrow> (output, s)
           | Some resp \<Rightarrow> (output @ '' || resp '' @ k @ '' '' @ dec_int resp,
                           s\<lparr>PPLrespmap := AList.delete k (PPLrespmap s)\<rparr>))
      in then_do (map_outcome (\<lambda>s. (s, retran)) (on_dump_log (Infof R ''%s'' [Str output]) s)) (dump_reqs R kvs))"

fun dump_resps :: "fmt_arg log_runtime \<Rightarrow> (string \<times> int) list \<Rightarrow> dump_state \<Rightarrow> dump_state outcome" where
  "dump_resps R [] s = Returned s"
| "dump_resps R ((k, v) # kvs) s = then_do (on_dump_log (Infof R ''resp %s %d'' [Str k, Num v]) s) (dump_resps R kvs)"

definition DumpMap ::
    "fmt_arg log_runtime \<Rightarrow> (dump_map \<Rightarrow> (string \<times> int) list) \<Rightarrow> dump_state \<Rightarrow> dump_state outcome" where
  "DumpMap R ord s =
     (let reqcount = int (length (PPLreqmap s)); respcount = int (length (PPLrespmap s)) in
      map_outcome fst
        (then_do (dump_reqs R (ord (PPLreqmap s)) (s, 0)) (\<lambda>(s, retran).
          map_outcome (\<lambda>s. (s, retran))
            (then_do (on_dump_log (Infof R ''##################################################'' []) s) (\<lambda>s.
             then_do (dump_resps R (ord (PPLrespmap s)) s)
              (on_dump_log (Infof R ''reqcount :%d, respcount: %d, %d'' [Num reqcount, Num respcount, Num retran])))))))"

section \<open>Reading what was written\<close>

fun le_bytes :: "nat \<Rightarrow> int \<Rightarrow> string" where
  "le_bytes 0 n = []"
| "le_bytes (Suc k) n = char_of (nat (n mod 256)) # le_bytes k (n div 256)"

lemma length_le_bytes [simp]: "length (le_bytes k n) = k"
  by (induction k n rule: le_bytes.induct) simp_all

lemma le_val_bytes: "0 \<le> n \<Longrightarrow> n < 256 ^ k \<Longrightarrow> le_val (le_bytes k n) = n"
proof (induction k n rule: le_bytes.induct)
  case (2 k n)
  have div_less: "n < 256 * m \<Longrightarrow> n div 256 < m" for m :: int
    by presburger
  have "n div 256 < 256 ^ k"
    using 2(3) by (intro div_less) simp
  then show ?case using 2 by (simp add: pos_imp_zdiv_nonneg_iff)
qed simp

lemma le_val_bounds: "0 \<le> le_val s" "le_val s < 256 ^ length s"
proof (induction s)
  case (Cons c s)
  { case 1 show ?case using Cons by simp }
  { case 2
    have "(of_char c :: nat) < 256" by simp
    then have "int (of_char c) \<le> 255" by linarith
    then show ?case using Cons by simp }
qed simp_all

lemma payload_slice_at:
  assumes "udp_Payload u @ udp_spare u = a @ b @ c" "i = int (length a)" "j = i + int (length b)"
  shows "payload_slice u i j = Some b"
  using assms by (simp add: payload_slice_def go_slice_def)

definition request_bytes :: "RequestedPiece \<Rightarrow> string" where
  "request_bytes r = le_bytes 2 (rq_PieceIndex r) @ le_bytes 2 (rq_BlockIndex r)"

definition encode_request :: "PieceRequest \<Rightarrow> string" where
  "encode_request pr =
     pq_CheckSum pr @ [CHR 0x5B] @ le_bytes 4 (pq_SeqId pr) @ le_bytes 4 (pq_Version pr) @ pq_Hash pr @
     le_bytes 2 (int (length (pq_Requests pr))) @ concat (map request_bytes (pq_Requests pr)) @ [CHR 0x00, CHR 0x00]"

definition request_ok :: "PieceRequest \<Rightarrow> bool" where
  "request_ok pr \<longleftrightarrow>
     length (pq_CheckSum pr) = 4 \<and> length (pq_Hash pr) = 16 \<and> pq_SeqId pr \<in> {0..<2 ^ 32} \<and>
     pq_Version pr \<in> {0..<2 ^ 32} \<and> length (pq_Requests pr) < 2 ^ 16 \<and>
     pq_Length pr = int (33 + 4 * length (pq_Requests pr)) \<and>
     (\<forall>r \<in> set (pq_Requests pr). rq_PieceIndex r \<in> {0..<2 ^ 16} \<and> rq_BlockIndex r \<in> {0..<2 ^ 16})"

lemma length_concat_requests [simp]: "length (concat (map request_bytes rs)) = 4 * length rs"
  by (induction rs) (simp_all add: request_bytes_def)

lemma read_requests_written:
  assumes "udp_Payload u @ udp_spare u = pre @ concat (map request_bytes rs) @ post" "i = int (length pre)"
    "\<forall>r \<in> set rs. rq_PieceIndex r \<in> {0..<2 ^ 16} \<and> rq_BlockIndex r \<in> {0..<2 ^ 16}"
  shows "read_requests u i (length rs) = Some rs"
  using assms
proof (induction rs arbitrary: pre i)
  case (Cons r rs)
  let ?p = "le_bytes 2 (rq_PieceIndex r)" and ?b = "le_bytes 2 (rq_BlockIndex r)"
  let ?rest = "concat (map request_bytes rs) @ post"
  have 1: "payload_slice u i (i + 2) = Some ?p"
    using Cons.prems by (intro payload_slice_at [where a = pre and c = "?b @ ?rest"]) (simp_all add: request_bytes_def [of r])
  have 2: "payload_slice u (i + 2) (i + 4) = Some ?b"
    using Cons.prems by (intro payload_slice_at [where a = "pre @ ?p" and c = ?rest]) (simp_all add: request_bytes_def [of r])
  have 3: "read_requests u (i + 4) (length rs) = Some rs"
    using Cons.prems by (intro Cons.IH [where pre = "pre @ request_bytes r"]) (auto simp: request_bytes_def [of r])
  have "le_val ?p = rq_PieceIndex r" "le_val ?b = rq_BlockIndex r"
    using Cons.prems(3) by (simp_all add: le_val_bytes)
  then show ?case by (simp add: 1 2 3)
qed simp

lemma piece_request_read:
  assumes "request_ok pr" "udp_Payload u = encode_request pr"
  shows "read_piece_request u = Some (Inr pr)"
proof -
  let ?seq = "le_bytes 4 (pq_SeqId pr)" and ?ver = "le_bytes 4 (pq_Version pr)"
  let ?cnt = "le_bytes 2 (int (length (pq_Requests pr)))" and ?rs = "concat (map request_bytes (pq_Requests pr))"
  let ?h = "pq_CheckSum pr @ [CHR 0x5B]"
  note ok = assms(1) [unfolded request_ok_def]
  have all: "udp_Payload u @ udp_spare u = ?h @ ?seq @ ?ver @ pq_Hash pr @ ?cnt @ ?rs @ [CHR 0x00, CHR 0x00] @ udp_spare u"
    by (simp add: assms(2) encode_request_def)
  have 1: "payload_slice u 5 9 = Some ?seq"
    by (rule payload_slice_at [where a = ?h]) (use all ok in simp_all)
  have 2: "payload_slice u 9 13 = Some ?ver"
    by (rule payload_slice_at [where a = "?h @ ?seq"]) (use all ok in simp_all)
  have 3: "payload_slice u 13 29 = Some (pq_Hash pr)"
    by (rule payload_slice_at [where a = "?h @ ?seq @ ?ver"]) (use all ok in simp_all)
  have 4: "payload_slice u 29 31 = Some ?cnt"
    by (rule payload_slice_at [where a = "?h @ ?seq @ ?ver @ pq_Hash pr"]) (use all ok in simp_all)
  have 5: "read_requests u 31 (length (pq_Requests pr)) = Some (pq_Requests pr)"
    by (rule read_requests_written [where pre = "?h @ ?seq @ ?ver @ pq_Hash pr @ ?cnt"]) (use all ok in simp_all)
  have v: "le_val ?seq = pq_SeqId pr" "le_val ?ver = pq_Version pr" "le_val ?cnt = int (length (pq_Requests pr))"
    using ok by (simp_all add: le_val_bytes)
  have "length (udp_Payload u) = 33 + 4 * length (pq_Requests pr)" "take 4 (udp_Payload u) = pq_CheckSum pr"
    using ok by (simp_all add: assms(2) encode_request_def)
  then show ?thesis using ok
    by (simp add: read_piece_request_def 1 2 3 4 5 v PPL_PEER_PACKET_HEADER_LEN_def PPL_HASH_LEN_def)
qed

section \<open>Counting\<close>

definition count_of :: "dump_map \<Rightarrow> string \<Rightarrow> int" where
  "count_of m k = (case map_of m k of None \<Rightarrow> 0 | Some v \<Rightarrow> v)"

lemma count_of_count_key: "count_of (count_key k m) k' = count_of m k' + (if k' = k then 1 else 0)"
  by (simp add: count_of_def count_key_def update_conv' split: option.split)

lemma distinct_count_key: "distinct (map fst m) \<Longrightarrow> distinct (map fst (count_key k m))"
  by (simp add: count_key_def distinct_update split: option.split)

definition request_keys :: "string \<Rightarrow> PieceRequest \<Rightarrow> string list" where
  "request_keys from pr = map (\<lambda>r. piece_key from (pq_Hash pr) (rq_PieceIndex r) (rq_BlockIndex r)) (pq_Requests pr)"

lemma count_requests_eq: "count_requests from pr m = fold count_key (request_keys from pr) m"
  by (simp add: count_requests_def request_keys_def fold_map comp_def)

lemma count_of_fold: "count_of (fold count_key ks m) k = count_of m k + int (count_list ks k)"
  by (induction ks arbitrary: m) (simp_all add: count_of_count_key)

text \<open>The digits of a key: it determines the piece and the block.\<close>

lemma hex_length [simp]: "length (hex_upper s) = 2 * length s"
  by (induction s) (simp_all add: hex_upper_def)

lemma dec_int_inj: "0 \<le> a \<Longrightarrow> 0 \<le> b \<Longrightarrow> dec_int a = dec_int b \<Longrightarrow> a = b"
  by (metis dec_int_def digits_val_dec_nat linorder_not_less option.inject int_nat_eq)

lemma dec_int_digits: "0 \<le> a \<Longrightarrow> c \<in> set (dec_int a) \<Longrightarrow> is_digit c"
  using dec_nat_digits by (simp add: dec_int_def)

lemma takeWhile_digits: "0 \<le> a \<Longrightarrow> takeWhile is_digit (dec_int a @ '':'' @ s) = dec_int a"
  using dec_int_digits by (subst takeWhile_append2) (auto simp: is_digit_iff)

lemma piece_key_inj:
  assumes "piece_key host h p b = piece_key host h' p' b'" "length h = length h'"
    "0 \<le> p" "0 \<le> p'" "0 \<le> b" "0 \<le> b'"
  shows "hex_upper h = hex_upper h' \<and> p = p' \<and> b = b'"
proof -
  have eq: "hex_upper h @ ''#'' @ dec_int p @ '':'' @ dec_int b = hex_upper h' @ ''#'' @ dec_int p' @ '':'' @ dec_int b'"
    using assms(1) by (simp add: piece_key_def)
  then have h: "hex_upper h = hex_upper h'" using assms(2) by (metis append_eq_append_conv hex_length)
  with eq have d: "dec_int p @ '':'' @ dec_int b = dec_int p' @ '':'' @ dec_int b'" by simp
  then have "dec_int p = dec_int p'" using takeWhile_digits assms(3,4) by metis
  then show ?thesis using d h dec_int_inj assms(3-6) by simp
qed

section \<open>What a datagram does\<close>

text \<open>C38: A well-formed request counts each of its blocks once, under the sender and the hash, and touches
  nothing else.\<close>

theorem DumpPPLUDP_request:
  assumes "request_ok pr" "udp_Payload u = encode_request pr"
  shows "\<exists>s'. DumpPPLUDP R G netFlow u s = Returned s' \<and> s' = s\<lparr>PPLreqmap := PPLreqmap s'\<rparr> \<and>
    (\<forall>k. count_of (PPLreqmap s') k = count_of (PPLreqmap s) k +
       int (count_list (request_keys (flow_from G netFlow (udp_TransportFlow u)) pr) k))"
proof -
  have "payload_index u 4 = Some (CHR 0x5B)"
    using assms by (simp add: payload_index_def encode_request_def request_ok_def nth_append)
  then show ?thesis using piece_request_read [OF assms]
    by (simp add: DumpPPLUDP_def Let_def count_requests_eq count_of_fold)
qed

lemma payload_slice_None:
  "0 \<le> i \<Longrightarrow> i \<le> j \<Longrightarrow> payload_slice u i j = None \<longleftrightarrow> int (length (udp_Payload u) + length (udp_spare u)) < j"
  by (auto simp: payload_slice_def go_slice_def)

lemma read_requests_total:
  "0 \<le> i \<Longrightarrow> i + 4 * int n \<le> int (length (udp_Payload u)) \<Longrightarrow> read_requests u i n \<noteq> None"
proof (induction n arbitrary: i)
  case (Suc n)
  have "payload_slice u i (i + 2) \<noteq> None" "payload_slice u (i + 2) (i + 4) \<noteq> None"
    using Suc.prems by (simp_all add: payload_slice_None)
  moreover have "read_requests u (i + 4) n \<noteq> None" using Suc.prems by (intro Suc.IH) simp_all
  ultimately show ?case by auto
qed simp

lemma read_piece_request_None:
  "read_piece_request u = None \<longleftrightarrow> length (udp_Payload u) + length (udp_spare u) < 31"
proof (cases "length (udp_Payload u) + length (udp_spare u) < 31")
  case True
  then have "payload_slice u 29 31 = None" by (simp add: payload_slice_None)
  then show ?thesis using True by (auto simp: read_piece_request_def bind_eq_None_conv)
next
  case False
  then obtain seq ver hash cnt where "payload_slice u 5 9 = Some seq" "payload_slice u 9 13 = Some ver"
    "payload_slice u 13 29 = Some hash" "payload_slice u 29 31 = Some cnt"
    using payload_slice_None [of 5 9 u] payload_slice_None [of 9 13 u] payload_slice_None [of 13 29 u]
      payload_slice_None [of 29 31 u] by auto
  moreover have "int (length (udp_Payload u)) = 33 + le_val cnt * 4 \<Longrightarrow> read_requests u 31 (nat (le_val cnt)) \<noteq> None"
    using le_val_bounds(1) [of cnt] by (intro read_requests_total) simp_all
  ultimately show ?thesis using False
    by (auto simp: read_piece_request_def PPL_PEER_PACKET_HEADER_LEN_def PPL_HASH_LEN_def Let_def)
qed

lemma read_piece_response_None:
  "read_piece_response u = None \<longleftrightarrow> length (udp_Payload u) + length (udp_spare u) < 51"
proof (cases "length (udp_Payload u) + length (udp_spare u) < 51")
  case True
  then have "payload_slice u 49 51 = None" by (simp add: payload_slice_None)
  then show ?thesis using True by (auto simp: read_piece_response_def bind_eq_None_conv)
next
  case False
  then have "payload_slice u 5 9 \<noteq> None" "payload_slice u 9 13 \<noteq> None" "payload_slice u 13 29 \<noteq> None"
    "payload_slice u 29 45 \<noteq> None" "payload_slice u 45 47 \<noteq> None" "payload_slice u 47 49 \<noteq> None"
    "payload_slice u 49 51 \<noteq> None" by (simp_all add: payload_slice_None)
  then show ?thesis using False by (auto simp: read_piece_response_def)
qed

lemma on_logger_Panicked: "on_logger f s = Panicked \<longleftrightarrow> f (dm_logger s, dm_env s) = Panicked"
  by (auto simp: on_logger_def map_outcome_def split: outcome.splits)

lemma Fatalf_no_panic: "log_env_ok E \<Longrightarrow> Fatalf R f v (bl, E) \<noteq> Panicked"
  using writeMsg_no_panic [of E LevelFatal R "rt_Sprintf R (''[F] '' @ f) v" bl]
  by (auto simp: Fatalf_def exit_after_def level_defs split: outcome.splits)

text \<open>C39: A datagram ends the program by a panic exactly when it has fewer than five bytes, or says it is a request or
  a response and the memory behind its head is too short for it.\<close>

theorem DumpPPLUDP_panics_iff:
  assumes "log_env_ok (dm_env s)"
  shows "DumpPPLUDP R G netFlow u s = Panicked \<longleftrightarrow>
    length (udp_Payload u) < 5 \<or>
    udp_Payload u ! 4 = CHR 0x5B \<and> length (udp_Payload u) + length (udp_spare u) < 31 \<or>
    udp_Payload u ! 4 = CHR 0x56 \<and> length (udp_Payload u) + length (udp_spare u) < 51"
proof -
  have F: "on_logger (log_Fatalf R f v) s \<noteq> Panicked" for f v
    using Fatalf_no_panic [OF assms] by (simp add: on_logger_Panicked log_Fatalf_def [abs_def])
  show ?thesis
  proof (cases "length (udp_Payload u) < 5")
    case True
    then show ?thesis by (simp add: DumpPPLUDP_def payload_index_def)
  next
    case False
    then show ?thesis using F read_piece_request_None [of u] read_piece_response_None [of u]
      by (auto simp: DumpPPLUDP_def payload_index_def Let_def split: option.splits sum.splits)
  qed
qed

lemma Fatalf_exits:
  assumes "log_env_ok E" "\<not> asynchronous bl" "0 \<le> zl_level bl"
  shows "\<exists>st. Fatalf R f v (bl, E) = Exited 2 st"
  using writeToLoggers_total [OF assms(1), of LevelFatal "caller_text R bl @ rt_Sprintf R (''[F] '' @ f) v" bl] assms
  by (auto simp: Fatalf_def writeMsg_def exit_after_def level_defs Let_def)

text \<open>A response whose size field is above 1024 ends the process with status 2.\<close>

theorem oversized_response_exits:
  assumes "log_env_ok (dm_env s)" "\<not> asynchronous (dm_logger s)" "0 \<le> zl_level (dm_logger s)"
    "payload_index u 4 = Some (CHR 0x56)" "read_piece_response u = Some res" "ps_Size res > 1024"
  shows "\<exists>s'. DumpPPLUDP R G netFlow u s = Exited 2 s'"
proof -
  have "\<exists>s'. on_logger (log_Fatalf R f v) s = Exited 2 s'" for f v
    using Fatalf_exits [OF assms(1-3), of R f v]
    by (auto simp: on_logger_def map_outcome_def log_Fatalf_def [abs_def])
  then show ?thesis using assms(4-6)
    by (simp add: DumpPPLUDP_def Let_def PPL_PEER_PIECE_BLOCK_LEN_def)
qed

section \<open>What the report says\<close>

fun log_lines :: "fmt_arg log_runtime \<Rightarrow> (string \<times> fmt_arg list) list \<Rightarrow> dump_state \<Rightarrow> dump_state outcome" where
  "log_lines R [] s = Returned s"
| "log_lines R ((f, v) # ls) s = then_do (on_dump_log (Infof R f v) s) (log_lines R ls)"

definition req_line :: "dump_map \<Rightarrow> string \<times> int \<Rightarrow> string \<times> fmt_arg list" where
  "req_line m = (\<lambda>(k, v). (''%s'', [Str (''req '' @ k @ '' '' @ dec_int v @
     (case map_of m k of None \<Rightarrow> [] | Some resp \<Rightarrow> '' || resp '' @ k @ '' '' @ dec_int resp))]))"

definition resp_line :: "string \<times> int \<Rightarrow> string \<times> fmt_arg list" where
  "resp_line = (\<lambda>(k, v). (''resp %s %d'', [Str k, Num v]))"

definition unasked :: "dump_state \<Rightarrow> dump_map" where
  "unasked s = filter (\<lambda>(k, _). k \<notin> fst ` set (PPLreqmap s)) (PPLrespmap s)"

definition map_report :: "(dump_map \<Rightarrow> (string \<times> int) list) \<Rightarrow> dump_state \<Rightarrow> (string \<times> fmt_arg list) list" where
  "map_report ord s =
     map (req_line (PPLrespmap s)) (ord (PPLreqmap s)) @ [(''##################################################'', [])] @
     map resp_line (ord (unasked s)) @
     [(''reqcount :%d, respcount: %d, %d'',
       [Num (int (length (PPLreqmap s))), Num (int (length (PPLrespmap s))),
        Num (int (length (filter (\<lambda>(_, v). v > 2) (PPLreqmap s))))])]"

lemma Infof_no_exit: "Infof R f v st \<noteq> Exited c st'"
  by (cases st) (auto simp: Infof_def writeMsg_def Let_def split: option.splits)

lemma on_dump_log_cases:
  "(\<exists>t. on_dump_log (Infof R f v) s = Returned t \<and> PPLreqmap t = PPLreqmap s \<and> PPLrespmap t = PPLrespmap s \<and>
      (\<forall>m. on_dump_log (Infof R f v) (s\<lparr>PPLrespmap := m\<rparr>) = Returned (t\<lparr>PPLrespmap := m\<rparr>))) \<or>
   (\<exists>x \<in> {Blocked, Panicked}. \<forall>m. on_dump_log (Infof R f v) (s\<lparr>PPLrespmap := m\<rparr>) = x \<and> on_dump_log (Infof R f v) s = x)"
  using Infof_no_exit [of R f v "(dm_log s, dm_env s)"]
  by (cases "Infof R f v (dm_log s, dm_env s)") (auto simp: on_dump_log_def map_outcome_def)

lemma log_lines_append: "log_lines R (a @ b) s = then_do (log_lines R a s) (log_lines R b)"
proof (induction a arbitrary: s)
  case (Cons x a)
  then show ?case by (cases x) (auto simp: then_do_def split: outcome.splits)
qed (simp add: then_do_def)

lemma log_lines_resp: "log_lines R ls (s\<lparr>PPLrespmap := m\<rparr>) = map_outcome (\<lambda>t. t\<lparr>PPLrespmap := m\<rparr>) (log_lines R ls s)"
proof (induction ls arbitrary: s)
  case (Cons x ls)
  obtain f v where x: "x = (f, v)" by fastforce
  show ?case using on_dump_log_cases [of R f v s] Cons.IH x
    by (auto simp: then_do_def map_outcome_def)
qed (simp add: map_outcome_def)

lemma log_lines_cases:
  "(\<exists>t. log_lines R ls s = Returned t \<and> PPLreqmap t = PPLreqmap s \<and> PPLrespmap t = PPLrespmap s) \<or>
   log_lines R ls s \<in> {Blocked, Panicked}"
proof (induction ls arbitrary: s)
  case (Cons x ls)
  obtain f v where x: "x = (f, v)" by fastforce
  show ?case using on_dump_log_cases [of R f v s] Cons.IH x by (fastforce simp: then_do_def)
qed simp

lemma dump_reqs_lines:
  assumes "distinct (map fst kvs)"
  shows "dump_reqs R kvs (s, n) =
     map_outcome (\<lambda>t. (t\<lparr>PPLrespmap := filter (\<lambda>(k, _). k \<notin> fst ` set kvs) (PPLrespmap s)\<rparr>,
         n + int (length (filter (\<lambda>(_, v). v > 2) kvs))))
       (log_lines R (map (req_line (PPLrespmap s)) kvs) s)"
  using assms
proof (induction kvs arbitrary: s n)
  case Nil
  then show ?case by (simp add: map_outcome_def)
next
  case (Cons x kvs)
  obtain k v where x: "x = (k, v)" by fastforce
  let ?m = "AList.delete k (PPLrespmap s)"
  let ?v = "snd (req_line (PPLrespmap s) (k, v))"
  let ?n = "if v > 2 then n + 1 else n"
  have same: "map_of (PPLrespmap s) k = None \<Longrightarrow> ?m = PPLrespmap s"
    by (simp add: map_of_eq_None_iff)
  have lines: "map (req_line ?m) kvs = map (req_line (PPLrespmap s)) kvs"
    using Cons.prems x by (auto simp: req_line_def delete_conv' image_iff split_def)
  have filt: "filter (\<lambda>(k', _). k' \<notin> fst ` set kvs) ?m = filter (\<lambda>(k', _). k' \<notin> fst ` set (x # kvs)) (PPLrespmap s)"
    by (auto simp: AList.delete_eq x intro!: filter_cong)
  have step: "dump_reqs R (x # kvs) (s, n) =
    then_do (map_outcome (\<lambda>s. (s, ?n)) (on_dump_log (Infof R ''%s'' ?v) (s\<lparr>PPLrespmap := ?m\<rparr>))) (dump_reqs R kvs)"
    using same by (cases "map_of (PPLrespmap s) k") (simp_all add: x req_line_def)
  from on_dump_log_cases [of R "''%s''" ?v s] show ?case
  proof (elim disjE exE bexE conjE)
    fix t assume t: "on_dump_log (Infof R ''%s'' ?v) s = Returned t" "PPLreqmap t = PPLreqmap s" "PPLrespmap t = PPLrespmap s"
      "\<forall>m. on_dump_log (Infof R ''%s'' ?v) (s\<lparr>PPLrespmap := m\<rparr>) = Returned (t\<lparr>PPLrespmap := m\<rparr>)"
    have "log_lines R (map (req_line (PPLrespmap s)) (x # kvs)) s = log_lines R (map (req_line (PPLrespmap s)) kvs) t"
      using t(1) by (simp add: x req_line_def then_do_def)
    moreover have "dump_reqs R (x # kvs) (s, n) = dump_reqs R kvs (t\<lparr>PPLrespmap := ?m\<rparr>, ?n)"
      using step t(4) by (simp add: then_do_def map_outcome_def)
    moreover have "distinct (map fst kvs)" using Cons.prems by simp
    ultimately show ?thesis
      using Cons.IH [of "t\<lparr>PPLrespmap := ?m\<rparr>" ?n] lines filt log_lines_cases [of R "map (req_line (PPLrespmap s)) kvs" t]
      by (auto simp: log_lines_resp map_outcome_def x)
  next
    fix r assume r: "r \<in> {Blocked, Panicked}"
      "\<forall>m. on_dump_log (Infof R ''%s'' ?v) (s\<lparr>PPLrespmap := m\<rparr>) = r \<and> on_dump_log (Infof R ''%s'' ?v) s = r"
    then show ?thesis using step by (auto simp: x req_line_def then_do_def map_outcome_def)
  qed
qed

lemma dump_resps_lines: "dump_resps R kvs s = log_lines R (map resp_line kvs) s"
  by (induction kvs arbitrary: s) (auto simp: resp_line_def then_do_def split: outcome.splits)

lemma report_tail:
  "then_do (on_dump_log (Infof R f v) s)
     (\<lambda>s. then_do (dump_resps R (ord (PPLrespmap s)) s) (on_dump_log (Infof R g w))) =
   log_lines R ((f, v) # map resp_line (ord (PPLrespmap s)) @ [(g, w)]) s"
proof -
  have end1: "then_do (on_dump_log (Infof R g w) t) Returned = on_dump_log (Infof R g w) t" for t
    by (simp add: then_do_def split: outcome.split)
  have "then_do (log_lines R ls t) (on_dump_log (Infof R g w)) = log_lines R (ls @ [(g, w)]) t" for ls t
    unfolding log_lines_append log_lines.simps end1 [abs_def] ..
  then show ?thesis using on_dump_log_cases [of R f v s] by (auto simp: dump_resps_lines then_do_def)
qed

lemma map_outcome_fst [simp]: "map_outcome fst (map_outcome (\<lambda>s. (s, n)) r) = r"
  by (cases r) (simp_all add: map_outcome_def)

text \<open>The report is these lines in this order, whatever order Go iterates in: every requested key with its count
  and that of its response, the responses nobody asked for, and the totals, where a key counts as retransmitted
  when it was requested more than twice. The responses that were asked for leave their map.\<close>

theorem DumpMap_report:
  assumes "distinct (map fst (PPLreqmap s))" "\<And>m. mset (ord m) = mset m"
  shows "DumpMap R ord s =
    map_outcome (\<lambda>t. t\<lparr>PPLrespmap := unasked s\<rparr>) (log_lines R (map_report ord s) s)"
proof -
  let ?q = "ord (PPLreqmap s)"
  have set: "set ?q = set (PPLreqmap s)" using assms(2) by (metis set_mset_mset)
  have dist: "distinct (map fst ?q)"
    using assms(1) mset_eq_imp_distinct_iff [of "map fst ?q" "map fst (PPLreqmap s)"] assms(2) by simp
  have cnt: "length (filter P ?q) = length (filter P (PPLreqmap s))" for P
    using assms(2) by (metis mset_filter size_mset)
  let ?A = "map (req_line (PPLrespmap s)) ?q"
  have un: "filter (\<lambda>(k, _). k \<notin> fst ` set ?q) (PPLrespmap s) = unasked s" by (simp add: unasked_def set)
  let ?n = "int (length (filter (\<lambda>(_, v). v > 2) (PPLreqmap s)))"
  let ?rest = "(''##################################################'', []) # map resp_line (ord (unasked s)) @
     [(''reqcount :%d, respcount: %d, %d'',
       [Num (int (length (PPLreqmap s))), Num (int (length (PPLrespmap s))), Num ?n])]"
  have rep: "log_lines R (map_report ord s) s = then_do (log_lines R ?A s) (log_lines R ?rest)"
    by (simp add: map_report_def flip: log_lines_append)
  have first: "dump_reqs R ?q (s, 0) = map_outcome (\<lambda>t. (t\<lparr>PPLrespmap := unasked s\<rparr>, ?n)) (log_lines R ?A s)"
    by (simp add: dump_reqs_lines [OF dist] un cnt)
  from log_lines_cases [of R ?A s] show ?thesis
  proof (elim disjE exE conjE)
    fix t assume t: "log_lines R ?A s = Returned t" "PPLreqmap t = PPLreqmap s" "PPLrespmap t = PPLrespmap s"
    have "DumpMap R ord s = log_lines R ?rest (t\<lparr>PPLrespmap := unasked s\<rparr>)"
      unfolding DumpMap_def Let_def first t(1)
      by (simp add: map_outcome_def [of _ "Returned t"] then_do_def [of "Returned _"] report_tail)
    also have "\<dots> = map_outcome (\<lambda>t. t\<lparr>PPLrespmap := unasked s\<rparr>) (log_lines R ?rest t)"
      by (rule log_lines_resp)
    also have "log_lines R ?rest t = log_lines R (map_report ord s) s"
      unfolding rep t(1) then_do_def by simp
    finally show ?thesis .
  next
    assume "log_lines R ?A s \<in> {Blocked, Panicked}"
    then show ?thesis unfolding DumpMap_def Let_def first rep by (auto simp: then_do_def map_outcome_def)
  qed
qed

section \<open>Examples\<close>

definition ex_dump_runtime :: "fmt_arg log_runtime" where
  "ex_dump_runtime = \<lparr>rt_Sprintf = (\<lambda>f v. f), rt_Caller = (\<lambda>d. None), rt_console_json = (\<lambda>s c. (Inr (), c)),
     rt_file_json = (\<lambda>s w. (Inr (), w))\<rparr>"

definition ex_dump :: dump_state where
  "ex_dump = dump_init (ex_logger, ex_env)"

definition ex_request :: PieceRequest where
  "ex_request = \<lparr>pq_CheckSum = ''abcd'', pq_Length = 41, pq_SeqId = 7, pq_Version = 1, pq_Hash = replicate 16 (CHR ''h''),
     pq_Requests = [\<lparr>rq_PieceIndex = 300, rq_BlockIndex = 2\<rparr>, \<lparr>rq_PieceIndex = 300, rq_BlockIndex = 2\<rparr>]\<rparr>"

definition ex_udp :: "string \<Rightarrow> string \<Rightarrow> (string \<times> string) udp_layer" where
  "ex_udp payload spare = \<lparr>udp_TransportFlow = (''1000'', ''2000''), udp_Payload = payload, udp_spare = spare\<rparr>"

definition ex_net :: "string \<times> string" where
  "ex_net = (''10.0.0.1'', ''10.0.0.2'')"

lemma ex_request_ok: "request_ok ex_request"
  by (simp add: request_ok_def ex_request_def)

lemma DumpPPLUDP_request_witness:
  "\<exists>s'. DumpPPLUDP ex_dump_runtime pair_flow ex_net (ex_udp (encode_request ex_request) []) ex_dump = Returned s' \<and>
     count_of (PPLreqmap s') (piece_key ''10.0.0.1:1000'' (replicate 16 (CHR ''h'')) 300 2) = 2"
proof -
  have "count_of (PPLreqmap ex_dump) k = 0" for k
    by (simp add: ex_dump_def dump_init_def ex_logger_def count_of_def)
  moreover have "flow_from pair_flow ex_net (''1000'', ''2000'') = ''10.0.0.1:1000''"
    by (simp add: flow_from_def pair_flow_def ex_net_def)
  moreover have "udp_Payload (ex_udp (encode_request ex_request) []) = encode_request ex_request"
    by (simp add: ex_udp_def)
  ultimately show ?thesis
    using DumpPPLUDP_request [OF ex_request_ok, of "ex_udp (encode_request ex_request) []" ex_dump_runtime pair_flow ex_net ex_dump]
    by (auto simp: request_keys_def ex_udp_def) (simp add: ex_request_def)
qed

lemma ex_dump_env: "log_env_ok (dm_env ex_dump)"
  by (simp add: ex_dump_def dump_init_def log_env_ok_def ex_env_def ex_stamp)

lemma DumpPPLUDP_panics_iff_witness:
  "DumpPPLUDP ex_dump_runtime pair_flow ex_net (ex_udp ''pong'' []) ex_dump = Panicked"
  using DumpPPLUDP_panics_iff [OF ex_dump_env, of ex_dump_runtime pair_flow ex_net "ex_udp ''pong'' []"]
  by (simp add: ex_udp_def)

lemma oversized_response_exits_witness:
  "\<exists>s'. DumpPPLUDP ex_dump_runtime pair_flow ex_net
     (ex_udp (''abcd'' @ [CHR 0x56] @ replicate 44 (CHR ''x'') @ [CHR 0x01, CHR 0x04]) []) ex_dump = Exited 2 s'"
proof (rule oversized_response_exits [OF ex_dump_env])
  show "\<not> asynchronous (dm_logger ex_dump)" "0 \<le> zl_level (dm_logger ex_dump)"
    by (simp_all add: ex_dump_def dump_init_def ex_logger_def NewLogger_def level_defs)
  let ?u = "ex_udp (''abcd'' @ [CHR 0x56] @ replicate 44 (CHR ''x'') @ [CHR 0x01, CHR 0x04]) []"
  show "payload_index ?u 4 = Some (CHR 0x56)" by code_simp
  show "read_piece_response ?u = Some (the (read_piece_response ?u))" by code_simp
  show "ps_Size (the (read_piece_response ?u)) > 1024" by code_simp
qed

text \<open>A response of five bytes is read from what the buffer holds behind it.\<close>

lemma short_response_reads_on:
  "\<exists>s'. DumpPPLUDP ex_dump_runtime pair_flow ex_net (ex_udp (''abcd'' @ [CHR 0x56]) (replicate 44 (CHR ''x'') @ [CHR 0x00, CHR 0x04])) ex_dump
     = Returned s' \<and> length (PPLrespmap s') = 1"
proof -
  define u where "u = ex_udp (''abcd'' @ [CHR 0x56]) (replicate 44 (CHR ''x'') @ [CHR 0x00, CHR 0x04])"
  have 1: "payload_index u 4 = Some (CHR 0x56)" unfolding u_def by code_simp
  have "case read_piece_response u of None \<Rightarrow> False | Some r \<Rightarrow> ps_Size r = 1024" unfolding u_def by code_simp
  then obtain r where r: "read_piece_response u = Some r" "ps_Size r = 1024" by (auto split: option.splits)
  have "PPLrespmap ex_dump = []" by (simp add: ex_dump_def dump_init_def ex_logger_def)
  then show ?thesis unfolding u_def [symmetric] by (simp add: DumpPPLUDP_def 1 r PPL_PEER_PIECE_BLOCK_LEN_def count_key_def)
qed

lemma DumpMap_report_witness:
  "let s = ex_dump\<lparr>PPLreqmap := [(''a'', 3), (''b'', 1)], PPLrespmap := [(''b'', 1), (''c'', 2)]\<rparr> in
   DumpMap ex_dump_runtime rev s =
     map_outcome (\<lambda>t. t\<lparr>PPLrespmap := [(''c'', 2)]\<rparr>)
       (log_lines ex_dump_runtime
         [(''%s'', [Str ''req b 1 || resp b 1'']), (''%s'', [Str ''req a 3'']),
          (''##################################################'', []), (''resp %s %d'', [Str ''c'', Num 2]),
          (''reqcount :%d, respcount: %d, %d'', [Num 2, Num 2, Num 1])] s)"
proof -
  let ?s = "ex_dump\<lparr>PPLreqmap := [(''a'', 3), (''b'', 1)], PPLrespmap := [(''b'', 1), (''c'', 2)]\<rparr>"
  have "DumpMap ex_dump_runtime rev ?s = map_outcome (\<lambda>t. t\<lparr>PPLrespmap := unasked ?s\<rparr>) (log_lines ex_dump_runtime (map_report rev ?s) ?s)"
    by (rule DumpMap_report) simp_all
  moreover have "map_report rev ?s = [(''%s'', [Str ''req b 1 || resp b 1'']), (''%s'', [Str ''req a 3'']),
          (''##################################################'', []), (''resp %s %d'', [Str ''c'', Num 2]),
          (''reqcount :%d, respcount: %d, %d'', [Num 2, Num 2, Num 1])]"
    by (simp add: map_report_def req_line_def resp_line_def unasked_def dec_int_def dec_nat_1 digit_chars
      ex_dump_def dump_init_def ex_logger_def)
  moreover have "unasked ?s = [(''c'', 2)]" by (simp add: unasked_def)
  ultimately show ?thesis by (simp add: Let_def)
qed

end
