(* ===== verification/Config.thy ===== *)
theory Config
  imports Log
begin

text \<open>
  \<open>common/config/config.go\<close>: the configuration, its defaults and the position of a syntax error. Reading the file
  and decoding it are parameters; the decoder works on a pointer to the configuration, which it sets to nil
  for the text \<open>null\<close>, and an interface of the list is a pointer too.
\<close>

section \<open>The configuration\<close>

record NetworkIface =
  if_Name :: string
  Snaplen :: int
  BPFFilter :: string
  BufferSize :: int
  Promisc :: bool

record Config =
  Interfaces :: "NetworkIface option list"
  Loglevel :: int
  CacheLog :: string
  Timeout :: int

text \<open>\<open>init\<close>: the zero value.\<close>

definition TConfig_init :: Config where
  "TConfig_init = \<lparr>Interfaces = [], Loglevel = 0, CacheLog = [], Timeout = 0\<rparr>"

datatype config_error = SyntaxError string int | OtherError string

fun error_text :: "config_error \<Rightarrow> string" where
  "error_text (SyntaxError msg off) = msg"
| "error_text (OtherError msg) = msg"

section \<open>The position of an error\<close>

fun position_loop :: "string \<Rightarrow> nat \<Rightarrow> int \<Rightarrow> int \<Rightarrow> int \<times> int" where
  "position_loop s 0 line col = (line, col)"
| "position_loop [] (Suc n) line col = (line, col)"
| "position_loop (b # s) (Suc n) line col =
     (if b = CHR 0x0A then position_loop s n (line + 1) 1 else position_loop s n line (col + 1))"

definition getOffsetPosition :: "string \<Rightarrow> int \<Rightarrow> int \<times> int" where
  "getOffsetPosition f pos = position_loop f (nat pos) 1 0"

text \<open>\<open>bufio.ReadLine\<close>: a line without its end, or a part of one when it is longer than the buffer of 4096 bytes;
  a carriage return at the end of a full buffer is left for the next call.\<close>

definition buffer_size :: nat where "buffer_size = 4096"

definition ReadLine :: "string \<Rightarrow> (string \<times> string) option" where
  "ReadLine s =
     (if s = [] then None
      else let l = takeWhile (\<lambda>c. c \<noteq> CHR 0x0A) s in
        if length l < length s \<and> length l < buffer_size
        then Some (if l \<noteq> [] \<and> last l = CHR 0x0D then butlast l else l, drop (Suc (length l)) s)
        else if length l < buffer_size then Some (l, [])
        else let b = take buffer_size l; b = (if last b = CHR 0x0D then butlast b else b)
             in Some (b, drop (length b) s))"

text \<open>\<open>%5d\<close>.\<close>

definition pad_left :: "nat \<Rightarrow> string \<Rightarrow> string" where
  "pad_left k s = replicate (k - length s) (CHR '' '') @ s"

function highlight_loop :: "string \<Rightarrow> int \<Rightarrow> int \<Rightarrow> string \<Rightarrow> string \<times> bool" where
  "highlight_loop s i line highlight =
     (if i \<le> line
      then (case ReadLine s of
              None \<Rightarrow> (highlight, False)
            | Some (thisLine, s') \<Rightarrow>
                highlight_loop s' (i + 1) line
                  (if i \<ge> line - 2 then highlight @ pad_left 5 (dec_int i) @ '': '' @ thisLine @ [CHR 0x0A]
                   else highlight))
      else (highlight, True))"
  by pat_completeness auto

termination
  by (relation "measure (\<lambda>(s, i, line, h). nat (line + 1 - i))") auto

declare highlight_loop.simps [simp del]

text \<open>The highlighted lines, and what the function prints itself: at the end of the text the loop prints the error and
  the caret is left out. \<open>strings.Repeat\<close> of a negative number would panic; a column is never negative.\<close>

definition getHighLightString :: "string \<Rightarrow> int \<Rightarrow> int \<Rightarrow> string \<times> string list" where
  "getHighLightString f line col =
     (let (highlight, found) = highlight_loop f 1 line []
      in if found then (highlight @ replicate (nat (col + 5)) (CHR '' '') @ ''^'' @ [CHR 0x0A], [])
         else (highlight, [''EOF'' @ [CHR 0x0A]]))"

section \<open>Initialisation\<close>

text \<open>The defaults of the interfaces; \<^term>\<open>None\<close> is the nil dereference of an interface that is null.\<close>

fun default_ifaces :: "NetworkIface option list \<Rightarrow> NetworkIface option list option" where
  "default_ifaces [] = Some []"
| "default_ifaces (None # is) = None"
| "default_ifaces (Some iface # is) =
     (let iface = (if Snaplen iface \<le> 0 then iface\<lparr>Snaplen := 2048\<rparr> else iface);
          iface = (if BufferSize iface \<le> 0 then iface\<lparr>BufferSize := 5120\<rparr> else iface)
      in map_option (\<lambda>is. Some iface # is) (default_ifaces is))"

definition check_config :: "Config \<Rightarrow> (string + Config) option" where
  "check_config this =
     (if length (Interfaces this) = 0 then Some (Inl ''Interfaces to listen can not be nil'')
      else
        let this = (if Loglevel this < 0 \<or> Loglevel this > 7 then this\<lparr>Loglevel := 6\<rparr> else this);
            this = (if Timeout this \<le> 0 then this\<lparr>Timeout := 120\<rparr> else this)
        in map_option (\<lambda>is. Inr (this\<lparr>Interfaces := is\<rparr>)) (default_ifaces (Interfaces this)))"

record config_run =
  cr_error :: "string option"
  cr_config :: Config
  cr_stdout :: "string list"
  cr_log :: log_state

definition syntax_report :: "string \<Rightarrow> config_error \<Rightarrow> string list" where
  "syntax_report data err =
     (case err of
        SyntaxError msg off \<Rightarrow>
          (let (line, col) = getOffsetPosition data off; (highlight, printed) = getHighLightString data line col
           in printed @ [[CHR 0x0A] @ msg,
               '':'' @ [CHR 0x0A] @ '':Error at line '' @ dec_int line @ '', column '' @ dec_int col @
               '' (file offset '' @ dec_int off @ ''):'' @ [CHR 0x0A] @ highlight])
      | OtherError msg \<Rightarrow> [])"

text \<open>\<open>unmarshal\<close> returns its error and the configuration behind the pointer, if that is not nil.\<close>

definition Initialize ::
    "fmt_arg log_runtime \<Rightarrow> (string \<Rightarrow> string + string) \<Rightarrow>
     (string \<Rightarrow> Config \<Rightarrow> config_error option \<times> Config option) \<Rightarrow> string \<Rightarrow> Config \<Rightarrow> log_state \<Rightarrow> config_run outcome" where
  "Initialize R ReadFile unmarshal filename this g =
     (case ReadFile filename of
        Inl err \<Rightarrow>
          Returned \<lparr>cr_error = Some (err @ '':'' @ filename), cr_config = this, cr_stdout = [], cr_log = g\<rparr>
      | Inr data \<Rightarrow>
          (let (err, decoded) = unmarshal data this in
           case err of
             Some e \<Rightarrow>
               Returned \<lparr>cr_error = Some (error_text e),
                 cr_config = (case decoded of None \<Rightarrow> this | Some c \<Rightarrow> c), cr_stdout = syntax_report data e, cr_log = g\<rparr>
           | None \<Rightarrow>
               (case decoded of
                  None \<Rightarrow> Panicked
                | Some c \<Rightarrow>
                    (case check_config c of
                       None \<Rightarrow> Panicked
                     | Some (Inl e) \<Rightarrow> Returned \<lparr>cr_error = Some e, cr_config = c, cr_stdout = [], cr_log = g\<rparr>
                     | Some (Inr c) \<Rightarrow>
                         (case log_Info R [Str ''load config success...''] g of
                            Returned g \<Rightarrow> Returned \<lparr>cr_error = None, cr_config = c, cr_stdout = [], cr_log = g\<rparr>
                          | Blocked \<Rightarrow> Blocked
                          | Panicked \<Rightarrow> Panicked
                          | Exited n g \<Rightarrow> Exited n \<lparr>cr_error = None, cr_config = c, cr_stdout = [], cr_log = g\<rparr>)))))"

definition InitConfig ::
    "fmt_arg log_runtime \<Rightarrow> (string \<Rightarrow> string + string) \<Rightarrow>
     (string \<Rightarrow> Config \<Rightarrow> config_error option \<times> Config option) \<Rightarrow> string \<Rightarrow> Config \<Rightarrow> log_state \<Rightarrow> config_run outcome" where
  "InitConfig R ReadFile unmarshal filename TConfig g = Initialize R ReadFile unmarshal filename TConfig g"

section \<open>What an accepted configuration satisfies\<close>

definition iface_ok :: "NetworkIface \<Rightarrow> bool" where
  "iface_ok i \<longleftrightarrow> 0 < Snaplen i \<and> 0 < BufferSize i"

definition config_ok :: "Config \<Rightarrow> bool" where
  "config_ok c \<longleftrightarrow>
     Interfaces c \<noteq> [] \<and> 0 \<le> Loglevel c \<and> Loglevel c \<le> 7 \<and> 0 < Timeout c \<and>
     list_all (\<lambda>i. case i of None \<Rightarrow> False | Some i \<Rightarrow> iface_ok i) (Interfaces c)"

lemma default_ifaces_ok:
  "default_ifaces is = Some is' \<Longrightarrow>
   length is' = length is \<and> list_all (\<lambda>i. case i of None \<Rightarrow> False | Some i \<Rightarrow> iface_ok i) is'"
  by (induction "is" arbitrary: is' rule: default_ifaces.induct) (auto simp: iface_ok_def Let_def)

lemma default_ifaces_id:
  "list_all (\<lambda>i. case i of None \<Rightarrow> False | Some i \<Rightarrow> iface_ok i) is \<Longrightarrow> default_ifaces is = Some is"
  by (induction "is" rule: default_ifaces.induct) (auto simp: iface_ok_def)

lemma check_config_ok: "check_config c = Some (Inr c') \<Longrightarrow> config_ok c'"
  by (auto simp: check_config_def config_ok_def Let_def dest: default_ifaces_ok split: if_splits)

lemma check_config_id: "config_ok c \<Longrightarrow> check_config c = Some (Inr c)"
  by (auto simp: check_config_def config_ok_def default_ifaces_id Let_def)

section \<open>The position\<close>

lemma takeWhile_none [simp]: "x \<notin> set q \<Longrightarrow> takeWhile (\<lambda>c. c \<noteq> x) (rev q) = rev q"
  by (auto simp: takeWhile_eq_all_conv)

lemma takeWhile_rev_Cons:
  "length (takeWhile (\<lambda>c. c \<noteq> x) (rev (b # p))) =
     (if x \<in> set p then length (takeWhile (\<lambda>c. c \<noteq> x) (rev p)) else length p + (if b = x then 0 else 1))"
proof (cases "x \<in> set p")
  case True
  then show ?thesis by (simp add: takeWhile_append1)
next
  case False
  then have "takeWhile (\<lambda>c. c \<noteq> x) (rev p @ [b]) = rev p @ takeWhile (\<lambda>c. c \<noteq> x) [b]"
    by (subst takeWhile_append2) auto
  then show ?thesis using False by simp
qed

lemma position_loop_eq:
  "position_loop s n line col =
     (let p = take n s in
      (line + int (count_list p (CHR 0x0A)),
       if CHR 0x0A \<in> set p then 1 + int (length (takeWhile (\<lambda>c. c \<noteq> CHR 0x0A) (rev p))) else col + int (length p)))"
proof (induction s n line col rule: position_loop.induct)
  case (3 b s n line col)
  show ?case
  proof (cases "b = CHR 0x0A")
    case True
    then show ?thesis using 3 takeWhile_rev_Cons [of "CHR 0x0A" b "take n s"] by (auto simp: Let_def)
  next
    case False
    then show ?thesis using 3 takeWhile_rev_Cons [of "CHR 0x0A" b "take n s"] by (auto simp: Let_def)
  qed
qed (simp_all add: Let_def)

text \<open>The position of an offset: the line is one more than the line feeds before it; the column counts the bytes of
  the line from one behind a line feed, and from zero on the first line, where the caret is one to the left.\<close>

theorem getOffsetPosition_exact:
  "getOffsetPosition f pos =
     (let p = take (nat pos) f in
      (1 + int (count_list p (CHR 0x0A)),
       (if CHR 0x0A \<in> set p then 1 else 0) + int (length (takeWhile (\<lambda>c. c \<noteq> CHR 0x0A) (rev p)))))"
  by (simp add: getOffsetPosition_def position_loop_eq Let_def)

section \<open>Acceptance\<close>


definition ex_config_runtime :: "fmt_arg log_runtime" where
  "ex_config_runtime = \<lparr>rt_Sprintf = (\<lambda>f v. f), rt_Caller = (\<lambda>d. None), rt_console_json = (\<lambda>s c. (Inr (), c)),
     rt_file_json = (\<lambda>s w. (Inr (), w))\<rparr>"

definition ex_decoded :: Config where
  "ex_decoded =
     \<lparr>Interfaces = [Some \<lparr>if_Name = ''eth0'', Snaplen = 0, BPFFilter = ''tcp'', BufferSize = 100, Promisc = False\<rparr>],
      Loglevel = 9, CacheLog = [], Timeout = 0\<rparr>"

definition ex_accepted :: Config where
  "ex_accepted =
     \<lparr>Interfaces = [Some \<lparr>if_Name = ''eth0'', Snaplen = 2048, BPFFilter = ''tcp'', BufferSize = 100, Promisc = False\<rparr>],
      Loglevel = 6, CacheLog = [], Timeout = 120\<rparr>"

lemma ex_Initialize:
  "\<exists>r. Initialize ex_config_runtime (\<lambda>f. Inr ''{}'') (\<lambda>data c. (None, Some ex_decoded)) ''pass.json'' TConfig_init
     (NewLogger 1, ex_env) = Returned r \<and> cr_error r = None \<and> cr_config r = ex_accepted"
  by (simp add: Initialize_def check_config_def ex_decoded_def ex_accepted_def log_Info_def Info_def
    writeMsg_def writeToLoggers_def NewLogger_def level_defs Let_def)


text \<open>The text \<open>null\<close> and an interface that is null end the program with a nil dereference.\<close>

lemma Initialize_null:
  "Initialize R (\<lambda>f. Inr ''null'') (\<lambda>data c. (None, None)) filename this g = Panicked"
  "Initialize R (\<lambda>f. Inr data) (\<lambda>data c. (None, Some (c\<lparr>Interfaces := [None]\<rparr>))) filename this g = Panicked"
  by (simp_all add: Initialize_def check_config_def Let_def)

text \<open>On the second line the caret is under the byte of the error, on the first it is one to the left.\<close>

lemma caret_first_line:
  "getHighLightString ''{x}'' 1 2 = (''    1: {x}'' @ [CHR 0x0A] @ ''       ^'' @ [CHR 0x0A], [])"
  "getOffsetPosition ''{x}'' 2 = (1, 2)"
  "getHighLightString ([CHR 0x0A] @ ''{x}'') 2 3 =
     (''    1: '' @ [CHR 0x0A] @ ''    2: {x}'' @ [CHR 0x0A] @ ''        ^'' @ [CHR 0x0A], [])"
  "getOffsetPosition ([CHR 0x0A] @ ''{x}'') 3 = (2, 3)"
  by (simp_all add: getHighLightString_def highlight_loop.simps ReadLine_def buffer_size_def pad_left_def
    dec_int_def dec_nat_1 digit_chars getOffsetPosition_def)
    (simp_all add: numeral_nat)

end
