(* ===== verification/Capture.thy ===== *)
theory Capture
  imports Tcp_System Dump Config
begin

text \<open>
  The capture loops of \<open>handle.go\<close> and the start of the program in \<open>main.go\<close>. What libpcap and gopacket deliver is a
  parameter: an event of the loop carries the layers of a decoded packet. The loops drive the assembler
  of \<open>Tcp_System\<close> and the dumper of \<open>Dump\<close>; a capture goroutine is idle when it takes the next packet.
\<close>

section \<open>Packets\<close>

datatype 'f transport = TCP "'f tcp_layer" | UDP "'f udp_layer" | OtherTransport

record 'f packet =
  pk_NetworkLayer :: "'f option"
  pk_TransportLayer :: "'f transport option"
  pk_Timestamp :: time

text \<open>A receive from the channel of packets gives nil when it is closed.\<close>

datatype 'f capture_event = PacketEvent "'f packet option" | TickerEvent

type_synonym ('f, 'u) capture_state = "('f, 'u) system \<times> dump_state"

section \<open>The loop of a packet source\<close>

text \<open>\<open>Assemble\<close> up to its first lock: the goroutine then goes on as \<open>Tcp_System\<close> says.\<close>

definition assemble_start ::
    "('f, 'u) env \<Rightarrow> nat \<Rightarrow> 'f \<Rightarrow> 'f tcp_layer \<Rightarrow> time \<Rightarrow> ('f, 'u) system \<Rightarrow> ('f, 'u) system" where
  "assemble_start E c netFlow tcp ts S =
     (let (st, W) = cap_receive E netFlow tcp ts (sy_world S)
      in S\<lparr>sy_world := W, sy_caps := (sy_caps S)[c := (fst (sy_caps S ! c), st)]\<rparr>)"

definition on_dumper :: "(dump_state \<Rightarrow> dump_state outcome) \<Rightarrow> ('f, 'u) capture_state \<Rightarrow> ('f, 'u) capture_state outcome" where
  "on_dumper f = (\<lambda>(S, D). map_outcome (Pair S) (f D))"

definition handle1_event ::
    "('f, 'u) env \<Rightarrow> fmt_arg log_runtime \<Rightarrow> (dump_map \<Rightarrow> (string \<times> int) list) \<Rightarrow> nat \<Rightarrow> 'f capture_event \<Rightarrow>
     ('f, 'u) capture_state \<Rightarrow> ('f, 'u) capture_state outcome" where
  "handle1_event E R ord c ev = (\<lambda>(S, D).
     case ev of
       TickerEvent \<Rightarrow> Returned (S, D)
     | PacketEvent None \<Rightarrow>
         on_dumper (\<lambda>D. exit_after 0
           (then_do (on_logger (log_Errorf R ''packet is nil'' []) D) (DumpMap R ord))) (S, D)
     | PacketEvent (Some p) \<Rightarrow>
         (case (pk_NetworkLayer p, pk_TransportLayer p) of
            (Some netFlow, Some (TCP tcp)) \<Rightarrow> Returned (assemble_start E c netFlow tcp (pk_Timestamp p) S, D)
          | (Some netFlow, Some (UDP udp)) \<Rightarrow> on_dumper (DumpPPLUDP R (e_flow E) netFlow udp) (S, D)
          | _ \<Rightarrow> Returned (S, D)))"

text \<open>The start of the loop opens the file of the dumper.\<close>

definition handle1_start :: "fmt_arg log_runtime \<Rightarrow> log_providers \<Rightarrow> dump_state \<Rightarrow> dump_state" where
  "handle1_start R providers D = SetFile R providers ''ppl.log'' False D"

section \<open>The loop of a decoding parser\<close>

datatype 'f decoded = DIPv4 'f | DIPv6 'f | DTCP "'f tcp_layer" | DUDP "'f udp_layer" | DOther

datatype 'f handle2_found = Assembles 'f "'f tcp_layer" | NoNetwork | NotFound

fun handle2_layers :: "'f decoded list \<Rightarrow> 'f option \<Rightarrow> 'f handle2_found" where
  "handle2_layers [] netFlow = NotFound"
| "handle2_layers (DIPv4 f # ls) netFlow = handle2_layers ls (Some f)"
| "handle2_layers (DIPv6 f # ls) netFlow = handle2_layers ls (Some f)"
| "handle2_layers (DTCP tcp # ls) netFlow = (case netFlow of None \<Rightarrow> NoNetwork | Some f \<Rightarrow> Assembles f tcp)"
| "handle2_layers (DUDP udp # ls) netFlow = handle2_layers ls netFlow"
| "handle2_layers (DOther # ls) netFlow = handle2_layers ls netFlow"

definition flush_half :: int where "flush_half = stream_timeout div 2"

text \<open>One turn of the loop: \<open>now\<close> is the time of the test, \<open>now'\<close> that of the next deadline, \<open>stats\<close> the text of the
  capture statistics, \<open>input\<close> what reading and decoding a packet gave.\<close>

datatype 'f handle2_input = ReadError string | DecodeError | Layers "'f decoded list" time

definition handle2_turn ::
    "('f, 'u) env \<Rightarrow> fmt_arg log_runtime \<Rightarrow> nat \<Rightarrow> time \<Rightarrow> time \<Rightarrow> string \<Rightarrow> 'f handle2_input \<Rightarrow>
     time \<times> ('f, 'u) capture_state \<Rightarrow> (time \<times> ('f, 'u) capture_state) outcome" where
  "handle2_turn E R c now now' stats input = (\<lambda>(nextFlush, S, D).
     then_do
       (if time_Before nextFlush now
        then map_outcome (\<lambda>D. (now' + flush_half, S, D)) (on_logger (log_Infof R
          ''Flushing all streams that haven't seen packets in the last 2 minutes, pcap stats: %+v'' [Str stats]) D)
        else Returned (nextFlush, S, D))
       (\<lambda>(nextFlush, S, D).
          case input of
            ReadError err \<Rightarrow>
              map_outcome (Pair nextFlush) (on_dumper (on_logger (log_Errorf R ''error getting packet: %v'' [Str err])) (S, D))
          | DecodeError \<Rightarrow> Returned (nextFlush, S, D)
          | Layers ls ts \<Rightarrow>
              (case handle2_layers ls None of
                 Assembles netFlow tcp \<Rightarrow> Returned (nextFlush, assemble_start E c netFlow tcp ts S, D)
               | NoNetwork \<Rightarrow> Returned (nextFlush, S, D)
               | NotFound \<Rightarrow>
                   map_outcome (Pair nextFlush)
                     (on_dumper (on_logger (log_Warn R [Str ''could not find TCP/UDP layer''])) (S, D)))))"

section \<open>The start of the program\<close>

text \<open>\<open>SetCacheLog\<close> of the cache: its logger and the switch.\<close>

definition SetCacheLog ::
    "fmt_arg log_runtime \<Rightarrow> log_providers \<Rightarrow> string \<Rightarrow> (ZeusLogger \<times> bool) \<Rightarrow> log_env \<Rightarrow> (ZeusLogger \<times> bool) \<times> log_env" where
  "SetCacheLog R providers cacheLogFile = (\<lambda>(logger, blog) E.
     if cacheLogFile \<noteq> []
     then (let (_, logger, E) = SetLogFile R providers cacheLogFile LevelDebug True True 15 logger E
           in ((logger, True), E))
     else ((logger, blog), E))"

text \<open>What libpcap answers: the error of each call, if any.\<close>

record pcap_api =
  pc_NewInactiveHandle :: "string \<Rightarrow> string option"
  pc_SetBufferSize :: "int \<Rightarrow> string option"
  pc_SetSnapLen :: "int \<Rightarrow> string option"
  pc_SetPromisc :: "bool \<Rightarrow> string option"
  pc_SetTimeout :: "string option"
  pc_Activate :: "string option"
  pc_SetBPFFilter :: "string \<Rightarrow> string option"
  pc_OpenOffline :: "string \<Rightarrow> string option"

definition fatal_if :: "fmt_arg log_runtime \<Rightarrow> string \<Rightarrow> string option \<Rightarrow> dump_state \<Rightarrow> dump_state outcome" where
  "fatal_if R text err D = (case err of None \<Rightarrow> Returned D | Some e \<Rightarrow> on_logger (log_Fatal R [Str text, Str e]) D)"

definition set_handle :: "fmt_arg log_runtime \<Rightarrow> pcap_api \<Rightarrow> NetworkIface \<Rightarrow> dump_state \<Rightarrow> dump_state outcome" where
  "set_handle R P iface D =
     (let e1 = pc_SetBufferSize P (i64 (BufferSize iface * 1024 * 1024)); e2 = pc_SetSnapLen P (Snaplen iface);
          e3 = pc_SetPromisc P (Promisc iface)
      in if e1 \<noteq> None then fatal_if R ''could not set buffersize: %v'' e1 D
         else if e2 \<noteq> None then fatal_if R ''could not set snap length: %v'' e2 D
         else if e3 \<noteq> None then fatal_if R ''could not set promisc mode: %v'' e3 D
         else fatal_if R ''could not set timeout: %v'' (pc_SetTimeout P) D)"

text \<open>\<open>InitCapture\<close> up to the loop: the assembler is the next capture goroutine, with the \<open>j\<close>-th counters.\<close>

definition add_capture :: "string \<Rightarrow> nat \<Rightarrow> ('f, 'u) system \<Rightarrow> ('f, 'u) system" where
  "add_capture name j S =
     (let (a, W) = NewAssembler name j (sy_world S) in S\<lparr>sy_world := W, sy_caps := sy_caps S @ [(a, CapIdle)]\<rparr>)"

definition InitCapture ::
    "fmt_arg log_runtime \<Rightarrow> log_providers \<Rightarrow> pcap_api \<Rightarrow> nat \<Rightarrow> NetworkIface \<Rightarrow> ('f, 'u) capture_state \<Rightarrow>
     ('f, 'u) capture_state outcome" where
  "InitCapture R providers P j iface = (\<lambda>(S, D).
     map_outcome (\<lambda>D. (add_capture (if_Name iface) j S, handle1_start R providers D))
      (then_do (on_logger (log_Infof R ''starting capture on interface %s'' [Str (if_Name iface)]) D) (\<lambda>D.
       then_do (fatal_if R ''could not create: %v'' (pc_NewInactiveHandle P (if_Name iface)) D) (\<lambda>D.
       then_do (set_handle R P iface D) (\<lambda>D.
       then_do (fatal_if R ''PCAP Activate error:'' (pc_Activate P) D) (\<lambda>D.
       then_do
         (if BPFFilter iface \<noteq> []
          then (case pc_SetBPFFilter P (BPFFilter iface) of
                  None \<Rightarrow> Returned D
                | Some e \<Rightarrow> on_logger (log_Fatalf R ''BPF %s filter error: %v'' [Str (BPFFilter iface), Str e]) D)
          else Returned D)
         (on_logger (log_Info R [Str ''reading in packets''])))))))) "

definition InitOfflineCapture ::
    "fmt_arg log_runtime \<Rightarrow> log_providers \<Rightarrow> pcap_api \<Rightarrow> string \<Rightarrow> ('f, 'u) capture_state \<Rightarrow>
     ('f, 'u) capture_state outcome" where
  "InitOfflineCapture R providers P pcapFile = (\<lambda>(S, D).
     map_outcome (\<lambda>D. (add_capture ''offline'' 0 S, handle1_start R providers D))
      (then_do (fatal_if R ''PCAP OpenOffline error:'' (pc_OpenOffline P pcapFile) D)
        (on_logger (log_Info R [Str ''reading in packets'']))))"

text \<open>\<open>main\<close> without an offline file: the configuration, the logs, and the interfaces whose capture it starts. The HTTP
  server of the profiler and the printing of the process-wide counters are left out.\<close>

record main_run =
  mr_dump :: dump_state
  mr_cache :: "ZeusLogger \<times> bool"
  mr_config :: Config
  mr_captures :: "NetworkIface option list"

definition on_main :: "(log_state \<Rightarrow> log_state outcome) \<Rightarrow> main_run \<Rightarrow> main_run outcome" where
  "on_main f M = map_outcome (\<lambda>D. M\<lparr>mr_dump := D\<rparr>) (on_logger f (mr_dump M))"

definition main_load :: "config_run \<Rightarrow> main_run \<Rightarrow> main_run" where
  "main_load r M =
     M\<lparr>mr_config := cr_config r,
       mr_dump := (mr_dump M)\<lparr>dm_logger := fst (cr_log r), dm_env := snd (cr_log r)\<rparr>\<rparr>"

definition main_set_level :: "main_run \<Rightarrow> main_run" where
  "main_set_level M =
     (let (l, E) = log_SetLevel (Loglevel (mr_config M)) (dm_logger (mr_dump M), dm_env (mr_dump M))
      in M\<lparr>mr_dump := (mr_dump M)\<lparr>dm_logger := l, dm_env := E\<rparr>\<rparr>)"

definition main_cache_log :: "fmt_arg log_runtime \<Rightarrow> log_providers \<Rightarrow> main_run \<Rightarrow> main_run" where
  "main_cache_log R providers M =
     (if CacheLog (mr_config M) \<noteq> []
      then (let (c, E) = SetCacheLog R providers (CacheLog (mr_config M)) (mr_cache M) (dm_env (mr_dump M))
            in M\<lparr>mr_cache := c, mr_dump := (mr_dump M)\<lparr>dm_env := E\<rparr>\<rparr>)
      else M)"

definition main_online ::
    "fmt_arg log_runtime \<Rightarrow> log_providers \<Rightarrow> (string \<Rightarrow> string + string) \<Rightarrow>
     (string \<Rightarrow> Config \<Rightarrow> config_error option \<times> Config option) \<Rightarrow> string \<Rightarrow> string \<Rightarrow> main_run \<Rightarrow> main_run outcome" where
  "main_online R providers ReadFile unmarshal conf logFile M =
     (case InitConfig R ReadFile unmarshal conf (mr_config M) (dm_logger (mr_dump M), dm_env (mr_dump M)) of
        Blocked \<Rightarrow> Blocked
      | Panicked \<Rightarrow> Panicked
      | outcome.Exited n r \<Rightarrow> outcome.Exited n (main_load r M)
      | Returned r \<Rightarrow>
          then_do
            (case cr_error r of
               None \<Rightarrow> Returned (main_load r M)
             | Some e \<Rightarrow> on_main (log_Fatal R [Str e]) (main_load r M))
            (\<lambda>M. let M = main_set_level M in
               then_do
                 (if logFile \<noteq> []
                  then map_outcome (\<lambda>M. M\<lparr>mr_dump := SetFile R providers logFile False (mr_dump M)\<rparr>)
                         (on_main (log_Infof R ''Set Capture Log: %s'' [Str logFile]) M)
                  else Returned M)
                 (\<lambda>M. let M = main_cache_log R providers M
                       in Returned (M\<lparr>mr_captures := Interfaces (mr_config M)\<rparr>))))"

section \<open>The loops drive the assembler\<close>

text \<open>An event of the loop is a step of the goroutines of \<open>Tcp_System\<close>, or leaves them alone.\<close>

lemma handle1_event_step:
  assumes "c < length (sy_caps S)" "sy_caps S ! c = (a, CapIdle)"
    "handle1_event E R ord c ev (S, D) = Returned (S', D')"
  shows "S' = S \<or> step E S S'"
proof -
  have tcp: "step E S (assemble_start E c f t ts S)" for f t ts
    using step.cap_receive [OF assms(1,2)] assms(2) by (auto simp: assemble_start_def split: prod.split)
  have none: "exit_after 0 r \<noteq> Returned x" for r :: "dump_state outcome" and x
    by (simp add: exit_after_def split: outcome.split)
  show ?thesis using assms(3) tcp none
    by (auto simp: handle1_event_def on_dumper_def map_outcome_def
        split: capture_event.splits option.splits transport.splits outcome.splits)
qed

text \<open>The program: its goroutines take steps, and an idle capture goroutine takes an event.\<close>

inductive capture_step ::
    "('f, 'u) env \<Rightarrow> fmt_arg log_runtime \<Rightarrow> (dump_map \<Rightarrow> (string \<times> int) list) \<Rightarrow>
     ('f, 'u) capture_state \<Rightarrow> ('f, 'u) capture_state \<Rightarrow> bool" for E R ord where
  goroutine: "step E S S' \<Longrightarrow> capture_step E R ord (S, D) (S', D)"
| event: "c < length (sy_caps S) \<Longrightarrow> sy_caps S ! c = (a, CapIdle) \<Longrightarrow>
    handle1_event E R ord c ev (S, D) = Returned (S', D') \<Longrightarrow> capture_step E R ord (S, D) (S', D')"


section \<open>The two loops agree\<close>

definition is_net :: "'f decoded \<Rightarrow> bool" where
  "is_net l = (case l of DIPv4 f \<Rightarrow> True | DIPv6 f \<Rightarrow> True | _ \<Rightarrow> False)"

definition is_transport :: "'f decoded \<Rightarrow> bool" where
  "is_transport l = (case l of DTCP t \<Rightarrow> True | DUDP u \<Rightarrow> True | _ \<Rightarrow> False)"

text \<open>The packet of a list of layers: its first network layer and its first transport layer.\<close>

fun first_net :: "'f decoded list \<Rightarrow> 'f option" where
  "first_net [] = None"
| "first_net (l # ls) = (case l of DIPv4 f \<Rightarrow> Some f | DIPv6 f \<Rightarrow> Some f | _ \<Rightarrow> first_net ls)"

fun first_transport :: "'f decoded list \<Rightarrow> 'f transport option" where
  "first_transport [] = None"
| "first_transport (l # ls) = (case l of DTCP t \<Rightarrow> Some (TCP t) | DUDP u \<Rightarrow> Some (UDP u) | _ \<Rightarrow> first_transport ls)"

definition packet_of :: "'f decoded list \<Rightarrow> time \<Rightarrow> 'f packet" where
  "packet_of ls ts = \<lparr>pk_NetworkLayer = first_net ls, pk_TransportLayer = first_transport ls, pk_Timestamp = ts\<rparr>"

lemma handle2_skip:
  "\<forall>l \<in> set a. \<not> is_net l \<and> \<not> is_transport l \<Longrightarrow> handle2_layers (a @ ls) n = handle2_layers ls n"
  "\<forall>l \<in> set a. \<not> is_net l \<and> \<not> is_transport l \<Longrightarrow> first_net (a @ ls) = first_net ls"
  "\<forall>l \<in> set a. \<not> is_transport l \<Longrightarrow> first_transport (a @ ls) = first_transport ls"
  by (induction a) (auto simp: is_net_def is_transport_def split: decoded.splits)

text \<open>On a TCP packet with one network layer in front of the TCP header both loops hand the same flow and segment to
  the assembler, at the same time.\<close>

theorem loops_agree:
  assumes "ls = a @ net # b @ DTCP tcp # rest" "net = DIPv4 f \<or> net = DIPv6 f"
    "\<forall>l \<in> set (a @ b). \<not> is_net l \<and> \<not> is_transport l" "nextFlush \<ge> now"
  shows "handle2_turn E R c now now' stats (Layers ls ts) (nextFlush, S, D) =
    map_outcome (Pair nextFlush) (handle1_event E R ord c (PacketEvent (Some (packet_of ls ts))) (S, D))"
proof -
  have h2: "handle2_layers ls None = Assembles f tcp"
    using assms(1-3) by (auto simp: handle2_skip)
  have "first_net ls = Some f" using assms(1-3) by (auto simp: handle2_skip)
  moreover have "\<forall>l \<in> set (a @ net # b). \<not> is_transport l" using assms(2,3) by (auto simp: is_transport_def)
  then have "first_transport ls = Some (TCP tcp)"
    using assms(1) handle2_skip(3) [of "a @ net # b" "DTCP tcp # rest"] by simp
  ultimately show ?thesis using h2 assms(4)
    by (simp add: handle2_turn_def handle1_event_def packet_of_def time_Before_def then_do_def map_outcome_def)
qed

text \<open>In a tunnel they differ: one takes the outer network layer, the other the inner.\<close>

lemma loops_differ_in_tunnel:
  "handle2_layers [DIPv4 f, DIPv4 g, DTCP tcp] None = Assembles g tcp"
  "pk_NetworkLayer (packet_of [DIPv4 f, DIPv4 g, DTCP tcp] ts) = Some f"
  by (simp_all add: packet_of_def)

section \<open>Opening a capture\<close>

text \<open>The logger of the package writes synchronously and fatal messages are on.\<close>

definition logger_ready :: "dump_state \<Rightarrow> bool" where
  "logger_ready D \<longleftrightarrow> log_env_ok (dm_env D) \<and> \<not> asynchronous (dm_logger D) \<and> 0 \<le> zl_level (dm_logger D)"

lemma writeToLoggers_settings:
  "writeToLoggers msg lvl bl E = Some (bl', E') \<Longrightarrow> asynchronous bl' = asynchronous bl \<and> zl_level bl' = zl_level bl"
  by (auto simp: writeToLoggers_def)

lemma writeMsg_ready:
  assumes "log_env_ok E" "\<not> asynchronous bl" "0 \<le> lvl" "lvl \<le> LevelDebug"
  shows "\<exists>bl' E'. writeMsg R lvl msg (bl, E) = Returned (bl', E') \<and> log_env_ok E' \<and> \<not> asynchronous bl' \<and>
    zl_level bl' = zl_level bl"
  using writeToLoggers_total [OF assms(1,3,4), of "caller_text R bl @ msg" bl] assms(2)
  by (auto simp: writeMsg_def Let_def dest: writeToLoggers_settings)

lemma Infof_ready:
  assumes "logger_ready D"
  shows "\<exists>D'. on_logger (Infof R f v) D = Returned D' \<and> logger_ready D'"
proof -
  obtain bl E where W: "writeMsg R LevelInfo (rt_Sprintf R (''[I] '' @ f) v) (dm_logger D, dm_env D) = Returned (bl, E)"
      "log_env_ok E" "\<not> asynchronous bl" "zl_level bl = zl_level (dm_logger D)"
    using writeMsg_ready [of "dm_env D" "dm_logger D" LevelInfo R "rt_Sprintf R (''[I] '' @ f) v"] assms
    by (auto simp: logger_ready_def level_defs)
  show ?thesis
  proof (cases "LevelInfo > zl_level (dm_logger D)")
    case True
    then show ?thesis using assms by (simp add: Infof_def on_logger_def map_outcome_def logger_ready_def)
  next
    case False
    then have "Infof R f v (dm_logger D, dm_env D) = Returned (bl, E)" using W(1) by (simp add: Infof_def)
    then show ?thesis using assms W by (simp add: on_logger_def map_outcome_def logger_ready_def)
  qed
qed

lemma Info_Infof: "Info R v = Infof R (generateFmtStr (length v)) v"
  by (simp add: Info_def Infof_def)

lemma Fatal_Fatalf: "Fatal R v = Fatalf R (generateFmtStr (length v)) v"
  by (simp add: Fatal_def Fatalf_def)

lemma on_logger_info:
  assumes "logger_ready D"
  shows "\<exists>D'. on_logger (log_Infof R f v) D = Returned D' \<and> logger_ready D'"
    and "\<exists>D'. on_logger (log_Info R v) D = Returned D' \<and> logger_ready D'"
  using Infof_ready [OF assms] by (simp_all add: log_Infof_def [abs_def] log_Info_def [abs_def] Info_Infof)

lemma Fatalf_ready:
  assumes "logger_ready D"
  shows "\<exists>D'. on_logger (Fatalf R f v) D = outcome.Exited 2 D'"
  using Fatalf_exits [of "dm_env D" "dm_logger D" R f v] assms
  by (auto simp: on_logger_def map_outcome_def logger_ready_def)

lemma on_logger_fatal:
  assumes "logger_ready D"
  shows "\<exists>D'. on_logger (log_Fatalf R f v) D = outcome.Exited 2 D'"
    and "\<exists>D'. on_logger (log_Fatal R v) D = outcome.Exited 2 D'"
  using Fatalf_ready [OF assms] by (simp_all add: log_Fatalf_def [abs_def] log_Fatal_def [abs_def] Fatal_Fatalf)

lemma fatal_if_cases:
  assumes "logger_ready D"
  shows "(err = None \<and> fatal_if R text err D = Returned D) \<or>
    (err \<noteq> None \<and> (\<exists>D'. fatal_if R text err D = outcome.Exited 2 D'))"
  using on_logger_fatal(2) [OF assms] by (cases err) (simp_all add: fatal_if_def)

definition set_errors :: "pcap_api \<Rightarrow> NetworkIface \<Rightarrow> bool" where
  "set_errors P iface \<longleftrightarrow>
     pc_SetBufferSize P (i64 (BufferSize iface * 1024 * 1024)) \<noteq> None \<or> pc_SetSnapLen P (Snaplen iface) \<noteq> None \<or>
     pc_SetPromisc P (Promisc iface) \<noteq> None \<or> pc_SetTimeout P \<noteq> None"

lemma set_handle_cases:
  assumes "logger_ready D"
  shows "(\<not> set_errors P iface \<and> set_handle R P iface D = Returned D) \<or>
    (set_errors P iface \<and> (\<exists>D'. set_handle R P iface D = outcome.Exited 2 D'))"
proof -
  have "fatal_if R t None D = Returned D" for t by (simp add: fatal_if_def)
  moreover have "\<exists>D'. fatal_if R t (Some e) D = outcome.Exited 2 D'" for t e
    using fatal_if_cases [OF assms, of "Some e"] by simp
  ultimately show ?thesis by (cases "pc_SetTimeout P") (auto simp: set_errors_def set_handle_def Let_def)
qed

definition pcap_fails :: "pcap_api \<Rightarrow> NetworkIface \<Rightarrow> bool" where
  "pcap_fails P iface \<longleftrightarrow>
     pc_NewInactiveHandle P (if_Name iface) \<noteq> None \<or> set_errors P iface \<or> pc_Activate P \<noteq> None \<or>
     (BPFFilter iface \<noteq> [] \<and> pc_SetBPFFilter P (BPFFilter iface) \<noteq> None)"

text \<open>A capture that cannot be opened ends the process with status 2, whichever call of libpcap refuses; otherwise
  the goroutine starts, with an assembler of its own and the others as they were.\<close>

theorem InitCapture_cases:
  assumes "logger_ready D"
  shows "\<exists>S' D'. InitCapture R providers P j iface (S, D) =
    (if pcap_fails P iface then outcome.Exited 2 (S', D') else Returned (add_capture (if_Name iface) j S, D'))"
proof -
  obtain D1 where 1: "on_logger (log_Infof R ''starting capture on interface %s'' [Str (if_Name iface)]) D = Returned D1"
    "logger_ready D1" using on_logger_info(1) [OF assms] by blast
  obtain D2 where 2: "on_logger (log_Info R [Str ''reading in packets'']) D1 = Returned D2"
    using on_logger_info(2) [OF 1(2)] by blast
  obtain D3 where 3: "on_logger (log_Fatalf R ''BPF %s filter error: %v'' v) D1 = outcome.Exited 2 (D3 v)" for v
    using on_logger_fatal(1) [OF 1(2)] by metis
  from fatal_if_cases [OF 1(2), of "pc_NewInactiveHandle P (if_Name iface)" R "''could not create: %v''"]
    set_handle_cases [OF 1(2), of P iface R]
    fatal_if_cases [OF 1(2), of "pc_Activate P" R "''PCAP Activate error:''"]
  show ?thesis
    by (elim disjE conjE exE)
      (simp_all add: InitCapture_def 1 2 3 then_do_def map_outcome_def pcap_fails_def split: option.split)
qed

definition ex_pcap :: pcap_api where
  "ex_pcap = \<lparr>pc_NewInactiveHandle = (\<lambda>_. None), pc_SetBufferSize = (\<lambda>_. None), pc_SetSnapLen = (\<lambda>_. None),
     pc_SetPromisc = (\<lambda>_. None), pc_SetTimeout = None, pc_Activate = None,
     pc_SetBPFFilter = (\<lambda>f. if f = ''tcp'' then None else Some ''syntax error''), pc_OpenOffline = (\<lambda>_. None)\<rparr>"

definition ex_iface :: NetworkIface where
  "ex_iface = \<lparr>if_Name = ''eth0'', Snaplen = 2048, BPFFilter = ''tcp and and'', BufferSize = 5120, Promisc = False\<rparr>"

lemma ex_logger_ready: "logger_ready ex_dump"
  by (simp add: logger_ready_def ex_dump_env)
    (simp add: ex_dump_def dump_init_def ex_logger_def NewLogger_def level_defs)

lemma InitCapture_cases_witness:
  "\<exists>S' D'. InitCapture R providers ex_pcap j ex_iface (S, ex_dump) = outcome.Exited 2 (S', D')"
  using InitCapture_cases [OF ex_logger_ready, of R providers ex_pcap j ex_iface S]
  by (simp add: pcap_fails_def ex_pcap_def ex_iface_def)


lemma loops_agree_witness:
  "let ls = [DOther, DIPv4 (''a'', ''b''), DTCP sample_syn, DOther] in
   handle2_turn sample_env ex_dump_runtime 0 7 8 [] (Layers ls 5) (9, start sample_env [''eth0''], ex_dump) =
   map_outcome (Pair 9) (handle1_event sample_env ex_dump_runtime rev 0 (PacketEvent (Some (packet_of ls 5)))
     (start sample_env [''eth0''], ex_dump))"
  unfolding Let_def
  by (rule loops_agree [where a = "[DOther]" and b = "[]" and rest = "[DOther]" and tcp = sample_syn and f = "(''a'', ''b'')" and net = "DIPv4 (''a'', ''b'')"])
    (simp_all add: is_net_def is_transport_def)

end
