(* ===== verification/Spec2Isabelle.thy ===== *)
theory Spec2Isabelle
  imports Stats Tcp_System Json_Stream Json_Safe Capture
begin

text \<open>
  A model of Tcppass, a passive monitor of TCP connections written in Go. Packets from a capture handle
  reach the assembler (\<open>tcpassembly/assembler.go\<close>), which finds or opens a stream in the pool
  (\<open>streampool.go\<close>) and hands the packet over a channel to the goroutine of the stream (\<open>stream.go\<close>,
  \<open>conn.go\<close>). The goroutine measures round-trip times with a cache of sent segments
  (\<open>common/cache/cache.go\<close>), recognises HTTP (\<open>dpi/\<close>, \<open>httpassembly/\<close>), counts traffic (\<open>stat/\<close>) and
  writes summary lines (\<open>output.go\<close>). The configuration is read by a fork of \<open>encoding/json\<close> with
  comments (\<open>common/json/\<close>).

  The theories, in the order of their imports:

  \<^item> \<open>Go_Prelude\<close>: 64-bit integers, slices, \<open>strings.Index\<close>, \<open>strconv.Atoi\<close>, decimal texts, times,
    and the interface of a gopacket flow (a parameter, with the laws the code relies on).
  \<^item> \<open>Sequence\<close>: \<open>tcp/tcp.go\<close>.
  \<^item> \<open>RTT_Cache\<close>: \<open>common/cache/cache.go\<close>; the list with its index table, every operation, the locale
    \<open>segment_cache\<close> of what the connections rely on, and the refinement of the cache by a list of
    segments with their times.
  \<^item> \<open>Http_Assembly\<close>: \<open>httpassembly/\<close>; \<open>Dpi\<close>: \<open>dpi/\<close>, with the locale \<open>dpi_adapter\<close>.
  \<^item> \<open>Stats\<close>: \<open>stat/stat.go\<close>; float32 division is written out with its rounding.
  \<^item> \<open>Tcp_Stream\<close>: \<open>conn.go\<close>, \<open>stream.go\<close>, \<open>output.go\<close>; the two sides of a stream, the statistics, the
    callback of the packet inspection and the summary lines.
  \<^item> \<open>Tcp_Pool\<close>: \<open>streampool.go\<close>, \<open>assembler.go\<close>; a world holds the allocated streams, the map, the free
    list and the log; the locale \<open>session_table\<close> is the contract of the pool.
  \<^item> \<open>Tcp_System\<close>: the goroutines. A step of the relation \<open>step\<close> is one atomic action of a capture or of
    a dump goroutine; what is proved of reachable states holds for every interleaving.
  \<^item> \<open>Json_Scanner\<close>: \<open>common/json/scanner.go\<close>, every state function, and the locale \<open>byte_machine\<close> of
    what the users of the scanner rely on; \<open>Json_Grammar\<close>: the texts it accepts.
  \<^item> \<open>Json_Indent\<close>: \<open>indent.go\<close> and \<open>HTMLEscape\<close> of \<open>encode.go\<close>; \<open>Go_Utf8\<close>: the runes of the standard
    library; \<open>Json_Strings\<close>: the string writer of \<open>encode.go\<close> and the unquoting of \<open>decode.go\<close>;
    \<open>Json_Names\<close>: \<open>tags.go\<close> and \<open>fold.go\<close>.
  \<^item> \<open>Json_Decode\<close>: the decoding into an empty interface (\<open>decode.go\<close>), and that it computes the value every
    layout writes; \<open>Json_Stream\<close>: \<open>stream.go\<close>, and that the pieces a reader hands out do not matter.
  \<^item> \<open>Json_Fields\<close>: types as reflection shows them and the fields of a struct that are encoded (\<open>encode.go\<close>);
    \<open>Json_Encode\<close>: reflected values, every encoder and \<open>Marshal\<close>, which writes valid JSON; \<open>Json_Roundtrip\<close>:
    what was decoded into an empty interface is written and read back unchanged.
  \<^item> \<open>Json_Typed\<close>: decoding into values of any type (\<open>decode.go\<close>); \<open>Json_Tree\<close>: the same by recursion on the JSON
    value, and that the decoder implements it on every text of the value; \<open>Json_Safe\<close>: decoding keeps the type of its
    target, whatever the text.
  \<^item> \<open>Log_File\<close>: \<open>common/log/file.go\<close> and \<open>console.go\<close> over a record of files; what a message and a rotation do
    to them. \<open>Log\<close>: \<open>log.go\<close> and \<open>logger.go\<close>, with the locale \<open>log_adapter\<close> and the queue of the asynchronous
    mode as the step relation \<open>log_step\<close>.
  \<^item> \<open>Dump\<close>: \<open>dump/dump.go\<close>; \<open>Config\<close>: \<open>common/config/config.go\<close>.
  \<^item> \<open>Capture\<close>: \<open>handle.go\<close> and the start of \<open>main.go\<close>; the loops drive \<open>Tcp_System\<close> and \<open>Dump\<close>.

  A Go panic (an index out of range, a nil map) is \<^term>\<open>None\<close>; a returned error is a value. Integers
  of type \<open>int\<close> and \<open>int64\<close> are \<^typ>\<open>int\<close> with the wrap-around of \<open>i64\<close> written out where it can happen.
  Loops are structural recursions or have a termination proof. The exceptions are \<open>scanWhile\<close> and the loop
  of \<open>readValue\<close>, which may run for ever and are partial functions, and the recursions of \<open>valueInterface\<close>,
  which has fuel: one more than the length of the text is enough (\<open>Unmarshal_layout\<close>); of \<open>value\<close>: the length of
  the text and what the tree needs, its depth with the pointers on the way, is enough (\<open>Unmarshal_tree\<close>); of the
  encoders: four times the size of the value and two is enough (\<open>Marshal_Unmarshal\<close>); of \<open>typeFields\<close>: one more
  than the number of types is enough (\<open>typeFields_dominant\<close>).

  Calls of the logger that may end the process or wait have the result \<open>outcome\<close>.

  Not modelled: the capture handle and the decoding of packets (libpcap and gopacket are parameters), the flags and
  the profiler of \<open>main.go\<close>, the standard library's HTTP header reader, URL parser and body reader (parameters of
  \<open>Http_Assembly\<close>), \<open>fmt.Sprintf\<close> with arguments of any type and \<open>runtime.Caller\<close> (parameters of \<open>Log\<close>),
  the caches of \<open>encode.go\<close> (they hold what the functions behind them compute), Go values that contain themselves, and
  what the target of a decoding holds after it was given up.
\<close>

end
